(* ===== verification/Base.thy ===== *)
theory Base
  imports Main "HOL-Library.Word"
begin

text \<open>
  What every component shares: the machine integers and byte strings of the C code, the
  libzip error object (lib/zip_error.c), the answers of the memory allocator, the numeric
  constants of zip.h and zipint.h, and the generic lemmas on lists and words that the component
  proofs use.
\<close>

unbundle bit_operations_syntax

named_theorems err_simps \<open>unfolding rules for the error object\<close>

section \<open>Machine integers and bytes\<close>

type_synonym u8 = "8 word"
type_synonym u16 = "16 word"
type_synonym u32 = "32 word"
type_synonym u64 = "64 word"
type_synonym bytes = "u8 list"

abbreviation ZIP_UINT16_MAX :: nat where "ZIP_UINT16_MAX \<equiv> 65535"
abbreviation ZIP_UINT32_MAX :: nat where "ZIP_UINT32_MAX \<equiv> 4294967295"
abbreviation ZIP_INT64_MAX :: nat where "ZIP_INT64_MAX \<equiv> 9223372036854775807"
abbreviation ZIP_UINT64_MAX :: nat where "ZIP_UINT64_MAX \<equiv> 18446744073709551615"

text \<open>\<open>flag_set fl m\<close> is the C test \<open>(fl & m) != 0\<close> on flag words.\<close>

definition flag_set :: "'a::len word \<Rightarrow> 'a word \<Rightarrow> bool" where
  "flag_set fl m \<longleftrightarrow> fl AND m \<noteq> 0"

section \<open>Error codes\<close>

abbreviation ZIP_ER_OK :: int where "ZIP_ER_OK \<equiv> 0"
abbreviation ZIP_ER_MULTIDISK :: int where "ZIP_ER_MULTIDISK \<equiv> 1"
abbreviation ZIP_ER_SEEK :: int where "ZIP_ER_SEEK \<equiv> 4"
abbreviation ZIP_ER_READ :: int where "ZIP_ER_READ \<equiv> 5"
abbreviation ZIP_ER_WRITE :: int where "ZIP_ER_WRITE \<equiv> 6"
abbreviation ZIP_ER_CRC :: int where "ZIP_ER_CRC \<equiv> 7"
abbreviation ZIP_ER_ZIPCLOSED :: int where "ZIP_ER_ZIPCLOSED \<equiv> 8"
abbreviation ZIP_ER_NOENT :: int where "ZIP_ER_NOENT \<equiv> 9"
abbreviation ZIP_ER_EXISTS :: int where "ZIP_ER_EXISTS \<equiv> 10"
abbreviation ZIP_ER_OPEN :: int where "ZIP_ER_OPEN \<equiv> 11"
abbreviation ZIP_ER_MEMORY :: int where "ZIP_ER_MEMORY \<equiv> 14"
abbreviation ZIP_ER_CHANGED :: int where "ZIP_ER_CHANGED \<equiv> 15"
abbreviation ZIP_ER_COMPNOTSUPP :: int where "ZIP_ER_COMPNOTSUPP \<equiv> 16"
abbreviation ZIP_ER_EOF :: int where "ZIP_ER_EOF \<equiv> 17"
abbreviation ZIP_ER_INVAL :: int where "ZIP_ER_INVAL \<equiv> 18"
abbreviation ZIP_ER_NOZIP :: int where "ZIP_ER_NOZIP \<equiv> 19"
abbreviation ZIP_ER_INTERNAL :: int where "ZIP_ER_INTERNAL \<equiv> 20"
abbreviation ZIP_ER_INCONS :: int where "ZIP_ER_INCONS \<equiv> 21"
abbreviation ZIP_ER_DELETED :: int where "ZIP_ER_DELETED \<equiv> 23"
abbreviation ZIP_ER_ENCRNOTSUPP :: int where "ZIP_ER_ENCRNOTSUPP \<equiv> 24"
abbreviation ZIP_ER_RDONLY :: int where "ZIP_ER_RDONLY \<equiv> 25"
abbreviation ZIP_ER_OPNOTSUPP :: int where "ZIP_ER_OPNOTSUPP \<equiv> 28"
abbreviation ZIP_ER_INUSE :: int where "ZIP_ER_INUSE \<equiv> 29"
abbreviation ZIP_ER_TELL :: int where "ZIP_ER_TELL \<equiv> 30"

section \<open>The answers of malloc\<close>

text \<open>
  A call that allocates takes the answers malloc will give, in order: \<open>None\<close> is a NULL
  return, \<open>Some n\<close> a fresh block whose indeterminate contents read, as a little-endian
  number, \<open>n\<close>. Past the end of the list malloc succeeds with zeroed contents. Theorems
  quantify over the list, so they cover every allocation failure.
\<close>

type_synonym mem = "nat option list"

fun malloc :: "mem \<Rightarrow> nat option \<times> mem" where
  "malloc [] = (Some 0, [])"
| "malloc (a # m) = (a, m)"

text \<open>The contents of a fresh block of \<open>k\<close> bytes.\<close>

definition junk_bytes :: "nat \<Rightarrow> nat \<Rightarrow> bytes" where
  "junk_bytes n k = map (\<lambda>i. word_of_nat (n div 256 ^ i)) [0..<k]"

lemma length_junk_bytes [simp]: "length (junk_bytes n k) = k"
  by (simp add: junk_bytes_def)

section \<open>Little-endian numbers\<close>

definition le_enc :: "nat \<Rightarrow> nat \<Rightarrow> bytes" where
  "le_enc k n = map (\<lambda>i. word_of_nat (n div 256 ^ i)) [0..<k]"

fun le_dec :: "bytes \<Rightarrow> nat" where
  "le_dec [] = 0"
| "le_dec (b # bs) = unat b + 256 * le_dec bs"

lemma length_le_enc [simp]: "length (le_enc k n) = k"
  by (simp add: le_enc_def)

lemma le_enc_0 [simp]: "le_enc 0 n = []"
  by (simp add: le_enc_def)

lemma le_enc_Suc: "le_enc (Suc k) n = word_of_nat n # le_enc k (n div 256)"
proof -
  have "map (\<lambda>i. word_of_nat (n div 256 ^ i)) [1..<Suc k]
      = map (\<lambda>i. word_of_nat (n div 256 div 256 ^ i) :: u8) [0..<k]"
    by (rule nth_equalityI) (simp_all add: div_mult2_eq del: upt_Suc)
  then show ?thesis by (simp add: le_enc_def upt_conv_Cons del: upt_Suc)
qed

lemma le_dec_enc: "le_dec (le_enc k n) = n mod 256 ^ k"
proof (induction k arbitrary: n)
  case (Suc k)
  then show ?case
    by (simp add: le_enc_Suc unsigned_of_nat take_bit_eq_mod mod_mult2_eq)
qed simp

section \<open>Generic lemmas\<close>

lemma unat_u8_lt: "unat (w::u8) < 256"
  by (rule order.strict_trans2 [OF unsigned_less]) simp

lemma unat_u16_lt: "unat (w::u16) < 65536"
  by (rule order.strict_trans2 [OF unsigned_less]) simp

lemma unat_u32_lt: "unat (w::u32) < 4294967296"
  by (rule order.strict_trans2 [OF unsigned_less]) simp

lemma unat_u64_lt: "unat (w::u64) < 18446744073709551616"
  by (rule order.strict_trans2 [OF unsigned_less]) simp

lemma unat_and_255: "unat (w AND 0xff :: 'a::len word) = unat w mod 256"
proof -
  have "w AND 0xff = take_bit 8 w"
    using take_bit_eq_mask [of 8 w] by (simp add: mask_eq_exp_minus_1)
  moreover have "unat (take_bit 8 w) = take_bit 8 (unat w)"
    by (simp only: unsigned_take_bit_eq)
  then have "unat (take_bit 8 w) = unat w mod 256" by (simp add: take_bit_eq_mod)
  ultimately show ?thesis by simp
qed

lemma unat_drop_bit: "unat (drop_bit n w :: 'a::len word) = unat w div 2 ^ n"
proof -
  have "unat (drop_bit n w) = drop_bit n (unat w)"
    by (simp only: unsigned_drop_bit_eq) (simp add: take_bit_nat_eq_self)
  then show ?thesis by (simp add: drop_bit_eq_div)
qed

lemma byte_of_word:
  "(ucast (drop_bit (8 * j) w AND 0xff) :: u8) = word_of_nat (unat (w :: 'a::len word) div 256 ^ j)"
  by (rule word_unat_eq_iff [THEN iffD2])
    (simp only: unsigned_ucast_eq unat_and_255 unat_drop_bit unsigned_of_nat, simp add: take_bit_eq_mod power_mult)

lemma flag_set_0 [simp]: "\<not> flag_set 0 m" "\<not> flag_set fl 0"
  by (simp_all add: flag_set_def)

lemma flag_set_or: "flag_set (a OR b) m \<longleftrightarrow> flag_set a m \<or> flag_set b m"
proof -
  have "(a OR b) AND m = (a AND m) OR (b AND m)"
    by (rule bit.conj_disj_distrib2)
  then show ?thesis by (simp add: flag_set_def or_eq_0_iff)
qed

lemma take_list_update_le [simp]: "n \<le> i \<Longrightarrow> take n (xs[i := x]) = take n xs"
  by (simp add: list_eq_iff_nth_eq)

lemma take_Suc_drop_nth:
  "p < length xs \<Longrightarrow> take (Suc n) (drop p xs) = xs ! p # take n (drop (Suc p) xs)"
  by (simp add: Cons_nth_drop_Suc [symmetric])

lemma in_set_concat_nth: "x \<in> set (concat xss) \<longleftrightarrow> (\<exists>i<length xss. x \<in> set (xss ! i))"
  by (simp add: Bex_def) (metis in_set_conv_nth)

lemma fold_invariant_list:
  assumes "P s" and "\<And>x t. x \<in> set xs \<Longrightarrow> P t \<Longrightarrow> P (f x t)"
  shows "P (fold f xs s)"
  using assms by (induction xs arbitrary: s) auto

lemma map_of_filter_key:
  "map_of (filter (\<lambda>p. P (fst p)) xs) k = (if P k then map_of xs k else None)"
  by (induction xs) auto

end
