(* ===== verification/Zip_Error.thy ===== *)
theory Zip_Error
  imports Base
begin

text \<open>
  The error object of libzip: lib/zip_error.c, lib/zip_error_strerror.c, the deprecated
  lib/zip_error_to_str.c and lib/zip_error_get_sys_type.c, the tables of
  build/lib/zip_err_str.c and the macros of lib/zipint.h that pack a detail code and an entry
  index into one integer. \<open>strerror\<close> of the C library, \<open>zError\<close> of zlib and \<open>errno\<close> are
  parameters. A nullable \<open>zip_error_t *\<close> argument is a \<open>zip_error option\<close>.
\<close>

section \<open>The object and the tables\<close>

record zip_error =
  zip_err :: int
  sys_err :: int
  err_str :: "string option"

datatype zip_et = ZIP_ET_NONE | ZIP_ET_SYS | ZIP_ET_ZLIB | ZIP_ET_LIBZIP

datatype zip_detail_et = ZIP_DETAIL_ET_GLOBAL | ZIP_DETAIL_ET_ENTRY

definition zip_err_str :: "(zip_et \<times> string) list" where
  "zip_err_str =
    [(ZIP_ET_NONE, ''No error''),
     (ZIP_ET_NONE, ''Multi-disk zip archives not supported''),
     (ZIP_ET_SYS, ''Renaming temporary file failed''),
     (ZIP_ET_SYS, ''Closing zip archive failed''),
     (ZIP_ET_SYS, ''Seek error''),
     (ZIP_ET_SYS, ''Read error''),
     (ZIP_ET_SYS, ''Write error''),
     (ZIP_ET_NONE, ''CRC error''),
     (ZIP_ET_NONE, ''Containing zip archive was closed''),
     (ZIP_ET_NONE, ''No such file''),
     (ZIP_ET_NONE, ''File already exists''),
     (ZIP_ET_SYS, ''Can'' @ [CHR 0x27] @ ''t open file''),
     (ZIP_ET_SYS, ''Failure to create temporary file''),
     (ZIP_ET_ZLIB, ''Zlib error''),
     (ZIP_ET_NONE, ''Malloc failure''),
     (ZIP_ET_NONE, ''Entry has been changed''),
     (ZIP_ET_NONE, ''Compression method not supported''),
     (ZIP_ET_NONE, ''Premature end of file''),
     (ZIP_ET_NONE, ''Invalid argument''),
     (ZIP_ET_NONE, ''Not a zip archive''),
     (ZIP_ET_NONE, ''Internal error''),
     (ZIP_ET_LIBZIP, ''Zip archive inconsistent''),
     (ZIP_ET_SYS, ''Can'' @ [CHR 0x27] @ ''t remove file''),
     (ZIP_ET_NONE, ''Entry has been deleted''),
     (ZIP_ET_NONE, ''Encryption method not supported''),
     (ZIP_ET_NONE, ''Read-only archive''),
     (ZIP_ET_NONE, ''No password provided''),
     (ZIP_ET_NONE, ''Wrong password provided''),
     (ZIP_ET_NONE, ''Operation not supported''),
     (ZIP_ET_NONE, ''Resource still in use''),
     (ZIP_ET_SYS, ''Tell error''),
     (ZIP_ET_NONE, ''Compressed data invalid''),
     (ZIP_ET_NONE, ''Operation cancelled'')]"

definition zip_err_details :: "(zip_detail_et \<times> string) list" where
  "zip_err_details =
    [(ZIP_DETAIL_ET_GLOBAL, ''no detail''),
     (ZIP_DETAIL_ET_GLOBAL, ''central directory overlaps EOCD, or there is space between them''),
     (ZIP_DETAIL_ET_GLOBAL, ''archive comment length incorrect''),
     (ZIP_DETAIL_ET_GLOBAL, ''central directory length invalid''),
     (ZIP_DETAIL_ET_ENTRY, ''central header invalid''),
     (ZIP_DETAIL_ET_GLOBAL, ''central directory count of entries is incorrect''),
     (ZIP_DETAIL_ET_ENTRY, ''local and central headers do not match''),
     (ZIP_DETAIL_ET_GLOBAL, ''wrong EOCD length''),
     (ZIP_DETAIL_ET_GLOBAL, ''EOCD64 overlaps EOCD, or there is space between them''),
     (ZIP_DETAIL_ET_GLOBAL, ''EOCD64 magic incorrect''),
     (ZIP_DETAIL_ET_GLOBAL, ''EOCD64 and EOCD do not match''),
     (ZIP_DETAIL_ET_GLOBAL, ''invalid value in central directory''),
     (ZIP_DETAIL_ET_ENTRY, ''variable size fields overflow header''),
     (ZIP_DETAIL_ET_ENTRY, ''invalid UTF-8 in filename''),
     (ZIP_DETAIL_ET_ENTRY, ''invalid UTF-8 in comment''),
     (ZIP_DETAIL_ET_ENTRY, ''invalid Zip64 extra field''),
     (ZIP_DETAIL_ET_ENTRY, ''invalid WinZip AES extra field''),
     (ZIP_DETAIL_ET_ENTRY, ''garbage at end of extra fields''),
     (ZIP_DETAIL_ET_ENTRY, ''extra field length is invalid''),
     (ZIP_DETAIL_ET_ENTRY, ''file length in header doesn'' @ [CHR 0x27] @ ''t match actual file length'')]"

text \<open>The detail codes, with the values zipint.h gives them.\<close>

abbreviation ZIP_ER_DETAIL_NO_DETAIL :: int where "ZIP_ER_DETAIL_NO_DETAIL \<equiv> 0"
abbreviation ZIP_ER_DETAIL_CDIR_OVERLAPS_EOCD :: int where "ZIP_ER_DETAIL_CDIR_OVERLAPS_EOCD \<equiv> 1"
abbreviation ZIP_ER_DETAIL_COMMENT_LENGTH_INVALID :: int where "ZIP_ER_DETAIL_COMMENT_LENGTH_INVALID \<equiv> 2"
abbreviation ZIP_ER_DETAIL_CDIR_LENGTH_INVALID :: int where "ZIP_ER_DETAIL_CDIR_LENGTH_INVALID \<equiv> 3"
abbreviation ZIP_ER_DETAIL_CDIR_ENTRY_INVALID :: int where "ZIP_ER_DETAIL_CDIR_ENTRY_INVALID \<equiv> 4"
abbreviation ZIP_ER_DETAIL_CDIR_WRONG_ENTRIES_COUNT :: int where "ZIP_ER_DETAIL_CDIR_WRONG_ENTRIES_COUNT \<equiv> 5"
abbreviation ZIP_ER_DETAIL_ENTRY_HEADER_MISMATCH :: int where "ZIP_ER_DETAIL_ENTRY_HEADER_MISMATCH \<equiv> 6"
abbreviation ZIP_ER_DETAIL_EOCD_LENGTH_INVALID :: int where "ZIP_ER_DETAIL_EOCD_LENGTH_INVALID \<equiv> 7"
abbreviation ZIP_ER_DETAIL_EOCD64_OVERLAPS_EOCD :: int where "ZIP_ER_DETAIL_EOCD64_OVERLAPS_EOCD \<equiv> 8"
abbreviation ZIP_ER_DETAIL_EOCD64_WRONG_MAGIC :: int where "ZIP_ER_DETAIL_EOCD64_WRONG_MAGIC \<equiv> 9"
abbreviation ZIP_ER_DETAIL_EOCD64_MISMATCH :: int where "ZIP_ER_DETAIL_EOCD64_MISMATCH \<equiv> 10"
abbreviation ZIP_ER_DETAIL_CDIR_INVALID :: int where "ZIP_ER_DETAIL_CDIR_INVALID \<equiv> 11"
abbreviation ZIP_ER_DETAIL_VARIABLE_SIZE_OVERFLOW :: int where "ZIP_ER_DETAIL_VARIABLE_SIZE_OVERFLOW \<equiv> 12"
abbreviation ZIP_ER_DETAIL_INVALID_UTF8_IN_FILENAME :: int where "ZIP_ER_DETAIL_INVALID_UTF8_IN_FILENAME \<equiv> 13"
abbreviation ZIP_ER_DETAIL_INVALID_UTF8_IN_COMMENT :: int where "ZIP_ER_DETAIL_INVALID_UTF8_IN_COMMENT \<equiv> 13"
abbreviation ZIP_ER_DETAIL_INVALID_ZIP64_EF :: int where "ZIP_ER_DETAIL_INVALID_ZIP64_EF \<equiv> 14"
abbreviation ZIP_ER_DETAIL_INVALID_WINZIPAES_EF :: int where "ZIP_ER_DETAIL_INVALID_WINZIPAES_EF \<equiv> 14"
abbreviation ZIP_ER_DETAIL_EF_TRAILING_GARBAGE :: int where "ZIP_ER_DETAIL_EF_TRAILING_GARBAGE \<equiv> 15"
abbreviation ZIP_ER_DETAIL_INVALID_EF_LENGTH :: int where "ZIP_ER_DETAIL_INVALID_EF_LENGTH \<equiv> 16"
abbreviation ZIP_ER_DETAIL_INVALID_FILE_LENGTH :: int where "ZIP_ER_DETAIL_INVALID_FILE_LENGTH \<equiv> 17"

abbreviation MAX_DETAIL_INDEX :: int where "MAX_DETAIL_INDEX \<equiv> 8388607"

definition MAKE_DETAIL_WITH_INDEX :: "int \<Rightarrow> int \<Rightarrow> int" where
  "MAKE_DETAIL_WITH_INDEX error index =
     (push_bit 8 (if index > MAX_DETAIL_INDEX then MAX_DETAIL_INDEX else index) OR error)"

definition GET_INDEX_FROM_DETAIL :: "int \<Rightarrow> int" where
  "GET_INDEX_FROM_DETAIL error = (drop_bit 8 error AND MAX_DETAIL_INDEX)"

definition GET_ERROR_FROM_DETAIL :: "int \<Rightarrow> int" where
  "GET_ERROR_FROM_DETAIL error = (error AND 255)"

definition ADD_INDEX_TO_DETAIL :: "int \<Rightarrow> int \<Rightarrow> int" where
  "ADD_INDEX_TO_DETAIL error index = MAKE_DETAIL_WITH_INDEX (GET_ERROR_FROM_DETAIL error) index"

section \<open>Operations\<close>

definition zip_error_code_system :: "zip_error \<Rightarrow> int" where
  "zip_error_code_system error = sys_err error"

definition zip_error_code_zip :: "zip_error \<Rightarrow> int" where
  "zip_error_code_zip error = zip_err error"

definition zip_error_fini :: "zip_error \<Rightarrow> zip_error" where
  "zip_error_fini err = err\<lparr>err_str := None\<rparr>"

definition zip_error_init :: "zip_error" where
  "zip_error_init = \<lparr>zip_err = ZIP_ER_OK, sys_err = 0, err_str = None\<rparr>"

definition zip_error_system_type :: "zip_error \<Rightarrow> zip_et" where
  "zip_error_system_type error =
     (if zip_err error < 0 \<or> zip_err error \<ge> int (length zip_err_str) then ZIP_ET_NONE
      else fst (zip_err_str ! nat (zip_err error)))"

definition zip_error_init_with_code :: "int \<Rightarrow> int \<Rightarrow> zip_error" where
  "zip_error_init_with_code errno ze =
     (let error = zip_error_init\<lparr>zip_err := ze\<rparr>
      in case zip_error_system_type error of
           ZIP_ET_SYS \<Rightarrow> error\<lparr>sys_err := errno\<rparr>
         | ZIP_ET_LIBZIP \<Rightarrow> error\<lparr>sys_err := errno\<rparr>
         | _ \<Rightarrow> error\<lparr>sys_err := 0\<rparr>)"

definition zip_error_clear :: "zip_error option \<Rightarrow> zip_error option" where
  "zip_error_clear err =
     (case err of None \<Rightarrow> None | Some e \<Rightarrow> Some (e\<lparr>zip_err := ZIP_ER_OK, sys_err := 0\<rparr>))"

definition zip_error_copy :: "zip_error option \<Rightarrow> zip_error \<Rightarrow> zip_error option" where
  "zip_error_copy dst src =
     (case dst of None \<Rightarrow> None
      | Some d \<Rightarrow> Some (d\<lparr>zip_err := zip_err src, sys_err := sys_err src\<rparr>))"

text \<open>The results stand for \<open>*zep\<close> and \<open>*sep\<close>; both pointers are given by every caller.\<close>

definition zip_error_get :: "zip_error \<Rightarrow> int \<times> int" where
  "zip_error_get err =
     (zip_err err, if zip_error_system_type err \<noteq> ZIP_ET_NONE then sys_err err else 0)"

definition zip_error_set :: "zip_error option \<Rightarrow> int \<Rightarrow> int \<Rightarrow> zip_error option" where
  "zip_error_set err ze se =
     (case err of None \<Rightarrow> None | Some e \<Rightarrow> Some (e\<lparr>zip_err := ze, sys_err := se\<rparr>))"

text \<open>The two integers written to \<open>data\<close> and the return value, with 4-byte ints.\<close>

definition zip_error_to_data :: "zip_error \<Rightarrow> nat \<Rightarrow> int list \<times> int" where
  "zip_error_to_data error len =
     (if len < 4 * 2 then ([], -1)
      else ([zip_error_code_zip error, zip_error_code_system error], 4 * 2))"

definition zip_error_get_sys_type :: "int \<Rightarrow> zip_et" where
  "zip_error_get_sys_type ze =
     (if ze < 0 \<or> ze \<ge> int (length zip_err_str) then ZIP_ET_NONE
      else fst (zip_err_str ! nat ze))"

section \<open>Messages\<close>

text \<open>The conversions \<open>%d\<close> and \<open>%u\<close> of printf, and the truncation of snprintf to a buffer.\<close>

fun dec_nat :: "nat \<Rightarrow> string" where
  "dec_nat n = (if n < 10 then [''0123456789'' ! n] else dec_nat (n div 10) @ [''0123456789'' ! (n mod 10)])"

declare dec_nat.simps [simp del]

definition dec_int :: "int \<Rightarrow> string" where
  "dec_int i = (if i < 0 then ''-'' @ dec_nat (nat (- i)) else dec_nat (nat i))"

definition snprintf :: "nat \<Rightarrow> string \<Rightarrow> string" where
  "snprintf len s = take (len - 1) s"

definition detail_string :: "int \<Rightarrow> string option" where
  "detail_string sys =
     (let error = GET_ERROR_FROM_DETAIL sys; index = GET_INDEX_FROM_DETAIL sys
      in if error = 0 then None
         else if error \<ge> int (length zip_err_details)
           then Some (snprintf 128 (''invalid detail error '' @ dec_int error))
         else if fst (zip_err_details ! nat error) = ZIP_DETAIL_ET_ENTRY \<and> index < MAX_DETAIL_INDEX
           then Some (snprintf 128 (''entry '' @ dec_int index @ '': '' @ snd (zip_err_details ! nat error)))
         else Some (snd (zip_err_details ! nat error)))"

definition zip_error_strerror ::
  "(int \<Rightarrow> string option) \<Rightarrow> (int \<Rightarrow> string option) \<Rightarrow> mem \<Rightarrow> zip_error \<Rightarrow> string option \<times> zip_error \<times> mem"
where
  "zip_error_strerror strerror zError m err0 =
     (let err = zip_error_fini err0;
          (zip_error_string, system_error_string) =
            (if zip_err err < 0 \<or> zip_err err \<ge> int (length zip_err_str)
             then (None, Some (snprintf 128 (''Unknown error '' @ dec_int (zip_err err))))
             else (Some (snd (zip_err_str ! nat (zip_err err))),
                   case fst (zip_err_str ! nat (zip_err err)) of
                     ZIP_ET_SYS \<Rightarrow> strerror (sys_err err)
                   | ZIP_ET_ZLIB \<Rightarrow> zError (sys_err err)
                   | ZIP_ET_LIBZIP \<Rightarrow> detail_string (sys_err err)
                   | ZIP_ET_NONE \<Rightarrow> None))
      in case system_error_string of
           None \<Rightarrow> (zip_error_string, err, m)
         | Some ss \<Rightarrow>
             (case malloc m of
                (None, m') \<Rightarrow> (Some (snd (zip_err_str ! nat ZIP_ER_MEMORY)), err, m')
              | (Some _, m') \<Rightarrow>
                  (let s = (case zip_error_string of Some zs \<Rightarrow> zs | None \<Rightarrow> '''')
                           @ (case zip_error_string of Some _ \<Rightarrow> '': '' | None \<Rightarrow> '''') @ ss
                   in (Some s, err\<lparr>err_str := Some s\<rparr>, m'))))"

definition zip_error_to_str ::
  "(int \<Rightarrow> string option) \<Rightarrow> (int \<Rightarrow> string option) \<Rightarrow> nat \<Rightarrow> int \<Rightarrow> int \<Rightarrow> string" where
  "zip_error_to_str strerror zError len ze se =
     (if ze < 0 \<or> ze \<ge> int (length zip_err_str)
      then snprintf len (''Unknown error '' @ dec_int ze)
      else let zs = snd (zip_err_str ! nat ze);
               ss = (case fst (zip_err_str ! nat ze) of
                       ZIP_ET_SYS \<Rightarrow> strerror se
                     | ZIP_ET_ZLIB \<Rightarrow> zError se
                     | _ \<Rightarrow> None)
           in snprintf len (zs @ (case ss of Some _ \<Rightarrow> '': '' | None \<Rightarrow> '''')
                               @ (case ss of Some s \<Rightarrow> s | None \<Rightarrow> '''')))"

section \<open>Lemmas\<close>

lemma zip_error_set_simps [simp]:
  "zip_error_set None ze se = None"
  "zip_error_set (Some e) ze se = Some (e\<lparr>zip_err := ze, sys_err := se\<rparr>)"
  by (simp_all add: zip_error_set_def)

lemma zip_error_set_None_iff [simp]: "zip_error_set e ze se = None \<longleftrightarrow> e = None"
  by (cases e) simp_all

lemma length_zip_err_str [simp]: "length zip_err_str = 33"
  by (simp add: zip_err_str_def)

lemma length_zip_err_details [simp]: "length zip_err_details = 20"
  by (simp add: zip_err_details_def)

lemma make_detail_arith:
  assumes "0 \<le> e" and "e < 256"
  shows "MAKE_DETAIL_WITH_INDEX e i = min i MAX_DETAIL_INDEX * 256 + e"
proof -
  have te: "take_bit 8 e = e" using assms by (simp add: take_bit_eq_mod)
  have "push_bit 8 k OR e = k * 256 + e" for k :: int
    using concat_bit_eq [of 8 e k] by (simp add: concat_bit_def te ac_simps push_bit_eq_mult)
  then show ?thesis by (simp add: MAKE_DETAIL_WITH_INDEX_def min_def)
qed

lemma and_255: "(k::int) AND 255 = k mod 256"
  using take_bit_eq_mask [of 8 k] by (simp add: mask_eq_exp_minus_1 take_bit_eq_mod)

lemma and_max_detail: "(k::int) AND MAX_DETAIL_INDEX = k mod 8388608"
  using take_bit_eq_mask [of 23 k] by (simp add: mask_eq_exp_minus_1 take_bit_eq_mod)

text \<open>
  C30. Packing a detail code and an entry index into one integer loses nothing but the part of
  the index above the limit: the code comes back unchanged and the index capped at
  MAX_DETAIL_INDEX.
\<close>

theorem detail_roundtrip:
  assumes "0 \<le> e" and "e < 256" and "0 \<le> i"
  shows "GET_ERROR_FROM_DETAIL (MAKE_DETAIL_WITH_INDEX e i) = e
       \<and> GET_INDEX_FROM_DETAIL (MAKE_DETAIL_WITH_INDEX e i) = min i MAX_DETAIL_INDEX"
proof -
  have "(min i MAX_DETAIL_INDEX * 256 + e) mod 256 = e" using assms by simp
  moreover have "(min i MAX_DETAIL_INDEX * 256 + e) div 256 = min i MAX_DETAIL_INDEX"
    using assms by simp
  ultimately show ?thesis using assms
    by (simp add: make_detail_arith GET_ERROR_FROM_DETAIL_def GET_INDEX_FROM_DETAIL_def
        and_255 and_max_detail drop_bit_eq_div)
qed

theorem detail_roundtrip_witness:
  "GET_ERROR_FROM_DETAIL (MAKE_DETAIL_WITH_INDEX 15 9000000) = 15
   \<and> GET_INDEX_FROM_DETAIL (MAKE_DETAIL_WITH_INDEX 15 9000000) = 8388607"
  using detail_roundtrip [of 15 9000000] by simp

text \<open>
  What a user reads for a bad Zip64 extra field: the code INVALID_ZIP64_EF is 14, and entry 14
  of the message table is the text of another error.
\<close>

theorem strerror_zip64_detail:
  "fst (zip_error_strerror strerror zError []
     \<lparr>zip_err = ZIP_ER_INCONS,
      sys_err = MAKE_DETAIL_WITH_INDEX ZIP_ER_DETAIL_INVALID_ZIP64_EF 7, err_str = None\<rparr>)
   = Some ''Zip archive inconsistent: entry 7: invalid UTF-8 in comment''"
  by (simp add: zip_error_strerror_def zip_error_fini_def detail_string_def make_detail_arith
      GET_ERROR_FROM_DETAIL_def GET_INDEX_FROM_DETAIL_def and_255 and_max_detail drop_bit_eq_div
      snprintf_def dec_int_def dec_nat.simps zip_err_str_def zip_err_details_def Let_def)

end
