(* ===== verification/Zip_Buffer.thy ===== *)
theory Zip_Buffer
  imports Zip_Error
begin

text \<open>
  The bounds-checked memory cursor of libzip (lib/zip_buffer.c, struct zip_buffer of
  lib/zipint.h), through which every header is read and written. Sizes and offsets are 64-bit
  words, so the overflow test of \<open>_zip_buffer_peek\<close> is the code's own. A pointer into the block
  is its index. \<open>_zip_buffer_free\<close> only releases memory and has no counterpart.
  The locale \<open>cursor_field\<close> states what a fixed-width put/get pair promises; it is interpreted
  for the 8, 16, 32 and 64 bit operations, and the clients use its lemmas.
\<close>

section \<open>State and operations\<close>

record zip_buffer =
  buf_ok :: bool
  buf_free_data :: bool
  buf_data :: bytes
  buf_size :: u64
  buf_offset :: u64

text \<open>Writing the bytes \<open>ys\<close> over the block from index \<open>p\<close> on.\<close>

definition poke :: "bytes \<Rightarrow> nat \<Rightarrow> bytes \<Rightarrow> bytes" where
  "poke xs p ys = take p xs @ ys @ drop (p + length ys) xs"

definition zip_buffer_data :: "zip_buffer \<Rightarrow> bytes" where
  "zip_buffer_data b = buf_data b"

definition zip_buffer_eof :: "zip_buffer \<Rightarrow> bool" where
  "zip_buffer_eof b \<longleftrightarrow> buf_ok b \<and> buf_offset b = buf_size b"

definition zip_buffer_peek :: "zip_buffer \<Rightarrow> u64 \<Rightarrow> nat option \<times> zip_buffer" where
  "zip_buffer_peek b len =
     (if \<not> buf_ok b \<or> buf_offset b + len < len \<or> buf_offset b + len > buf_size b
      then (None, b\<lparr>buf_ok := False\<rparr>)
      else (Some (unat (buf_offset b)), b))"

definition zip_buffer_get :: "zip_buffer \<Rightarrow> u64 \<Rightarrow> nat option \<times> zip_buffer" where
  "zip_buffer_get b len =
     (case zip_buffer_peek b len of
        (None, b') \<Rightarrow> (None, b')
      | (Some p, b') \<Rightarrow> (Some p, b'\<lparr>buf_offset := buf_offset b' + len\<rparr>))"

definition zip_buffer_get_8 :: "zip_buffer \<Rightarrow> u8 \<times> zip_buffer" where
  "zip_buffer_get_8 b =
     (case zip_buffer_get b 1 of
        (None, b') \<Rightarrow> (0, b')
      | (Some p, b') \<Rightarrow> (buf_data b' ! p, b'))"

definition zip_buffer_get_16 :: "zip_buffer \<Rightarrow> u16 \<times> zip_buffer" where
  "zip_buffer_get_16 b =
     (case zip_buffer_get b 2 of
        (None, b') \<Rightarrow> (0, b')
      | (Some p, b') \<Rightarrow>
          (let d = (\<lambda>i. ucast (buf_data b' ! (p + i)) :: u32)
           in (ucast (d 0 + push_bit 8 (d 1)), b')))"

definition zip_buffer_get_32 :: "zip_buffer \<Rightarrow> u32 \<times> zip_buffer" where
  "zip_buffer_get_32 b =
     (case zip_buffer_get b 4 of
        (None, b') \<Rightarrow> (0, b')
      | (Some p, b') \<Rightarrow>
          (let d = (\<lambda>i. ucast (buf_data b' ! (p + i)) :: u32)
           in (push_bit 8 (push_bit 8 (push_bit 8 (d 3) + d 2) + d 1) + d 0, b')))"

definition zip_buffer_get_64 :: "zip_buffer \<Rightarrow> u64 \<times> zip_buffer" where
  "zip_buffer_get_64 b =
     (case zip_buffer_get b 8 of
        (None, b') \<Rightarrow> (0, b')
      | (Some p, b') \<Rightarrow>
          (let d = (\<lambda>i. ucast (buf_data b' ! (p + i)) :: u64)
           in (push_bit 56 (d 7) + push_bit 48 (d 6) + push_bit 40 (d 5) + push_bit 32 (d 4)
               + push_bit 24 (d 3) + push_bit 16 (d 2) + push_bit 8 (d 1) + d 0, b')))"

definition zip_buffer_left :: "zip_buffer \<Rightarrow> u64" where
  "zip_buffer_left b = (if buf_ok b then buf_size b - buf_offset b else 0)"

text \<open>The bytes copied to \<open>data\<close>, the return value and the cursor.\<close>

definition zip_buffer_read :: "zip_buffer \<Rightarrow> u64 \<Rightarrow> bytes \<times> u64 \<times> zip_buffer" where
  "zip_buffer_read b len0 =
     (let len = (if zip_buffer_left b < len0 then zip_buffer_left b else len0)
      in case zip_buffer_get b len of
           (None, b') \<Rightarrow> ([], len, b')
         | (Some p, b') \<Rightarrow> (take (unat len) (drop p (buf_data b')), len, b'))"

definition zip_buffer_new :: "mem \<Rightarrow> bytes option \<Rightarrow> u64 \<Rightarrow> zip_buffer option \<times> mem" where
  "zip_buffer_new m data sz =
     (let free_data = (data = None);
          (d, m1) = (case data of
                       None \<Rightarrow> (case malloc m of
                                  (None, m') \<Rightarrow> (None, m')
                                | (Some n, m') \<Rightarrow> (Some (junk_bytes n (unat sz)), m'))
                     | Some bs \<Rightarrow> (Some bs, m))
      in case d of
           None \<Rightarrow> (None, m1)
         | Some bs \<Rightarrow>
             (case malloc m1 of
                (None, m2) \<Rightarrow> (None, m2)
              | (Some _, m2) \<Rightarrow>
                  (Some \<lparr>buf_ok = True, buf_free_data = free_data, buf_data = bs,
                         buf_size = sz, buf_offset = 0\<rparr>, m2)))"

definition zip_buffer_tell :: "zip_buffer \<Rightarrow> u64" where
  "zip_buffer_tell b = (if buf_ok b then buf_offset b else 0)"

definition zip_buffer_put :: "zip_buffer \<Rightarrow> bytes \<Rightarrow> u64 \<Rightarrow> int \<times> zip_buffer" where
  "zip_buffer_put b src len =
     (case zip_buffer_get b len of
        (None, b') \<Rightarrow> (-1, b')
      | (Some p, b') \<Rightarrow> (0, b'\<lparr>buf_data := poke (buf_data b') p (take (unat len) src)\<rparr>))"

definition zip_buffer_put_8 :: "zip_buffer \<Rightarrow> u8 \<Rightarrow> int \<times> zip_buffer" where
  "zip_buffer_put_8 b i =
     (case zip_buffer_get b 1 of
        (None, b') \<Rightarrow> (-1, b')
      | (Some p, b') \<Rightarrow> (0, b'\<lparr>buf_data := poke (buf_data b') p [i]\<rparr>))"

definition zip_buffer_put_16 :: "zip_buffer \<Rightarrow> u16 \<Rightarrow> int \<times> zip_buffer" where
  "zip_buffer_put_16 b i =
     (case zip_buffer_get b 2 of
        (None, b') \<Rightarrow> (-1, b')
      | (Some p, b') \<Rightarrow>
          (0, b'\<lparr>buf_data := poke (buf_data b') p
                [ucast (i AND 0xff), ucast (drop_bit 8 i AND 0xff)]\<rparr>))"

definition zip_buffer_put_32 :: "zip_buffer \<Rightarrow> u32 \<Rightarrow> int \<times> zip_buffer" where
  "zip_buffer_put_32 b i =
     (case zip_buffer_get b 4 of
        (None, b') \<Rightarrow> (-1, b')
      | (Some p, b') \<Rightarrow>
          (0, b'\<lparr>buf_data := poke (buf_data b') p
                [ucast (i AND 0xff), ucast (drop_bit 8 i AND 0xff),
                 ucast (drop_bit 16 i AND 0xff), ucast (drop_bit 24 i AND 0xff)]\<rparr>))"

definition zip_buffer_put_64 :: "zip_buffer \<Rightarrow> u64 \<Rightarrow> int \<times> zip_buffer" where
  "zip_buffer_put_64 b i =
     (case zip_buffer_get b 8 of
        (None, b') \<Rightarrow> (-1, b')
      | (Some p, b') \<Rightarrow>
          (0, b'\<lparr>buf_data := poke (buf_data b') p
                [ucast (i AND 0xff), ucast (drop_bit 8 i AND 0xff),
                 ucast (drop_bit 16 i AND 0xff), ucast (drop_bit 24 i AND 0xff),
                 ucast (drop_bit 32 i AND 0xff), ucast (drop_bit 40 i AND 0xff),
                 ucast (drop_bit 48 i AND 0xff), ucast (drop_bit 56 i AND 0xff)]\<rparr>))"

definition zip_buffer_set_offset :: "zip_buffer \<Rightarrow> u64 \<Rightarrow> int \<times> zip_buffer" where
  "zip_buffer_set_offset b off =
     (if off > buf_size b then (-1, b\<lparr>buf_ok := False\<rparr>)
      else (0, b\<lparr>buf_ok := True, buf_offset := off\<rparr>))"

definition zip_buffer_skip :: "zip_buffer \<Rightarrow> u64 \<Rightarrow> int \<times> zip_buffer" where
  "zip_buffer_skip b len =
     (let off = buf_offset b + len
      in if off < buf_offset b then (-1, b\<lparr>buf_ok := False\<rparr>)
         else zip_buffer_set_offset b off)"

section \<open>Invariant and the bounds check\<close>

text \<open>The block has the announced size and the cursor lies in it.\<close>

definition buf_inv :: "zip_buffer \<Rightarrow> bool" where
  "buf_inv b \<longleftrightarrow> length (buf_data b) = unat (buf_size b) \<and> buf_offset b \<le> buf_size b"

text \<open>\<open>room b n\<close>: the cursor is good and \<open>n\<close> more bytes lie in the block (over the naturals).\<close>

definition room :: "zip_buffer \<Rightarrow> nat \<Rightarrow> bool" where
  "room b n \<longleftrightarrow> buf_ok b \<and> unat (buf_offset b) + n \<le> unat (buf_size b)"

lemma add_overflow_check:
  "(a + b < b \<or> a + b > c) \<longleftrightarrow> unat a + unat b > unat (c :: 'a::len word)"
proof -
  define N where "N = (2::nat) ^ LENGTH('a)"
  have lt: "unat a < N" "unat b < N" "unat c < N" by (simp_all add: N_def unsigned_less)
  have sum: "unat (a + b) = (unat a + unat b) mod N" by (simp add: unat_word_ariths N_def)
  show ?thesis
  proof (cases "unat a + unat b < N")
    case True
    with sum have "unat (a + b) = unat a + unat b" by simp
    then show ?thesis by (simp add: word_less_nat_alt)
  next
    case False
    with lt sum have "unat (a + b) = unat a + unat b - N" by (simp add: mod_if)
    with False lt have "unat (a + b) < unat b" "unat a + unat b > unat c" by linarith+
    then show ?thesis by (simp add: word_less_nat_alt)
  qed
qed

lemma peek_eq:
  "zip_buffer_peek b len =
     (if room b (unat len) then (Some (unat (buf_offset b)), b) else (None, b\<lparr>buf_ok := False\<rparr>))"
  using add_overflow_check [of "buf_offset b" len "buf_size b"]
  by (auto simp: zip_buffer_peek_def room_def)

lemma get_eq:
  "zip_buffer_get b len =
     (if room b (unat len)
      then (Some (unat (buf_offset b)), b\<lparr>buf_offset := buf_offset b + len\<rparr>)
      else (None, b\<lparr>buf_ok := False\<rparr>))"
  by (simp add: zip_buffer_get_def peek_eq)

lemma room_offset_add:
  "room b (unat len) \<Longrightarrow> unat (buf_offset b + len) = unat (buf_offset b) + unat len"
proof -
  assume "room b (unat len)"
  then have "unat (buf_offset b) + unat len < 18446744073709551616"
    using unat_u64_lt [of "buf_size b"] unfolding room_def by linarith
  then show ?thesis by (simp add: unat_word_ariths)
qed

lemma buf_inv_advance:
  "buf_inv b \<Longrightarrow> room b (unat len) \<Longrightarrow> buf_inv (b\<lparr>buf_offset := buf_offset b + len\<rparr>)"
  by (simp add: buf_inv_def word_le_nat_alt room_offset_add) (simp add: room_def)

lemma buf_inv_fail [simp]: "buf_inv (b\<lparr>buf_ok := x\<rparr>) = buf_inv b"
  by (simp add: buf_inv_def)

lemma room_fail [simp]: "\<not> room (b\<lparr>buf_ok := False\<rparr>) n"
  by (simp add: room_def)

lemma length_poke [simp]: "p + length ys \<le> length xs \<Longrightarrow> length (poke xs p ys) = length xs"
  by (simp add: poke_def)

lemma poke_read [simp]: "p \<le> length xs \<Longrightarrow> take (length ys) (drop p (poke xs p ys)) = ys"
  by (simp add: poke_def)

lemma poke_before: "p \<le> length xs \<Longrightarrow> take p (poke xs p ys) = take p xs"
  by (simp add: poke_def)

lemma poke_after:
  "p + length ys \<le> length xs \<Longrightarrow> drop (p + length ys) (poke xs p ys) = drop (p + length ys) xs"
  by (simp add: poke_def)

lemma drop_nth_list:
  "p + n \<le> length xs \<Longrightarrow> take n (drop p xs) = map (\<lambda>i. xs ! (p + i)) [0..<n]"
  by (rule nth_equalityI) simp_all

section \<open>The contract of a fixed-width field\<close>

text \<open>
  A put writes the encoding of its value at the cursor and moves past it, or reports failure and
  marks the cursor bad when the block is too short; the matching get decodes what lies there.
\<close>

locale cursor_field =
  fixes put :: "zip_buffer \<Rightarrow> 'a \<Rightarrow> int \<times> zip_buffer"
    and get :: "zip_buffer \<Rightarrow> 'a \<times> zip_buffer"
    and width :: u64
    and enc :: "'a \<Rightarrow> bytes"
    and dec :: "bytes \<Rightarrow> 'a"
    and default :: 'a
  assumes put_eq: "buf_inv b \<Longrightarrow> put b v =
      (if room b (unat width)
       then (0, b\<lparr>buf_data := poke (buf_data b) (unat (buf_offset b)) (enc v),
                  buf_offset := buf_offset b + width\<rparr>)
       else (-1, b\<lparr>buf_ok := False\<rparr>))"
    and get_eq: "buf_inv b \<Longrightarrow> get b =
      (if room b (unat width)
       then (dec (take (unat width) (drop (unat (buf_offset b)) (buf_data b))),
             b\<lparr>buf_offset := buf_offset b + width\<rparr>)
       else (default, b\<lparr>buf_ok := False\<rparr>))"
    and enc_length: "length (enc v) = unat width"
    and dec_enc: "dec (enc v) = v"
begin

lemma put_inv: "buf_inv b \<Longrightarrow> buf_inv (snd (put b v))"
  by (simp add: put_eq buf_inv_def room_offset_add word_le_nat_alt)
    (simp add: room_def enc_length)

lemma get_inv: "buf_inv b \<Longrightarrow> buf_inv (snd (get b))"
  by (simp add: get_eq buf_inv_advance)

lemma put_result: "buf_inv b \<Longrightarrow> fst (put b v) = (if room b (unat width) then 0 else -1)"
  by (simp add: put_eq)

lemma put_ok: "buf_inv b \<Longrightarrow> buf_ok (snd (put b v)) = room b (unat width)"
  by (auto simp: put_eq room_def)

lemma get_ok: "buf_inv b \<Longrightarrow> buf_ok (snd (get b)) = room b (unat width)"
  by (auto simp: get_eq room_def)

text \<open>What was put is what is got when the cursor is moved back, and nothing else is touched.\<close>

lemma get_put:
  assumes inv: "buf_inv b" and room: "room b (unat width)"
  shows "get ((snd (put b v))\<lparr>buf_offset := buf_offset b\<rparr>) = (v, snd (put b v))"
proof -
  let ?b = "(snd (put b v))\<lparr>buf_offset := buf_offset b\<rparr>"
  have le: "unat (buf_offset b) \<le> length (buf_data b)"
      "unat (buf_offset b) + length (enc v) \<le> length (buf_data b)"
    using inv room by (simp_all add: buf_inv_def room_def enc_length)
  have "buf_inv ?b" "room ?b (unat width)"
    using inv room le by (simp_all add: put_eq buf_inv_def room_def)
  moreover have "take (unat width) (drop (unat (buf_offset b)) (buf_data ?b)) = enc v"
    using inv room le poke_read [OF le(1), of "enc v"] by (simp add: put_eq enc_length)
  ultimately show ?thesis using inv room by (simp add: get_eq dec_enc put_eq)
qed

lemma put_frame:
  assumes inv: "buf_inv b" and room: "room b (unat width)"
  shows "take (unat (buf_offset b)) (buf_data (snd (put b v))) = take (unat (buf_offset b)) (buf_data b)"
    and "drop (unat (buf_offset b) + unat width) (buf_data (snd (put b v)))
       = drop (unat (buf_offset b) + unat width) (buf_data b)"
  using inv room poke_after [of "unat (buf_offset b)" "enc v" "buf_data b"]
  by (simp_all add: put_eq poke_before buf_inv_def room_def enc_length)

text \<open>A failed operation changes nothing but the status.\<close>

lemma put_fails: "buf_inv b \<Longrightarrow> \<not> room b (unat width) \<Longrightarrow> put b v = (-1, b\<lparr>buf_ok := False\<rparr>)"
  by (simp add: put_eq)

end

section \<open>The four widths\<close>

lemma push8_add:
  assumes "256 * unat x + 255 < 2 ^ LENGTH('a)"
  shows "unat (push_bit 8 x + ucast (b::u8) :: 'a::len word) = 256 * unat x + unat b"
proof -
  define N where "N = (2::nat) ^ LENGTH('a)"
  have b: "unat b < 256" by (rule unat_u8_lt)
  have "unat (ucast b :: 'a word) = unat b mod N"
    by (simp add: unsigned_ucast_eq take_bit_eq_mod N_def)
  moreover have "unat (push_bit 8 x) = (256 * unat x) mod N"
  proof -
    have "unat (push_bit 8 x) = take_bit LENGTH('a) (push_bit 8 (unat x))"
      by (simp only: unsigned_push_bit_eq)
    then show ?thesis by (simp add: take_bit_eq_mod push_bit_eq_mult N_def mult.commute)
  qed
  ultimately have "unat (push_bit 8 x + ucast b) = (256 * unat x mod N + unat b mod N) mod N"
    by (simp add: unat_word_ariths N_def)
  moreover have "256 * unat x + unat b < N" using assms b by (simp add: N_def)
  ultimately show ?thesis by (simp add: mod_simps)
qed

lemma eq_word_of_nat: "unat w = n \<Longrightarrow> w = word_of_nat n"
  by auto

lemma unat_ucast_byte: "8 \<le> LENGTH('a) \<Longrightarrow> unat (ucast (b::u8) :: 'a::len word) = unat b"
proof -
  assume "8 \<le> LENGTH('a)"
  then have "unat b < 2 ^ LENGTH('a)"
    using unat_u8_lt [of b] power_increasing [of 8 "LENGTH('a)" "2::nat"] by simp
  then show ?thesis by (simp add: unsigned_ucast_eq take_bit_nat_eq_self)
qed

lemma dec_16: "(ucast (ucast b0 + push_bit 8 (ucast b1) :: u32) :: u16) = word_of_nat (le_dec [b0, b1])"
proof (rule eq_word_of_nat)
  have "unat (push_bit 8 (ucast b1) + ucast b0 :: u32) = 256 * unat b1 + unat b0"
    using unat_u8_lt [of b1] by (subst push8_add) (simp_all add: unat_ucast_byte)
  then have e: "unat (ucast b0 + push_bit 8 (ucast b1) :: u32) = 256 * unat b1 + unat b0"
    by (simp only: add.commute)
  have "256 * unat b1 + unat b0 < 2 ^ 16" using unat_u8_lt [of b1] unat_u8_lt [of b0] by simp
  then show "unat (ucast (ucast b0 + push_bit 8 (ucast b1) :: u32) :: u16) = le_dec [b0, b1]"
    unfolding unsigned_ucast_eq e by (simp add: take_bit_nat_eq_self)
qed

lemma dec_32:
  "push_bit 8 (push_bit 8 (push_bit 8 (ucast b3) + ucast b2) + ucast b1) + ucast b0
   = (word_of_nat (le_dec [b0, b1, b2, b3]) :: u32)"
proof (rule eq_word_of_nat)
  note lt = unat_u8_lt [of b3] unat_u8_lt [of b2] unat_u8_lt [of b1]
  have 1: "unat (push_bit 8 (ucast b3) + ucast b2 :: u32) = 256 * unat b3 + unat b2"
    using lt by (subst push8_add) (simp_all add: unat_ucast_byte)
  have 2: "unat (push_bit 8 (push_bit 8 (ucast b3) + ucast b2) + ucast b1 :: u32)
      = 256 * (256 * unat b3 + unat b2) + unat b1"
    using lt by (subst push8_add) (simp_all add: 1)
  show "unat (push_bit 8 (push_bit 8 (push_bit 8 (ucast b3) + ucast b2) + ucast b1) + ucast b0 :: u32)
      = le_dec [b0, b1, b2, b3]"
    using lt by (subst push8_add) (simp_all add: 2)
qed

lemma horner_64:
  "push_bit 56 a7 + push_bit 48 a6 + push_bit 40 a5 + push_bit 32 a4
     + push_bit 24 a3 + push_bit 16 a2 + push_bit 8 a1 + a0
   = push_bit 8 (push_bit 8 (push_bit 8 (push_bit 8 (push_bit 8 (push_bit 8 (push_bit 8 a7
       + a6) + a5) + a4) + a3) + a2) + a1) + (a0 :: u64)"
  by (simp add: push_bit_eq_mult algebra_simps)

lemma dec_64:
  "push_bit 56 (ucast b7) + push_bit 48 (ucast b6) + push_bit 40 (ucast b5) + push_bit 32 (ucast b4)
     + push_bit 24 (ucast b3) + push_bit 16 (ucast b2) + push_bit 8 (ucast b1) + ucast b0
   = (word_of_nat (le_dec [b0, b1, b2, b3, b4, b5, b6, b7]) :: u64)"
proof (rule eq_word_of_nat)
  note lt = unat_u8_lt [of b7] unat_u8_lt [of b6] unat_u8_lt [of b5] unat_u8_lt [of b4]
    unat_u8_lt [of b3] unat_u8_lt [of b2] unat_u8_lt [of b1]
  let ?c = "\<lambda>b. ucast b :: u64"
  have 1: "unat (push_bit 8 (?c b7) + ?c b6) = le_dec [b6, b7]"
    using lt by (subst push8_add) (simp_all add: unat_ucast_byte)
  have 2: "unat (push_bit 8 (push_bit 8 (?c b7) + ?c b6) + ?c b5) = le_dec [b5, b6, b7]"
    using lt by (subst push8_add) (simp_all add: 1)
  have 3: "unat (push_bit 8 (push_bit 8 (push_bit 8 (?c b7) + ?c b6) + ?c b5) + ?c b4)
      = le_dec [b4, b5, b6, b7]"
    using lt by (subst push8_add) (simp_all add: 2)
  have 4: "unat (push_bit 8 (push_bit 8 (push_bit 8 (push_bit 8 (?c b7) + ?c b6) + ?c b5) + ?c b4)
      + ?c b3) = le_dec [b3, b4, b5, b6, b7]"
    using lt by (subst push8_add) (simp_all add: 3)
  have 5: "unat (push_bit 8 (push_bit 8 (push_bit 8 (push_bit 8 (push_bit 8 (?c b7) + ?c b6)
      + ?c b5) + ?c b4) + ?c b3) + ?c b2) = le_dec [b2, b3, b4, b5, b6, b7]"
    using lt by (subst push8_add) (simp_all add: 4)
  have 6: "unat (push_bit 8 (push_bit 8 (push_bit 8 (push_bit 8 (push_bit 8 (push_bit 8 (?c b7)
      + ?c b6) + ?c b5) + ?c b4) + ?c b3) + ?c b2) + ?c b1) = le_dec [b1, b2, b3, b4, b5, b6, b7]"
    using lt by (subst push8_add) (simp_all add: 5)
  show "unat (push_bit 56 (?c b7) + push_bit 48 (?c b6) + push_bit 40 (?c b5) + push_bit 32 (?c b4)
     + push_bit 24 (?c b3) + push_bit 16 (?c b2) + push_bit 8 (?c b1) + ?c b0)
     = le_dec [b0, b1, b2, b3, b4, b5, b6, b7]"
    unfolding horner_64 using lt by (subst push8_add) (simp_all add: 6)
qed

lemma le_dec_word [simp]:
  "8 * k = LENGTH('a) \<Longrightarrow> (word_of_nat (le_dec (le_enc k (unat v))) :: 'a::len word) = v"
proof -
  assume k: "8 * k = LENGTH('a)"
  have "(256::nat) ^ k = 2 ^ LENGTH('a)" by (simp add: k [symmetric] power_mult)
  then show ?thesis by (simp add: le_dec_enc)
qed

lemma take_drop_1: "Suc p \<le> length xs \<Longrightarrow> take (Suc 0) (drop p xs) = [xs ! p]"
  by (simp add: drop_nth_list)

lemma take_drop_2: "Suc (Suc p) \<le> length xs \<Longrightarrow> take 2 (drop p xs) = [xs ! p, xs ! (p + 1)]"
  by (simp add: drop_nth_list numeral_2_eq_2)

lemma take_drop_4:
  "p + 4 \<le> length xs \<Longrightarrow> take 4 (drop p xs) = [xs ! p, xs ! (p + 1), xs ! (p + 2), xs ! (p + 3)]"
  by (simp add: drop_nth_list upt_rec eval_nat_numeral)

lemma take_drop_8:
  "p + 8 \<le> length xs \<Longrightarrow> take 8 (drop p xs) =
   [xs ! p, xs ! (p + 1), xs ! (p + 2), xs ! (p + 3), xs ! (p + 4), xs ! (p + 5), xs ! (p + 6), xs ! (p + 7)]"
  by (simp add: drop_nth_list upt_rec eval_nat_numeral)

lemma room_length: "buf_inv b \<Longrightarrow> room b n \<Longrightarrow> unat (buf_offset b) + n \<le> length (buf_data b)"
  by (simp add: buf_inv_def room_def)

lemma room_length_1: "buf_inv b \<Longrightarrow> room b (Suc 0) \<Longrightarrow> Suc (unat (buf_offset b)) \<le> length (buf_data b)"
  using room_length [of b "Suc 0"] by simp

lemma room_length_2: "buf_inv b \<Longrightarrow> room b 2 \<Longrightarrow> Suc (Suc (unat (buf_offset b))) \<le> length (buf_data b)"
  using room_length [of b 2] by simp

lemma get_16_alt:
  "zip_buffer_get_16 b =
     (case zip_buffer_get b 2 of
        (None, b') \<Rightarrow> (0, b')
      | (Some p, b') \<Rightarrow> (word_of_nat (le_dec [buf_data b' ! (p + 0), buf_data b' ! (p + 1)]), b'))"
  by (simp only: zip_buffer_get_16_def dec_16 Let_def)

lemma enc_8: "le_enc (Suc 0) (unat (v::u8)) = [v]"
  by (simp add: le_enc_def)

lemma enc_16: "[ucast (v AND 0xff), ucast (drop_bit 8 v AND 0xff)] = le_enc 2 (unat (v::u16))"
  using byte_of_word [of 0 v] byte_of_word [of 1 v] by (simp add: le_enc_def upt_rec)

lemma enc_32:
  "[ucast (v AND 0xff), ucast (drop_bit 8 v AND 0xff), ucast (drop_bit 16 v AND 0xff),
    ucast (drop_bit 24 v AND 0xff)] = le_enc 4 (unat (v::u32))"
  using byte_of_word [of 0 v] byte_of_word [of 1 v] byte_of_word [of 2 v] byte_of_word [of 3 v]
  by (simp add: le_enc_def upt_rec)

lemma enc_64:
  "[ucast (v AND 0xff), ucast (drop_bit 8 v AND 0xff), ucast (drop_bit 16 v AND 0xff),
    ucast (drop_bit 24 v AND 0xff), ucast (drop_bit 32 v AND 0xff), ucast (drop_bit 40 v AND 0xff),
    ucast (drop_bit 48 v AND 0xff), ucast (drop_bit 56 v AND 0xff)] = le_enc 8 (unat (v::u64))"
  using byte_of_word [of 0 v] byte_of_word [of 1 v] byte_of_word [of 2 v] byte_of_word [of 3 v]
    byte_of_word [of 4 v] byte_of_word [of 5 v] byte_of_word [of 6 v] byte_of_word [of 7 v]
  by (simp add: le_enc_def upt_rec)

interpretation field8: cursor_field zip_buffer_put_8 zip_buffer_get_8 1
  "\<lambda>v. le_enc 1 (unat v)" "\<lambda>bs. word_of_nat (le_dec bs)" 0
  by unfold_locales
    (simp_all add: zip_buffer_put_8_def zip_buffer_get_8_def get_eq room_length_1 take_drop_1 enc_8)

interpretation field16: cursor_field zip_buffer_put_16 zip_buffer_get_16 2
  "\<lambda>v. le_enc 2 (unat v)" "\<lambda>bs. word_of_nat (le_dec bs)" 0
  by unfold_locales
    (simp_all add: zip_buffer_put_16_def get_16_alt get_eq room_length_2 take_drop_2 enc_16)

interpretation field32: cursor_field zip_buffer_put_32 zip_buffer_get_32 4
  "\<lambda>v. le_enc 4 (unat v)" "\<lambda>bs. word_of_nat (le_dec bs)" 0
  by unfold_locales
    (simp_all add: zip_buffer_put_32_def zip_buffer_get_32_def get_eq room_length take_drop_4
      dec_32 enc_32 Let_def)

interpretation field64: cursor_field zip_buffer_put_64 zip_buffer_get_64 8
  "\<lambda>v. le_enc 8 (unat v)" "\<lambda>bs. word_of_nat (le_dec bs)" 0
  by unfold_locales
    (simp_all add: zip_buffer_put_64_def zip_buffer_get_64_def get_eq room_length take_drop_8
      dec_64 enc_64 Let_def)

section \<open>What the cursor promises\<close>

lemmas put_invs = field8.put_inv field16.put_inv field32.put_inv field64.put_inv
lemmas get_invs = field8.get_inv field16.get_inv field32.get_inv field64.get_inv

lemma buf_inv_get: "buf_inv b \<Longrightarrow> buf_inv (snd (zip_buffer_get b len))"
  by (simp add: get_eq buf_inv_advance)

lemma buf_inv_set_offset: "buf_inv b \<Longrightarrow> buf_inv (snd (zip_buffer_set_offset b off))"
  by (simp add: zip_buffer_set_offset_def buf_inv_def not_less)

lemma buf_inv_skip: "buf_inv b \<Longrightarrow> buf_inv (snd (zip_buffer_skip b len))"
  by (simp add: zip_buffer_skip_def Let_def buf_inv_set_offset)

lemma put_eq:
  assumes inv: "buf_inv b" and len: "unat len = length src"
  shows "zip_buffer_put b src len =
     (if room b (length src)
      then (0, b\<lparr>buf_data := poke (buf_data b) (unat (buf_offset b)) src,
                 buf_offset := buf_offset b + len\<rparr>)
      else (-1, b\<lparr>buf_ok := False\<rparr>))"
  by (simp add: zip_buffer_put_def get_eq len)

lemma buf_inv_put:
  assumes "buf_inv b" and "unat len \<le> length src"
  shows "buf_inv (snd (zip_buffer_put b src len))"
  using assms room_length [of b "unat len"]
  by (simp add: zip_buffer_put_def get_eq buf_inv_def room_offset_add word_le_nat_alt room_def)

lemma buf_inv_new:
  assumes "zip_buffer_new m data sz = (Some b, m')" and "\<And>bs. data = Some bs \<Longrightarrow> length bs = unat sz"
  shows "buf_inv b \<and> buf_ok b \<and> buf_offset b = 0 \<and> buf_size b = sz
       \<and> (\<forall>bs. data = Some bs \<longrightarrow> buf_data b = bs)"
  using assms by (auto simp: zip_buffer_new_def buf_inv_def Let_def split: option.splits prod.splits)

lemma zip_buffer_left_eq:
  "buf_inv b \<Longrightarrow> unat (zip_buffer_left b) = (if buf_ok b then unat (buf_size b) - unat (buf_offset b) else 0)"
  by (simp add: zip_buffer_left_def buf_inv_def unat_sub)

text \<open>
  C17. The bounds check of the cursor is exact and immune to 64-bit wrap-around: a request for
  \<open>len\<close> bytes is granted exactly when the cursor is good and that many bytes remain, the block it
  grants lies inside the data, and a refused request only marks the cursor bad. A bad cursor refuses every request
  until \<open>_zip_buffer_set_offset\<close> sets it to a position in the block, which makes it good again.
\<close>

theorem zip_buffer_get_bounds:
  assumes "buf_inv b"
  shows "(fst (zip_buffer_get b len) \<noteq> None \<longleftrightarrow>
            buf_ok b \<and> unat len \<le> unat (zip_buffer_left b))
       \<and> (\<forall>p. fst (zip_buffer_get b len) = Some p \<longrightarrow>
            p + unat len \<le> length (buf_data b) \<and>
            unat (buf_offset (snd (zip_buffer_get b len))) = p + unat len)
       \<and> (fst (zip_buffer_get b len) = None \<longrightarrow> snd (zip_buffer_get b len) = b\<lparr>buf_ok := False\<rparr>)
       \<and> (\<forall>off. buf_ok (snd (zip_buffer_set_offset b off)) \<longleftrightarrow> unat off \<le> unat (buf_size b))"
proof -
  have o: "buf_ok (snd (zip_buffer_set_offset b off)) \<longleftrightarrow> unat off \<le> unat (buf_size b)" for off
    by (auto simp: zip_buffer_set_offset_def word_le_nat_alt word_less_nat_alt)
  have "buf_ok b \<and> unat len \<le> unat (zip_buffer_left b) \<longleftrightarrow> room b (unat len)"
    using assms by (auto simp: zip_buffer_left_eq room_def buf_inv_def word_le_nat_alt)
  then show ?thesis
    using assms room_length [of b "unat len"] o by (simp add: get_eq room_offset_add)
qed

theorem zip_buffer_get_bounds_witness:
  "fst (zip_buffer_get \<lparr>buf_ok = True, buf_free_data = False, buf_data = [1, 2, 3],
      buf_size = 3, buf_offset = 1\<rparr> 18446744073709551615) = None"
proof -
  let ?b = "\<lparr>buf_ok = True, buf_free_data = False, buf_data = [1, 2, 3 :: u8],
      buf_size = 3, buf_offset = 1 :: u64\<rparr>"
  have "buf_inv ?b" by (simp add: buf_inv_def)
  from zip_buffer_get_bounds [OF this, of 18446744073709551615] show ?thesis
    by (simp add: zip_buffer_left_def)
qed

text \<open>
  C29. Round trip of the little-endian fields: whatever value of 8, 16, 32 or 64 bits was written
  where there is room, moving the cursor back and reading the same width returns it and leaves
  the cursor where the write left it.
\<close>

theorem zip_buffer_put_get:
  assumes "buf_inv b"
  shows "(room b 1 \<longrightarrow> zip_buffer_get_8 ((snd (zip_buffer_put_8 b v8))\<lparr>buf_offset := buf_offset b\<rparr>)
            = (v8, snd (zip_buffer_put_8 b v8)))
       \<and> (room b 2 \<longrightarrow> zip_buffer_get_16 ((snd (zip_buffer_put_16 b v16))\<lparr>buf_offset := buf_offset b\<rparr>)
            = (v16, snd (zip_buffer_put_16 b v16)))
       \<and> (room b 4 \<longrightarrow> zip_buffer_get_32 ((snd (zip_buffer_put_32 b v32))\<lparr>buf_offset := buf_offset b\<rparr>)
            = (v32, snd (zip_buffer_put_32 b v32)))
       \<and> (room b 8 \<longrightarrow> zip_buffer_get_64 ((snd (zip_buffer_put_64 b v64))\<lparr>buf_offset := buf_offset b\<rparr>)
            = (v64, snd (zip_buffer_put_64 b v64)))"
  using assms field8.get_put [of b v8] field16.get_put [of b v16]
    field32.get_put [of b v32] field64.get_put [of b v64] by simp

theorem zip_buffer_put_get_witness:
  "zip_buffer_get_32 ((snd (zip_buffer_put_32 \<lparr>buf_ok = True, buf_free_data = False,
      buf_data = [0, 0, 0, 0, 0], buf_size = 5, buf_offset = 1\<rparr> 0xDEADBEEF))\<lparr>buf_offset := 1\<rparr>)
   = (0xDEADBEEF, snd (zip_buffer_put_32 \<lparr>buf_ok = True, buf_free_data = False,
      buf_data = [0, 0, 0, 0, 0], buf_size = 5, buf_offset = 1\<rparr> 0xDEADBEEF))"
proof -
  let ?b = "\<lparr>buf_ok = True, buf_free_data = False, buf_data = [0, 0, 0, 0, 0 :: u8],
      buf_size = 5, buf_offset = 1 :: u64\<rparr>"
  have "buf_inv ?b" by (simp add: buf_inv_def)
  from zip_buffer_put_get [OF this, of 0 0 "0xDEADBEEF" 0] show ?thesis by (simp add: room_def)
qed

section \<open>The cursor as a byte string\<close>

text \<open>
  \<open>reads b bs\<close>: a good cursor with exactly the bytes \<open>bs\<close> in front of it. \<open>wrote b bs n\<close>: a good
  cursor with the bytes \<open>bs\<close> behind it and room for \<open>n\<close> more. Sequences of gets and puts are
  followed with these two predicates.
\<close>

definition reads :: "zip_buffer \<Rightarrow> bytes \<Rightarrow> bool" where
  "reads b bs \<longleftrightarrow> buf_inv b \<and> buf_ok b \<and> drop (unat (buf_offset b)) (buf_data b) = bs"

definition wrote :: "zip_buffer \<Rightarrow> bytes \<Rightarrow> nat \<Rightarrow> bool" where
  "wrote b bs n \<longleftrightarrow> buf_inv b \<and> buf_ok b \<and> take (unat (buf_offset b)) (buf_data b) = bs
     \<and> unat (buf_offset b) + n = unat (buf_size b)"

lemma readsD:
  assumes "reads b bs"
  shows "buf_inv b" and "buf_ok b" and "length bs = unat (buf_size b) - unat (buf_offset b)"
    and "room b n \<longleftrightarrow> n \<le> length bs"
  using assms by (auto simp: reads_def buf_inv_def room_def word_le_nat_alt)

lemma wroteD:
  assumes "wrote b bs n"
  shows "buf_inv b" and "buf_ok b" and "unat (buf_offset b) = length bs" and "room b k \<longleftrightarrow> k \<le> n"
  using assms by (auto simp: wrote_def buf_inv_def room_def word_le_nat_alt)

lemma reads_advance:
  assumes "reads b (xs @ rest)" and "unat len = length xs"
  shows "reads (b\<lparr>buf_offset := buf_offset b + len\<rparr>) rest"
proof -
  have r: "room b (unat len)" using readsD(4) [OF assms(1)] assms(2) by simp
  have "drop (unat (buf_offset b) + length xs) (buf_data b) = rest"
    using assms(1) by (metis reads_def append_eq_conv_conj drop_drop add.commute)
  then show ?thesis
    using readsD(1,2) [OF assms(1)] buf_inv_advance [OF _ r] room_offset_add [OF r] assms(2) by (simp add: reads_def)
qed

lemma zip_buffer_get_reads:
  assumes "reads b (xs @ rest)" and "unat len = length xs"
  shows "\<exists>p b1. zip_buffer_get b len = (Some p, b1) \<and> take (length xs) (drop p (buf_data b1)) = xs \<and> reads b1 rest"
proof -
  have "room b (unat len)" using readsD(4) [OF assms(1)] assms(2) by simp
  moreover have "take (length xs) (drop (unat (buf_offset b)) (buf_data b)) = xs"
    using assms(1) by (simp add: reads_def)
  ultimately show ?thesis using reads_advance [OF assms] by (simp add: get_eq)
qed

lemma zip_buffer_left_reads: "reads b bs \<Longrightarrow> unat (zip_buffer_left b) = length bs"
  using readsD [of b bs] by (simp add: zip_buffer_left_eq)

lemma zip_buffer_eof_reads: "reads b bs \<Longrightarrow> zip_buffer_eof b \<longleftrightarrow> bs = []"
  using readsD [of b bs]
  by (auto simp: zip_buffer_eof_def reads_def buf_inv_def word_le_nat_alt intro: word_unat_eq_iff [THEN iffD2])

lemma zip_buffer_new_reads:
  "length bs < 2 ^ 64 \<Longrightarrow> \<exists>b. zip_buffer_new [] (Some bs) (word_of_nat (length bs)) = (Some b, []) \<and> reads b bs \<and> buf_data b = bs"
  by (simp add: zip_buffer_new_def reads_def buf_inv_def unsigned_of_nat take_bit_nat_eq_self)

lemma zip_buffer_new_wrote:
  "length bs < 2 ^ 64 \<Longrightarrow> \<exists>b. zip_buffer_new [] (Some bs) (word_of_nat (length bs)) = (Some b, []) \<and> wrote b [] (length bs)"
  by (simp add: zip_buffer_new_def wrote_def buf_inv_def unsigned_of_nat take_bit_nat_eq_self)

lemma wrote_poke:
  assumes "wrote b bs n" and "length xs \<le> n" and "unat len = length xs"
  shows "wrote (b\<lparr>buf_data := poke (buf_data b) (unat (buf_offset b)) xs, buf_offset := buf_offset b + len\<rparr>)
    (bs @ xs) (n - length xs)"
proof -
  have r: "room b (unat len)" using wroteD(4) [OF assms(1)] assms(2,3) by simp
  have l: "length (buf_data b) = unat (buf_size b)" "unat (buf_offset b) + length xs \<le> unat (buf_size b)"
    using assms by (auto simp: wrote_def buf_inv_def)
  have "take (unat (buf_offset b) + length xs) (poke (buf_data b) (unat (buf_offset b)) xs) = bs @ xs"
    using assms(1) l wroteD(3) [OF assms(1)] by (simp add: poke_def wrote_def)
  then show ?thesis using assms l room_offset_add [OF r]
    by (auto simp: wrote_def buf_inv_def word_le_nat_alt)
qed

lemma zip_buffer_put_wrote:
  assumes "wrote b bs n" and "length xs \<le> n" and "unat len = length xs"
  shows "wrote (snd (zip_buffer_put b xs len)) (bs @ xs) (n - length xs)"
  using wrote_poke [OF assms] wroteD(1,4) [OF assms(1)] assms(2,3) by (simp add: put_eq)

lemma zip_buffer_tell_wrote: "wrote b bs n \<Longrightarrow> unat (zip_buffer_tell b) = length bs"
  using wroteD [of b bs n] by (simp add: zip_buffer_tell_def)

context cursor_field
begin

lemma get_reads:
  assumes "reads b (enc v @ rest)"
  shows "fst (get b) = v" and "reads (snd (get b)) rest"
proof -
  have r: "room b (unat width)" using readsD(4) [OF assms, of "unat width"] by (simp add: enc_length)
  have d: "take (unat width) (drop (unat (buf_offset b)) (buf_data b)) = enc v"
    using assms unfolding reads_def by (simp add: enc_length)
  have g: "get b = (v, b\<lparr>buf_offset := buf_offset b + width\<rparr>)"
    unfolding get_eq [OF readsD(1) [OF assms]] if_P [OF r] d dec_enc by (rule refl)
  show "fst (get b) = v" "reads (snd (get b)) rest"
    unfolding g fst_conv snd_conv by (rule refl, rule reads_advance [OF assms enc_length [symmetric]])
qed

lemma put_wrote:
  assumes "wrote b bs n" and "unat width \<le> n"
  shows "wrote (snd (put b v)) (bs @ enc v) (n - unat width)"
proof -
  have r: "room b (unat width)" using wroteD(4) [OF assms(1), of "unat width"] assms(2) by simp
  have l: "length (enc v) \<le> n" "unat width = length (enc v)" using assms(2) enc_length [of v] by simp_all
  show ?thesis
    using wrote_poke [OF assms(1) l] unfolding put_eq [OF wroteD(1) [OF assms(1)]] if_P [OF r] snd_conv enc_length .
qed

end

lemmas puts_wrote = field8.put_wrote [simplified] field16.put_wrote [simplified] field32.put_wrote [simplified]
  field64.put_wrote [simplified]
lemmas gets_read = field8.get_reads [simplified] field16.get_reads [simplified] field32.get_reads [simplified]
  field64.get_reads [simplified]

text \<open>The same for use backwards, the bytes and the room that result found by unification.\<close>

lemma put_to:
  "wrote b bs n \<Longrightarrow> length xs \<le> n \<Longrightarrow> unat len = length xs \<Longrightarrow> bs @ xs = bs1 \<Longrightarrow> n - length xs = n1 \<Longrightarrow>
    wrote (snd (zip_buffer_put b xs len)) bs1 n1"
  using zip_buffer_put_wrote by blast

lemma puts_to:
  "wrote b bs n \<Longrightarrow> 1 \<le> n \<Longrightarrow> bs @ le_enc 1 (unat v8) = bs1 \<Longrightarrow> n - 1 = n1 \<Longrightarrow> wrote (snd (zip_buffer_put_8 b v8)) bs1 n1"
  "wrote b bs n \<Longrightarrow> 2 \<le> n \<Longrightarrow> bs @ le_enc 2 (unat v16) = bs1 \<Longrightarrow> n - 2 = n1 \<Longrightarrow> wrote (snd (zip_buffer_put_16 b v16)) bs1 n1"
  "wrote b bs n \<Longrightarrow> 4 \<le> n \<Longrightarrow> bs @ le_enc 4 (unat v32) = bs1 \<Longrightarrow> n - 4 = n1 \<Longrightarrow> wrote (snd (zip_buffer_put_32 b v32)) bs1 n1"
  "wrote b bs n \<Longrightarrow> 8 \<le> n \<Longrightarrow> bs @ le_enc 8 (unat v64) = bs1 \<Longrightarrow> n - 8 = n1 \<Longrightarrow> wrote (snd (zip_buffer_put_64 b v64)) bs1 n1"
  using field8.put_wrote [of b bs n v8] field16.put_wrote [of b bs n v16] field32.put_wrote [of b bs n v32]
    field64.put_wrote [of b bs n v64] by auto

end
