(* ===== verification/Zip_Hash.thy ===== *)
theory Zip_Hash
  imports Zip_Error
begin

text \<open>
  The name index of an archive (lib/zip_hash.c): a hash table with chaining that maps an entry
  name to its index in the original archive and its index with the pending changes, with -1 for
  none. A chain is a list of entries in link order; the table pointer is the list of chains, empty
  while it is NULL. \<open>zip_int64_t\<close> values are \<open>int\<close>s and unsigned ones \<open>nat\<close>s; no operation of
  this file can wrap under the invariant (the counts are bounded by the memory). The fill ratios
  are compared in the code as doubles; on the table sizes that occur (powers of two up to 2^31)
  the comparisons are exact and are written over the naturals. The hash pointer is never NULL (an
  archive is created with one), the name pointer is a \<open>bytes option\<close>, and two C strings are equal
  for strcmp when they agree up to the first NUL.
  The locale \<open>name_index\<close> is the interface the archive operations rely on; it is interpreted on
  this table at the end.
\<close>

section \<open>Data\<close>

record zip_hash_entry =
  he_name :: bytes
  he_orig_index :: int
  he_current_index :: int
  he_hash_value :: nat

record zip_hash =
  table_size :: nat
  nentries :: nat
  hash_table :: "zip_hash_entry list list"

abbreviation HASH_MULTIPLIER :: nat where "HASH_MULTIPLIER \<equiv> 33"
abbreviation HASH_START :: nat where "HASH_START \<equiv> 5381"
abbreviation HASH_MIN_SIZE :: nat where "HASH_MIN_SIZE \<equiv> 256"
abbreviation HASH_MAX_SIZE :: nat where "HASH_MAX_SIZE \<equiv> 2147483648"

text \<open>\<open>n > s * HASH_MAX_FILL\<close> and \<open>n < s * HASH_MIN_FILL\<close>, with fill ratios .75 and .01.\<close>

definition over_max_fill :: "nat \<Rightarrow> nat \<Rightarrow> bool" where
  "over_max_fill n s \<longleftrightarrow> 4 * n > 3 * s"

definition under_min_fill :: "nat \<Rightarrow> nat \<Rightarrow> bool" where
  "under_min_fill n s \<longleftrightarrow> 100 * n < s"

abbreviation ZIP_FL_UNCHANGED :: u32 where "ZIP_FL_UNCHANGED \<equiv> 8"

text \<open>The C string at a pointer, and strcmp's equality.\<close>

definition cstr :: "bytes \<Rightarrow> bytes" where
  "cstr s = takeWhile (\<lambda>c. c \<noteq> 0) s"

definition str_eq :: "bytes \<Rightarrow> bytes \<Rightarrow> bool" where
  "str_eq a b \<longleftrightarrow> cstr a = cstr b"

section \<open>Hashing and resizing\<close>

fun hash_string_loop :: "nat \<Rightarrow> bytes \<Rightarrow> nat" where
  "hash_string_loop v [] = v"
| "hash_string_loop v (c # cs) =
     (if c \<noteq> 0 then hash_string_loop ((v * HASH_MULTIPLIER + unat c) mod 0x100000000) cs else v)"

definition hash_string :: "bytes option \<Rightarrow> nat" where
  "hash_string name = (case name of None \<Rightarrow> 0 | Some n \<Rightarrow> hash_string_loop HASH_START n)"

definition rehash_entry :: "nat \<Rightarrow> zip_hash_entry \<Rightarrow> zip_hash_entry list list \<Rightarrow> zip_hash_entry list list" where
  "rehash_entry new_size e tab =
     (let new_index = he_hash_value e mod new_size
      in tab[new_index := e # tab ! new_index])"

definition hash_resize ::
  "mem \<Rightarrow> zip_hash \<Rightarrow> nat \<Rightarrow> zip_error option \<Rightarrow> bool \<times> zip_hash \<times> zip_error option \<times> mem" where
  "hash_resize m h new_size error =
     (if new_size = table_size h then (True, h, error, m)
      else case malloc m of
        (None, m') \<Rightarrow> (False, h, zip_error_set error ZIP_ER_MEMORY 0, m')
      | (Some _, m') \<Rightarrow>
          (let new_table = (if nentries h > 0
                            then fold (rehash_entry new_size) (concat (hash_table h)) (replicate new_size [])
                            else replicate new_size [])
           in (True, h\<lparr>hash_table := new_table, table_size := new_size\<rparr>, error, m')))"

text \<open>
  \<open>capacity / HASH_MAX_FILL\<close> truncated to 32 bits is \<open>4 * capacity div 3\<close> capped at the maximum;
  the rounding to a power of two is the code's own sequence of shifts on 32-bit words.
\<close>

definition round_up_pow2 :: "u32 \<Rightarrow> u32" where
  "round_up_pow2 v0 =
     (let v1 = v0 - 1;
          v2 = v1 OR drop_bit 1 v1;
          v3 = v2 OR drop_bit 2 v2;
          v4 = v3 OR drop_bit 4 v3;
          v5 = v4 OR drop_bit 8 v4;
          v6 = v5 OR drop_bit 16 v5
      in v6 + 1)"

definition size_for_capacity :: "nat \<Rightarrow> nat" where
  "size_for_capacity capacity =
     (let v = (if 4 * capacity > 3 * ZIP_UINT32_MAX then ZIP_UINT32_MAX else 4 * capacity div 3)
      in if v > HASH_MAX_SIZE then HASH_MAX_SIZE
         else unat (round_up_pow2 (word_of_nat v)))"

definition zip_hash_new :: "mem \<Rightarrow> zip_error option \<Rightarrow> zip_hash option \<times> zip_error option \<times> mem" where
  "zip_hash_new m error =
     (case malloc m of
        (None, m') \<Rightarrow> (None, zip_error_set error ZIP_ER_MEMORY 0, m')
      | (Some _, m') \<Rightarrow> (Some \<lparr>table_size = 0, nentries = 0, hash_table = []\<rparr>, error, m'))"

section \<open>Insertion, deletion, lookup\<close>

definition entry_matches :: "nat \<Rightarrow> bytes \<Rightarrow> zip_hash_entry \<Rightarrow> bool" where
  "entry_matches hv name e \<longleftrightarrow> he_hash_value e = hv \<and> str_eq name (he_name e)"

fun upd_first :: "('a \<Rightarrow> bool) \<Rightarrow> ('a \<Rightarrow> 'a) \<Rightarrow> 'a list \<Rightarrow> 'a list" where
  "upd_first P f [] = []"
| "upd_first P f (x # xs) = (if P x then f x # xs else x # upd_first P f xs)"

fun del_first :: "('a \<Rightarrow> bool) \<Rightarrow> 'a list \<Rightarrow> 'a list" where
  "del_first P [] = []"
| "del_first P (x # xs) = (if P x then xs else x # del_first P xs)"

text \<open>Writing through the pointer to the entry of \<open>name\<close>, wherever a resize has put it.\<close>

definition write_entry :: "nat \<Rightarrow> bytes \<Rightarrow> (zip_hash_entry \<Rightarrow> zip_hash_entry) \<Rightarrow> zip_hash \<Rightarrow> zip_hash" where
  "write_entry hv name f h =
     (let i = hv mod table_size h
      in h\<lparr>hash_table := (hash_table h)[i := upd_first (entry_matches hv name) f (hash_table h ! i)]\<rparr>)"

text \<open>The last two assignments of \<open>_zip_hash_add\<close>, through the entry pointer.\<close>

definition set_indices :: "u32 \<Rightarrow> int \<Rightarrow> zip_hash_entry \<Rightarrow> zip_hash_entry" where
  "set_indices flags index e =
     (if flag_set flags ZIP_FL_UNCHANGED then e\<lparr>he_orig_index := index, he_current_index := index\<rparr>
      else e\<lparr>he_current_index := index\<rparr>)"

text \<open>
  The fresh entry's \<open>current_index\<close> is what malloc left there until the last line of the
  function sets it.
\<close>

definition zip_hash_add ::
  "mem \<Rightarrow> zip_hash \<Rightarrow> bytes option \<Rightarrow> nat \<Rightarrow> u32 \<Rightarrow> zip_error option
     \<Rightarrow> bool \<times> zip_hash \<times> zip_error option \<times> mem"
where
  "zip_hash_add m h0 name0 index flags error =
     (case name0 of
        None \<Rightarrow> (False, h0, zip_error_set error ZIP_ER_INVAL 0, m)
      | Some name \<Rightarrow>
        if index > ZIP_INT64_MAX then (False, h0, zip_error_set error ZIP_ER_INVAL 0, m)
        else
        (case (if table_size h0 = 0 then hash_resize m h0 HASH_MIN_SIZE error else (True, h0, error, m)) of
           (False, h, error', m') \<Rightarrow> (False, h, error', m')
         | (True, h, error', m1) \<Rightarrow>
           (let hash_value = hash_string (Some name);
                table_index = hash_value mod table_size h
            in case find (entry_matches hash_value name) (hash_table h ! table_index) of
                 Some entry \<Rightarrow>
                   if (flag_set flags ZIP_FL_UNCHANGED \<and> he_orig_index entry \<noteq> -1)
                      \<or> he_current_index entry \<noteq> -1
                   then (False, h, zip_error_set error' ZIP_ER_EXISTS 0, m1)
                   else (True, write_entry hash_value name (set_indices flags (int index)) h, error', m1)
               | None \<Rightarrow>
                   (case malloc m1 of
                      (None, m2) \<Rightarrow> (False, h, zip_error_set error' ZIP_ER_MEMORY 0, m2)
                    | (Some junk, m2) \<Rightarrow>
                      (let entry = \<lparr>he_name = name, he_orig_index = -1,
                                    he_current_index = sint (word_of_nat junk :: u64),
                                    he_hash_value = hash_value\<rparr>;
                           h1 = h\<lparr>hash_table := (hash_table h)[table_index := entry # hash_table h ! table_index],
                                  nentries := nentries h + 1\<rparr>
                       in case (if over_max_fill (nentries h1) (table_size h1) \<and> table_size h1 < HASH_MAX_SIZE
                                then hash_resize m2 h1 (table_size h1 * 2) error'
                                else (True, h1, error', m2)) of
                            (False, h2, error2, m3) \<Rightarrow> (False, h2, error2, m3)
                          | (True, h2, error2, m3) \<Rightarrow>
                              (True, write_entry hash_value name (set_indices flags (int index)) h2, error2, m3))))))"

definition zip_hash_delete ::
  "mem \<Rightarrow> zip_hash \<Rightarrow> bytes option \<Rightarrow> zip_error option \<Rightarrow> bool \<times> zip_hash \<times> zip_error option \<times> mem"
where
  "zip_hash_delete m h name0 error =
     (case name0 of
        None \<Rightarrow> (False, h, zip_error_set error ZIP_ER_INVAL 0, m)
      | Some name \<Rightarrow>
        if nentries h > 0 then
          (let hash_value = hash_string (Some name);
               index = hash_value mod table_size h;
               chain = hash_table h ! index
           in case find (entry_matches hash_value name) chain of
                None \<Rightarrow> (False, h, zip_error_set error ZIP_ER_NOENT 0, m)
              | Some entry \<Rightarrow>
                if he_orig_index entry = -1 then
                  (let h1 = h\<lparr>hash_table := (hash_table h)[index := del_first (entry_matches hash_value name) chain],
                              nentries := nentries h - 1\<rparr>
                   in if under_min_fill (nentries h1) (table_size h1) \<and> table_size h1 > HASH_MIN_SIZE
                      then hash_resize m h1 (table_size h1 div 2) error
                      else (True, h1, error, m))
                else (True, write_entry hash_value name (\<lambda>e. e\<lparr>he_current_index := -1\<rparr>) h, error, m))
        else (False, h, zip_error_set error ZIP_ER_NOENT 0, m))"

definition zip_hash_lookup :: "zip_hash \<Rightarrow> bytes option \<Rightarrow> u32 \<Rightarrow> zip_error option \<Rightarrow> int \<times> zip_error option" where
  "zip_hash_lookup h name0 flags error =
     (case name0 of
        None \<Rightarrow> (-1, zip_error_set error ZIP_ER_INVAL 0)
      | Some name \<Rightarrow>
        (let not_found = (-1, zip_error_set error ZIP_ER_NOENT 0)
         in if nentries h > 0 then
              (let hash_value = hash_string (Some name);
                   index = hash_value mod table_size h
               in case find (\<lambda>e. str_eq name (he_name e)) (hash_table h ! index) of
                    None \<Rightarrow> not_found
                  | Some entry \<Rightarrow>
                      if flag_set flags ZIP_FL_UNCHANGED
                      then if he_orig_index entry \<noteq> -1 then (he_orig_index entry, error) else not_found
                      else if he_current_index entry \<noteq> -1 then (he_current_index entry, error) else not_found)
            else not_found))"

definition zip_hash_reserve_capacity ::
  "mem \<Rightarrow> zip_hash \<Rightarrow> nat \<Rightarrow> zip_error option \<Rightarrow> bool \<times> zip_hash \<times> zip_error option \<times> mem" where
  "zip_hash_reserve_capacity m h capacity error =
     (if capacity = 0 then (True, h, error, m)
      else (let new_size = size_for_capacity capacity
            in if new_size \<le> table_size h then (True, h, error, m)
               else hash_resize m h new_size error))"

text \<open>The shrinking loop of \<open>_zip_hash_revert\<close>.\<close>

fun revert_size :: "nat \<Rightarrow> nat \<Rightarrow> nat" where
  "revert_size n new_size =
     (if under_min_fill n new_size \<and> new_size > HASH_MIN_SIZE then revert_size n (new_size div 2)
      else new_size)"

declare revert_size.simps [simp del]

definition revert_chain :: "zip_hash_entry list \<Rightarrow> zip_hash_entry list" where
  "revert_chain chain =
     map (\<lambda>e. e\<lparr>he_current_index := he_orig_index e\<rparr>) (filter (\<lambda>e. he_orig_index e \<noteq> -1) chain)"

definition zip_hash_revert :: "mem \<Rightarrow> zip_hash \<Rightarrow> zip_error option \<Rightarrow> bool \<times> zip_hash \<times> zip_error option \<times> mem" where
  "zip_hash_revert m h error =
     (let removed = length (filter (\<lambda>e. he_orig_index e = -1) (concat (hash_table h)));
          h1 = h\<lparr>hash_table := map revert_chain (hash_table h), nentries := nentries h - removed\<rparr>
      in if under_min_fill (nentries h1) (table_size h1) \<and> table_size h1 > HASH_MIN_SIZE
         then hash_resize m h1 (revert_size (nentries h1) (table_size h1 div 2)) error
         else (True, h1, error, m))"

section \<open>Invariant and abstraction\<close>

definition he_key :: "zip_hash_entry \<Rightarrow> bytes" where
  "he_key e = cstr (he_name e)"

definition entry_ok :: "nat \<Rightarrow> nat \<Rightarrow> zip_hash_entry \<Rightarrow> bool" where
  "entry_ok s i e \<longleftrightarrow> he_hash_value e = hash_string (Some (he_name e)) \<and> he_hash_value e mod s = i"

definition index_ok :: "zip_hash_entry \<Rightarrow> bool" where
  "index_ok e \<longleftrightarrow> -1 \<le> he_orig_index e \<and> -1 \<le> he_current_index e
     \<and> (he_orig_index e \<noteq> -1 \<or> he_current_index e \<noteq> -1)"

definition bucket_ok :: "nat \<Rightarrow> nat \<Rightarrow> zip_hash_entry list \<Rightarrow> bool" where
  "bucket_ok s i xs \<longleftrightarrow> (\<forall>e\<in>set xs. entry_ok s i e) \<and> distinct (map he_key xs)"

text \<open>
  Every entry sits in the chain of its hash value, no name occurs twice, the count is right and
  the size is zero or a power of two.
\<close>

definition table_inv :: "zip_hash \<Rightarrow> bool" where
  "table_inv h \<longleftrightarrow> length (hash_table h) = table_size h
     \<and> (\<forall>i<table_size h. bucket_ok (table_size h) i (hash_table h ! i))
     \<and> nentries h = length (concat (hash_table h))
     \<and> (table_size h = 0 \<or> (\<exists>k\<le>31. table_size h = 2 ^ k))"

definition hash_inv :: "zip_hash \<Rightarrow> bool" where
  "hash_inv h \<longleftrightarrow> table_inv h \<and> (\<forall>e\<in>set (concat (hash_table h)). index_ok e)"

definition find_entry :: "zip_hash \<Rightarrow> bytes \<Rightarrow> zip_hash_entry option" where
  "find_entry h n =
     (if table_size h = 0 then None
      else find (\<lambda>e. he_key e = cstr n) (hash_table h ! (hash_string (Some n) mod table_size h)))"

text \<open>The two maps the table stands for: the index of a name originally and now.\<close>

definition orig_of :: "zip_hash \<Rightarrow> bytes \<Rightarrow> nat option" where
  "orig_of h n = (case find_entry h n of None \<Rightarrow> None
     | Some e \<Rightarrow> if he_orig_index e = -1 then None else Some (nat (he_orig_index e)))"

definition cur_of :: "zip_hash \<Rightarrow> bytes \<Rightarrow> nat option" where
  "cur_of h n = (case find_entry h n of None \<Rightarrow> None
     | Some e \<Rightarrow> if he_current_index e = -1 then None else Some (nat (he_current_index e)))"

subsection \<open>Names\<close>

lemma hash_string_loop_cstr: "hash_string_loop v (cstr n) = hash_string_loop v n"
  by (induction v n rule: hash_string_loop.induct) (simp_all add: cstr_def)

lemma hash_string_cong: "cstr a = cstr b \<Longrightarrow> hash_string (Some a) = hash_string (Some b)"
  unfolding hash_string_def option.case
  by (subst (1 2) hash_string_loop_cstr [symmetric]) simp

lemma str_eq_key: "str_eq n (he_name e) \<longleftrightarrow> he_key e = cstr n"
  by (auto simp: str_eq_def he_key_def)

lemma entry_matches_key:
  "entry_ok s i e \<Longrightarrow> entry_matches (hash_string (Some n)) n e \<longleftrightarrow> he_key e = cstr n"
  by (auto simp: entry_matches_def entry_ok_def str_eq_key) (auto simp: he_key_def dest: hash_string_cong)

subsection \<open>Chains\<close>

lemma find_cong_set: "(\<And>x. x \<in> set xs \<Longrightarrow> P x = Q x) \<Longrightarrow> find P xs = find Q xs"
  by (induction xs) auto

lemma upd_first_cong: "(\<And>x. x \<in> set xs \<Longrightarrow> P x = Q x) \<Longrightarrow> upd_first P f xs = upd_first Q f xs"
  by (induction xs) auto

lemma del_first_cong: "(\<And>x. x \<in> set xs \<Longrightarrow> P x = Q x) \<Longrightarrow> del_first P xs = del_first Q xs"
  by (induction xs) auto

lemma find_upd_first:
  assumes "\<And>e. k (f e) = k e"
  shows "find (\<lambda>e. k e = c') (upd_first (\<lambda>e. k e = c) f xs) =
    (if c' = c then map_option f (find (\<lambda>e. k e = c) xs) else find (\<lambda>e. k e = c') xs)"
  using assms by (induction xs) auto

lemma map_key_upd_first: "(\<And>e. k (f e) = k e) \<Longrightarrow> map k (upd_first P f xs) = map k xs"
  by (induction xs) auto

lemma length_upd_first [simp]: "length (upd_first P f xs) = length xs"
  by (induction xs) auto

lemma set_upd_first: "set (upd_first P f xs) \<subseteq> set xs \<union> f ` {x \<in> set xs. P x}"
  by (induction xs) auto

lemma set_del_first: "set (del_first P xs) \<subseteq> set xs"
  by (induction xs) auto

lemma length_del_first: "find P xs \<noteq> None \<Longrightarrow> Suc (length (del_first P xs)) = length xs"
  by (induction xs) auto

lemma distinct_del_first: "distinct (map k xs) \<Longrightarrow> distinct (map k (del_first P xs))"
  by (induction xs) (use set_del_first in force)+

lemma find_del_first:
  assumes "distinct (map k xs)"
  shows "find (\<lambda>e. k e = c') (del_first (\<lambda>e. k e = c) xs) =
    (if c' = c then None else find (\<lambda>e. k e = c') xs)"
  using assms by (induction xs) (auto simp: find_None_iff image_iff)

lemma find_unique:
  "distinct (map k xs) \<Longrightarrow> find (\<lambda>e. k e = c) xs = Some e \<longleftrightarrow> e \<in> set xs \<and> k e = c"
  by (induction xs) auto

subsection \<open>The table\<close>

lemma table_invD:
  assumes "table_inv h" and "i < table_size h"
  shows "bucket_ok (table_size h) i (hash_table h ! i)" and "i < length (hash_table h)"
  using assms by (simp_all add: table_inv_def)

lemma mod_table_size: "table_size h \<noteq> 0 \<Longrightarrow> v mod table_size h < table_size h"
  by simp

lemma find_matches:
  assumes "table_inv h" and "table_size h \<noteq> 0"
  shows "find (entry_matches (hash_string (Some n)) n) (hash_table h ! (hash_string (Some n) mod table_size h))
       = find_entry h n"
  using table_invD(1) [OF assms(1) mod_table_size [OF assms(2), of "hash_string (Some n)"]] assms(2)
  unfolding find_entry_def bucket_ok_def
  by (auto intro!: find_cong_set entry_matches_key)

lemma find_entry_Some:
  assumes "table_inv h"
  shows "find_entry h n = Some e \<longleftrightarrow> e \<in> set (concat (hash_table h)) \<and> he_key e = cstr n"
proof (cases "table_size h = 0")
  case True
  with assms show ?thesis by (simp add: find_entry_def table_inv_def)
next
  case False
  let ?i = "hash_string (Some n) mod table_size h"
  have b: "bucket_ok (table_size h) ?i (hash_table h ! ?i)" and len: "?i < length (hash_table h)"
    using table_invD [OF assms mod_table_size [OF False]] by auto
  have here: "e \<in> set (hash_table h ! ?i)" if "e \<in> set (concat (hash_table h))" "he_key e = cstr n"
  proof -
    from that(1) obtain j where j: "j < length (hash_table h)" "e \<in> set (hash_table h ! j)"
      by (auto simp: in_set_concat_nth simp del: set_concat)
    with assms have "bucket_ok (table_size h) j (hash_table h ! j)" by (simp add: table_inv_def)
    with j(2) have "he_hash_value e = hash_string (Some (he_name e))" "he_hash_value e mod table_size h = j"
      by (auto simp: bucket_ok_def entry_ok_def)
    moreover have "hash_string (Some (he_name e)) = hash_string (Some n)"
      using that(2) by (intro hash_string_cong) (simp add: he_key_def)
    ultimately show ?thesis using j(2) by simp
  qed
  show ?thesis
    using b False here find_unique [of he_key "hash_table h ! ?i" "cstr n" e] nth_mem [OF len]
    by (auto simp: find_entry_def bucket_ok_def)
qed

lemma find_entry_eqI:
  assumes "table_inv h" and "table_inv h'"
    and "\<And>e. e \<in> set (concat (hash_table h')) \<longleftrightarrow> e \<in> set (concat (hash_table h))"
  shows "find_entry h' n = find_entry h n"
proof -
  have "find_entry h' n = Some e \<longleftrightarrow> find_entry h n = Some e" for e
    by (simp only: find_entry_Some [OF assms(1)] find_entry_Some [OF assms(2)] assms(3))
  then show ?thesis by (metis option.exhaust)
qed

lemma distinct_keys:
  assumes "table_inv h"
  shows "distinct (map he_key (concat (hash_table h)))"
proof -
  have gen: "distinct (map he_key (concat tab))"
    if "\<And>i. i < length tab \<Longrightarrow> distinct (map he_key (tab ! i))"
      "\<And>i j e f. i < length tab \<Longrightarrow> j < length tab \<Longrightarrow> e \<in> set (tab ! i) \<Longrightarrow> f \<in> set (tab ! j) \<Longrightarrow>
         he_key e = he_key f \<Longrightarrow> i = j" for tab :: "zip_hash_entry list list"
    using that
  proof (induction tab)
    case (Cons xs tab)
    have "distinct (map he_key xs)" using Cons.prems(1) [of 0] by simp
    moreover have "distinct (map he_key (concat tab))"
    proof (rule Cons.IH)
      show "i < length tab \<Longrightarrow> distinct (map he_key (tab ! i))" for i
        using Cons.prems(1) [of "Suc i"] by simp
      show "i = j" if "i < length tab" "j < length tab" "e \<in> set (tab ! i)" "f \<in> set (tab ! j)"
        "he_key e = he_key f" for i j e f
        using Cons.prems(2) [of "Suc i" "Suc j" e f] that by simp
    qed
    moreover have "he_key e \<noteq> he_key f" if "e \<in> set xs" "f \<in> set (concat tab)" for e f
    proof -
      from that(2) obtain j where "j < length tab" "f \<in> set (tab ! j)"
        by (auto simp: in_set_concat_nth simp del: set_concat)
      then show ?thesis using Cons.prems(2) [of 0 "Suc j" e f] that(1) by auto
    qed
    then have "he_key ` set xs \<inter> he_key ` set (concat tab) = {}" by blast
    ultimately show ?case by (simp add: distinct_map)
  qed simp
  show ?thesis
  proof (rule gen)
    show "distinct (map he_key (hash_table h ! i))" if "i < length (hash_table h)" for i
      using assms that by (simp add: table_inv_def bucket_ok_def)
    show "i = j" if "i < length (hash_table h)" "j < length (hash_table h)" "e \<in> set (hash_table h ! i)"
      "f \<in> set (hash_table h ! j)" "he_key e = he_key f" for i j e f
    proof -
      have "entry_ok (table_size h) i e" "entry_ok (table_size h) j f"
        using assms that by (auto simp: table_inv_def bucket_ok_def)
      moreover have "hash_string (Some (he_name e)) = hash_string (Some (he_name f))"
        using that(5) by (intro hash_string_cong) (simp add: he_key_def)
      ultimately show ?thesis by (auto simp: entry_ok_def)
    qed
  qed
qed

subsection \<open>Resizing\<close>

lemma length_concat_update:
  "i < length tab \<Longrightarrow> length (concat (tab[i := xs])) + length (tab ! i) = length (concat tab) + length xs"
  by (induction tab arbitrary: i) (auto split: nat.splits)

definition rehashed :: "nat \<Rightarrow> zip_hash_entry list \<Rightarrow> zip_hash_entry list list \<Rightarrow> bool" where
  "rehashed s es tab \<longleftrightarrow> length tab = s
     \<and> (\<forall>i < s. set (tab ! i) = {e \<in> set es. he_hash_value e mod s = i} \<and> distinct (map he_key (tab ! i)))
     \<and> length (concat tab) = length es"

lemma rehashed_step:
  assumes "rehashed s es tab" and "0 < s" and "he_key e \<notin> he_key ` set es"
  shows "rehashed s (es @ [e]) (rehash_entry s e tab)"
proof -
  let ?i = "he_hash_value e mod s"
  have i: "?i < length tab" using assms(1,2) by (simp add: rehashed_def)
  have len: "length (concat (tab[?i := e # tab ! ?i])) = Suc (length (concat tab))"
    using length_concat_update [OF i, of "e # tab ! ?i"] by (simp del: length_concat)
  have "he_key e \<notin> he_key ` set (tab ! ?i)"
    using assms i by (auto simp: rehashed_def)
  then show ?thesis
    using assms(1,2) i len
    by (auto simp: rehashed_def rehash_entry_def Let_def nth_list_update simp del: length_concat)
qed

lemma rehashed_fold:
  assumes "0 < s" and "rehashed s done tab" and "distinct (map he_key (done @ es))"
  shows "rehashed s (done @ es) (fold (rehash_entry s) es tab)"
  using assms(2,3)
proof (induction es arbitrary: "done" tab)
  case (Cons e es)
  have "he_key e \<notin> he_key ` set done" using Cons.prems(2) by (auto simp: image_iff)
  from rehashed_step [OF Cons.prems(1) assms(1) this]
  have "rehashed s (done @ [e]) (rehash_entry s e tab)" .
  from Cons.IH [OF this] Cons.prems(2) show ?case by simp
qed simp

lemma rehashed_empty: "rehashed s [] (replicate s [])"
  by (simp add: rehashed_def)

definition pow2_size :: "nat \<Rightarrow> bool" where
  "pow2_size s \<longleftrightarrow> (\<exists>k\<le>31. s = 2 ^ k)"

lemma pow2_size_pos: "pow2_size s \<Longrightarrow> 0 < s"
  by (auto simp: pow2_size_def)

text \<open>A resize, successful or not, moves entries between chains and changes nothing else.\<close>

lemma hash_resize_spec:
  assumes inv: "table_inv h" and s: "pow2_size s" and r: "hash_resize m h s error = (ok, h', error', m')"
  shows "table_inv h'" and "set (concat (hash_table h')) = set (concat (hash_table h))"
    and "nentries h' = nentries h" and "ok \<Longrightarrow> table_size h' = s" and "\<not> ok \<Longrightarrow> h' = h"
proof -
  let ?es = "concat (hash_table h)"
  let ?tab = "fold (rehash_entry s) ?es (replicate s [])"
  have re: "rehashed s ([] @ ?es) ?tab"
    using rehashed_fold [OF pow2_size_pos [OF s] rehashed_empty, of ?es] distinct_keys [OF inv] by simp
  have tab: "(if nentries h > 0 then ?tab else replicate s []) = ?tab"
  proof (cases "nentries h > 0")
    case False
    with inv have "length ?es = 0" by (simp add: table_inv_def del: length_concat)
    then have "?es = []" by (simp only: length_0_conv)
    with False show ?thesis by (simp only: fold.simps id_apply) simp
  qed simp
  let ?h = "h\<lparr>hash_table := ?tab, table_size := s\<rparr>"
  have bucket: "bucket_ok s i (?tab ! i)" if "i < s" for i
  proof -
    have "entry_ok s i e" if e: "e \<in> set (?tab ! i)" for e
    proof -
      from e re \<open>i < s\<close> have "e \<in> set ?es" "he_hash_value e mod s = i" by (auto simp: rehashed_def)
      moreover from this(1) obtain j where "j < length (hash_table h)" "e \<in> set (hash_table h ! j)"
        by (auto simp: in_set_concat_nth simp del: set_concat)
      ultimately show ?thesis using inv by (auto simp: table_inv_def bucket_ok_def entry_ok_def)
    qed
    then show ?thesis using re that by (simp add: rehashed_def bucket_ok_def)
  qed
  have set: "set (concat ?tab) = set ?es"
  proof (rule set_eqI)
    fix e
    have "e \<in> set (concat ?tab) \<longleftrightarrow> (\<exists>i < s. e \<in> set (?tab ! i))"
      using re by (simp add: in_set_concat_nth rehashed_def del: set_concat)
    also have "\<dots> \<longleftrightarrow> (\<exists>i < s. e \<in> set ?es \<and> he_hash_value e mod s = i)"
      using re by (auto simp: rehashed_def simp del: set_concat)
    also have "\<dots> \<longleftrightarrow> e \<in> set ?es" using pow2_size_pos [OF s] by (auto simp del: set_concat)
    finally show "e \<in> set (concat ?tab) \<longleftrightarrow> e \<in> set ?es" .
  qed
  have inv': "table_inv ?h"
    using re inv s bucket by (auto simp: table_inv_def rehashed_def pow2_size_def simp del: length_concat)
  have "hash_resize m h s error =
     (if s = table_size h then (True, h, error, m)
      else case malloc m of
        (None, m') \<Rightarrow> (False, h, zip_error_set error ZIP_ER_MEMORY 0, m')
      | (Some _, m') \<Rightarrow> (True, ?h, error, m'))"
    by (simp only: hash_resize_def Let_def tab)
  with r have "(ok \<and> h' = h \<and> s = table_size h) \<or> (\<not> ok \<and> h' = h) \<or> (ok \<and> h' = ?h)"
    by (simp split: if_splits prod.splits option.splits)
  then show "table_inv h'" "set (concat (hash_table h')) = set (concat (hash_table h))"
    "nentries h' = nentries h" "ok \<Longrightarrow> table_size h' = s" "\<not> ok \<Longrightarrow> h' = h"
    using set inv inv' by (elim disjE; simp del: set_concat)+
qed

lemma hash_resize_find:
  assumes "table_inv h" and "pow2_size s" and "hash_resize m h s error = (ok, h', error', m')"
  shows "find_entry h' n = find_entry h n"
  using hash_resize_spec [OF assms] assms(1) by (intro find_entry_eqI) (simp_all del: set_concat)

lemma hash_resize_inv:
  assumes "hash_inv h" and "pow2_size s" and "hash_resize m h s error = (ok, h', error', m')"
  shows "hash_inv h'"
  using hash_resize_spec [OF _ assms(2,3)] assms(1) by (simp add: hash_inv_def del: set_concat)

lemma hash_resize_no_oom: "fst (hash_resize [] h s error)"
  by (simp add: hash_resize_def)

subsection \<open>Changing one chain\<close>

lemma nentries_eq: "table_inv h \<Longrightarrow> nentries h = length (concat (hash_table h))"
  unfolding table_inv_def by blast

lemma table_inv_update:
  assumes inv: "table_inv h" and i: "i < table_size h" and b: "bucket_ok (table_size h) i xs"
    and n: "n + length (hash_table h ! i) = nentries h + length xs"
  shows "table_inv (h\<lparr>hash_table := (hash_table h)[i := xs], nentries := n\<rparr>)"
proof -
  have "i < length (hash_table h)" using inv i by (simp add: table_inv_def)
  from length_concat_update [OF this, of xs] n nentries_eq [OF inv]
  have eq: "n = length (concat ((hash_table h)[i := xs]))" by linarith
  have 1: "length (hash_table h) = table_size h" "\<forall>j<table_size h. bucket_ok (table_size h) j (hash_table h ! j)"
    "table_size h = 0 \<or> (\<exists>k\<le>31. table_size h = 2 ^ k)"
    using inv unfolding table_inv_def by blast+
  have "\<forall>j<table_size h. bucket_ok (table_size h) j ((hash_table h)[i := xs] ! j)"
    using 1(1,2) b i by (auto simp: nth_list_update)
  with 1 eq show ?thesis unfolding table_inv_def by (simp del: length_concat)
qed

lemma hash_index_cong: "cstr a = cstr b \<Longrightarrow> hash_string (Some a) mod s = hash_string (Some b) mod s"
  using hash_string_cong [of a b] by simp

lemma find_entry_update:
  assumes inv: "table_inv h" and nz: "table_size h \<noteq> 0" and i: "i = hash_string (Some n) mod table_size h"
    and xs: "\<And>k. hash_string (Some k) mod table_size h = i \<Longrightarrow>
      find (\<lambda>e. he_key e = cstr k) xs = (if cstr k = cstr n then v else find_entry h k)"
  shows "find_entry (h\<lparr>hash_table := (hash_table h)[i := xs], nentries := c\<rparr>) k =
    (if cstr k = cstr n then v else find_entry h k)"
proof (cases "hash_string (Some k) mod table_size h = i")
  case True
  moreover have "i < length (hash_table h)" using inv i nz by (simp add: table_inv_def)
  ultimately show ?thesis using xs [OF True] nz by (simp add: find_entry_def)
next
  case False
  then have "cstr k \<noteq> cstr n" using hash_index_cong [of k n "table_size h"] i by blast
  with False nz show ?thesis by (simp add: find_entry_def)
qed

lemma set_concat_update:
  "i < length tab \<Longrightarrow> e \<in> set (concat (tab[i := xs])) \<Longrightarrow> e \<in> set xs \<or> e \<in> set (concat tab)"
  by (auto simp: in_set_concat_nth nth_list_update simp del: set_concat split: if_splits)

lemma chain_ok:
  assumes "table_inv h" and "table_size h \<noteq> 0"
  shows "bucket_ok (table_size h) (hash_string (Some n) mod table_size h)
           (hash_table h ! (hash_string (Some n) mod table_size h))"
  using table_invD(1) [OF assms(1) mod_table_size [OF assms(2)]] .

lemma chain_find:
  assumes "table_size h \<noteq> 0" and "hash_string (Some k) mod table_size h = hash_string (Some n) mod table_size h"
  shows "find (\<lambda>e. he_key e = cstr k) (hash_table h ! (hash_string (Some n) mod table_size h)) = find_entry h k"
  using assms by (simp add: find_entry_def)

lemma matches_in_chain:
  assumes "bucket_ok s i xs"
  shows "\<And>e. e \<in> set xs \<Longrightarrow> entry_matches (hash_string (Some n)) n e \<longleftrightarrow> he_key e = cstr n"
  using assms by (auto simp: bucket_ok_def intro!: entry_matches_key)

lemma write_entry_spec:
  assumes inv: "table_inv h" and nz: "table_size h \<noteq> 0"
    and f: "\<And>e. he_name (f e) = he_name e" "\<And>e. he_hash_value (f e) = he_hash_value e"
    and def: "h' = write_entry (hash_string (Some n)) n f h"
  shows "table_inv h'"
    and "\<And>k. find_entry h' k = (if cstr k = cstr n then map_option f (find_entry h n) else find_entry h k)"
    and "\<And>e. e \<in> set (concat (hash_table h')) \<Longrightarrow>
           e \<in> set (concat (hash_table h)) \<or> (\<exists>e'. find_entry h n = Some e' \<and> e = f e')"
proof -
  let ?i = "hash_string (Some n) mod table_size h" and ?xs = "hash_table h ! (hash_string (Some n) mod table_size h)"
  let ?ys = "upd_first (\<lambda>e. he_key e = cstr n) f ?xs"
  note b = chain_ok [OF inv nz, of n]
  have i: "?i < table_size h" "?i < length (hash_table h)"
    using inv mod_table_size [OF nz] by (simp_all add: table_inv_def)
  have key: "he_key (f e) = he_key e" for e by (simp add: he_key_def f)
  have ys: "upd_first (entry_matches (hash_string (Some n)) n) f ?xs = ?ys"
    by (rule upd_first_cong) (rule matches_in_chain [OF b])
  then have h': "h' = h\<lparr>hash_table := (hash_table h)[?i := ?ys], nentries := nentries h\<rparr>"
    by (simp add: def write_entry_def Let_def)
  have "entry_ok (table_size h) ?i (f e)" if "entry_ok (table_size h) ?i e" for e
    using that unfolding entry_ok_def f .
  then have b': "bucket_ok (table_size h) ?i ?ys"
    using b set_upd_first [of "\<lambda>e. he_key e = cstr n" f ?xs]
    by (auto simp: bucket_ok_def map_key_upd_first [of he_key f, OF key])
  then show "table_inv h'" unfolding h' by (intro table_inv_update [OF inv i(1)]) simp_all
  show "find_entry h' k = (if cstr k = cstr n then map_option f (find_entry h n) else find_entry h k)" for k
    unfolding h'
  proof (rule find_entry_update [OF inv nz refl])
    fix k assume "hash_string (Some k) mod table_size h = ?i"
    then show "find (\<lambda>e. he_key e = cstr k) ?ys =
      (if cstr k = cstr n then map_option f (find_entry h n) else find_entry h k)"
      using find_upd_first [of he_key f "cstr k" "cstr n" ?xs, OF key] chain_find [OF nz, of k n]
        chain_find [OF nz refl, of n] by simp
  qed
  show "e \<in> set (concat (hash_table h)) \<or> (\<exists>e'. find_entry h n = Some e' \<and> e = f e')"
    if "e \<in> set (concat (hash_table h'))" for e
  proof -
    from that h' have "e \<in> set ?ys \<or> e \<in> set (concat (hash_table h))"
      using set_concat_update [OF i(2), of e ?ys] by (simp del: set_concat)
    moreover have "e \<in> set (concat (hash_table h)) \<or> (\<exists>e'. find_entry h n = Some e' \<and> e = f e')"
      if "e \<in> set ?ys"
    proof -
      have "set ?xs \<subseteq> set (concat (hash_table h))" using nth_mem [OF i(2)] by auto
      moreover have "e \<in> set ?xs \<or> (\<exists>x\<in>set ?xs. he_key x = cstr n \<and> e = f x)"
        using that set_upd_first [of "\<lambda>e. he_key e = cstr n" f ?xs] by blast
      ultimately show ?thesis using find_entry_Some [OF inv, of n] by blast
    qed
    ultimately show ?thesis by blast
  qed
qed

lemma insert_entry_spec:
  assumes inv: "table_inv h" and nz: "table_size h \<noteq> 0" and new: "find_entry h n = None"
    and e: "he_name e = n" "he_hash_value e = hash_string (Some n)"
    and def: "h' = h\<lparr>hash_table := (hash_table h)[hash_string (Some n) mod table_size h :=
      e # hash_table h ! (hash_string (Some n) mod table_size h)], nentries := nentries h + 1\<rparr>"
  shows "table_inv h'"
    and "\<And>k. find_entry h' k = (if cstr k = cstr n then Some e else find_entry h k)"
    and "\<And>e'. e' \<in> set (concat (hash_table h')) \<Longrightarrow> e' = e \<or> e' \<in> set (concat (hash_table h))"
proof -
  let ?i = "hash_string (Some n) mod table_size h" and ?xs = "hash_table h ! (hash_string (Some n) mod table_size h)"
  note b = chain_ok [OF inv nz, of n]
  have i: "?i < table_size h" "?i < length (hash_table h)"
    using inv mod_table_size [OF nz] by (simp_all add: table_inv_def)
  have key: "he_key e = cstr n" by (simp add: he_key_def e)
  have "find (\<lambda>e. he_key e = cstr n) ?xs = None" using new nz by (simp add: find_entry_def)
  then have "bucket_ok (table_size h) ?i (e # ?xs)"
    using b e by (auto simp: bucket_ok_def entry_ok_def he_key_def find_None_iff)
  then show "table_inv h'" unfolding def by (intro table_inv_update [OF inv i(1)]) simp_all
  show "find_entry h' k = (if cstr k = cstr n then Some e else find_entry h k)" for k
    unfolding def
    by (rule find_entry_update [OF inv nz refl]) (auto simp: key chain_find [OF nz])
  show "e' = e \<or> e' \<in> set (concat (hash_table h))" if "e' \<in> set (concat (hash_table h'))" for e'
    using set_concat_update [OF i(2), of e' "e # ?xs"] that nth_mem [OF i(2)]
    by (auto simp: def simp del: set_concat) auto
qed

lemma delete_entry_spec:
  assumes inv: "table_inv h" and nz: "table_size h \<noteq> 0" and old: "find_entry h n \<noteq> None"
    and def: "h' = h\<lparr>hash_table := (hash_table h)[hash_string (Some n) mod table_size h :=
      del_first (entry_matches (hash_string (Some n)) n) (hash_table h ! (hash_string (Some n) mod table_size h))],
      nentries := nentries h - 1\<rparr>"
  shows "table_inv h'"
    and "\<And>k. find_entry h' k = (if cstr k = cstr n then None else find_entry h k)"
    and "\<And>e'. e' \<in> set (concat (hash_table h')) \<Longrightarrow> e' \<in> set (concat (hash_table h))"
proof -
  let ?i = "hash_string (Some n) mod table_size h" and ?xs = "hash_table h ! (hash_string (Some n) mod table_size h)"
  let ?ys = "del_first (\<lambda>e. he_key e = cstr n) ?xs"
  note b = chain_ok [OF inv nz, of n]
  have i: "?i < table_size h" "?i < length (hash_table h)"
    using inv mod_table_size [OF nz] by (simp_all add: table_inv_def)
  have ys: "del_first (entry_matches (hash_string (Some n)) n) ?xs = ?ys"
    by (rule del_first_cong) (rule matches_in_chain [OF b])
  have len: "Suc (length ?ys) = length ?xs"
    using old nz by (intro length_del_first) (simp add: find_entry_def)
  have "length ?xs \<le> length (concat (hash_table h))"
    using length_concat_update [OF i(2), of "[]"] by (simp del: length_concat)
  then have pos: "0 < nentries h" using nentries_eq [OF inv] len by linarith
  have "bucket_ok (table_size h) ?i ?ys"
    using b set_del_first [of "\<lambda>e. he_key e = cstr n" ?xs] by (auto simp: bucket_ok_def distinct_del_first)
  then show "table_inv h'"
    unfolding def ys using len pos by (intro table_inv_update [OF inv i(1)]) simp_all
  show "find_entry h' k = (if cstr k = cstr n then None else find_entry h k)" for k
    unfolding def ys
    using b by (intro find_entry_update [OF inv nz refl]) (simp add: find_del_first bucket_ok_def chain_find [OF nz])
  show "e' \<in> set (concat (hash_table h))" if "e' \<in> set (concat (hash_table h'))" for e'
    using set_concat_update [OF i(2), of e' ?ys] that nth_mem [OF i(2)]
      set_del_first [of "\<lambda>e. he_key e = cstr n" ?xs]
    by (auto simp: def ys simp del: set_concat) auto
qed

section \<open>Rounding up to a power of two\<close>

lemma spread_step:
  assumes "\<And>i. bit w i \<longleftrightarrow> (\<exists>d<m. bit x (i + d))"
  shows "bit (w OR drop_bit m w) i \<longleftrightarrow> (\<exists>d<2 * m. bit (x::u32) (i + d))"
proof
  assume "bit (w OR drop_bit m w) i"
  then have "bit w i \<or> bit w (m + i)" by (simp add: bit_or_iff bit_drop_bit_eq)
  then show "\<exists>d<2 * m. bit x (i + d)"
  proof
    assume "bit w i"
    with assms obtain d where "d < m" "bit x (i + d)" by blast
    then show ?thesis by (intro exI [of _ d]) simp
  next
    assume "bit w (m + i)"
    with assms obtain d where "d < m" "bit x (m + i + d)" by blast
    then show ?thesis by (intro exI [of _ "m + d"]) (simp add: ac_simps)
  qed
next
  assume "\<exists>d<2 * m. bit x (i + d)"
  then obtain d where d: "d < 2 * m" "bit x (i + d)" by blast
  then have "bit w i \<or> bit w (m + i)"
  proof (cases "d < m")
    case False
    then have "d - m < m" "m + i + (d - m) = i + d" using d by simp_all
    with d(2) assms [of "m + i"] show ?thesis by metis
  qed (use assms d in blast)
  then show "bit (w OR drop_bit m w) i" by (simp add: bit_or_iff bit_drop_bit_eq)
qed

lemma bit_above_iff:
  "(\<exists>d. bit (X::nat) (i + d)) \<longleftrightarrow> 2 ^ i \<le> X"
proof -
  have "(\<exists>d. bit X (i + d)) \<longleftrightarrow> drop_bit i X \<noteq> 0"
    by (auto simp: bit_eq_iff bit_drop_bit_eq)
  also have "\<dots> \<longleftrightarrow> 2 ^ i \<le> X"
    by (simp add: drop_bit_eq_div div_eq_0_iff not_less)
  finally show ?thesis .
qed

lemma bit_unat_eq: "bit (unat (w::u32)) i \<longleftrightarrow> bit w i"
  using bit_imp_le_length [of w i] by (auto simp: bit_unsigned_iff)

lemma round_up_pow2_correct:
  assumes v: "1 \<le> unat v" "unat v \<le> 2 ^ 31"
  shows "\<exists>k\<le>31. unat (round_up_pow2 v) = 2 ^ k \<and> unat v \<le> 2 ^ k \<and> (\<forall>j. unat v \<le> 2 ^ j \<longrightarrow> k \<le> j)"
proof -
  define x where "x = v - 1"
  define w where "w = (let v2 = x OR drop_bit 1 x; v3 = v2 OR drop_bit 2 v2; v4 = v3 OR drop_bit 4 v3;
      v5 = v4 OR drop_bit 8 v4 in v5 OR drop_bit 16 v5)"
  define k where "k = (LEAST k. unat x < 2 ^ k)"
  have r: "round_up_pow2 v = w + 1" by (simp add: round_up_pow2_def w_def x_def Let_def)
  have ux: "unat x = unat v - 1" using v unfolding x_def by (subst unat_sub) (simp_all add: word_le_nat_alt)
  have "bit x i \<longleftrightarrow> (\<exists>d<1. bit x (i + d))" for i by simp
  from spread_step [OF spread_step [OF spread_step [OF spread_step [OF spread_step [OF this]]]]]
  have "bit w i \<longleftrightarrow> (\<exists>d<32. bit x (i + d))" for i by (simp add: w_def Let_def)
  also have "(\<exists>d<32. bit x (i + d)) \<longleftrightarrow> (\<exists>d. bit (unat x) (i + d))" for i
  proof -
    have "d < 32" if "bit x (i + d)" for d using bit_imp_le_length [OF that] by simp
    then show ?thesis unfolding bit_unat_eq by blast
  qed
  finally have b: "bit w i \<longleftrightarrow> (\<exists>d. bit (unat x) (i + d))" for i .
  have bw: "bit (unat w) i \<longleftrightarrow> 2 ^ i \<le> unat x" for i
    using b [of i] bit_above_iff [of "unat x" i] unfolding bit_unat_eq by blast
  have lt: "unat x < 2 ^ 31" using v ux by simp
  have k: "unat x < 2 ^ k" "k \<le> 31"
    unfolding k_def using lt by (rule LeastI, rule Least_le)
  have below: "2 ^ i \<le> unat x \<longleftrightarrow> i < k" for i
  proof
    show "i < k" if "2 ^ i \<le> unat x"
    proof (rule ccontr)
      assume "\<not> i < k"
      then have "(2::nat) ^ k \<le> 2 ^ i" by simp
      with k(1) that show False by linarith
    qed
    show "2 ^ i \<le> unat x" if "i < k" using not_less_Least that unfolding k_def by fastforce
  qed
  have "unat w = mask k" by (rule bit_eqI) (simp add: bw below bit_mask_iff)
  then have uw: "unat w = 2 ^ k - 1" by (simp add: mask_eq_exp_minus_1)
  have le: "(2::nat) ^ k \<le> 2 ^ 31" by (rule power_increasing [OF k(2)]) simp
  have "unat (w + 1) = 2 ^ k"
    using uw le by (simp add: unat_word_ariths)
  moreover have "unat v \<le> 2 ^ k" using k(1) ux v by linarith
  moreover have "k \<le> j" if "unat v \<le> 2 ^ j" for j
    unfolding k_def using that ux v by (intro Least_le) linarith
  ultimately show ?thesis using k(2) r by auto
qed

lemma size_for_capacity_pow2:
  assumes "0 < capacity"
  shows "pow2_size (size_for_capacity capacity)"
    and "size_for_capacity capacity = HASH_MAX_SIZE \<or> 4 * capacity div 3 \<le> size_for_capacity capacity"
proof -
  define v where "v = (if 4 * capacity > 3 * ZIP_UINT32_MAX then ZIP_UINT32_MAX else 4 * capacity div 3)"
  have s: "size_for_capacity capacity =
      (if v > HASH_MAX_SIZE then HASH_MAX_SIZE else unat (round_up_pow2 (word_of_nat v)))"
    unfolding size_for_capacity_def v_def Let_def ..
  have "pow2_size (size_for_capacity capacity) \<and>
    (size_for_capacity capacity = HASH_MAX_SIZE \<or> 4 * capacity div 3 \<le> size_for_capacity capacity)"
  proof (cases "v > HASH_MAX_SIZE")
    case True
    have "pow2_size HASH_MAX_SIZE" unfolding pow2_size_def by (rule exI [of _ 31]) simp
    then show ?thesis unfolding s if_P [OF True] by blast
  next
    case False
    then have v: "v = 4 * capacity div 3" unfolding v_def by (simp split: if_splits)
    have uw: "unat (word_of_nat v :: u32) = v"
      using False by (simp add: unsigned_of_nat take_bit_nat_eq_self)
    have "1 \<le> v" using assms v by simp
    then obtain k where "k \<le> 31" "unat (round_up_pow2 (word_of_nat v)) = 2 ^ k" "v \<le> 2 ^ k"
      using round_up_pow2_correct [of "word_of_nat v"] False uw by auto
    with s False v show ?thesis unfolding pow2_size_def by auto
  qed
  then show "pow2_size (size_for_capacity capacity)"
    "size_for_capacity capacity = HASH_MAX_SIZE \<or> 4 * capacity div 3 \<le> size_for_capacity capacity"
    by blast+
qed

section \<open>The operations against the two maps\<close>

lemma find_entry_cstr: "cstr k = cstr n \<Longrightarrow> find_entry h k = find_entry h n"
  using hash_string_cong [of k n] by (simp add: find_entry_def)

lemma hash_invD: "hash_inv h \<Longrightarrow> table_inv h"
  by (simp add: hash_inv_def)

lemma find_entry_index_ok: "hash_inv h \<Longrightarrow> find_entry h n = Some e \<Longrightarrow> index_ok e"
  using find_entry_Some [of h n e] by (auto simp: hash_inv_def simp del: set_concat)

lemma hash_resize_ok: "hash_resize m h s error = (True, h', error', m') \<Longrightarrow> error' = error"
  by (auto simp: hash_resize_def Let_def split: if_splits prod.splits option.splits)

lemma find_entry_empty:
  assumes "table_inv h" and "nentries h = 0"
  shows "find_entry h n = None"
proof (rule ccontr)
  assume "find_entry h n \<noteq> None"
  then obtain e where "e \<in> set (concat (hash_table h))" using find_entry_Some [OF assms(1)] by blast
  then have "0 < length (concat (hash_table h))" by (rule length_pos_if_in_set)
  with nentries_eq [OF assms(1)] assms(2) show False by linarith
qed

text \<open>The table after the check for a missing table.\<close>

lemma first_resize_spec:
  assumes "hash_inv h0"
    and "(if table_size h0 = 0 then hash_resize m h0 HASH_MIN_SIZE error else (True, h0, error, m)) = (True, h, error', m1)"
  shows "hash_inv h" "\<And>n. find_entry h n = find_entry h0 n" "table_size h \<noteq> 0" "error' = error"
proof -
  have p: "pow2_size HASH_MIN_SIZE" unfolding pow2_size_def by (rule exI [of _ 8]) simp
  have t: "table_inv h0" by (rule hash_invD [OF assms(1)])
  have "hash_inv h \<and> (\<forall>n. find_entry h n = find_entry h0 n) \<and> table_size h \<noteq> 0 \<and> error' = error"
  proof (cases "table_size h0 = 0")
    case True
    then have r: "hash_resize m h0 HASH_MIN_SIZE error = (True, h, error', m1)" using assms(2) by simp
    show ?thesis
      using hash_resize_inv [OF assms(1) p r] hash_resize_find [OF t p r] hash_resize_ok [OF r]
        hash_resize_spec(4) [OF t p r] by simp
  qed (use assms in simp)
  then show "hash_inv h" "\<And>n. find_entry h n = find_entry h0 n" "table_size h \<noteq> 0" "error' = error"
    by simp_all
qed

lemma growing_resize_spec:
  assumes "table_inv h1" and "table_size h1 \<noteq> 0"
    and "(if over_max_fill (nentries h1) (table_size h1) \<and> table_size h1 < HASH_MAX_SIZE
          then hash_resize m h1 (table_size h1 * 2) error else (True, h1, error, m)) = (ok, h, error', m1)"
  shows "table_inv h" "\<And>n. find_entry h n = find_entry h1 n" "table_size h \<noteq> 0" "ok \<Longrightarrow> error' = error"
    "set (concat (hash_table h)) = set (concat (hash_table h1))"
proof -
  have "table_inv h \<and> (\<forall>n. find_entry h n = find_entry h1 n) \<and> table_size h \<noteq> 0 \<and> (ok \<longrightarrow> error' = error)
    \<and> set (concat (hash_table h)) = set (concat (hash_table h1))"
  proof (cases "over_max_fill (nentries h1) (table_size h1) \<and> table_size h1 < HASH_MAX_SIZE")
    case True
    then have r: "hash_resize m h1 (table_size h1 * 2) error = (ok, h, error', m1)" using assms(3) by simp
    from assms(1,2) obtain k where k: "k \<le> 31" "table_size h1 = 2 ^ k" by (auto simp: table_inv_def)
    have "k \<noteq> 31" using True k(2) by (intro notI) simp
    then have p: "pow2_size (table_size h1 * 2)"
      unfolding pow2_size_def using k by (intro exI [of _ "Suc k"]) simp
    show ?thesis
      using hash_resize_spec [OF assms(1) p r] hash_resize_find [OF assms(1) p r]
        hash_resize_ok [of m h1 _ error h error' m1] r assms(2) by (cases ok) (simp_all del: set_concat)
  next
    case False
    from assms(3) [unfolded if_not_P [OF False]] assms(1,2) show ?thesis by simp
  qed
  then show "table_inv h" "\<And>n. find_entry h n = find_entry h1 n" "table_size h \<noteq> 0" "ok \<Longrightarrow> error' = error"
    "set (concat (hash_table h)) = set (concat (hash_table h1))"
    by simp_all
qed

lemma orig_of_eqI: "find_entry h' k = find_entry h n \<Longrightarrow> orig_of h' k = orig_of h n"
  and cur_of_eqI: "find_entry h' k = find_entry h n \<Longrightarrow> cur_of h' k = cur_of h n"
  by (simp_all add: orig_of_def cur_of_def)

text \<open>Assigning the indices through the entry pointer, the last step of an insertion.\<close>

lemma set_indices_spec:
  assumes inv: "table_inv h" and nz: "table_size h \<noteq> 0" and e: "find_entry h n = Some e"
    and idx: "\<And>e'. e' \<in> set (concat (hash_table h)) \<Longrightarrow> he_key e' \<noteq> cstr n \<Longrightarrow> index_ok e'"
      "-1 \<le> he_orig_index e"
    and def: "h' = write_entry (hash_string (Some n)) n (set_indices flags (int index)) h"
  shows "hash_inv h'"
    and "cur_of h' k = (if cstr k = cstr n then Some index else cur_of h k)"
    and "orig_of h' k = (if cstr k = cstr n \<and> flag_set flags ZIP_FL_UNCHANGED then Some index else orig_of h k)"
proof -
  let ?f = "set_indices flags (int index)"
  have f: "he_name (?f e) = he_name e" "he_hash_value (?f e) = he_hash_value e" for e
    by (simp_all add: set_indices_def)
  note w = write_entry_spec [OF inv nz f def]
  have "index_ok e'" if "e' \<in> set (concat (hash_table h'))" for e'
  proof (cases "he_key e' = cstr n")
    case True
    then have "find_entry h' n = Some e'" using that find_entry_Some [OF w(1)] by blast
    then have "e' = ?f e" using w(2) [of n] e by simp
    then show ?thesis using idx(2) by (simp add: index_ok_def set_indices_def)
  next
    case False
    then have "find_entry h' (he_name e') = Some e'" "find_entry h' (he_name e') = find_entry h (he_name e')"
      using that False find_entry_Some [OF w(1), of "he_name e'" e'] w(2) [of "he_name e'"]
      by (simp_all add: he_key_def del: set_concat)
    then show ?thesis using idx(1) [of e'] False find_entry_Some [OF inv] by simp
  qed
  with w(1) show "hash_inv h'" by (simp add: hash_inv_def del: set_concat)
  show "cur_of h' k = (if cstr k = cstr n then Some index else cur_of h k)"
    using w(2) [of k] e by (simp add: cur_of_def set_indices_def)
  show "orig_of h' k = (if cstr k = cstr n \<and> flag_set flags ZIP_FL_UNCHANGED then Some index else orig_of h k)"
    using w(2) [of k] e find_entry_cstr [of k n h] by (auto simp: orig_of_def set_indices_def)
qed

lemma zip_hash_lookup_spec:
  assumes "hash_inv h"
  shows "zip_hash_lookup h (Some n) flags error =
    (case (if flag_set flags ZIP_FL_UNCHANGED then orig_of h n else cur_of h n) of
       None \<Rightarrow> (-1, zip_error_set error ZIP_ER_NOENT 0)
     | Some i \<Rightarrow> (int i, error))"
proof (cases "nentries h > 0")
  case False
  then have "find_entry h n = None" using find_entry_empty [OF hash_invD [OF assms]] by simp
  then have "orig_of h n = None" "cur_of h n = None" by (simp_all add: orig_of_def cur_of_def)
  with False show ?thesis by (simp add: zip_hash_lookup_def)
next
  case True
  have nz: "table_size h \<noteq> 0"
    using True nentries_eq [OF hash_invD [OF assms]] hash_invD [OF assms]
    by (auto simp: table_inv_def simp del: length_concat)
  then have "find (\<lambda>e. str_eq n (he_name e)) (hash_table h ! (hash_string (Some n) mod table_size h)) = find_entry h n"
    by (simp add: find_entry_def str_eq_key)
  then show ?thesis
    using True find_entry_index_ok [OF assms, of n]
    by (auto simp: zip_hash_lookup_def Let_def orig_of_def cur_of_def index_ok_def split: option.splits)
qed

lemma zip_hash_add_ok:
  assumes inv: "hash_inv h0" and r: "zip_hash_add m h0 (Some n) index flags error = (True, h', error', m')"
  shows "hash_inv h'" and "error' = error" and "index \<le> ZIP_INT64_MAX" and "cur_of h0 n = None"
    and "flag_set flags ZIP_FL_UNCHANGED \<Longrightarrow> orig_of h0 n = None"
    and "cur_of h' k = (if cstr k = cstr n then Some index else cur_of h0 k)"
    and "orig_of h' k = (if cstr k = cstr n \<and> flag_set flags ZIP_FL_UNCHANGED then Some index else orig_of h0 k)"
proof -
  let ?U = "flag_set flags ZIP_FL_UNCHANGED"
  have small: "index \<le> ZIP_INT64_MAX"
    using r by (simp add: zip_hash_add_def split: if_splits)
  obtain ok h1 e1 m1 where first:
    "(if table_size h0 = 0 then hash_resize m h0 HASH_MIN_SIZE error else (True, h0, error, m)) = (ok, h1, e1, m1)"
    by (metis prod_cases4)
  have ok using r small by (cases ok) (simp_all add: zip_hash_add_def first)
  with first have "(if table_size h0 = 0 then hash_resize m h0 HASH_MIN_SIZE error else (True, h0, error, m)) = (True, h1, e1, m1)"
    by simp
  note f = first_resize_spec [OF inv this]
  note t = hash_invD [OF f(1)]
  have same: "cur_of h1 = cur_of h0" "orig_of h1 = orig_of h0"
    using f(2) by (auto intro!: ext cur_of_eqI orig_of_eqI)
  note chain = find_matches [OF t f(3), of n]
  have "hash_inv h' \<and> error' = error \<and> cur_of h1 n = None \<and> (?U \<longrightarrow> orig_of h1 n = None)
    \<and> (\<forall>k. cur_of h' k = (if cstr k = cstr n then Some index else cur_of h1 k))
    \<and> (\<forall>k. orig_of h' k = (if cstr k = cstr n \<and> ?U then Some index else orig_of h1 k))"
  proof (cases "find_entry h1 n")
    case (Some e)
    with r have g: "\<not> ((?U \<and> he_orig_index e \<noteq> -1) \<or> he_current_index e \<noteq> -1)"
      and h': "h' = write_entry (hash_string (Some n)) n (set_indices flags (int index)) h1" "error' = e1"
      using small by (simp_all add: zip_hash_add_def first \<open>ok\<close> Let_def chain split: if_splits)
    have "index_ok e'" if "e' \<in> set (concat (hash_table h1))" for e'
      using f(1) that unfolding hash_inv_def by blast
    moreover have "-1 \<le> he_orig_index e" using find_entry_index_ok [OF f(1) Some] by (simp add: index_ok_def)
    ultimately show ?thesis
      using set_indices_spec [OF t f(3) Some _ _ h'(1)] g Some f(4) h'(2)
      by (simp add: cur_of_def [of h1 n] orig_of_def [of h1 n])
  next
    case None
    define chain where "chain = hash_table h1 ! (hash_string (Some n) mod table_size h1)"
    obtain ans m2 where ma: "malloc m1 = (ans, m2)" by (cases "malloc m1")
    with r None obtain junk where junk: "ans = Some junk"
      using small by (cases ans) (simp_all add: zip_hash_add_def first \<open>ok\<close> Let_def chain)
    define e where "e = \<lparr>he_name = n, he_orig_index = -1, he_current_index = sint (word_of_nat junk :: u64),
      he_hash_value = hash_string (Some n)\<rparr>"
    define h2 where "h2 = h1\<lparr>hash_table := (hash_table h1)[hash_string (Some n) mod table_size h1 :=
      e # hash_table h1 ! (hash_string (Some n) mod table_size h1)], nentries := nentries h1 + 1\<rparr>"
    have "he_name e = n" "he_hash_value e = hash_string (Some n)" by (simp_all add: e_def)
    note ins = insert_entry_spec [OF t f(3) None this h2_def]
    obtain ok3 h3 e3 m3 where grow:
      "(if over_max_fill (nentries h2) (table_size h2) \<and> table_size h2 < HASH_MAX_SIZE
        then hash_resize m2 h2 (table_size h2 * 2) e1 else (True, h2, e1, m2)) = (ok3, h3, e3, m3)"
      by (metis prod_cases4)
    have nz2: "table_size h2 \<noteq> 0" using f(3) by (simp add: h2_def)
    note g = growing_resize_spec [OF ins(1) nz2 grow]
    have "zip_hash_add m h0 (Some n) index flags error =
      (case (if over_max_fill (nentries h2) (table_size h2) \<and> table_size h2 < HASH_MAX_SIZE
             then hash_resize m2 h2 (table_size h2 * 2) e1 else (True, h2, e1, m2)) of
         (False, h2, error2, m3) \<Rightarrow> (False, h2, error2, m3)
       | (True, h2, error2, m3) \<Rightarrow> (True, write_entry (hash_string (Some n)) n (set_indices flags (int index)) h2, error2, m3))"
      using small by (simp add: zip_hash_add_def first \<open>ok\<close> Let_def chain None ma junk h2_def e_def)
    with r have "(case (ok3, h3, e3, m3) of (False, h2, error2, m3) \<Rightarrow> (False, h2, error2, m3)
        | (True, h2, error2, m3) \<Rightarrow> (True, write_entry (hash_string (Some n)) n (set_indices flags (int index)) h2, error2, m3))
      = (True, h', error', m')"
      unfolding grow by simp
    then have ok3: "ok3" and h': "h' = write_entry (hash_string (Some n)) n (set_indices flags (int index)) h3" "error' = e3"
      by (cases ok3; simp)+
    have e: "find_entry h3 n = Some e" using g(2) ins(2) by simp
    have "index_ok e'" if "e' \<in> set (concat (hash_table h3))" "he_key e' \<noteq> cstr n" for e'
    proof -
      have "e' \<noteq> e" using that(2) by (auto simp: he_key_def e_def)
      then have "e' \<in> set (concat (hash_table h1))" using that(1) ins(3) g(5) by blast
      then show ?thesis using f(1) unfolding hash_inv_def by blast
    qed
    moreover have "-1 \<le> he_orig_index e" by (simp add: e_def)
    moreover have "cur_of h3 k = cur_of h1 k" if "cstr k \<noteq> cstr n" for k
      using that g(2) ins(2) [of k] by (auto intro!: cur_of_eqI)
    moreover have "orig_of h3 k = orig_of h1 k" "cstr k = cstr n \<Longrightarrow> orig_of h1 k = None" for k
      using None find_entry_cstr [of k n h1] ins(2) [of k] g(2) [of k]
      by (auto simp: orig_of_def e_def)
    ultimately show ?thesis
      using set_indices_spec [OF g(1) g(3) e _ _ h'(1)] None g(4) [OF ok3] f(4) h'(2)
      by (auto simp: cur_of_def [of h1 n])
  qed
  then show "hash_inv h'" "error' = error" "index \<le> ZIP_INT64_MAX" "cur_of h0 n = None"
    "?U \<Longrightarrow> orig_of h0 n = None"
    "cur_of h' k = (if cstr k = cstr n then Some index else cur_of h0 k)"
    "orig_of h' k = (if cstr k = cstr n \<and> ?U then Some index else orig_of h0 k)"
    using small by (simp_all add: same)
qed

text \<open>Two indices agree when they hold the same two maps.\<close>

definition same_index :: "zip_hash \<Rightarrow> zip_hash \<Rightarrow> bool" where
  "same_index h h' \<longleftrightarrow> (\<forall>n. cur_of h' n = cur_of h n \<and> orig_of h' n = orig_of h n)"

lemma same_indexI: "(\<And>n. find_entry h' n = find_entry h n) \<Longrightarrow> same_index h h'"
  by (simp add: same_index_def cur_of_def orig_of_def)

lemma hash_resize_Nil: "\<exists>h'. hash_resize [] h s error = (True, h', error, [])"
  by (simp add: hash_resize_def Let_def)

lemma zip_hash_add_no_oom:
  assumes inv: "hash_inv h0" and r: "zip_hash_add [] h0 (Some n) index flags error = (ok, h', error', m')"
  shows "m' = []"
    and "ok \<longleftrightarrow> index \<le> ZIP_INT64_MAX \<and> cur_of h0 n = None
           \<and> (flag_set flags ZIP_FL_UNCHANGED \<longrightarrow> orig_of h0 n = None)"
    and "\<not> ok \<Longrightarrow> hash_inv h' \<and> same_index h0 h' \<and>
           error' = zip_error_set error (if index \<le> ZIP_INT64_MAX then ZIP_ER_EXISTS else ZIP_ER_INVAL) 0"
proof -
  let ?U = "flag_set flags ZIP_FL_UNCHANGED"
  have "m' = [] \<and> (ok \<longleftrightarrow> index \<le> ZIP_INT64_MAX \<and> cur_of h0 n = None \<and> (?U \<longrightarrow> orig_of h0 n = None))
    \<and> (\<not> ok \<longrightarrow> hash_inv h' \<and> same_index h0 h' \<and>
           error' = zip_error_set error (if index \<le> ZIP_INT64_MAX then ZIP_ER_EXISTS else ZIP_ER_INVAL) 0)"
  proof (cases "index \<le> ZIP_INT64_MAX")
    case False
    with r inv show ?thesis by (auto simp: zip_hash_add_def intro: same_indexI)
  next
    case small: True
    have "\<exists>h1. (if table_size h0 = 0 then hash_resize [] h0 HASH_MIN_SIZE error else (True, h0, error, [])) = (True, h1, error, [])"
      using hash_resize_Nil [of h0 HASH_MIN_SIZE error] by simp
    then obtain h1 where first: "(if table_size h0 = 0 then hash_resize [] h0 HASH_MIN_SIZE error else (True, h0, error, [])) = (True, h1, error, [])" ..
    note f = first_resize_spec [OF inv first]
    note t = hash_invD [OF f(1)]
    have same: "cur_of h0 n = cur_of h1 n" "orig_of h0 n = orig_of h1 n" "same_index h0 h1"
      using f(2) by (auto intro: cur_of_eqI orig_of_eqI same_indexI)
    note chain = find_matches [OF t f(3), of n]
    show ?thesis
    proof (cases "find_entry h1 n")
      case (Some e)
      then show ?thesis
        using r small f(1) same by (auto simp: zip_hash_add_def first Let_def chain cur_of_def [of h1] orig_of_def [of h1]
            split: if_splits)
    next
      case None
      have "m' = [] \<and> ok"
        using r small hash_resize_Nil
        by (simp add: zip_hash_add_def first Let_def chain None split: if_splits prod.splits bool.splits)
          (metis Pair_inject)+
      then show ?thesis using None small same by (simp add: cur_of_def orig_of_def)
    qed
  qed
  then show "m' = []" "ok \<longleftrightarrow> index \<le> ZIP_INT64_MAX \<and> cur_of h0 n = None \<and> (?U \<longrightarrow> orig_of h0 n = None)"
    "\<not> ok \<Longrightarrow> hash_inv h' \<and> same_index h0 h' \<and>
       error' = zip_error_set error (if index \<le> ZIP_INT64_MAX then ZIP_ER_EXISTS else ZIP_ER_INVAL) 0"
    by blast+
qed

text \<open>
  A deletion succeeds exactly when the name has an entry, even one already deleted whose original
  index is still there. It always removes the current index; only the allocation of a smaller table
  can make it report failure after that.
\<close>

lemma zip_hash_delete_spec:
  assumes inv: "hash_inv h" and r: "zip_hash_delete m h (Some n) error = (ok, h', error', m')"
  shows "hash_inv h'" and "orig_of h' k = orig_of h k"
    and "cur_of h' k = (if cstr k = cstr n then None else cur_of h k)"
    and "m = [] \<Longrightarrow> m' = [] \<and> (ok \<longleftrightarrow> cur_of h n \<noteq> None \<or> orig_of h n \<noteq> None)
           \<and> error' = (if ok then error else zip_error_set error ZIP_ER_NOENT 0)"
proof -
  note t = hash_invD [OF inv]
  have "hash_inv h' \<and> (\<forall>k. orig_of h' k = orig_of h k)
    \<and> (\<forall>k. cur_of h' k = (if cstr k = cstr n then None else cur_of h k))
    \<and> (m = [] \<longrightarrow> m' = [] \<and> (ok \<longleftrightarrow> cur_of h n \<noteq> None \<or> orig_of h n \<noteq> None)
         \<and> error' = (if ok then error else zip_error_set error ZIP_ER_NOENT 0))"
  proof (cases "nentries h > 0")
    case False
    then have "find_entry h n = None" using find_entry_empty [OF t] by simp
    moreover from this have "cur_of h k = None" if "cstr k = cstr n" for k
      using find_entry_cstr [OF that, of h] by (simp add: cur_of_def)
    ultimately show ?thesis using False r inv by (auto simp: zip_hash_delete_def cur_of_def orig_of_def)
  next
    case pos: True
    have nz: "table_size h \<noteq> 0" using pos nentries_eq [OF t] t by (auto simp: table_inv_def simp del: length_concat)
    note chain = find_matches [OF t nz, of n]
    show ?thesis
    proof (cases "find_entry h n")
      case None
      moreover from this have "cur_of h k = None" if "cstr k = cstr n" for k
        using find_entry_cstr [OF that, of h] by (simp add: cur_of_def)
      ultimately show ?thesis
        using r pos inv by (auto simp: zip_hash_delete_def Let_def chain cur_of_def orig_of_def)
    next
      case (Some e)
      have ie: "index_ok e" by (rule find_entry_index_ok [OF inv Some])
      have ke: "find_entry h k = Some e" if "cstr k = cstr n" for k
        using Some find_entry_cstr [OF that, of h] by simp
      show ?thesis
      proof (cases "he_orig_index e = -1")
        case False
        define h1 where "h1 = write_entry (hash_string (Some n)) n (\<lambda>e. e\<lparr>he_current_index := -1\<rparr>) h"
        have w: "table_inv h1"
          "\<And>k. find_entry h1 k = (if cstr k = cstr n then map_option (\<lambda>e. e\<lparr>he_current_index := -1\<rparr>) (find_entry h n) else find_entry h k)"
          "\<And>e. e \<in> set (concat (hash_table h1)) \<Longrightarrow> e \<in> set (concat (hash_table h)) \<or>
             (\<exists>e'. find_entry h n = Some e' \<and> e = e'\<lparr>he_current_index := -1\<rparr>)"
          using write_entry_spec [OF t nz _ _ h1_def] by simp_all
        have "index_ok (e\<lparr>he_current_index := -1\<rparr>)" using ie False by (simp add: index_ok_def)
        then have "hash_inv h1"
          using w(1,3) inv Some unfolding hash_inv_def by (metis option.inject)
        moreover have "cur_of h1 k = (if cstr k = cstr n then None else cur_of h k)" "orig_of h1 k = orig_of h k" for k
          using w(2) [of k] Some ke [of k] by (auto simp: cur_of_def orig_of_def)
        moreover have "(ok, h', error', m') = (True, h1, error, m)"
          using r pos Some False by (simp add: zip_hash_delete_def Let_def chain h1_def)
        ultimately show ?thesis using Some False by (simp add: orig_of_def [of h n])
      next
        case True
        define h1 where "h1 = h\<lparr>hash_table := (hash_table h)[hash_string (Some n) mod table_size h :=
          del_first (entry_matches (hash_string (Some n)) n) (hash_table h ! (hash_string (Some n) mod table_size h))],
          nentries := nentries h - 1\<rparr>"
        have "find_entry h n \<noteq> None" using Some by simp
        note d = delete_entry_spec [OF t nz this h1_def]
        have h1: "hash_inv h1" using d(1,3) inv unfolding hash_inv_def by blast
        have c: "cur_of h1 k = (if cstr k = cstr n then None else cur_of h k)" "orig_of h1 k = orig_of h k" for k
          using d(2) [of k] Some True ke [of k] by (auto simp: cur_of_def orig_of_def)
        have e: "cur_of h n \<noteq> None" using ie True Some by (simp add: cur_of_def index_ok_def)
        have r': "(if under_min_fill (nentries h1) (table_size h1) \<and> table_size h1 > HASH_MIN_SIZE
            then hash_resize m h1 (table_size h1 div 2) error else (True, h1, error, m)) = (ok, h', error', m')"
          unfolding r [symmetric] h1_def using pos Some True by (simp add: zip_hash_delete_def Let_def chain)
        show ?thesis
        proof (cases "under_min_fill (nentries h1) (table_size h1) \<and> table_size h1 > HASH_MIN_SIZE")
          case shrink: True
          then have r2: "hash_resize m h1 (table_size h1 div 2) error = (ok, h', error', m')" using r' by simp
          from d(1) shrink obtain j where j: "j \<le> 31" "table_size h1 = 2 ^ j" by (auto simp: table_inv_def)
          then have "j \<noteq> 0" using shrink by (intro notI) simp
          then have p: "pow2_size (table_size h1 div 2)"
            unfolding pow2_size_def using j by (intro exI [of _ "j - 1"]) (simp add: power_diff)
          have "cur_of h' k = cur_of h1 k" "orig_of h' k = orig_of h1 k" for k
            using hash_resize_find [OF d(1) p r2] by (auto intro: cur_of_eqI orig_of_eqI)
          moreover have "m = [] \<longrightarrow> m' = [] \<and> ok \<and> error' = error"
            using r2 hash_resize_Nil [of h1 "table_size h1 div 2" error] by auto
          ultimately show ?thesis using hash_resize_inv [OF h1 p r2] c e by simp
        qed (use r' h1 c e in auto)
      qed
    qed
  qed
  then show "hash_inv h'" "orig_of h' k = orig_of h k"
    "cur_of h' k = (if cstr k = cstr n then None else cur_of h k)"
    "m = [] \<Longrightarrow> m' = [] \<and> (ok \<longleftrightarrow> cur_of h n \<noteq> None \<or> orig_of h n \<noteq> None)
         \<and> error' = (if ok then error else zip_error_set error ZIP_ER_NOENT 0)"
    by blast+
qed

lemma zip_hash_new_spec:
  assumes "zip_hash_new m error = (Some h, error', m')"
  shows "hash_inv h" and "cur_of h n = None" and "orig_of h n = None" and "error' = error"
  using assms
  by (auto simp: zip_hash_new_def hash_inv_def table_inv_def cur_of_def orig_of_def find_entry_def
      split: prod.splits option.splits)

lemma zip_hash_reserve_capacity_spec:
  assumes inv: "hash_inv h" and r: "zip_hash_reserve_capacity m h c error = (ok, h', error', m')"
  shows "hash_inv h'" and "same_index h h'" and "ok \<Longrightarrow> c \<noteq> 0 \<Longrightarrow> size_for_capacity c \<le> table_size h'"
    and "m = [] \<Longrightarrow> ok"
proof -
  have "hash_inv h' \<and> same_index h h' \<and> (ok \<longrightarrow> c \<noteq> 0 \<longrightarrow> size_for_capacity c \<le> table_size h') \<and> (m = [] \<longrightarrow> ok)"
  proof (cases "c = 0 \<or> size_for_capacity c \<le> table_size h")
    case True
    with r inv show ?thesis
      by (auto simp: zip_hash_reserve_capacity_def Let_def intro: same_indexI split: if_splits)
  next
    case False
    then have r2: "hash_resize m h (size_for_capacity c) error = (ok, h', error', m')"
      using r by (simp add: zip_hash_reserve_capacity_def Let_def)
    have p: "pow2_size (size_for_capacity c)" using False by (intro size_for_capacity_pow2(1)) simp
    have "same_index h h'" using hash_resize_find [OF hash_invD [OF inv] p r2] by (intro same_indexI)
    moreover have "m = [] \<longrightarrow> ok" using r2 hash_resize_Nil [of h "size_for_capacity c" error] by auto
    ultimately show ?thesis
      using hash_resize_inv [OF inv p r2] hash_resize_spec(4) [OF hash_invD [OF inv] p r2] by auto
  qed
  then show "hash_inv h'" "same_index h h'" "ok \<Longrightarrow> c \<noteq> 0 \<Longrightarrow> size_for_capacity c \<le> table_size h'" "m = [] \<Longrightarrow> ok"
    by blast+
qed

lemma revert_size_pow2:
  assumes "s = 2 ^ k"
  shows "\<exists>j\<le>k. revert_size n s = 2 ^ j"
  using assms
proof (induction n s arbitrary: k rule: revert_size.induct)
  case (1 n s)
  show ?case
  proof (cases "under_min_fill n s \<and> s > HASH_MIN_SIZE")
    case True
    then have "k \<noteq> 0" using 1(2) by (intro notI) simp
    then have "s div 2 = 2 ^ (k - 1)" using 1(2) by (simp add: power_diff)
    from 1(1) [OF True this] True show ?thesis
      by (subst revert_size.simps) (metis diff_le_self order_trans)
  next
    case False
    then show ?thesis using 1(2) by (subst revert_size.simps) auto
  qed
qed

definition reverted :: "zip_hash_entry \<Rightarrow> zip_hash_entry" where
  "reverted e = e\<lparr>he_current_index := he_orig_index e\<rparr>"

lemma revert_chain_alt: "revert_chain xs = map reverted (filter (\<lambda>e. he_orig_index e \<noteq> -1) xs)"
  by (simp add: revert_chain_def reverted_def [abs_def])

lemma reverted_simps [simp]: "he_key (reverted e) = he_key e" "entry_ok s i (reverted e) = entry_ok s i e"
  "he_orig_index (reverted e) = he_orig_index e" "he_current_index (reverted e) = he_orig_index e"
  by (simp_all add: reverted_def he_key_def entry_ok_def)

lemma length_revert:
  "length (concat (map revert_chain xss)) =
   length (concat xss) - length (filter (\<lambda>e. he_orig_index e = -1) (concat xss))"
proof -
  have "concat (map revert_chain xss) = map reverted (filter (\<lambda>e. he_orig_index e \<noteq> -1) (concat xss))"
    by (induction xss) (simp_all add: revert_chain_alt)
  then show ?thesis
    using sum_length_filter_compl [of "\<lambda>e. he_orig_index e = -1" "concat xss"]
    by (simp only: length_map)
qed

text \<open>Reverting makes the current map the original one, whatever the allocator answers.\<close>

lemma zip_hash_revert_spec:
  assumes inv: "hash_inv h" and r: "zip_hash_revert m h error = (ok, h', error', m')"
  shows "hash_inv h'" and "orig_of h' n = orig_of h n" and "cur_of h' n = orig_of h n" and "m = [] \<Longrightarrow> ok \<and> m' = [] \<and> error' = error"
proof -
  note t = hash_invD [OF inv]
  define h1 where "h1 = h\<lparr>hash_table := map revert_chain (hash_table h),
    nentries := nentries h - length (filter (\<lambda>e. he_orig_index e = -1) (concat (hash_table h)))\<rparr>"
  have "distinct (map he_key (revert_chain xs))" if "distinct (map he_key xs)" for xs
    using that by (simp add: revert_chain_alt comp_def distinct_map_filter)
  then have t1: "table_inv h1"
    using t unfolding h1_def table_inv_def bucket_ok_def
    by (simp add: length_revert revert_chain_alt del: length_concat)
  have mem: "e' \<in> set (concat (hash_table h1)) \<longleftrightarrow>
      (\<exists>e\<in>set (concat (hash_table h)). he_orig_index e \<noteq> -1 \<and> e' = reverted e)" for e'
    by (auto simp: h1_def revert_chain_alt)
  have h1: "hash_inv h1"
    using t1 mem inv unfolding hash_inv_def index_ok_def by (metis reverted_simps(3,4))
  have find1: "find_entry h1 k = (case find_entry h k of None \<Rightarrow> None
      | Some e \<Rightarrow> if he_orig_index e = -1 then None else Some (reverted e))" for k
  proof (cases "find_entry h k")
    case None
    have "find_entry h1 k \<noteq> Some e" for e
    proof
      assume "find_entry h1 k = Some e"
      then have "e \<in> set (concat (hash_table h1))" "he_key e = cstr k" using find_entry_Some [OF t1] by blast+
      then obtain e0 where "e0 \<in> set (concat (hash_table h))" "he_key e0 = cstr k" using mem by (metis reverted_simps(1))
      then show False using find_entry_Some [OF t, of k e0] None by simp
    qed
    then show ?thesis using None by (cases "find_entry h1 k") auto
  next
    case (Some e)
    have "find_entry h1 k = Some e' \<longleftrightarrow> he_orig_index e \<noteq> -1 \<and> e' = reverted e" for e'
    proof
      assume "find_entry h1 k = Some e'"
      then obtain e0 where e0: "e0 \<in> set (concat (hash_table h))" "he_orig_index e0 \<noteq> -1" "e' = reverted e0" "he_key e' = cstr k"
        using find_entry_Some [OF t1, of k e'] mem [of e'] by blast
      then have "find_entry h k = Some e0" using find_entry_Some [OF t, of k e0] by simp
      with Some e0 show "he_orig_index e \<noteq> -1 \<and> e' = reverted e" by simp
    next
      assume e': "he_orig_index e \<noteq> -1 \<and> e' = reverted e"
      have "e \<in> set (concat (hash_table h))" "he_key e = cstr k" using Some find_entry_Some [OF t] by blast+
      then have "e' \<in> set (concat (hash_table h1))" "he_key e' = cstr k" using e' mem [of e'] by auto
      then show "find_entry h1 k = Some e'" using find_entry_Some [OF t1] by blast
    qed
    then show ?thesis using Some by (cases "find_entry h1 k") auto
  qed
  have c1: "orig_of h1 k = orig_of h k" "cur_of h1 k = orig_of h k" for k
    by (simp_all add: orig_of_def cur_of_def find1 split: option.splits)
  have r': "(if under_min_fill (nentries h1) (table_size h1) \<and> table_size h1 > HASH_MIN_SIZE
      then hash_resize m h1 (revert_size (nentries h1) (table_size h1 div 2)) error else (True, h1, error, m))
      = (ok, h', error', m')"
    unfolding r [symmetric] h1_def by (simp add: zip_hash_revert_def Let_def)
  have "hash_inv h' \<and> orig_of h' n = orig_of h1 n \<and> cur_of h' n = cur_of h1 n \<and> (m = [] \<longrightarrow> ok \<and> m' = [] \<and> error' = error)"
  proof (cases "under_min_fill (nentries h1) (table_size h1) \<and> table_size h1 > HASH_MIN_SIZE")
    case shrink: True
    let ?s = "revert_size (nentries h1) (table_size h1 div 2)"
    have r2: "hash_resize m h1 ?s error = (ok, h', error', m')" using r' shrink by simp
    from t1 shrink obtain j where j: "j \<le> 31" "table_size h1 = 2 ^ j" by (auto simp: table_inv_def)
    then have "j \<noteq> 0" using shrink by (intro notI) simp
    then have "table_size h1 div 2 = 2 ^ (j - 1)" using j by (simp add: power_diff)
    from revert_size_pow2 [OF this] j(1) have p: "pow2_size ?s"
      unfolding pow2_size_def by (metis diff_le_self order_trans)
    have "cur_of h' n = cur_of h1 n" "orig_of h' n = orig_of h1 n"
      using hash_resize_find [OF t1 p r2] by (auto intro: cur_of_eqI orig_of_eqI)
    moreover have "m = [] \<longrightarrow> ok \<and> m' = [] \<and> error' = error"
      using r2 hash_resize_Nil [of h1 ?s error] by auto
    ultimately show ?thesis using hash_resize_inv [OF h1 p r2] by simp
  qed (use r' h1 in auto)
  with c1 show "hash_inv h'" "orig_of h' n = orig_of h n" "cur_of h' n = orig_of h n" "m = [] \<Longrightarrow> ok \<and> m' = [] \<and> error' = error"
    by simp_all
qed

section \<open>The interface of the name index\<close>

text \<open>
  What the archive operations rely on. \<open>cur\<close> and \<open>orig\<close> are the two maps an index stands for; the
  laws give the outcome of each operation while memory lasts.
\<close>

locale name_index =
  fixes add :: "mem \<Rightarrow> 'h \<Rightarrow> bytes option \<Rightarrow> nat \<Rightarrow> u32 \<Rightarrow> zip_error option \<Rightarrow> bool \<times> 'h \<times> zip_error option \<times> mem"
    and delete :: "mem \<Rightarrow> 'h \<Rightarrow> bytes option \<Rightarrow> zip_error option \<Rightarrow> bool \<times> 'h \<times> zip_error option \<times> mem"
    and lookup :: "'h \<Rightarrow> bytes option \<Rightarrow> u32 \<Rightarrow> zip_error option \<Rightarrow> int \<times> zip_error option"
    and revert :: "mem \<Rightarrow> 'h \<Rightarrow> zip_error option \<Rightarrow> bool \<times> 'h \<times> zip_error option \<times> mem"
    and inv :: "'h \<Rightarrow> bool"
    and orig :: "'h \<Rightarrow> bytes \<Rightarrow> nat option"
    and cur :: "'h \<Rightarrow> bytes \<Rightarrow> nat option"
  assumes lookup_law: "inv h \<Longrightarrow> lookup h (Some n) flags error =
      (case (if flag_set flags ZIP_FL_UNCHANGED then orig h n else cur h n) of
         None \<Rightarrow> (-1, zip_error_set error ZIP_ER_NOENT 0) | Some i \<Rightarrow> (int i, error))"
    and add_ok_law: "inv h \<Longrightarrow> add m h (Some n) i flags error = (True, h', error', m') \<Longrightarrow>
      inv h' \<and> error' = error
      \<and> (\<forall>k. cur h' k = (if cstr k = cstr n then Some i else cur h k))
      \<and> (\<forall>k. orig h' k = (if cstr k = cstr n \<and> flag_set flags ZIP_FL_UNCHANGED then Some i else orig h k))"
    and add_result_law: "inv h \<Longrightarrow> add [] h (Some n) i flags error = (ok, h', error', m') \<Longrightarrow>
      m' = [] \<and> (ok \<longleftrightarrow> i \<le> ZIP_INT64_MAX \<and> cur h n = None \<and> (flag_set flags ZIP_FL_UNCHANGED \<longrightarrow> orig h n = None))
      \<and> (\<not> ok \<longrightarrow> inv h' \<and> cur h' = cur h \<and> orig h' = orig h
           \<and> error' = zip_error_set error (if i \<le> ZIP_INT64_MAX then ZIP_ER_EXISTS else ZIP_ER_INVAL) 0)"
    and delete_law: "inv h \<Longrightarrow> delete m h (Some n) error = (ok, h', error', m') \<Longrightarrow>
      inv h' \<and> orig h' = orig h \<and> (\<forall>k. cur h' k = (if cstr k = cstr n then None else cur h k))"
    and delete_result_law: "inv h \<Longrightarrow> delete [] h (Some n) error = (ok, h', error', m') \<Longrightarrow>
      m' = [] \<and> (ok \<longleftrightarrow> cur h n \<noteq> None \<or> orig h n \<noteq> None)
      \<and> error' = (if ok then error else zip_error_set error ZIP_ER_NOENT 0)"
    and revert_law: "inv h \<Longrightarrow> revert m h error = (ok, h', error', m') \<Longrightarrow>
      inv h' \<and> orig h' = orig h \<and> cur h' = orig h \<and> (m = [] \<longrightarrow> ok \<and> m' = [] \<and> error' = error)"
    and maps_cstr: "cstr k = cstr n \<Longrightarrow> cur h k = cur h n \<and> orig h k = orig h n"

text \<open>
  A map from names to positions is the index of a table of names when it finds the position of
  every name present, as a C string, and nothing else.
\<close>

definition indexes :: "(bytes \<Rightarrow> nat option) \<Rightarrow> (nat \<Rightarrow> bytes option) \<Rightarrow> bool" where
  "indexes c names \<longleftrightarrow> (\<forall>n i. c n = Some i \<longleftrightarrow> (\<exists>s. names i = Some s \<and> cstr s = cstr n))"

lemma indexes_iff: "indexes c names \<Longrightarrow> c n = Some i \<longleftrightarrow> (\<exists>s. names i = Some s \<and> cstr s = cstr n)"
  by (simp add: indexes_def)

lemma indexesD: "indexes c names \<Longrightarrow> names i = Some s \<Longrightarrow> c s = Some i"
  by (auto simp: indexes_def)

lemma indexes_unique:
  "indexes c names \<Longrightarrow> names i = Some s \<Longrightarrow> names j = Some t \<Longrightarrow> cstr s = cstr t \<Longrightarrow> i = j"
  unfolding indexes_def by (metis option.inject)

context name_index
begin

lemma lookup_finds:
  assumes "inv h" and "indexes (cur h) names" and "\<not> flag_set flags ZIP_FL_UNCHANGED"
  shows "lookup h (Some n) flags error = (int i, error') \<Longrightarrow> \<exists>s. names i = Some s \<and> cstr s = cstr n"
    and "names i = Some s \<Longrightarrow> cstr s = cstr n \<Longrightarrow> lookup h (Some n) flags error = (int i, error)"
    and "(\<And>i s. names i = Some s \<Longrightarrow> cstr s \<noteq> cstr n) \<Longrightarrow>
      lookup h (Some n) flags error = (-1, zip_error_set error ZIP_ER_NOENT 0)"
proof -
  have *: "cur h n = Some j \<longleftrightarrow> (\<exists>s. names j = Some s \<and> cstr s = cstr n)" for j
    using assms(2) by (simp add: indexes_def)
  show "\<exists>s. names i = Some s \<and> cstr s = cstr n" if "lookup h (Some n) flags error = (int i, error')"
    using that * lookup_law [OF assms(1), of n flags error] assms(3) by (auto split: option.splits)
  show "lookup h (Some n) flags error = (int i, error)" if "names i = Some s" "cstr s = cstr n"
    using that * [of i] lookup_law [OF assms(1), of n flags error] assms(3) by auto
  show "lookup h (Some n) flags error = (-1, zip_error_set error ZIP_ER_NOENT 0)"
    if "\<And>i s. names i = Some s \<Longrightarrow> cstr s \<noteq> cstr n"
  proof -
    have "cur h n \<noteq> Some j" for j using that * [of j] by blast
    then have "cur h n = None" by (cases "cur h n") auto
    then show ?thesis using lookup_law [OF assms(1), of n flags error] assms(3) by simp
  qed
qed

lemma add_indexes:
  assumes "inv h" and ix: "indexes (cur h) names" and "names i = None" and free: "cur h n = None"
    and "add m h (Some n) i flags error = (True, h', error', m')"
  shows "inv h'" and "indexes (cur h') (names(i := Some n))"
proof -
  have a: "inv h'" "\<And>k. cur h' k = (if cstr k = cstr n then Some i else cur h k)"
    using add_ok_law [OF assms(1,5)] by simp_all
  show "inv h'" by (rule a)
  have "names j = Some s \<Longrightarrow> cstr s \<noteq> cstr n" for j s
    using ix free unfolding indexes_def by (metis option.distinct(1))
  then show "indexes (cur h') (names(i := Some n))"
    unfolding indexes_def
    using assms(3) a(2) indexes_iff [OF ix] by (auto split: if_splits)
qed

lemma delete_indexes:
  assumes "inv h" and ix: "indexes (cur h) names" and i: "names i = Some s" and n: "cstr s = cstr n"
    and "delete m h (Some n) error = (ok, h', error', m')"
  shows "inv h'" and "indexes (cur h') (names(i := None))"
proof -
  have a: "inv h'" "\<And>k. cur h' k = (if cstr k = cstr n then None else cur h k)"
    using delete_law [OF assms(1,5)] by simp_all
  show "inv h'" by (rule a)
  have "j = i" if "names j = Some t" "cstr t = cstr n" for j t
    using indexes_unique [OF ix that(1) i] that(2) n by simp
  then have only: "j \<noteq> i \<Longrightarrow> \<not> (\<exists>t. names j = Some t \<and> cstr t = cstr n)" for j by blast
  show "indexes (cur h') (names(i := None))"
    unfolding indexes_def
  proof (intro allI)
    fix k j
    show "cur h' k = Some j \<longleftrightarrow> (\<exists>s. (names(i := None)) j = Some s \<and> cstr s = cstr k)"
      using only [of j] i n a(2) [of k] indexes_iff [OF ix, of k j]
      by (cases "cstr k = cstr n"; cases "j = i") simp_all
  qed
qed

text \<open>Renaming adds the new name and deletes the old one.\<close>

lemma rename_indexes:
  assumes "inv h" and ix: "indexes (cur h) names" and old: "names i = Some s"
    and add: "add m h (Some n) i flags error = (True, h1, error1, m1)" and free: "cur h n = None"
    and delete: "delete m2 h1 (Some s) error2 = (ok, h2, error3, m3)"
  shows "inv h2" and "indexes (cur h2) (names(i := Some n))"
proof -
  have a: "inv h1" "\<And>k. cur h1 k = (if cstr k = cstr n then Some i else cur h k)"
    using add_ok_law [OF assms(1) add] by simp_all
  have d: "inv h2" "\<And>k. cur h2 k = (if cstr k = cstr s then None else cur h1 k)"
    using delete_law [OF a(1) delete] by simp_all
  show "inv h2" by (rule d)
  have new: "\<not> (\<exists>t. names j = Some t \<and> cstr t = cstr n)" for j
    using ix free unfolding indexes_def by (metis option.distinct(1))
  have "j = i" if "names j = Some t" "cstr t = cstr s" for j t
    using indexes_unique [OF ix that(1) old] that(2) by simp
  then have only: "j \<noteq> i \<Longrightarrow> \<not> (\<exists>t. names j = Some t \<and> cstr t = cstr s)" for j by blast
  have ns: "cstr s \<noteq> cstr n" "cstr n \<noteq> cstr s" using new [of i] old by auto
  show "indexes (cur h2) (names(i := Some n))"
    unfolding indexes_def
  proof (intro allI)
    fix k j
    show "cur h2 k = Some j \<longleftrightarrow> (\<exists>s. (names(i := Some n)) j = Some s \<and> cstr s = cstr k)"
      using only [of j] new [of j] old ns d(2) [of k] a(2) [of k] indexes_iff [OF ix, of k j]
      by (cases "cstr k = cstr n"; cases "cstr k = cstr s"; cases "j = i") simp_all
  qed
qed

lemma revert_indexes:
  assumes "inv h" and "indexes (orig h) names" and "revert m h error = (ok, h', error', m')"
  shows "inv h'" and "indexes (cur h') names" and "indexes (orig h') names"
  using revert_law [OF assms(1,3)] assms(2) by simp_all

end

interpretation ni: name_index zip_hash_add zip_hash_delete zip_hash_lookup zip_hash_revert hash_inv orig_of cur_of
proof unfold_locales
  fix h :: zip_hash and n k and flags and error error' and m m' and h' and i and ok
  assume h: "hash_inv h"
  show "zip_hash_lookup h (Some n) flags error =
      (case (if flag_set flags ZIP_FL_UNCHANGED then orig_of h n else cur_of h n) of
         None \<Rightarrow> (-1, zip_error_set error ZIP_ER_NOENT 0) | Some i \<Rightarrow> (int i, error))"
    by (rule zip_hash_lookup_spec [OF h])
  show "hash_inv h' \<and> error' = error
      \<and> (\<forall>k. cur_of h' k = (if cstr k = cstr n then Some i else cur_of h k))
      \<and> (\<forall>k. orig_of h' k = (if cstr k = cstr n \<and> flag_set flags ZIP_FL_UNCHANGED then Some i else orig_of h k))"
    if "zip_hash_add m h (Some n) i flags error = (True, h', error', m')"
    using zip_hash_add_ok [OF h that] by blast
  show "m' = [] \<and> (ok \<longleftrightarrow> i \<le> ZIP_INT64_MAX \<and> cur_of h n = None \<and> (flag_set flags ZIP_FL_UNCHANGED \<longrightarrow> orig_of h n = None))
      \<and> (\<not> ok \<longrightarrow> hash_inv h' \<and> cur_of h' = cur_of h \<and> orig_of h' = orig_of h
           \<and> error' = zip_error_set error (if i \<le> ZIP_INT64_MAX then ZIP_ER_EXISTS else ZIP_ER_INVAL) 0)"
    if "zip_hash_add [] h (Some n) i flags error = (ok, h', error', m')"
    using zip_hash_add_no_oom [OF h that] by (auto simp: same_index_def)
  show "hash_inv h' \<and> orig_of h' = orig_of h \<and> (\<forall>k. cur_of h' k = (if cstr k = cstr n then None else cur_of h k))"
    if "zip_hash_delete m h (Some n) error = (ok, h', error', m')"
    using zip_hash_delete_spec(1-3) [OF h that] by blast
  show "m' = [] \<and> (ok \<longleftrightarrow> cur_of h n \<noteq> None \<or> orig_of h n \<noteq> None)
      \<and> error' = (if ok then error else zip_error_set error ZIP_ER_NOENT 0)"
    if "zip_hash_delete [] h (Some n) error = (ok, h', error', m')"
    using zip_hash_delete_spec(4) [OF h that] by simp
  show "hash_inv h' \<and> orig_of h' = orig_of h \<and> cur_of h' = orig_of h \<and> (m = [] \<longrightarrow> ok \<and> m' = [] \<and> error' = error)"
    if "zip_hash_revert m h error = (ok, h', error', m')"
    using zip_hash_revert_spec [OF h that] by blast
next
  fix h :: zip_hash and k n :: bytes
  assume "cstr k = cstr n"
  from find_entry_cstr [OF this, of h]
  show "cur_of h k = cur_of h n \<and> orig_of h k = orig_of h n" by (simp add: cur_of_def orig_of_def)
qed

section \<open>Properties\<close>

lemma lookup_by_maps:
  assumes "hash_inv h" and "hash_inv h'"
    and "(if flag_set fl ZIP_FL_UNCHANGED then orig_of h' k else cur_of h' k)
       = (if flag_set fl' ZIP_FL_UNCHANGED then orig_of h k' else cur_of h k')"
  shows "zip_hash_lookup h' (Some k) fl error = zip_hash_lookup h (Some k') fl' error"
  unfolding ni.lookup_law [OF assms(1)] ni.lookup_law [OF assms(2)] assms(3) ..

lemma ZIP_FL_UNCHANGED_set [simp]: "flag_set (8::u32) 8" "flag_set (- 1 :: u32) 8"
  by (simp_all add: flag_set_def)

text \<open>
  C6. A successful \<open>_zip_hash_add\<close> keeps the table well formed (also through the growth of the
  table) and is visible to \<open>_zip_hash_lookup\<close>: the new name gives the new index, in the original
  view only when it was added as part of the original archive, and every other lookup is answered
  as before.
\<close>

theorem zip_hash_add_then_lookup:
  assumes "hash_inv h" and "zip_hash_add m h (Some n) i flags error = (True, h', error', m')"
  shows "hash_inv h' \<and> zip_hash_lookup h' (Some k) fl e =
    (if cstr k = cstr n \<and> (\<not> flag_set fl ZIP_FL_UNCHANGED \<or> flag_set flags ZIP_FL_UNCHANGED) then (int i, e)
     else zip_hash_lookup h (Some k) fl e)"
proof -
  note a = zip_hash_add_ok [OF assms]
  show ?thesis
    using a(1) a(6,7) [of k] ni.lookup_law [OF a(1), of k fl e] ni.lookup_law [OF assms(1), of k fl e] by auto
qed

theorem zip_hash_add_then_lookup_witness:
  "fst (zip_hash_lookup (fst (snd (zip_hash_add [] \<lparr>table_size = 0, nentries = 0, hash_table = []\<rparr>
     (Some [97]) 5 0 None))) (Some [97]) 0 None) = 5"
proof -
  let ?h = "\<lparr>table_size = 0, nentries = 0, hash_table = []\<rparr>"
  have inv: "hash_inv ?h" by (simp add: hash_inv_def table_inv_def)
  obtain ok h' e' m' where r: "zip_hash_add [] ?h (Some [97]) 5 0 None = (ok, h', e', m')"
    by (metis prod_cases4)
  have "fst (zip_hash_add [] ?h (Some [97]) 5 0 None)"
    unfolding r fst_conv zip_hash_add_no_oom(2) [OF inv r] by (simp add: cur_of_def find_entry_def)
  with r have "zip_hash_add [] ?h (Some [97]) 5 0 None = (True, h', e', m')" by simp
  from zip_hash_add_then_lookup [OF inv this, of "[97]" 0 None]
  have "zip_hash_lookup h' (Some [97]) 0 None = (5, None)" by simp
  then show ?thesis unfolding r fst_conv snd_conv by simp
qed

text \<open>
  C14. \<open>_zip_hash_delete\<close>, whether or not the allocation for a smaller table succeeds, leaves a
  well-formed table in which the deleted name is no longer found, while its original index and every
  other name are found as before; with memory available it succeeds exactly when the name is in one
  of the two views. So deleting the name of an original entry a second time succeeds, when it is no longer found,
  where the comment on the function announces an error.
\<close>

theorem zip_hash_delete_then_lookup:
  assumes "hash_inv h" and "zip_hash_delete m h (Some n) error = (ok, h', error', m')"
  shows "hash_inv h'
    \<and> zip_hash_lookup h' (Some k) fl e =
        (if cstr k = cstr n \<and> \<not> flag_set fl ZIP_FL_UNCHANGED then (-1, zip_error_set e ZIP_ER_NOENT 0)
         else zip_hash_lookup h (Some k) fl e)
    \<and> (m = [] \<longrightarrow> (ok \<longleftrightarrow> fst (zip_hash_lookup h (Some n) 0 e) \<noteq> -1
                        \<or> fst (zip_hash_lookup h (Some n) ZIP_FL_UNCHANGED e) \<noteq> -1))"
proof -
  note d = zip_hash_delete_spec [OF assms]
  have "flag_set (8::u32) 8" by simp
  then show ?thesis
    using d(1,4) d(2,3) [of k] ni.lookup_law [OF d(1), of k fl e] ni.lookup_law [OF assms(1), of _ _ e]
    by (auto split: option.splits)
qed

theorem zip_hash_delete_then_lookup_witness:
  "fst (zip_hash_lookup (fst (snd (zip_hash_delete [] \<lparr>table_size = 1, nentries = 1,
     hash_table = [[\<lparr>he_name = [97], he_orig_index = 2, he_current_index = 2, he_hash_value = 177670\<rparr>]]\<rparr>
     (Some [97]) None))) (Some [97]) 0 None) = -1"
proof -
  let ?h = "\<lparr>table_size = 1, nentries = 1,
     hash_table = [[\<lparr>he_name = [97], he_orig_index = 2, he_current_index = 2, he_hash_value = 177670\<rparr>]]\<rparr>"
  have "hash_string (Some [97]) = 177670" by (simp add: hash_string_def)
  then have inv: "hash_inv ?h"
    by (auto simp: hash_inv_def table_inv_def bucket_ok_def entry_ok_def index_ok_def intro: exI [of _ 0])
  obtain ok h' e' m' where r: "zip_hash_delete [] ?h (Some [97]) None = (ok, h', e', m')"
    by (metis prod_cases4)
  from zip_hash_delete_then_lookup [OF inv r, of "[97]" 0 None]
  have "fst (zip_hash_lookup h' (Some [97]) 0 None) = -1" by simp
  then show ?thesis unfolding r fst_conv snd_conv .
qed

text \<open>
  C19. \<open>_zip_hash_revert\<close> (discarding all changes) makes every name resolve as in the original
  archive, and keeps the table well formed also when it shrinks it, whatever the allocator answers.
\<close>

theorem zip_hash_revert_then_lookup:
  assumes "hash_inv h" and "zip_hash_revert m h error = (ok, h', error', m')"
  shows "hash_inv h' \<and> zip_hash_lookup h' (Some k) fl e = zip_hash_lookup h (Some k) ZIP_FL_UNCHANGED e"
proof -
  note r = zip_hash_revert_spec [OF assms]
  show ?thesis using r(1) r(2,3) [of k] by (auto intro: lookup_by_maps [OF assms(1)])
qed

theorem zip_hash_revert_then_lookup_witness:
  "fst (zip_hash_lookup (fst (snd (zip_hash_revert [] \<lparr>table_size = 1, nentries = 1,
     hash_table = [[\<lparr>he_name = [97], he_orig_index = 2, he_current_index = 7, he_hash_value = 177670\<rparr>]]\<rparr>
     None))) (Some [97]) 0 None) = 2"
proof -
  let ?h = "\<lparr>table_size = 1, nentries = 1,
     hash_table = [[\<lparr>he_name = [97], he_orig_index = 2, he_current_index = 7, he_hash_value = 177670\<rparr>]]\<rparr>"
  have h: "hash_string (Some [97]) = 177670" by (simp add: hash_string_def)
  then have inv: "hash_inv ?h"
    by (auto simp: hash_inv_def table_inv_def bucket_ok_def entry_ok_def index_ok_def intro: exI [of _ 0])
  obtain ok h' e' m' where r: "zip_hash_revert [] ?h None = (ok, h', e', m')"
    by (metis prod_cases4)
  have "zip_hash_lookup ?h (Some [97]) 8 None = (2, None)"
    by (simp add: zip_hash_lookup_def h str_eq_def)
  with zip_hash_revert_then_lookup [OF inv r, of "[97]" 0 None]
  have "fst (zip_hash_lookup h' (Some [97]) 0 None) = 2" by simp
  then show ?thesis unfolding r fst_conv snd_conv .
qed

text \<open>
  \<open>size_for_capacity\<close> yields the least power of two that keeps the fill ratio under 3/4 for
  the capacity asked for, up to the largest table: the bit-spreading at its
  end computes it exactly on a 32-bit word.
\<close>

theorem size_for_capacity_least:
  assumes "0 < capacity" and "4 * capacity div 3 \<le> HASH_MAX_SIZE"
  shows "(\<exists>k\<le>31. size_for_capacity capacity = 2 ^ k)
    \<and> 4 * capacity div 3 \<le> size_for_capacity capacity
    \<and> (\<forall>j. 4 * capacity div 3 \<le> 2 ^ j \<longrightarrow> size_for_capacity capacity \<le> 2 ^ j)"
proof -
  let ?v = "4 * capacity div 3"
  have v: "1 \<le> ?v" "?v \<le> 2 ^ 31" using assms by simp_all
  have uw: "unat (word_of_nat ?v :: u32) = ?v"
    using assms(2) by (simp add: unsigned_of_nat take_bit_nat_eq_self)
  have c: "\<not> 3 * ZIP_UINT32_MAX < 4 * capacity" "\<not> HASH_MAX_SIZE < ?v" using assms(2) by linarith+
  have s: "size_for_capacity capacity = unat (round_up_pow2 (word_of_nat ?v))"
    unfolding size_for_capacity_def Let_def if_not_P [OF c(1)] if_not_P [OF c(2)] by (rule refl)
  have "1 \<le> unat (word_of_nat ?v :: u32)" "unat (word_of_nat ?v :: u32) \<le> 2 ^ 31" using v uw by simp_all
  from round_up_pow2_correct [OF this] obtain k where
    k: "k \<le> 31" "size_for_capacity capacity = 2 ^ k" "?v \<le> 2 ^ k" "\<And>j. ?v \<le> 2 ^ j \<Longrightarrow> k \<le> j"
    unfolding uw s by blast
  have "\<forall>j. ?v \<le> 2 ^ j \<longrightarrow> size_for_capacity capacity \<le> 2 ^ j"
    unfolding k(2) by (intro allI impI power_increasing k(4)) simp_all
  moreover have "?v \<le> size_for_capacity capacity" unfolding k(2) by (rule k(3))
  moreover have "\<exists>k\<le>31. size_for_capacity capacity = 2 ^ k" using k(1,2) by (intro exI conjI)
  ultimately show ?thesis by (intro conjI)
qed

theorem size_for_capacity_least_witness: "size_for_capacity 3000 \<le> 2 ^ 12"
proof -
  have "(3000::nat) > 0" "4 * 3000 div 3 \<le> HASH_MAX_SIZE" by simp_all
  from size_for_capacity_least [OF this]
  have "4 * 3000 div 3 \<le> (2::nat) ^ 12 \<longrightarrow> size_for_capacity 3000 \<le> 2 ^ 12" by (elim conjE) (erule spec)
  then show ?thesis by (rule mp) simp
qed

text \<open>
  When a fresh entry has been linked into its chain and the growth of the table then fails for lack
  of memory, the insertion reports failure but the entry stays in the table, with the bytes malloc
  left in \<open>current_index\<close>: looking the name up returns them.
\<close>

lemma zip_hash_add_failed_growth:
  assumes inv: "hash_inv h" and nz: "table_size h \<noteq> 0" and new: "find_entry h n = None"
    and small: "index \<le> ZIP_INT64_MAX"
    and full: "over_max_fill (nentries h + 1) (table_size h)" "table_size h < HASH_MAX_SIZE"
    and junk: "0 \<le> sint (word_of_nat junk :: u64)"
  shows "\<exists>h' m'. zip_hash_add (Some junk # None # m) h (Some n) index 0 error =
      (False, h', zip_error_set error ZIP_ER_MEMORY 0, m')
    \<and> cur_of h' n = Some (nat (sint (word_of_nat junk :: u64)))"
proof -
  note t = hash_invD [OF inv]
  define e where "e = \<lparr>he_name = n, he_orig_index = -1, he_current_index = sint (word_of_nat junk :: u64),
    he_hash_value = hash_string (Some n)\<rparr>"
  define h2 where "h2 = h\<lparr>hash_table := (hash_table h)[hash_string (Some n) mod table_size h :=
    e # hash_table h ! (hash_string (Some n) mod table_size h)], nentries := nentries h + 1\<rparr>"
  have "he_name e = n" "he_hash_value e = hash_string (Some n)" by (simp_all add: e_def)
  from insert_entry_spec(2) [OF t nz new this h2_def] have "find_entry h2 n = Some e" by simp
  then have c: "cur_of h2 n = Some (nat (sint (word_of_nat junk :: u64)))"
    using junk by (simp add: cur_of_def e_def)
  have "zip_hash_add (Some junk # None # m) h (Some n) index 0 error =
      (case hash_resize (None # m) h2 (table_size h * 2) error of
         (False, h2, error2, m3) \<Rightarrow> (False, h2, error2, m3)
       | (True, h2, error2, m3) \<Rightarrow> (True, write_entry (hash_string (Some n)) n (set_indices 0 (int index)) h2, error2, m3))"
    using small nz full find_matches [OF t nz, of n] new by (simp add: zip_hash_add_def Let_def h2_def e_def)
  also have "hash_resize (None # m) h2 (table_size h * 2) error = (False, h2, zip_error_set error ZIP_ER_MEMORY 0, m)"
    using nz by (simp add: hash_resize_def h2_def)
  finally show ?thesis using c by simp
qed

end
