(* ===== verification/Zip_String.thy ===== *)
theory Zip_String
  imports Zip_Buffer Zip_Hash "HOL-Library.Multiset"
begin

text \<open>
  Names and comments of an archive (lib/zip_utf-8.c, lib/zip_string.c): a string keeps its raw
  bytes, an encoding guessed once, and a UTF-8 conversion computed on demand. \<open>raw\<close> is the
  allocated block with its terminating NUL; a NULL string is \<open>None\<close>. A function that writes to the
  string returns it updated. \<open>crc32\<close> is zlib's and stays a parameter.
  The lemmas show that the guess is the membership test of a grammar of byte sequences, that the
  CP437 conversion fills its buffer exactly and is inverted by a UTF-8 decoder, and what a string
  made by \<open>_zip_string_new\<close> gives back.
\<close>

section \<open>Data\<close>

datatype zip_encoding_type =
    ZIP_ENCODING_UNKNOWN
  | ZIP_ENCODING_ASCII
  | ZIP_ENCODING_UTF8_KNOWN
  | ZIP_ENCODING_UTF8_GUESSED
  | ZIP_ENCODING_CP437
  | ZIP_ENCODING_ERROR

record zip_string =
  zs_raw :: bytes
  zs_length :: nat
  zs_encoding :: zip_encoding_type
  zs_converted :: "bytes option"
  zs_converted_length :: nat

abbreviation ZIP_FL_ENC_RAW :: u32 where "ZIP_FL_ENC_RAW \<equiv> 64"
abbreviation ZIP_FL_ENC_STRICT :: u32 where "ZIP_FL_ENC_STRICT \<equiv> 128"
abbreviation ZIP_FL_ENC_GUESS :: u32 where "ZIP_FL_ENC_GUESS \<equiv> 0"
abbreviation ZIP_FL_ENC_UTF_8 :: u32 where "ZIP_FL_ENC_UTF_8 \<equiv> 2048"
abbreviation ZIP_FL_ENC_CP437 :: u32 where "ZIP_FL_ENC_CP437 \<equiv> 4096"
abbreviation ZIP_FL_ENCODING_ALL :: u32 where "ZIP_FL_ENCODING_ALL \<equiv> 6144"

definition cp437_to_unicode :: "u32 list" where
  "cp437_to_unicode = [
    0x0000, 0x263A, 0x263B, 0x2665, 0x2666, 0x2663, 0x2660, 0x2022, 0x25D8, 0x25CB, 0x25D9, 0x2642, 0x2640, 0x266A, 0x266B, 0x263C,
    0x25BA, 0x25C4, 0x2195, 0x203C, 0x00B6, 0x00A7, 0x25AC, 0x21A8, 0x2191, 0x2193, 0x2192, 0x2190, 0x221F, 0x2194, 0x25B2, 0x25BC,
    0x0020, 0x0021, 0x0022, 0x0023, 0x0024, 0x0025, 0x0026, 0x0027, 0x0028, 0x0029, 0x002A, 0x002B, 0x002C, 0x002D, 0x002E, 0x002F,
    0x0030, 0x0031, 0x0032, 0x0033, 0x0034, 0x0035, 0x0036, 0x0037, 0x0038, 0x0039, 0x003A, 0x003B, 0x003C, 0x003D, 0x003E, 0x003F,
    0x0040, 0x0041, 0x0042, 0x0043, 0x0044, 0x0045, 0x0046, 0x0047, 0x0048, 0x0049, 0x004A, 0x004B, 0x004C, 0x004D, 0x004E, 0x004F,
    0x0050, 0x0051, 0x0052, 0x0053, 0x0054, 0x0055, 0x0056, 0x0057, 0x0058, 0x0059, 0x005A, 0x005B, 0x005C, 0x005D, 0x005E, 0x005F,
    0x0060, 0x0061, 0x0062, 0x0063, 0x0064, 0x0065, 0x0066, 0x0067, 0x0068, 0x0069, 0x006A, 0x006B, 0x006C, 0x006D, 0x006E, 0x006F,
    0x0070, 0x0071, 0x0072, 0x0073, 0x0074, 0x0075, 0x0076, 0x0077, 0x0078, 0x0079, 0x007A, 0x007B, 0x007C, 0x007D, 0x007E, 0x2302,
    0x00C7, 0x00FC, 0x00E9, 0x00E2, 0x00E4, 0x00E0, 0x00E5, 0x00E7, 0x00EA, 0x00EB, 0x00E8, 0x00EF, 0x00EE, 0x00EC, 0x00C4, 0x00C5,
    0x00C9, 0x00E6, 0x00C6, 0x00F4, 0x00F6, 0x00F2, 0x00FB, 0x00F9, 0x00FF, 0x00D6, 0x00DC, 0x00A2, 0x00A3, 0x00A5, 0x20A7, 0x0192,
    0x00E1, 0x00ED, 0x00F3, 0x00FA, 0x00F1, 0x00D1, 0x00AA, 0x00BA, 0x00BF, 0x2310, 0x00AC, 0x00BD, 0x00BC, 0x00A1, 0x00AB, 0x00BB,
    0x2591, 0x2592, 0x2593, 0x2502, 0x2524, 0x2561, 0x2562, 0x2556, 0x2555, 0x2563, 0x2551, 0x2557, 0x255D, 0x255C, 0x255B, 0x2510,
    0x2514, 0x2534, 0x252C, 0x251C, 0x2500, 0x253C, 0x255E, 0x255F, 0x255A, 0x2554, 0x2569, 0x2566, 0x2560, 0x2550, 0x256C, 0x2567,
    0x2568, 0x2564, 0x2565, 0x2559, 0x2558, 0x2552, 0x2553, 0x256B, 0x256A, 0x2518, 0x250C, 0x2588, 0x2584, 0x258C, 0x2590, 0x2580,
    0x03B1, 0x00DF, 0x0393, 0x03C0, 0x03A3, 0x03C3, 0x00B5, 0x03C4, 0x03A6, 0x0398, 0x03A9, 0x03B4, 0x221E, 0x03C6, 0x03B5, 0x2229,
    0x2261, 0x00B1, 0x2265, 0x2264, 0x2320, 0x2321, 0x00F7, 0x2248, 0x00B0, 0x2219, 0x00B7, 0x221A, 0x207F, 0x00B2, 0x25A0, 0x00A0]"

section \<open>Encodings\<close>

definition utf8_plain :: "u8 \<Rightarrow> bool" where
  "utf8_plain c \<longleftrightarrow> (c > 31 \<and> c < 128) \<or> c = 13 \<or> c = 10 \<or> c = 9"

definition utf8_ulen :: "u8 \<Rightarrow> nat option" where
  "utf8_ulen c =
     (if c AND 0xe0 = 0xc0 then Some 1
      else if c AND 0xf0 = 0xe0 then Some 2
      else if c AND 0xf8 = 0xf0 then Some 3
      else None)"

definition utf8_continue :: "u8 \<Rightarrow> bool" where
  "utf8_continue c \<longleftrightarrow> c AND 0xc0 = 0x80"

text \<open>The scanning loop of \<open>_zip_guess_encoding\<close> on the bytes from \<open>name[i]\<close> on.\<close>

function guess_loop :: "zip_encoding_type \<Rightarrow> bytes \<Rightarrow> zip_encoding_type" where
  "guess_loop enc [] = enc"
| "guess_loop enc (c # cs) =
     (if utf8_plain c then guess_loop enc cs
      else (case utf8_ulen c of
              None \<Rightarrow> ZIP_ENCODING_CP437
            | Some ulen \<Rightarrow>
                if ulen \<ge> length (c # cs) then ZIP_ENCODING_CP437
                else if \<not> list_all utf8_continue (take ulen cs) then ZIP_ENCODING_CP437
                else guess_loop ZIP_ENCODING_UTF8_GUESSED (drop ulen cs)))"
  by pat_completeness auto
termination by (relation "measure (length \<circ> snd)") simp_all

definition zip_guess_encoding ::
  "zip_string option \<Rightarrow> zip_encoding_type \<Rightarrow> zip_encoding_type \<times> zip_string option" where
  "zip_guess_encoding str expected_encoding =
     (case str of
        None \<Rightarrow> (ZIP_ENCODING_ASCII, None)
      | Some s \<Rightarrow>
        (let enc = (if zs_encoding s \<noteq> ZIP_ENCODING_UNKNOWN then zs_encoding s
                    else guess_loop ZIP_ENCODING_ASCII (take (zs_length s) (zs_raw s)));
             enc' = (if expected_encoding = ZIP_ENCODING_UTF8_KNOWN \<and> enc = ZIP_ENCODING_UTF8_GUESSED
                     then ZIP_ENCODING_UTF8_KNOWN else enc)
         in if expected_encoding \<noteq> ZIP_ENCODING_UNKNOWN
            then (if expected_encoding \<noteq> enc' \<and> enc' \<noteq> ZIP_ENCODING_ASCII then ZIP_ENCODING_ERROR else enc',
                  Some (s\<lparr>zs_encoding := enc'\<rparr>))
            else (enc, Some (s\<lparr>zs_encoding := enc\<rparr>))))"

definition unicode_to_utf8_len :: "u32 \<Rightarrow> nat" where
  "unicode_to_utf8_len codepoint =
     (if codepoint < 0x80 then 1 else if codepoint < 0x800 then 2 else if codepoint < 0x10000 then 3 else 4)"

text \<open>The bytes \<open>_zip_unicode_to_utf8\<close> stores at \<open>buf\<close>; it returns their number.\<close>

definition unicode_to_utf8 :: "u32 \<Rightarrow> bytes" where
  "unicode_to_utf8 codepoint =
     (if codepoint < 0x80 then [ucast (codepoint AND 0xff)]
      else if codepoint < 0x800 then
        [ucast (0xc0 OR (drop_bit 6 codepoint AND 0x1f)),
         ucast (0x80 OR (codepoint AND 0x3f))]
      else if codepoint < 0x10000 then
        [ucast (0xe0 OR (drop_bit 12 codepoint AND 0x0f)),
         ucast (0x80 OR (drop_bit 6 codepoint AND 0x3f)),
         ucast (0x80 OR (codepoint AND 0x3f))]
      else
        [ucast (0xf0 OR (drop_bit 18 codepoint AND 0x07)),
         ucast (0x80 OR (drop_bit 12 codepoint AND 0x3f)),
         ucast (0x80 OR (drop_bit 6 codepoint AND 0x3f)),
         ucast (0x80 OR (codepoint AND 0x3f))])"

definition codepoint_of :: "u8 \<Rightarrow> u32" where
  "codepoint_of c = cp437_to_unicode ! unat c"

text \<open>The filling loop; a store outside the block, which C leaves undefined, is \<open>None\<close>.\<close>

fun cp437_fill :: "bytes \<Rightarrow> nat \<Rightarrow> bytes \<Rightarrow> (bytes \<times> nat) option" where
  "cp437_fill utf8buf offset [] = Some (utf8buf, offset)"
| "cp437_fill utf8buf offset (c # cs) =
     (let enc = unicode_to_utf8 (codepoint_of c)
      in if offset + length enc \<le> length utf8buf
         then cp437_fill (poke utf8buf offset enc) (offset + length enc) cs
         else None)"

text \<open>
  The result is the new block and its length without the NUL, or NULL; the inner \<open>None\<close> of the
  first component would be a store out of bounds.
\<close>

definition cp437_to_utf8 ::
  "mem \<Rightarrow> bytes \<Rightarrow> nat \<Rightarrow> zip_error option \<Rightarrow> (bytes \<times> nat) option option \<times> zip_error option \<times> mem" where
  "cp437_to_utf8 m cp437buf len error =
     (if len = 0 then (Some None, error, m)
      else (let buflen = 1 + (\<Sum>c\<leftarrow>take len cp437buf. unicode_to_utf8_len (codepoint_of c))
            in case malloc m of
                 (None, m') \<Rightarrow> (Some None, zip_error_set error ZIP_ER_MEMORY 0, m')
               | (Some junk, m') \<Rightarrow>
                   (case cp437_fill (junk_bytes junk buflen) 0 (take len cp437buf) of
                      None \<Rightarrow> (None, error, m')
                    | Some (utf8buf, offset) \<Rightarrow> (Some (Some (utf8buf[buflen - 1 := 0], buflen - 1)), error, m'))))"

section \<open>Strings\<close>

definition zip_string_crc32 :: "(u32 \<Rightarrow> bytes option \<Rightarrow> u32) \<Rightarrow> zip_string option \<Rightarrow> u32" where
  "zip_string_crc32 crc32 s =
     (let crc = crc32 0 None
      in case s of None \<Rightarrow> crc | Some s \<Rightarrow> crc32 crc (Some (take (zs_length s) (zs_raw s))))"

definition zip_string_equal :: "zip_string option \<Rightarrow> zip_string option \<Rightarrow> bool" where
  "zip_string_equal a b =
     (case (a, b) of
        (Some a, Some b) \<Rightarrow>
          zs_length a = zs_length b \<and> take (zs_length a) (zs_raw a) = take (zs_length a) (zs_raw b)
      | (None, None) \<Rightarrow> True
      | _ \<Rightarrow> False)"

text \<open>
  The C string returned (or NULL), the length stored through \<open>lenp\<close>, and the string with its
  cached encoding and conversion.
\<close>

definition zip_string_get ::
  "mem \<Rightarrow> zip_string option \<Rightarrow> u32 \<Rightarrow> zip_error option
     \<Rightarrow> (bytes \<times> nat) option \<times> zip_string option \<times> zip_error option \<times> mem"
where
  "zip_string_get m string flags error =
     (case string of
        None \<Rightarrow> (Some ([0], 0), None, error, m)
      | Some s0 \<Rightarrow>
        if flag_set flags ZIP_FL_ENC_RAW then (Some (zs_raw s0, zs_length s0), Some s0, error, m)
        else
          (let s = (if zs_encoding s0 = ZIP_ENCODING_UNKNOWN
                    then the (snd (zip_guess_encoding (Some s0) ZIP_ENCODING_UNKNOWN)) else s0)
           in if (flag_set flags ZIP_FL_ENC_STRICT \<and> zs_encoding s \<noteq> ZIP_ENCODING_ASCII
                    \<and> zs_encoding s \<noteq> ZIP_ENCODING_UTF8_KNOWN)
                 \<or> zs_encoding s = ZIP_ENCODING_CP437
              then (case zs_converted s of
                      Some c \<Rightarrow> (Some (c, zs_converted_length s), Some s, error, m)
                    | None \<Rightarrow>
                      (case cp437_to_utf8 m (zs_raw s) (zs_length s) error of
                         (Some (Some (c, l)), error', m') \<Rightarrow>
                           (Some (c, l), Some (s\<lparr>zs_converted := Some c, zs_converted_length := l\<rparr>), error', m')
                       | (_, error', m') \<Rightarrow>
                           (None, Some (if zs_length s = 0 then s\<lparr>zs_converted_length := 0\<rparr> else s), error', m')))
              else (Some (zs_raw s, zs_length s), Some s, error, m)))"

definition zip_string_length :: "zip_string option \<Rightarrow> nat" where
  "zip_string_length s = (case s of None \<Rightarrow> 0 | Some s \<Rightarrow> zs_length s)"

definition zip_string_new ::
  "mem \<Rightarrow> bytes \<Rightarrow> nat \<Rightarrow> u32 \<Rightarrow> zip_error option \<Rightarrow> zip_string option \<times> zip_error option \<times> mem" where
  "zip_string_new m raw len flags error =
     (if len = 0 then (None, error, m)
      else
        (case (if flags AND ZIP_FL_ENCODING_ALL = ZIP_FL_ENC_GUESS then Some ZIP_ENCODING_UNKNOWN
               else if flags AND ZIP_FL_ENCODING_ALL = ZIP_FL_ENC_UTF_8 then Some ZIP_ENCODING_UTF8_KNOWN
               else if flags AND ZIP_FL_ENCODING_ALL = ZIP_FL_ENC_CP437 then Some ZIP_ENCODING_CP437
               else None) of
           None \<Rightarrow> (None, zip_error_set error ZIP_ER_INVAL 0, m)
         | Some expected_encoding \<Rightarrow>
           (case malloc m of
              (None, m1) \<Rightarrow> (None, zip_error_set error ZIP_ER_MEMORY 0, m1)
            | (Some _, m1) \<Rightarrow>
              (case malloc m1 of
                 (None, m2) \<Rightarrow> (None, error, m2)
               | (Some _, m2) \<Rightarrow>
                 (let s = \<lparr>zs_raw = take len raw @ [0], zs_length = len, zs_encoding = ZIP_ENCODING_UNKNOWN,
                           zs_converted = None, zs_converted_length = 0\<rparr>
                  in if expected_encoding \<noteq> ZIP_ENCODING_UNKNOWN
                     then (case zip_guess_encoding (Some s) expected_encoding of
                             (enc, s') \<Rightarrow>
                               if enc = ZIP_ENCODING_ERROR then (None, zip_error_set error ZIP_ER_INVAL 0, m2)
                               else (s', error, m2))
                     else (Some s, error, m2))))))"

section \<open>UTF-8 coding\<close>

lemma or_low_nat: "m < 2 ^ k \<Longrightarrow> (2 ^ k * a) OR m = 2 ^ k * a + (m::nat)"
proof -
  assume "m < 2 ^ k"
  then have "m = take_bit k m" by (simp add: take_bit_nat_eq_self)
  then have "2 ^ k * a + m = push_bit k a + take_bit k m" by (simp add: push_bit_eq_mult mult.commute)
  also have "\<dots> = push_bit k a OR take_bit k m"
    by (rule disjunctive_add) (auto simp: bit_push_bit_iff bit_take_bit_iff)
  finally show ?thesis using \<open>m = take_bit k m\<close> by (simp add: push_bit_eq_mult mult.commute)
qed

lemma and_low_nat: "(n::nat) AND (2 ^ k - 1) = n mod 2 ^ k"
  by (metis mask_eq_exp_minus_1 take_bit_eq_mask take_bit_eq_mod)

lemma utf8_byte:
  assumes "2 ^ k * a + 2 ^ k \<le> 256" and p: "unat (p::u32) = 2 ^ k * a" and q: "unat q = 2 ^ k - 1"
  shows "unat (ucast (p OR (x AND q)) :: u8) = 2 ^ k * a + unat x mod 2 ^ k"
proof -
  have lt: "unat x mod 2 ^ k < 2 ^ k" by simp
  with assms(1) have small: "2 ^ k * a + unat x mod 2 ^ k < 256" by linarith
  have "unat (p OR (x AND q)) = (2 ^ k * a) OR (unat x AND (2 ^ k - 1))"
    by (simp only: unsigned_or_eq unsigned_and_eq p q)
  also have "\<dots> = 2 ^ k * a + unat x mod 2 ^ k" by (simp only: and_low_nat or_low_nat [OF lt])
  finally show ?thesis using small by (simp add: unsigned_ucast_eq take_bit_nat_eq_self)
qed

lemma utf8_bytes:
  "unat (ucast ((0xc0::u32) OR (x AND 0x1f)) :: u8) = 192 + unat x mod 32"
  "unat (ucast ((0xe0::u32) OR (x AND 0x0f)) :: u8) = 224 + unat x mod 16"
  "unat (ucast ((0xf0::u32) OR (x AND 0x07)) :: u8) = 240 + unat x mod 8"
  "unat (ucast ((0x80::u32) OR (x AND 0x3f)) :: u8) = 128 + unat x mod 64"
  using utf8_byte [of 5 6 "0xc0" "0x1f" x] utf8_byte [of 4 14 "0xe0" "0x0f" x]
    utf8_byte [of 3 30 "0xf0" "0x07" x] utf8_byte [of 6 2 "0x80" "0x3f" x] by simp_all

text \<open>A decoder in arithmetic, the specification the encoder is measured against.\<close>

fun utf8_decode :: "bytes \<Rightarrow> nat list option" where
  "utf8_decode [] = Some []"
| "utf8_decode (a # bs) =
     (if unat a < 128 then map_option ((#) (unat a)) (utf8_decode bs)
      else if unat a < 192 then None
      else if unat a < 224 then
        (case bs of b # bs' \<Rightarrow> map_option ((#) ((unat a - 192) * 64 + (unat b - 128))) (utf8_decode bs') | _ \<Rightarrow> None)
      else if unat a < 240 then
        (case bs of b # c # bs' \<Rightarrow>
           map_option ((#) ((unat a - 224) * 4096 + (unat b - 128) * 64 + (unat c - 128))) (utf8_decode bs') | _ \<Rightarrow> None)
      else
        (case bs of b # c # d # bs' \<Rightarrow>
           map_option ((#) ((unat a - 240) * 262144 + (unat b - 128) * 4096 + (unat c - 128) * 64 + (unat d - 128)))
             (utf8_decode bs') | _ \<Rightarrow> None))"

lemma length_unicode_to_utf8: "length (unicode_to_utf8 x) = unicode_to_utf8_len x"
  by (simp add: unicode_to_utf8_def unicode_to_utf8_len_def)

lemma split_digits:
  "(n::nat) < 2048 \<Longrightarrow> (n div 64) mod 32 * 64 + n mod 64 = n"
  "(n::nat) < 65536 \<Longrightarrow> (n div 4096) mod 16 * 4096 + (n div 64) mod 64 * 64 + n mod 64 = n"
  "(n::nat) < 2097152 \<Longrightarrow>
     (n div 262144) mod 8 * 262144 + (n div 4096) mod 64 * 4096 + (n div 64) mod 64 * 64 + n mod 64 = n"
proof -
  have d: "n div 4096 = n div 64 div 64" "n div 262144 = n div 64 div 64 div 64"
    by (simp_all add: div_mult2_eq [symmetric])
  have e: "n div 64 * 64 + n mod 64 = n" "n div 64 div 64 * 64 + n div 64 mod 64 = n div 64"
    "n div 64 div 64 div 64 * 64 + n div 64 div 64 mod 64 = n div 64 div 64" by simp_all
  show "(n div 64) mod 32 * 64 + n mod 64 = n" if "n < 2048" using that by simp
  show "(n div 4096) mod 16 * 4096 + (n div 64) mod 64 * 64 + n mod 64 = n" if "n < 65536"
  proof -
    have "n div 64 div 64 mod 16 = n div 64 div 64" using that by (intro mod_less) (simp add: div_mult2_eq [symmetric])
    then show ?thesis unfolding d using e by linarith
  qed
  show "(n div 262144) mod 8 * 262144 + (n div 4096) mod 64 * 4096 + (n div 64) mod 64 * 64 + n mod 64 = n" if "n < 2097152"
  proof -
    have "n div 64 div 64 div 64 mod 8 = n div 64 div 64 div 64"
      using that by (intro mod_less) (simp add: div_mult2_eq [symmetric])
    then show ?thesis unfolding d using e by linarith
  qed
qed

lemma utf8_decode_step:
  assumes "unat x < 2097152"
  shows "utf8_decode (unicode_to_utf8 x @ bs) = map_option ((#) (unat x)) (utf8_decode bs)"
proof -
  consider "unat x < 128" | "128 \<le> unat x" "unat x < 2048" | "2048 \<le> unat x" "unat x < 65536" | "65536 \<le> unat x"
    by linarith
  then show ?thesis
  proof cases
    case 1
    then have "unat (ucast (x AND 0xff) :: u8) = unat x"
      by (simp add: unsigned_ucast_eq unat_and_255 take_bit_nat_eq_self)
    then show ?thesis using 1 by (simp add: unicode_to_utf8_def word_less_nat_alt)
  next
    case 2
    then have "\<not> x < 0x80" "x < 0x800" by (simp_all add: word_less_nat_alt)
    then show ?thesis
      using split_digits(1) [OF 2(2)] less_mult_imp_div_less [of "unat x" 32 64] 2(2) by (simp add: unicode_to_utf8_def utf8_bytes unat_drop_bit)
  next
    case 3
    then have "\<not> x < 0x80" "\<not> x < 0x800" "x < 0x10000" by (simp_all add: word_less_nat_alt)
    then show ?thesis
      using split_digits(2) [OF 3(2)] less_mult_imp_div_less [of "unat x" 16 4096] 3(2) by (simp add: unicode_to_utf8_def utf8_bytes unat_drop_bit)
  next
    case 4
    then have "\<not> x < 0x80" "\<not> x < 0x800" "\<not> x < 0x10000" by (simp_all add: word_less_nat_alt)
    then show ?thesis
      using split_digits(3) [OF assms] less_mult_imp_div_less [of "unat x" 8 262144] assms by (simp add: unicode_to_utf8_def utf8_bytes unat_drop_bit)
  qed
qed

lemma utf8_decode_encode:
  "list_all (\<lambda>x. unat x < 2097152) xs \<Longrightarrow> utf8_decode (concat (map unicode_to_utf8 xs)) = Some (map unat xs)"
  by (induction xs) (simp_all add: utf8_decode_step)

section \<open>The CP437 table and conversion\<close>

lemma length_cp437 [simp]: "length cp437_to_unicode = 256"
  by (simp add: cp437_to_unicode_def)

lemma cp437_small: "list_all (\<lambda>x. unat x < 65536) cp437_to_unicode"
  by (simp add: cp437_to_unicode_def)

text \<open>No code point occurs twice: a merge sort of the table is strictly increasing.\<close>

fun merge_lists :: "int list \<Rightarrow> int list \<Rightarrow> int list" where
  "merge_lists [] ys = ys"
| "merge_lists (x # xs) [] = x # xs"
| "merge_lists (x # xs) (y # ys) = (if x \<le> y then x # merge_lists xs (y # ys) else y # merge_lists (x # xs) ys)"

fun merge_pairs :: "int list list \<Rightarrow> int list list" where
  "merge_pairs (a # b # xss) = merge_lists a b # merge_pairs xss"
| "merge_pairs xss = xss"

fun strictly_increasing :: "int list \<Rightarrow> bool" where
  "strictly_increasing (x # y # zs) \<longleftrightarrow> x < y \<and> strictly_increasing (y # zs)"
| "strictly_increasing _ \<longleftrightarrow> True"

lemma mset_merge_lists [simp]: "mset (merge_lists xs ys) = mset xs + mset ys"
  by (induction xs ys rule: merge_lists.induct) simp_all

lemma mset_merge_pairs [simp]: "mset (concat (merge_pairs xss)) = mset (concat xss)"
  by (induction xss rule: merge_pairs.induct) (simp_all add: ac_simps)

lemma strictly_increasing_distinct: "strictly_increasing xs \<Longrightarrow> distinct xs \<and> (\<forall>x\<in>set (tl xs). hd xs < x)"
  by (induction xs rule: strictly_increasing.induct) auto

lemma cp437_distinct: "distinct cp437_to_unicode"
proof -
  let ?s = "merge_pairs (merge_pairs (merge_pairs (merge_pairs (merge_pairs (merge_pairs (merge_pairs (merge_pairs
    (map (\<lambda>x. [uint x]) cp437_to_unicode))))))))"
  have "list_all strictly_increasing ?s \<and> length ?s = 1"
    unfolding cp437_to_unicode_def by simp
  then obtain xs where "?s = [xs]" "strictly_increasing xs" by (auto simp: length_Suc_conv)
  then have "distinct (concat ?s)" using strictly_increasing_distinct by simp
  moreover have "mset (concat ?s) = mset (map uint cp437_to_unicode)"
    by (simp add: concat_map_singleton)
  ultimately have "distinct (map uint cp437_to_unicode)" by (metis mset_eq_imp_distinct_iff)
  then show ?thesis by (simp add: distinct_map)
qed

lemma codepoint_in_table: "codepoint_of c \<in> set cp437_to_unicode"
  unfolding codepoint_of_def by (rule nth_mem) (simp add: unat_u8_lt)

lemma codepoint_small: "unat (codepoint_of c) < 65536"
  using cp437_small codepoint_in_table by (auto simp: list_all_iff)

lemma codepoint_inject: "codepoint_of c = codepoint_of d \<longleftrightarrow> c = d"
  using nth_eq_iff_index_eq [OF cp437_distinct, of "unat c" "unat d"] unat_u8_lt [of c] unat_u8_lt [of d]
  by (simp add: codepoint_of_def word_unat_eq_iff)

definition utf8_of_cp437 :: "bytes \<Rightarrow> bytes" where
  "utf8_of_cp437 cs = concat (map (\<lambda>c. unicode_to_utf8 (codepoint_of c)) cs)"

lemma utf8_of_cp437_simps [simp]: "utf8_of_cp437 [] = []"
  "utf8_of_cp437 (c # cs) = unicode_to_utf8 (codepoint_of c) @ utf8_of_cp437 cs"
  by (simp_all add: utf8_of_cp437_def)

lemma length_utf8_of_cp437:
  "length (utf8_of_cp437 cs) = (\<Sum>c\<leftarrow>cs. unicode_to_utf8_len (codepoint_of c))"
  by (induction cs) (simp_all add: length_unicode_to_utf8)

lemma cp437_fill_correct:
  "offset + length (utf8_of_cp437 cs) \<le> length buf \<Longrightarrow>
    cp437_fill buf offset cs =
      Some (poke buf offset (utf8_of_cp437 cs), offset + length (utf8_of_cp437 cs))"
proof (induction cs arbitrary: buf offset)
  case (Cons c cs)
  let ?e = "unicode_to_utf8 (codepoint_of c)"
  from Cons.prems have "poke (poke buf offset ?e) (offset + length ?e) (utf8_of_cp437 cs)
      = poke buf offset (?e @ utf8_of_cp437 cs)"
    by (simp add: poke_def ac_simps)
  then show ?case using Cons by (simp add: Let_def add.assoc)
qed (simp add: poke_def)

lemma cp437_to_utf8_eq:
  assumes "len \<noteq> 0" and "malloc m = (Some junk, m')"
  shows "cp437_to_utf8 m cs len error =
    (Some (Some (utf8_of_cp437 (take len cs) @ [0], length (utf8_of_cp437 (take len cs)))), error, m')"
proof -
  let ?u = "utf8_of_cp437 (take len cs)"
  have "cp437_fill (junk_bytes junk (1 + length ?u)) 0 (take len cs)
      = Some (poke (junk_bytes junk (1 + length ?u)) 0 ?u, length ?u)"
    by (subst cp437_fill_correct) simp_all
  moreover have "(poke (junk_bytes junk (1 + length ?u)) 0 ?u)[length ?u := 0] = ?u @ [0]"
    by (simp add: poke_def list_eq_iff_nth_eq nth_append nth_list_update)
  ultimately show ?thesis
    using assms by (simp add: cp437_to_utf8_def Let_def length_utf8_of_cp437)
qed

lemma utf8_decode_cp437: "utf8_decode (utf8_of_cp437 cs) = Some (map (unat \<circ> codepoint_of) cs)"
proof -
  have "list_all (\<lambda>x. unat x < 2097152) (map codepoint_of cs)"
    using order.strict_trans [OF codepoint_small, of 2097152] by (simp add: list_all_iff)
  from utf8_decode_encode [OF this] show ?thesis by (simp add: utf8_of_cp437_def comp_def)
qed

lemma utf8_of_cp437_inject: "utf8_of_cp437 a = utf8_of_cp437 b \<longleftrightarrow> a = b"
proof
  assume "utf8_of_cp437 a = utf8_of_cp437 b"
  then have "map (unat \<circ> codepoint_of) a = map (unat \<circ> codepoint_of) b"
    using utf8_decode_cp437 by (metis option.inject)
  then show "a = b" by (rule map_injective) (simp add: inj_def word_unat_eq_iff [symmetric] codepoint_inject)
qed simp

section \<open>The guess\<close>

text \<open>
  What the scan accepts, as a grammar: plain bytes, and lead bytes followed by as many continuation
  bytes as they announce.
\<close>

inductive utf8_text :: "bytes \<Rightarrow> bool" where
  empty: "utf8_text []"
| plain: "utf8_plain c \<Longrightarrow> utf8_text cs \<Longrightarrow> utf8_text (c # cs)"
| multi: "utf8_ulen c = Some (length es) \<Longrightarrow> list_all utf8_continue es \<Longrightarrow> utf8_text cs \<Longrightarrow>
    utf8_text (c # es @ cs)"

inductive_cases utf8_text_ConsE: "utf8_text (c # cs)"

lemma and_low_bits_0: "(c::u8) < 128 \<Longrightarrow> \<not> bit c 7"
proof -
  assume "c < 128"
  then have "unat c < 2 ^ 7" by (simp add: word_less_nat_alt)
  then have "\<not> bit (unat c) (7 + d)" for d using bit_above_iff [of "unat c" 7] by auto
  from this [of 0] show ?thesis by (simp add: bit_unsigned_iff)
qed

lemma utf8_lead_bit: "utf8_ulen c \<noteq> None \<Longrightarrow> bit c 7"
proof -
  assume "utf8_ulen c \<noteq> None"
  then have "c AND 0xe0 = 0xc0 \<or> c AND 0xf0 = 0xe0 \<or> c AND 0xf8 = 0xf0"
    by (simp add: utf8_ulen_def split: if_splits)
  moreover have "bit (0xc0::u8) 7" "bit (0xe0::u8) 7" "bit (0xf0::u8) 7" by simp_all
  ultimately show ?thesis by (metis bit_and_iff)
qed

lemma utf8_plain_ulen: "utf8_plain c \<Longrightarrow> utf8_ulen c = None"
proof -
  assume p: "utf8_plain c"
  have "c < 128" using p unfolding utf8_plain_def by (elim disjE conjE) simp_all
  then show "utf8_ulen c = None" using utf8_lead_bit [of c] and_low_bits_0 [of c] by blast
qed

lemma guess_loop_values:
  "guess_loop enc bs \<in> {enc, ZIP_ENCODING_UTF8_GUESSED, ZIP_ENCODING_CP437}"
  by (induction enc bs rule: guess_loop.induct) (auto split: option.splits)

text \<open>The scan rejects exactly the sequences outside the grammar.\<close>

lemma guess_loop_accepts:
  assumes "enc \<noteq> ZIP_ENCODING_CP437"
  shows "guess_loop enc bs \<noteq> ZIP_ENCODING_CP437 \<longleftrightarrow> utf8_text bs"
  using assms
proof (induction enc bs rule: guess_loop.induct)
  case (2 enc c cs)
  show ?case
  proof (cases "utf8_plain c")
    case True
    then have "utf8_text (c # cs) \<longleftrightarrow> utf8_text cs"
      using utf8_plain_ulen by (auto intro: utf8_text.plain elim: utf8_text_ConsE)
    with True 2 show ?thesis by simp
  next
    case False
    show ?thesis
    proof (cases "utf8_ulen c")
      case None
      then have "\<not> utf8_text (c # cs)" using False by (auto elim: utf8_text_ConsE)
      with None False show ?thesis by simp
    next
      case (Some k)
      have "utf8_text (c # cs) \<longleftrightarrow> k \<le> length cs \<and> list_all utf8_continue (take k cs) \<and> utf8_text (drop k cs)"
      proof
        assume "utf8_text (c # cs)"
        then show "k \<le> length cs \<and> list_all utf8_continue (take k cs) \<and> utf8_text (drop k cs)"
          using False Some by (auto elim!: utf8_text_ConsE)
      next
        assume "k \<le> length cs \<and> list_all utf8_continue (take k cs) \<and> utf8_text (drop k cs)"
        then show "utf8_text (c # cs)"
          using utf8_text.multi [of c "take k cs" "drop k cs"] Some by simp
      qed
      then show ?thesis using 2 False Some by auto
    qed
  qed
qed (auto intro: utf8_text.empty)

lemma guess_loop_ascii:
  assumes "enc \<noteq> ZIP_ENCODING_CP437" and "enc \<noteq> ZIP_ENCODING_UTF8_GUESSED"
  shows "guess_loop enc bs = enc \<longleftrightarrow> list_all utf8_plain bs"
proof -
  have g: "guess_loop ZIP_ENCODING_UTF8_GUESSED cs \<noteq> enc" for cs
    using guess_loop_values [of ZIP_ENCODING_UTF8_GUESSED cs] assms by auto
  show ?thesis using assms
    by (induction bs) (auto split: option.splits simp: g)
qed

section \<open>Properties of strings\<close>

definition encoding_of :: "bytes \<Rightarrow> zip_encoding_type" where
  "encoding_of bs =
     (if list_all utf8_plain bs then ZIP_ENCODING_ASCII
      else if guess_loop ZIP_ENCODING_ASCII bs = ZIP_ENCODING_CP437 then ZIP_ENCODING_CP437
      else ZIP_ENCODING_UTF8_GUESSED)"

lemma guess_loop_encoding_of: "guess_loop ZIP_ENCODING_ASCII bs = encoding_of bs"
  using guess_loop_values [of ZIP_ENCODING_ASCII bs] guess_loop_ascii [of ZIP_ENCODING_ASCII bs]
  by (auto simp: encoding_of_def)

lemma utf8_text_plain: "list_all utf8_plain bs \<Longrightarrow> utf8_text bs"
  by (induction bs) (auto intro: utf8_text.intros)

text \<open>
  C15. \<open>_zip_guess_encoding\<close> classifies a string it has not seen: ASCII when every byte is plain,
  possibly UTF-8 when it is a sequence of plain bytes and lead bytes with the continuation bytes
  they announce, CP437 otherwise; the answer is cached in the string.
\<close>

theorem zip_guess_encoding_grammar:
  assumes "zs_encoding s = ZIP_ENCODING_UNKNOWN"
  shows "zip_guess_encoding (Some s) ZIP_ENCODING_UNKNOWN = (e, Some s') \<longleftrightarrow>
    s' = s\<lparr>zs_encoding := e\<rparr> \<and>
    (let bs = take (zs_length s) (zs_raw s)
     in if list_all utf8_plain bs then e = ZIP_ENCODING_ASCII
        else if utf8_text bs then e = ZIP_ENCODING_UTF8_GUESSED else e = ZIP_ENCODING_CP437)"
  using assms guess_loop_accepts [of ZIP_ENCODING_ASCII "take (zs_length s) (zs_raw s)"]
  by (auto simp: zip_guess_encoding_def guess_loop_encoding_of Let_def) (auto simp: encoding_of_def)

definition sample_string :: zip_string where
  "sample_string = \<lparr>zs_raw = [0x61, 0xc3, 0xa9, 0], zs_length = 3, zs_encoding = ZIP_ENCODING_UNKNOWN,
     zs_converted = None, zs_converted_length = 0\<rparr>"

theorem zip_guess_encoding_grammar_witness:
  "zip_guess_encoding (Some sample_string) ZIP_ENCODING_UNKNOWN
     = (ZIP_ENCODING_UTF8_GUESSED, Some (sample_string\<lparr>zs_encoding := ZIP_ENCODING_UTF8_GUESSED\<rparr>))"
proof -
  have e: "zs_encoding sample_string = ZIP_ENCODING_UNKNOWN" by (simp add: sample_string_def)
  have p: "utf8_plain 0x61" "\<not> utf8_plain 0xc3" by (simp_all add: utf8_plain_def)
  have "utf8_text [0xc3, 0xa9]"
    using utf8_text.multi [of "0xc3" "[0xa9]" "[]"] by (simp add: utf8_ulen_def utf8_continue_def utf8_text.empty)
  with p(1) have "utf8_text [0x61, 0xc3, 0xa9]" by (rule utf8_text.plain)
  moreover have "take (zs_length sample_string) (zs_raw sample_string) = [0x61, 0xc3, 0xa9]"
    by (simp add: sample_string_def)
  ultimately show ?thesis
    unfolding zip_guess_encoding_grammar [OF e] Let_def using p by simp
qed

text \<open>
  C16. \<open>_zip_cp437_to_utf8\<close> never stores outside the block it allocates; what it returns is
  terminated, has the length reported, and decodes to the code points of the input bytes, so that
  different CP437 strings have different conversions.
\<close>

theorem cp437_to_utf8_correct:
  assumes "cp437_to_utf8 m cs len error = (r, error', m')"
  shows "r \<noteq> None \<and> (\<forall>u l. r = Some (Some (u, l)) \<longrightarrow> length u = l + 1 \<and> u ! l = 0
      \<and> utf8_decode (take l u) = Some (map (unat \<circ> codepoint_of) (take len cs)))
    \<and> (\<forall>cs' m2 r' e' m2'. cp437_to_utf8 m2 cs' len error = (r', e', m2') \<longrightarrow> r = r' \<longrightarrow> r \<noteq> Some None \<longrightarrow>
         take len cs = take len cs')"
proof -
  have shape: "r \<noteq> None \<and> (r = Some None \<or>
      r = Some (Some (utf8_of_cp437 (take len cs) @ [0], length (utf8_of_cp437 (take len cs)))))"
    if "cp437_to_utf8 m cs len error = (r, error', m')" for m cs error' m' r
  proof (cases "len = 0")
    case False
    show ?thesis
    proof (cases "malloc m")
      case (Pair a m1)
      show ?thesis
      proof (cases a)
        case None
        then show ?thesis using that Pair False by (auto simp: cp437_to_utf8_def Let_def)
      next
        case (Some junk)
        then show ?thesis using that Pair cp437_to_utf8_eq [OF False, of m junk m1 cs error] by auto
      qed
    qed
  qed (use that in \<open>auto simp: cp437_to_utf8_def\<close>)
  have "r \<noteq> Some None \<Longrightarrow> r = r' \<Longrightarrow> take len cs = take len cs'"
    if "cp437_to_utf8 m2 cs' len error = (r', e', m2')" for m2 cs' r' e' m2'
    using shape [OF that] shape [OF assms] utf8_of_cp437_inject by auto
  with shape [OF assms] show ?thesis by (auto simp: utf8_decode_cp437)
qed

theorem cp437_to_utf8_correct_witness:
  "\<exists>u l. fst (cp437_to_utf8 [] [0x81, 0x62] 2 None) = Some (Some (u, l)) \<and> utf8_decode (take l u) = Some [0xfc, 0x62]"
proof -
  obtain r e m' where r: "cp437_to_utf8 [] [0x81, 0x62] 2 None = (r, e, m')" by (metis prod_cases3)
  have "r = Some (Some (utf8_of_cp437 [0x81, 0x62] @ [0], length (utf8_of_cp437 [0x81, 0x62])))"
    using r cp437_to_utf8_eq [of 2 "[]" 0 "[]" "[0x81, 0x62]" None] by simp
  moreover have "codepoint_of 0x81 = 0xfc" "codepoint_of 0x62 = 0x62"
    by (simp_all add: codepoint_of_def cp437_to_unicode_def)
  ultimately show ?thesis using cp437_to_utf8_correct [OF r] r by auto
qed

text \<open>
  C27. With memory available, \<open>_zip_string_new\<close> makes a string exactly when it is not empty and its
  bytes fit the encoding asked for: any bytes when guessing, UTF-8 shaped ones for UTF-8, and for CP437
  plain ones or ones that are not UTF-8 shaped. The raw bytes of the string are the ones given, and
  the two other answers are no string and, when bytes or flags are refused, an invalid-argument error.
\<close>

theorem zip_string_new_accepts:
  assumes "zip_string_new [] raw len flags error = (s, error', m')" and "0 < len" and "len \<le> length raw"
  shows "(s \<noteq> None \<longleftrightarrow>
       flags AND ZIP_FL_ENCODING_ALL = ZIP_FL_ENC_GUESS
       \<or> flags AND ZIP_FL_ENCODING_ALL = ZIP_FL_ENC_UTF_8 \<and> utf8_text (take len raw)
       \<or> flags AND ZIP_FL_ENCODING_ALL = ZIP_FL_ENC_CP437
           \<and> (list_all utf8_plain (take len raw) \<or> \<not> utf8_text (take len raw)))
    \<and> error' = (if s = None then zip_error_set error ZIP_ER_INVAL 0 else error)
    \<and> (case s of None \<Rightarrow> True | Some s \<Rightarrow> zs_raw s = take len raw @ [0] \<and> zs_length s = len)"
proof -
  let ?bs = "take len raw"
  have tk: "take len (?bs @ [0]) = ?bs" using assms(3) by simp
  have enc: "encoding_of ?bs = (if list_all utf8_plain ?bs then ZIP_ENCODING_ASCII
      else if utf8_text ?bs then ZIP_ENCODING_UTF8_GUESSED else ZIP_ENCODING_CP437)"
    using guess_loop_accepts [of ZIP_ENCODING_ASCII ?bs] by (auto simp: encoding_of_def)
  consider "flags AND ZIP_FL_ENCODING_ALL = ZIP_FL_ENC_GUESS" | "flags AND ZIP_FL_ENCODING_ALL = ZIP_FL_ENC_UTF_8"
    | "flags AND ZIP_FL_ENCODING_ALL = ZIP_FL_ENC_CP437"
    | "flags AND ZIP_FL_ENCODING_ALL \<notin> {ZIP_FL_ENC_GUESS, ZIP_FL_ENC_UTF_8, ZIP_FL_ENC_CP437}" by blast
  then show ?thesis
  proof cases
    case 1
    then show ?thesis using assms by (auto simp: zip_string_new_def Let_def)
  next
    case 2
    then show ?thesis using assms utf8_text_plain [of ?bs]
      by (auto simp: zip_string_new_def Let_def zip_guess_encoding_def tk guess_loop_encoding_of enc split: if_splits)
  next
    case 3
    then show ?thesis using assms
      by (auto simp: zip_string_new_def Let_def zip_guess_encoding_def tk guess_loop_encoding_of enc split: if_splits)
  next
    case 4
    then show ?thesis using assms by (auto simp: zip_string_new_def Let_def)
  qed
qed

theorem zip_string_new_accepts_witness:
  "fst (zip_string_new [] [0xff] 1 ZIP_FL_ENC_UTF_8 None) = None \<and> fst (zip_string_new [] [0xff] 1 ZIP_FL_ENC_CP437 None) \<noteq> None"
proof -
  have n: "\<not> utf8_text [0xff]"
  proof
    assume "utf8_text [0xff]"
    then show False by (rule utf8_text_ConsE) (simp_all add: utf8_plain_def utf8_ulen_def)
  qed
  obtain s e m where r: "zip_string_new [] [0xff] 1 ZIP_FL_ENC_UTF_8 None = (s, e, m)" by (metis prod_cases3)
  obtain s' e' m' where r': "zip_string_new [] [0xff] 1 ZIP_FL_ENC_CP437 None = (s', e', m')" by (metis prod_cases3)
  show ?thesis
    using zip_string_new_accepts [OF r] zip_string_new_accepts [OF r'] n unfolding r r' by simp
qed

end
