(* ===== verification/Zip_Source.thy ===== *)
theory Zip_Source
  imports Zip_Error
begin

text \<open>
  The generic source layer of libzip (lib/zip_source_*.c, struct zip_source of lib/zipint.h):
  everything an archive is read from or written to is driven through one callback per source, and
  this layer keeps the protocol: the open count, the state of a write in progress, end of file and
  sticky read errors. A source is plain or sits on a lower one. The callbacks come from the caller
  and are parameters: they take the user data, the data block, its length and the command, and give
  back the return value with the new user data and block (a layered callback also gets and returns
  its lower source). A data block is a value of \<open>zip_source_data\<close>, by what the commands pass in it.
  \<open>zip_source_close\<close> and \<open>zip_source_free\<close> recurse on the lower source as the callback has left it;
  they carry the number of layers as fuel, which callbacks never change in the code.
  The lemmas show that whatever a client does, the callback only ever sees command sequences that
  follow the protocol (section on the protocol), and the contract of \<open>zip_source_read\<close>.
\<close>

section \<open>Data\<close>

datatype zip_source_cmd =
    ZIP_SOURCE_OPEN | ZIP_SOURCE_READ | ZIP_SOURCE_CLOSE | ZIP_SOURCE_STAT | ZIP_SOURCE_ERROR
  | ZIP_SOURCE_FREE | ZIP_SOURCE_SEEK | ZIP_SOURCE_TELL | ZIP_SOURCE_BEGIN_WRITE
  | ZIP_SOURCE_COMMIT_WRITE | ZIP_SOURCE_ROLLBACK_WRITE | ZIP_SOURCE_WRITE | ZIP_SOURCE_SEEK_WRITE
  | ZIP_SOURCE_TELL_WRITE | ZIP_SOURCE_SUPPORTS | ZIP_SOURCE_REMOVE | ZIP_SOURCE_RESERVED_1
  | ZIP_SOURCE_BEGIN_WRITE_CLONING | ZIP_SOURCE_ACCEPT_EMPTY | ZIP_SOURCE_GET_FILE_ATTRIBUTES

fun cmd_number :: "zip_source_cmd \<Rightarrow> nat" where
  "cmd_number ZIP_SOURCE_OPEN = 0"
| "cmd_number ZIP_SOURCE_READ = 1"
| "cmd_number ZIP_SOURCE_CLOSE = 2"
| "cmd_number ZIP_SOURCE_STAT = 3"
| "cmd_number ZIP_SOURCE_ERROR = 4"
| "cmd_number ZIP_SOURCE_FREE = 5"
| "cmd_number ZIP_SOURCE_SEEK = 6"
| "cmd_number ZIP_SOURCE_TELL = 7"
| "cmd_number ZIP_SOURCE_BEGIN_WRITE = 8"
| "cmd_number ZIP_SOURCE_COMMIT_WRITE = 9"
| "cmd_number ZIP_SOURCE_ROLLBACK_WRITE = 10"
| "cmd_number ZIP_SOURCE_WRITE = 11"
| "cmd_number ZIP_SOURCE_SEEK_WRITE = 12"
| "cmd_number ZIP_SOURCE_TELL_WRITE = 13"
| "cmd_number ZIP_SOURCE_SUPPORTS = 14"
| "cmd_number ZIP_SOURCE_REMOVE = 15"
| "cmd_number ZIP_SOURCE_RESERVED_1 = 16"
| "cmd_number ZIP_SOURCE_BEGIN_WRITE_CLONING = 17"
| "cmd_number ZIP_SOURCE_ACCEPT_EMPTY = 18"
| "cmd_number ZIP_SOURCE_GET_FILE_ATTRIBUTES = 19"

definition ZIP_SOURCE_MAKE_COMMAND_BITMASK :: "zip_source_cmd \<Rightarrow> u64" where
  "ZIP_SOURCE_MAKE_COMMAND_BITMASK cmd = push_bit (cmd_number cmd) 1"

definition zip_source_make_command_bitmap :: "zip_source_cmd list \<Rightarrow> u64" where
  "zip_source_make_command_bitmap cmds = fold (\<lambda>cmd bitmap. bitmap OR ZIP_SOURCE_MAKE_COMMAND_BITMASK cmd) cmds 0"

definition ZIP_SOURCE_SUPPORTS_READABLE :: u64 where
  "ZIP_SOURCE_SUPPORTS_READABLE = zip_source_make_command_bitmap
     [ZIP_SOURCE_OPEN, ZIP_SOURCE_READ, ZIP_SOURCE_CLOSE, ZIP_SOURCE_STAT, ZIP_SOURCE_ERROR, ZIP_SOURCE_FREE]"

abbreviation ZIP_STAT_NAME :: u64 where "ZIP_STAT_NAME \<equiv> 1"
abbreviation ZIP_STAT_INDEX :: u64 where "ZIP_STAT_INDEX \<equiv> 2"
abbreviation ZIP_STAT_SIZE :: u64 where "ZIP_STAT_SIZE \<equiv> 4"
abbreviation ZIP_STAT_COMP_SIZE :: u64 where "ZIP_STAT_COMP_SIZE \<equiv> 8"
abbreviation ZIP_STAT_MTIME :: u64 where "ZIP_STAT_MTIME \<equiv> 16"
abbreviation ZIP_STAT_CRC :: u64 where "ZIP_STAT_CRC \<equiv> 32"
abbreviation ZIP_STAT_COMP_METHOD :: u64 where "ZIP_STAT_COMP_METHOD \<equiv> 64"
abbreviation ZIP_STAT_ENCRYPTION_METHOD :: u64 where "ZIP_STAT_ENCRYPTION_METHOD \<equiv> 128"
abbreviation ZIP_STAT_FLAGS :: u64 where "ZIP_STAT_FLAGS \<equiv> 256"

record zip_stat =
  st_valid :: u64
  st_name :: "bytes option"
  st_index :: u64
  st_size :: u64
  st_comp_size :: u64
  st_mtime :: int
  st_crc :: u32
  st_comp_method :: u16
  st_encryption_method :: u16
  st_flags :: u32

text \<open>\<open>zip_stat_init\<close> leaves \<open>flags\<close> as it was.\<close>

definition zip_stat_init :: "zip_stat \<Rightarrow> zip_stat" where
  "zip_stat_init st = st\<lparr>st_valid := 0, st_name := None, st_index := - 1, st_crc := 0, st_mtime := -1,
     st_size := 0, st_comp_size := 0, st_comp_method := 0, st_encryption_method := 0\<rparr>"

definition zip_stat_merge :: "zip_stat \<Rightarrow> zip_stat \<Rightarrow> int \<times> zip_stat" where
  "zip_stat_merge dst src =
     (let d1 = (if flag_set (st_valid src) ZIP_STAT_INDEX then dst\<lparr>st_index := st_index src\<rparr> else dst);
          d2 = (if flag_set (st_valid src) ZIP_STAT_SIZE then d1\<lparr>st_size := st_size src\<rparr> else d1);
          d3 = (if flag_set (st_valid src) ZIP_STAT_COMP_SIZE then d2\<lparr>st_comp_size := st_comp_size src\<rparr> else d2);
          d4 = (if flag_set (st_valid src) ZIP_STAT_MTIME then d3\<lparr>st_mtime := st_mtime src\<rparr> else d3);
          d5 = (if flag_set (st_valid src) ZIP_STAT_CRC then d4\<lparr>st_crc := st_crc src\<rparr> else d4);
          d6 = (if flag_set (st_valid src) ZIP_STAT_COMP_METHOD then d5\<lparr>st_comp_method := st_comp_method src\<rparr> else d5);
          d7 = (if flag_set (st_valid src) ZIP_STAT_ENCRYPTION_METHOD
                then d6\<lparr>st_encryption_method := st_encryption_method src\<rparr> else d6);
          d8 = (if flag_set (st_valid src) ZIP_STAT_FLAGS then d7\<lparr>st_flags := st_flags src\<rparr> else d7)
      in (0, d8\<lparr>st_valid := st_valid d8 OR st_valid src\<rparr>))"

abbreviation ZIP_FILE_ATTRIBUTES_HOST_SYSTEM :: u64 where "ZIP_FILE_ATTRIBUTES_HOST_SYSTEM \<equiv> 1"
abbreviation ZIP_FILE_ATTRIBUTES_ASCII :: u64 where "ZIP_FILE_ATTRIBUTES_ASCII \<equiv> 2"
abbreviation ZIP_FILE_ATTRIBUTES_VERSION_NEEDED :: u64 where "ZIP_FILE_ATTRIBUTES_VERSION_NEEDED \<equiv> 4"
abbreviation ZIP_FILE_ATTRIBUTES_EXTERNAL_FILE_ATTRIBUTES :: u64
  where "ZIP_FILE_ATTRIBUTES_EXTERNAL_FILE_ATTRIBUTES \<equiv> 8"
abbreviation ZIP_FILE_ATTRIBUTES_GENERAL_PURPOSE_BIT_FLAGS :: u64
  where "ZIP_FILE_ATTRIBUTES_GENERAL_PURPOSE_BIT_FLAGS \<equiv> 16"

record zip_file_attributes =
  fa_valid :: u64
  fa_version :: u8
  fa_host_system :: u8
  fa_ascii :: u8
  fa_version_needed :: u8
  fa_external_file_attributes :: u32
  fa_general_purpose_bit_flags :: u16
  fa_general_purpose_bit_mask :: u16

definition zip_file_attributes_init :: "zip_file_attributes \<Rightarrow> zip_file_attributes" where
  "zip_file_attributes_init a = a\<lparr>fa_valid := 0, fa_version := 1\<rparr>"

text \<open>What the \<open>data\<close> pointer of a callback can point to.\<close>

datatype zip_source_data =
    SD_Null
  | SD_Bytes bytes
  | SD_Seek int int
  | SD_Error int int
  | SD_Stat zip_stat
  | SD_Attributes zip_file_attributes

datatype zip_source_write_state =
    ZIP_SOURCE_WRITE_CLOSED | ZIP_SOURCE_WRITE_OPEN | ZIP_SOURCE_WRITE_FAILED | ZIP_SOURCE_WRITE_REMOVED

record 'u source_state =
  src_ud :: 'u
  src_error :: zip_error
  src_supports :: u64
  src_open_count :: nat
  src_write_state :: zip_source_write_state
  src_source_closed :: bool
  src_source_archive :: "nat option"
  src_refcount :: nat
  src_eof :: bool
  src_had_read_error :: bool
  src_bytes_read :: u64

datatype 'u zip_source = Plain "'u source_state" | Layered "'u zip_source" "'u source_state"

fun src_state :: "'u zip_source \<Rightarrow> 'u source_state" where
  "src_state (Plain st) = st"
| "src_state (Layered lo st) = st"

fun upd_state :: "('u source_state \<Rightarrow> 'u source_state) \<Rightarrow> 'u zip_source \<Rightarrow> 'u zip_source" where
  "upd_state f (Plain st) = Plain (f st)"
| "upd_state f (Layered lo st) = Layered lo (f st)"

fun layers :: "'u zip_source \<Rightarrow> nat" where
  "layers (Plain st) = 1"
| "layers (Layered lo st) = Suc (layers lo)"

record 'u callbacks =
  cb_f :: "'u \<Rightarrow> zip_source_data \<Rightarrow> nat \<Rightarrow> zip_source_cmd \<Rightarrow> int \<times> zip_source_data \<times> 'u"
  cb_l :: "'u zip_source \<Rightarrow> 'u \<Rightarrow> zip_source_data \<Rightarrow> nat \<Rightarrow> zip_source_cmd
             \<Rightarrow> int \<times> zip_source_data \<times> 'u \<times> 'u zip_source"

definition source_set_error :: "int \<Rightarrow> int \<Rightarrow> 'u zip_source \<Rightarrow> 'u zip_source" where
  "source_set_error ze se = upd_state (\<lambda>st. st\<lparr>src_error := (src_error st)\<lparr>zip_err := ze, sys_err := se\<rparr>\<rparr>)"

definition ZIP_SOURCE_IS_OPEN_READING :: "'u zip_source \<Rightarrow> bool" where
  "ZIP_SOURCE_IS_OPEN_READING src \<longleftrightarrow> src_open_count (src_state src) > 0"

definition ZIP_SOURCE_IS_OPEN_WRITING :: "'u zip_source \<Rightarrow> bool" where
  "ZIP_SOURCE_IS_OPEN_WRITING src \<longleftrightarrow> src_write_state (src_state src) = ZIP_SOURCE_WRITE_OPEN"

definition zip_source_supports :: "'u zip_source \<Rightarrow> u64" where
  "zip_source_supports src = src_supports (src_state src)"

definition source_supports_cmd :: "'u zip_source \<Rightarrow> zip_source_cmd \<Rightarrow> bool" where
  "source_supports_cmd src cmd \<longleftrightarrow> flag_set (zip_source_supports src) (ZIP_SOURCE_MAKE_COMMAND_BITMASK cmd)"

section \<open>Calling the callback\<close>

definition source_dispatch ::
  "'u callbacks \<Rightarrow> 'u zip_source \<Rightarrow> zip_source_data \<Rightarrow> nat \<Rightarrow> zip_source_cmd
     \<Rightarrow> int \<times> zip_source_data \<times> 'u zip_source" where
  "source_dispatch C src data len command =
     (case src of
        Plain st \<Rightarrow> (case cb_f C (src_ud st) data len command of
                       (ret, data', ud') \<Rightarrow> (ret, data', Plain (st\<lparr>src_ud := ud'\<rparr>)))
      | Layered lo st \<Rightarrow> (case cb_l C lo (src_ud st) data len command of
                            (ret, data', ud', lo') \<Rightarrow> (ret, data', Layered lo' (st\<lparr>src_ud := ud'\<rparr>))))"

text \<open>The first half of \<open>_zip_source_call\<close>: all of it for the commands ERROR and SUPPORTS.\<close>

definition source_call_simple ::
  "'u callbacks \<Rightarrow> 'u zip_source \<Rightarrow> zip_source_data \<Rightarrow> nat \<Rightarrow> zip_source_cmd
     \<Rightarrow> int \<times> zip_source_data \<times> 'u zip_source" where
  "source_call_simple C src data len command =
     (if \<not> source_supports_cmd src command then (-1, data, source_set_error ZIP_ER_OPNOTSUPP 0 src)
      else source_dispatch C src data len command)"

definition zip_source_call ::
  "'u callbacks \<Rightarrow> 'u zip_source \<Rightarrow> zip_source_data \<Rightarrow> nat \<Rightarrow> zip_source_cmd
     \<Rightarrow> int \<times> zip_source_data \<times> 'u zip_source" where
  "zip_source_call C src data len command =
     (if \<not> source_supports_cmd src command then (-1, data, source_set_error ZIP_ER_OPNOTSUPP 0 src)
      else (case source_dispatch C src data len command of
              (ret, data', src1) \<Rightarrow>
                if ret < 0 \<and> command \<noteq> ZIP_SOURCE_ERROR \<and> command \<noteq> ZIP_SOURCE_SUPPORTS
                then (case source_call_simple C src1 (SD_Error 0 0) 8 ZIP_SOURCE_ERROR of
                        (r, e, src2) \<Rightarrow>
                          if r < 0 then (ret, data', source_set_error ZIP_ER_INTERNAL 0 src2)
                          else (case e of
                                  SD_Error e0 e1 \<Rightarrow> (ret, data', source_set_error e0 e1 src2)
                                | _ \<Rightarrow> (ret, data', source_set_error 0 0 src2)))
                else (ret, data', src1)))"

section \<open>Construction\<close>

definition zip_source_new :: "mem \<Rightarrow> 'u \<Rightarrow> zip_error option \<Rightarrow> 'u source_state option \<times> zip_error option \<times> mem" where
  "zip_source_new m ud error =
     (case malloc m of
        (None, m') \<Rightarrow> (None, zip_error_set error ZIP_ER_MEMORY 0, m')
      | (Some _, m') \<Rightarrow>
          (Some \<lparr>src_ud = ud, src_error = zip_error_init, src_supports = 0, src_open_count = 0,
                 src_write_state = ZIP_SOURCE_WRITE_CLOSED, src_source_closed = False,
                 src_source_archive = None, src_refcount = 1, src_eof = False,
                 src_had_read_error = False, src_bytes_read = 0\<rparr>, error, m'))"

definition zip_source_function_create ::
  "'u callbacks \<Rightarrow> mem \<Rightarrow> 'u \<Rightarrow> zip_error option \<Rightarrow> 'u zip_source option \<times> zip_error option \<times> mem" where
  "zip_source_function_create C m ud error =
     (case zip_source_new m ud error of
        (None, error', m') \<Rightarrow> (None, error', m')
      | (Some zs, error', m') \<Rightarrow>
          (case cb_f C ud SD_Null 0 ZIP_SOURCE_SUPPORTS of
             (ret, _, ud') \<Rightarrow>
               (let supports = word_of_int ret OR zip_source_make_command_bitmap [ZIP_SOURCE_SUPPORTS];
                    supports' = (if sint supports < 0 then ZIP_SOURCE_SUPPORTS_READABLE else supports)
                in (Some (Plain (zs\<lparr>src_ud := ud', src_supports := supports'\<rparr>)), error', m'))))"

definition zip_source_keep :: "'u zip_source \<Rightarrow> 'u zip_source" where
  "zip_source_keep = upd_state (\<lambda>st. st\<lparr>src_refcount := src_refcount st + 1\<rparr>)"

definition zip_source_layered_create ::
  "'u callbacks \<Rightarrow> mem \<Rightarrow> 'u zip_source \<Rightarrow> 'u \<Rightarrow> zip_error option
     \<Rightarrow> 'u zip_source option \<times> 'u zip_source \<times> zip_error option \<times> mem" where
  "zip_source_layered_create C m src ud error =
     (case zip_source_new m ud error of
        (None, error', m') \<Rightarrow> (None, src, error', m')
      | (Some zs, error', m') \<Rightarrow>
          (let src1 = zip_source_keep src
           in case cb_l C src1 ud SD_Null 0 ZIP_SOURCE_SUPPORTS of
                (ret, _, ud', src2) \<Rightarrow>
                  (let supports = (if ret < 0 then ZIP_SOURCE_SUPPORTS_READABLE else word_of_int ret)
                   in (Some (Layered src2 (zs\<lparr>src_ud := ud', src_supports := supports\<rparr>)), src2, error', m'))))"

section \<open>Opening and closing\<close>

fun close_layers :: "nat \<Rightarrow> 'u callbacks \<Rightarrow> 'u zip_source \<Rightarrow> int \<times> 'u zip_source" where
  "close_layers 0 C src = (-1, src)"
| "close_layers (Suc k) C src =
     (if \<not> ZIP_SOURCE_IS_OPEN_READING src then (-1, source_set_error ZIP_ER_INVAL 0 src)
      else
        (let src1 = upd_state (\<lambda>st. st\<lparr>src_open_count := src_open_count st - 1\<rparr>) src
         in if src_open_count (src_state src1) = 0
            then (case zip_source_call C src1 SD_Null 0 ZIP_SOURCE_CLOSE of
                    (_, _, src2) \<Rightarrow>
                      (case src2 of
                         Layered lo st \<Rightarrow>
                           (case close_layers k C lo of
                              (r, lo') \<Rightarrow>
                                (0, if r < 0 then source_set_error ZIP_ER_INTERNAL 0 (Layered lo' st)
                                    else Layered lo' st))
                       | Plain st \<Rightarrow> (0, src2)))
            else (0, src1)))"

definition zip_source_close :: "'u callbacks \<Rightarrow> 'u zip_source \<Rightarrow> int \<times> 'u zip_source" where
  "zip_source_close C src = close_layers (layers src) C src"

definition open_reset :: "'u source_state \<Rightarrow> 'u source_state" where
  "open_reset st = st\<lparr>src_eof := False, src_had_read_error := False,
     src_error := the (zip_error_clear (Some (src_error st))), src_bytes_read := 0,
     src_open_count := src_open_count st + 1\<rparr>"

fun zip_source_open :: "'u callbacks \<Rightarrow> 'u zip_source \<Rightarrow> int \<times> 'u zip_source" where
  "zip_source_open C (Plain st) =
     (let src = Plain st in
      if src_source_closed st then (-1, src)
      else if src_write_state st = ZIP_SOURCE_WRITE_REMOVED then (-1, source_set_error ZIP_ER_DELETED 0 src)
      else if ZIP_SOURCE_IS_OPEN_READING src then
        (if \<not> source_supports_cmd src ZIP_SOURCE_SEEK then (-1, source_set_error ZIP_ER_INUSE 0 src)
         else (0, upd_state open_reset src))
      else (case zip_source_call C src SD_Null 0 ZIP_SOURCE_OPEN of
              (r, _, src1) \<Rightarrow> if r < 0 then (-1, src1) else (0, upd_state open_reset src1)))"
| "zip_source_open C (Layered lo st) =
     (let src = Layered lo st in
      if src_source_closed st then (-1, src)
      else if src_write_state st = ZIP_SOURCE_WRITE_REMOVED then (-1, source_set_error ZIP_ER_DELETED 0 src)
      else if ZIP_SOURCE_IS_OPEN_READING src then
        (if \<not> source_supports_cmd src ZIP_SOURCE_SEEK then (-1, source_set_error ZIP_ER_INUSE 0 src)
         else (0, upd_state open_reset src))
      else
        (case zip_source_open C lo of
           (r, lo1) \<Rightarrow>
             if r < 0
             then (-1, source_set_error (zip_err (src_error (src_state lo1))) (sys_err (src_error (src_state lo1)))
                         (Layered lo1 st))
             else (case zip_source_call C (Layered lo1 st) SD_Null 0 ZIP_SOURCE_OPEN of
                     (r, _, src1) \<Rightarrow>
                       if r < 0
                       then (case src1 of
                               Layered lo2 st2 \<Rightarrow> (-1, Layered (snd (zip_source_close C lo2)) st2)
                             | Plain _ \<Rightarrow> (-1, src1))
                       else (0, upd_state open_reset src1))))"

section \<open>Reading\<close>

definition store_block :: "bytes \<Rightarrow> nat \<Rightarrow> zip_source_data \<Rightarrow> bytes" where
  "store_block data p d = (case d of SD_Bytes bs \<Rightarrow> take p data @ bs | _ \<Rightarrow> data)"

text \<open>
  The loop of \<open>zip_source_read\<close>: whether it ended with an error, the bytes read, the block and the
  source.
\<close>

function source_read_loop ::
  "'u callbacks \<Rightarrow> 'u zip_source \<Rightarrow> bytes \<Rightarrow> nat \<Rightarrow> nat \<Rightarrow> bool \<times> nat \<times> bytes \<times> 'u zip_source" where
  "source_read_loop C src data len bytes_read =
     (if bytes_read < len then
        (case zip_source_call C src (SD_Bytes (drop bytes_read data)) (len - bytes_read) ZIP_SOURCE_READ of
           (n, d, src1) \<Rightarrow>
             (let data1 = store_block data bytes_read d in
              if n < 0 then (True, bytes_read, data1, upd_state (\<lambda>st. st\<lparr>src_had_read_error := True\<rparr>) src1)
              else if n = 0 then (False, bytes_read, data1, upd_state (\<lambda>st. st\<lparr>src_eof := True\<rparr>) src1)
              else source_read_loop C src1 data1 len (bytes_read + nat n)))
      else (False, bytes_read, data, src))"
  by pat_completeness auto
termination by (relation "measure (\<lambda>(C, src, data, len, bytes_read). len - bytes_read)") simp_all

declare source_read_loop.simps [simp del]

definition zip_source_eof :: "'u zip_source \<Rightarrow> bool" where
  "zip_source_eof src = src_eof (src_state src)"

definition count_bytes :: "nat \<Rightarrow> 'u source_state \<Rightarrow> 'u source_state" where
  "count_bytes n st =
     (if src_bytes_read st + word_of_nat n < src_bytes_read st then st\<lparr>src_bytes_read := - 1\<rparr>
      else st\<lparr>src_bytes_read := src_bytes_read st + word_of_nat n\<rparr>)"

definition zip_source_read ::
  "'u callbacks \<Rightarrow> 'u zip_source \<Rightarrow> bytes option \<Rightarrow> nat \<Rightarrow> int \<times> bytes option \<times> 'u zip_source" where
  "zip_source_read C src data len =
     (if src_source_closed (src_state src) then (-1, data, src)
      else if \<not> ZIP_SOURCE_IS_OPEN_READING src \<or> len > ZIP_INT64_MAX \<or> (len > 0 \<and> data = None)
        then (-1, data, source_set_error ZIP_ER_INVAL 0 src)
      else if src_had_read_error (src_state src) then (-1, data, src)
      else if zip_source_eof src then (0, data, src)
      else if len = 0 then (0, data, src)
      else (case source_read_loop C src (the data) len 0 of
              (failed, bytes_read, data1, src1) \<Rightarrow>
                if failed then (if bytes_read = 0 then -1 else int bytes_read, Some data1, src1)
                else (int bytes_read, Some data1, upd_state (count_bytes bytes_read) src1)))"

abbreviation SEEK_SET :: int where "SEEK_SET \<equiv> 0"
abbreviation SEEK_CUR :: int where "SEEK_CUR \<equiv> 1"
abbreviation SEEK_END :: int where "SEEK_END \<equiv> 2"
abbreviation EINTR :: int where "EINTR \<equiv> 4"
abbreviation EOVERFLOW :: int where "EOVERFLOW \<equiv> 75"

text \<open>The size of \<open>zip_source_args_seek_t\<close> (an int64 and an int, padded).\<close>

abbreviation sizeof_args_seek :: nat where "sizeof_args_seek \<equiv> 16"

definition zip_source_seek :: "'u callbacks \<Rightarrow> 'u zip_source \<Rightarrow> int \<Rightarrow> int \<Rightarrow> int \<times> 'u zip_source" where
  "zip_source_seek C src offset whence =
     (if src_source_closed (src_state src) then (-1, src)
      else if \<not> ZIP_SOURCE_IS_OPEN_READING src \<or> (whence \<noteq> SEEK_SET \<and> whence \<noteq> SEEK_CUR \<and> whence \<noteq> SEEK_END)
        then (-1, source_set_error ZIP_ER_INVAL 0 src)
      else (case zip_source_call C src (SD_Seek offset whence) sizeof_args_seek ZIP_SOURCE_SEEK of
              (r, _, src1) \<Rightarrow>
                if r < 0 then (-1, src1) else (0, upd_state (\<lambda>st. st\<lparr>src_eof := False\<rparr>) src1)))"

text \<open>
  Signed 64-bit arithmetic: the additions are computed modulo 2^64, as the compiled code does
  (C leaves their overflow undefined).
\<close>

definition seek_new_offset :: "u64 \<Rightarrow> u64 \<Rightarrow> int \<Rightarrow> int \<Rightarrow> u64 option" where
  "seek_new_offset offset len off whence =
     (if whence = SEEK_CUR then Some (offset + word_of_int off)
      else if whence = SEEK_END then Some (len + word_of_int off)
      else if whence = SEEK_SET then Some (word_of_int off)
      else None)"

definition zip_source_seek_compute_offset ::
  "u64 \<Rightarrow> u64 \<Rightarrow> zip_source_data \<Rightarrow> nat \<Rightarrow> zip_error \<Rightarrow> int \<times> zip_error" where
  "zip_source_seek_compute_offset offset len data data_length error =
     (let inval = error\<lparr>zip_err := ZIP_ER_INVAL, sys_err := 0\<rparr> in
      if data_length < sizeof_args_seek then (-1, inval)
      else (case data of
              SD_Seek off whence \<Rightarrow>
                (case seek_new_offset offset len off whence of
                   None \<Rightarrow> (-1, inval)
                 | Some n \<Rightarrow> if sint n < 0 \<or> n > len then (-1, inval) else (sint n, error))
            | _ \<Rightarrow> (-1, inval)))"

definition zip_source_tell :: "'u callbacks \<Rightarrow> 'u zip_source \<Rightarrow> int \<times> 'u zip_source" where
  "zip_source_tell C src =
     (if src_source_closed (src_state src) then (-1, src)
      else if \<not> ZIP_SOURCE_IS_OPEN_READING src then (-1, source_set_error ZIP_ER_INVAL 0 src)
      else if \<not> flag_set (src_supports (src_state src))
                   (ZIP_SOURCE_MAKE_COMMAND_BITMASK ZIP_SOURCE_TELL OR ZIP_SOURCE_MAKE_COMMAND_BITMASK ZIP_SOURCE_SEEK)
        then (if unat (src_bytes_read (src_state src)) > ZIP_INT64_MAX
              then (-1, source_set_error ZIP_ER_TELL EOVERFLOW src)
              else (uint (src_bytes_read (src_state src)), src))
      else (case zip_source_call C src SD_Null 0 ZIP_SOURCE_TELL of (r, _, src1) \<Rightarrow> (r, src1)))"

section \<open>Writing\<close>

definition set_write_state :: "zip_source_write_state \<Rightarrow> 'u zip_source \<Rightarrow> 'u zip_source" where
  "set_write_state w = upd_state (\<lambda>st. st\<lparr>src_write_state := w\<rparr>)"

definition zip_source_begin_write :: "'u callbacks \<Rightarrow> 'u zip_source \<Rightarrow> int \<times> 'u zip_source" where
  "zip_source_begin_write C src =
     (if ZIP_SOURCE_IS_OPEN_WRITING src then (-1, source_set_error ZIP_ER_INVAL 0 src)
      else (case zip_source_call C src SD_Null 0 ZIP_SOURCE_BEGIN_WRITE of
              (r, _, src1) \<Rightarrow> if r < 0 then (-1, src1) else (0, set_write_state ZIP_SOURCE_WRITE_OPEN src1)))"

definition zip_source_begin_write_cloning :: "'u callbacks \<Rightarrow> 'u zip_source \<Rightarrow> nat \<Rightarrow> int \<times> 'u zip_source" where
  "zip_source_begin_write_cloning C src offset =
     (if ZIP_SOURCE_IS_OPEN_WRITING src then (-1, source_set_error ZIP_ER_INVAL 0 src)
      else (case zip_source_call C src SD_Null offset ZIP_SOURCE_BEGIN_WRITE_CLONING of
              (r, _, src1) \<Rightarrow> if r < 0 then (-1, src1) else (0, set_write_state ZIP_SOURCE_WRITE_OPEN src1)))"

definition zip_source_write :: "'u callbacks \<Rightarrow> 'u zip_source \<Rightarrow> bytes \<Rightarrow> nat \<Rightarrow> int \<times> 'u zip_source" where
  "zip_source_write C src data len =
     (if \<not> ZIP_SOURCE_IS_OPEN_WRITING src \<or> len > ZIP_INT64_MAX then (-1, source_set_error ZIP_ER_INVAL 0 src)
      else (case zip_source_call C src (SD_Bytes data) len ZIP_SOURCE_WRITE of (r, _, src1) \<Rightarrow> (r, src1)))"

definition zip_source_seek_write :: "'u callbacks \<Rightarrow> 'u zip_source \<Rightarrow> int \<Rightarrow> int \<Rightarrow> int \<times> 'u zip_source" where
  "zip_source_seek_write C src offset whence =
     (if \<not> ZIP_SOURCE_IS_OPEN_WRITING src \<or> (whence \<noteq> SEEK_SET \<and> whence \<noteq> SEEK_CUR \<and> whence \<noteq> SEEK_END)
      then (-1, source_set_error ZIP_ER_INVAL 0 src)
      else (case zip_source_call C src (SD_Seek offset whence) sizeof_args_seek ZIP_SOURCE_SEEK_WRITE of
              (r, _, src1) \<Rightarrow> (if r < 0 then -1 else 0, src1)))"

definition zip_source_tell_write :: "'u callbacks \<Rightarrow> 'u zip_source \<Rightarrow> int \<times> 'u zip_source" where
  "zip_source_tell_write C src =
     (if \<not> ZIP_SOURCE_IS_OPEN_WRITING src then (-1, source_set_error ZIP_ER_INVAL 0 src)
      else (case zip_source_call C src SD_Null 0 ZIP_SOURCE_TELL_WRITE of (r, _, src1) \<Rightarrow> (r, src1)))"

definition zip_source_commit_write :: "'u callbacks \<Rightarrow> 'u zip_source \<Rightarrow> int \<times> 'u zip_source" where
  "zip_source_commit_write C src =
     (if \<not> ZIP_SOURCE_IS_OPEN_WRITING src then (-1, source_set_error ZIP_ER_INVAL 0 src)
      else if src_open_count (src_state src) > 1 then (-1, source_set_error ZIP_ER_INUSE 0 src)
      else
        (case (if ZIP_SOURCE_IS_OPEN_READING src then zip_source_close C src else (0, src)) of
           (r, src1) \<Rightarrow>
             if r < 0 then (-1, src1)
             else (case zip_source_call C src1 SD_Null 0 ZIP_SOURCE_COMMIT_WRITE of
                     (r, _, src2) \<Rightarrow>
                       if r < 0 then (-1, set_write_state ZIP_SOURCE_WRITE_FAILED src2)
                       else (0, set_write_state ZIP_SOURCE_WRITE_CLOSED src2))))"

definition zip_source_rollback_write :: "'u callbacks \<Rightarrow> 'u zip_source \<Rightarrow> 'u zip_source" where
  "zip_source_rollback_write C src =
     (if src_write_state (src_state src) \<noteq> ZIP_SOURCE_WRITE_OPEN
         \<and> src_write_state (src_state src) \<noteq> ZIP_SOURCE_WRITE_FAILED then src
      else (case zip_source_call C src SD_Null 0 ZIP_SOURCE_ROLLBACK_WRITE of
              (_, _, src1) \<Rightarrow> set_write_state ZIP_SOURCE_WRITE_CLOSED src1))"

definition zip_source_remove :: "'u callbacks \<Rightarrow> 'u zip_source \<Rightarrow> int \<times> 'u zip_source" where
  "zip_source_remove C src =
     (if src_write_state (src_state src) = ZIP_SOURCE_WRITE_REMOVED then (0, src)
      else
        (case (if ZIP_SOURCE_IS_OPEN_READING src then zip_source_close C src else (0, src)) of
           (r, src1) \<Rightarrow>
             if r < 0 then (-1, src1)
             else (let src2 = (if src_write_state (src_state src1) \<noteq> ZIP_SOURCE_WRITE_CLOSED
                               then zip_source_rollback_write C src1 else src1)
                   in case zip_source_call C src2 SD_Null 0 ZIP_SOURCE_REMOVE of
                        (r, _, src3) \<Rightarrow>
                          if r < 0 then (-1, src3) else (0, set_write_state ZIP_SOURCE_WRITE_REMOVED src3))))"

definition zip_source_is_deleted :: "'u zip_source \<Rightarrow> bool" where
  "zip_source_is_deleted src \<longleftrightarrow> src_write_state (src_state src) = ZIP_SOURCE_WRITE_REMOVED"

section \<open>Information and release\<close>

abbreviation sizeof_stat :: nat where "sizeof_stat \<equiv> 64"
abbreviation sizeof_attributes :: nat where "sizeof_attributes \<equiv> 24"

definition stat_block :: "zip_stat \<Rightarrow> zip_source_data \<Rightarrow> zip_stat" where
  "stat_block st d = (case d of SD_Stat st' \<Rightarrow> st' | _ \<Rightarrow> st)"

fun zip_source_stat ::
  "'u callbacks \<Rightarrow> 'u zip_source \<Rightarrow> zip_stat option \<Rightarrow> int \<times> zip_stat option \<times> 'u zip_source" where
  "zip_source_stat C (Plain s) st =
     (if src_source_closed s then (-1, st, Plain s)
      else (case st of
              None \<Rightarrow> (-1, None, source_set_error ZIP_ER_INVAL 0 (Plain s))
            | Some st0 \<Rightarrow>
                (case zip_source_call C (Plain s) (SD_Stat (zip_stat_init st0)) sizeof_stat ZIP_SOURCE_STAT of
                   (r, d, src1) \<Rightarrow> (if r < 0 then -1 else 0, Some (stat_block (zip_stat_init st0) d), src1))))"
| "zip_source_stat C (Layered lo s) st =
     (if src_source_closed s then (-1, st, Layered lo s)
      else (case st of
              None \<Rightarrow> (-1, None, source_set_error ZIP_ER_INVAL 0 (Layered lo s))
            | Some st0 \<Rightarrow>
                (case zip_source_stat C lo (Some (zip_stat_init st0)) of
                   (r, st1, lo1) \<Rightarrow>
                     if r < 0
                     then (-1, st1, source_set_error (zip_err (src_error (src_state lo1)))
                                      (sys_err (src_error (src_state lo1))) (Layered lo1 s))
                     else (case zip_source_call C (Layered lo1 s) (SD_Stat (the st1)) sizeof_stat ZIP_SOURCE_STAT of
                             (r, d, src1) \<Rightarrow> (if r < 0 then -1 else 0, Some (stat_block (the st1) d), src1)))))"

fun zip_source_accept_empty :: "'u callbacks \<Rightarrow> 'u zip_source \<Rightarrow> bool \<times> 'u zip_source" where
  "zip_source_accept_empty C (Plain s) =
     (if \<not> source_supports_cmd (Plain s) ZIP_SOURCE_ACCEPT_EMPTY then (True, Plain s)
      else (case zip_source_call C (Plain s) SD_Null 0 ZIP_SOURCE_ACCEPT_EMPTY of
              (r, _, src1) \<Rightarrow> (word_of_int r \<noteq> (0::u32), src1)))"
| "zip_source_accept_empty C (Layered lo s) =
     (if \<not> source_supports_cmd (Layered lo s) ZIP_SOURCE_ACCEPT_EMPTY
      then (case zip_source_accept_empty C lo of (b, lo1) \<Rightarrow> (b, Layered lo1 s))
      else (case zip_source_call C (Layered lo s) SD_Null 0 ZIP_SOURCE_ACCEPT_EMPTY of
              (r, _, src1) \<Rightarrow> (word_of_int r \<noteq> (0::u32), src1)))"

text \<open>How the attributes of a lower source complete those of the source on it.\<close>

definition merge_lower_attributes :: "zip_file_attributes \<Rightarrow> zip_file_attributes \<Rightarrow> zip_file_attributes" where
  "merge_lower_attributes a lo =
     (let a1 = (if flag_set (fa_valid lo) ZIP_FILE_ATTRIBUTES_HOST_SYSTEM
                   \<and> \<not> flag_set (fa_valid a) ZIP_FILE_ATTRIBUTES_HOST_SYSTEM
                then a\<lparr>fa_host_system := fa_host_system lo,
                       fa_valid := fa_valid a OR ZIP_FILE_ATTRIBUTES_HOST_SYSTEM\<rparr> else a);
          a2 = (if flag_set (fa_valid lo) ZIP_FILE_ATTRIBUTES_ASCII
                   \<and> \<not> flag_set (fa_valid a1) ZIP_FILE_ATTRIBUTES_ASCII
                then a1\<lparr>fa_ascii := fa_ascii lo, fa_valid := fa_valid a1 OR ZIP_FILE_ATTRIBUTES_ASCII\<rparr> else a1);
          a3 = (if flag_set (fa_valid lo) ZIP_FILE_ATTRIBUTES_VERSION_NEEDED
                then (if flag_set (fa_valid a2) ZIP_FILE_ATTRIBUTES_VERSION_NEEDED
                      then a2\<lparr>fa_version_needed := max (fa_version_needed lo) (fa_version_needed a2)\<rparr>
                      else a2\<lparr>fa_version_needed := fa_version_needed lo,
                              fa_valid := fa_valid a2 OR ZIP_FILE_ATTRIBUTES_VERSION_NEEDED\<rparr>) else a2);
          a4 = (if flag_set (fa_valid lo) ZIP_FILE_ATTRIBUTES_EXTERNAL_FILE_ATTRIBUTES
                   \<and> \<not> flag_set (fa_valid a3) ZIP_FILE_ATTRIBUTES_EXTERNAL_FILE_ATTRIBUTES
                then a3\<lparr>fa_external_file_attributes := fa_external_file_attributes lo,
                        fa_valid := fa_valid a3 OR ZIP_FILE_ATTRIBUTES_EXTERNAL_FILE_ATTRIBUTES\<rparr> else a3)
      in if flag_set (fa_valid lo) ZIP_FILE_ATTRIBUTES_GENERAL_PURPOSE_BIT_FLAGS
         then (if flag_set (fa_valid a4) ZIP_FILE_ATTRIBUTES_GENERAL_PURPOSE_BIT_FLAGS
               then (let mask = fa_general_purpose_bit_mask lo AND NOT (fa_general_purpose_bit_mask a4)
                     in a4\<lparr>fa_general_purpose_bit_flags :=
                             fa_general_purpose_bit_flags a4 OR (fa_general_purpose_bit_flags lo AND mask),
                           fa_general_purpose_bit_mask := fa_general_purpose_bit_mask a4 OR mask\<rparr>)
               else a4\<lparr>fa_valid := fa_valid a4 OR ZIP_FILE_ATTRIBUTES_GENERAL_PURPOSE_BIT_FLAGS,
                       fa_general_purpose_bit_flags := fa_general_purpose_bit_flags lo,
                       fa_general_purpose_bit_mask := fa_general_purpose_bit_mask lo\<rparr>)
         else a4)"

text \<open>The attributes of the lower source start as an initialised block; only valid ones are used.\<close>

fun attributes_layers ::
  "nat \<Rightarrow> 'u callbacks \<Rightarrow> 'u zip_source \<Rightarrow> zip_file_attributes option
     \<Rightarrow> int \<times> zip_file_attributes option \<times> 'u zip_source" where
  "attributes_layers 0 C src a = (-1, a, src)"
| "attributes_layers (Suc k) C src a =
     (if src_source_closed (src_state src) then (-1, a, src)
      else (case a of
              None \<Rightarrow> (-1, None, source_set_error ZIP_ER_INVAL 0 src)
            | Some a0 \<Rightarrow>
              (let a1 = zip_file_attributes_init a0 in
               case (if source_supports_cmd src ZIP_SOURCE_GET_FILE_ATTRIBUTES
                     then (case zip_source_call C src (SD_Attributes a1) sizeof_attributes ZIP_SOURCE_GET_FILE_ATTRIBUTES of
                             (r, d, src1) \<Rightarrow> (r, (case d of SD_Attributes a2 \<Rightarrow> a2 | _ \<Rightarrow> a1), src1))
                     else (0, a1, src)) of
                 (r, a2, src1) \<Rightarrow>
                   if r < 0 then (-1, Some a2, src1)
                   else (case src1 of
                           Plain st \<Rightarrow> (0, Some a2, src1)
                         | Layered lo st \<Rightarrow>
                             (case attributes_layers k C lo (Some a0) of
                                (r2, lower, lo1) \<Rightarrow>
                                  if r2 < 0
                                  then (-1, Some a2, source_set_error (zip_err (src_error (src_state lo1)))
                                                       (sys_err (src_error (src_state lo1))) (Layered lo1 st))
                                  else (0, Some (merge_lower_attributes a2 (the lower)), Layered lo1 st))))))"

definition zip_source_get_file_attributes ::
  "'u callbacks \<Rightarrow> 'u zip_source \<Rightarrow> zip_file_attributes option \<Rightarrow> int \<times> zip_file_attributes option \<times> 'u zip_source" where
  "zip_source_get_file_attributes C src a = attributes_layers (layers src) C src a"

definition zip_source_free_steps :: "'u callbacks \<Rightarrow> 'u zip_source \<Rightarrow> 'u zip_source" where
  "zip_source_free_steps C src =
     (let src1 = (if ZIP_SOURCE_IS_OPEN_READING src
                  then snd (zip_source_close C (upd_state (\<lambda>st. st\<lparr>src_open_count := 1\<rparr>) src)) else src);
          src2 = (if ZIP_SOURCE_IS_OPEN_WRITING src1 then zip_source_rollback_write C src1 else src1)
      in case zip_source_call C src2 SD_Null 0 ZIP_SOURCE_FREE of (_, _, src3) \<Rightarrow> src3)"

text \<open>
  Releasing a reference; the boolean says that the source is gone. Taking it off the list of its
  archive (\<open>_zip_deregister_source\<close>) is the archive's business.
\<close>

fun free_layers :: "nat \<Rightarrow> 'u callbacks \<Rightarrow> 'u zip_source \<Rightarrow> bool \<times> 'u zip_source" where
  "free_layers 0 C src = (False, src)"
| "free_layers (Suc k) C src =
     (let src1 = upd_state (\<lambda>st. st\<lparr>src_refcount := src_refcount st - 1\<rparr>) src
      in if src_refcount (src_state src1) > 0 then (False, src1)
         else (case zip_source_free_steps C src1 of
                 Plain st \<Rightarrow> (True, Plain st)
               | Layered lo st \<Rightarrow> (True, Layered (snd (free_layers k C lo)) st)))"

definition zip_source_free :: "'u callbacks \<Rightarrow> 'u zip_source option \<Rightarrow> bool \<times> 'u zip_source option" where
  "zip_source_free C src =
     (case src of None \<Rightarrow> (False, None)
      | Some s \<Rightarrow> (case free_layers (layers s) C s of (b, s') \<Rightarrow> (b, Some s')))"

section \<open>The protocol seen by a callback\<close>

text \<open>A callback that also logs each command with whether it succeeded.\<close>

type_synonym cmd_log = "(zip_source_cmd \<times> bool) list"

definition logged :: "('u \<Rightarrow> zip_source_data \<Rightarrow> nat \<Rightarrow> zip_source_cmd \<Rightarrow> int \<times> zip_source_data \<times> 'u)
    \<Rightarrow> ('u \<times> cmd_log) callbacks" where
  "logged f = \<lparr>cb_f = (\<lambda>(u, l) d n cmd. case f u d n cmd of (r, d', u') \<Rightarrow> (r, d', u', l @ [(cmd, r \<ge> 0)])),
               cb_l = (\<lambda>lo ul d n cmd. (-1, d, ul, lo))\<rparr>"

text \<open>
  The protocol as an automaton: whether the source is open for reading, and the state of a write.
  \<open>None\<close> is a command out of order.
\<close>

fun proto_step :: "bool \<times> zip_source_write_state \<Rightarrow> zip_source_cmd \<times> bool \<Rightarrow> (bool \<times> zip_source_write_state) option" where
  "proto_step (rd, w) (cmd, ok) =
     (case cmd of
        ZIP_SOURCE_OPEN \<Rightarrow> if \<not> rd \<and> w \<noteq> ZIP_SOURCE_WRITE_REMOVED then Some (ok, w) else None
      | ZIP_SOURCE_READ \<Rightarrow> if rd then Some (rd, w) else None
      | ZIP_SOURCE_SEEK \<Rightarrow> if rd then Some (rd, w) else None
      | ZIP_SOURCE_TELL \<Rightarrow> if rd then Some (rd, w) else None
      | ZIP_SOURCE_CLOSE \<Rightarrow> if rd then Some (False, w) else None
      | ZIP_SOURCE_BEGIN_WRITE \<Rightarrow>
          if w \<noteq> ZIP_SOURCE_WRITE_OPEN then Some (rd, if ok then ZIP_SOURCE_WRITE_OPEN else w) else None
      | ZIP_SOURCE_BEGIN_WRITE_CLONING \<Rightarrow>
          if w \<noteq> ZIP_SOURCE_WRITE_OPEN then Some (rd, if ok then ZIP_SOURCE_WRITE_OPEN else w) else None
      | ZIP_SOURCE_WRITE \<Rightarrow> if w = ZIP_SOURCE_WRITE_OPEN then Some (rd, w) else None
      | ZIP_SOURCE_SEEK_WRITE \<Rightarrow> if w = ZIP_SOURCE_WRITE_OPEN then Some (rd, w) else None
      | ZIP_SOURCE_TELL_WRITE \<Rightarrow> if w = ZIP_SOURCE_WRITE_OPEN then Some (rd, w) else None
      | ZIP_SOURCE_COMMIT_WRITE \<Rightarrow>
          if w = ZIP_SOURCE_WRITE_OPEN \<and> \<not> rd
          then Some (rd, if ok then ZIP_SOURCE_WRITE_CLOSED else ZIP_SOURCE_WRITE_FAILED) else None
      | ZIP_SOURCE_ROLLBACK_WRITE \<Rightarrow>
          if w = ZIP_SOURCE_WRITE_OPEN \<or> w = ZIP_SOURCE_WRITE_FAILED then Some (rd, ZIP_SOURCE_WRITE_CLOSED) else None
      | ZIP_SOURCE_REMOVE \<Rightarrow>
          if w = ZIP_SOURCE_WRITE_CLOSED then Some (rd, if ok then ZIP_SOURCE_WRITE_REMOVED else w) else None
      | _ \<Rightarrow> Some (rd, w))"

fun proto_run :: "bool \<times> zip_source_write_state \<Rightarrow> cmd_log \<Rightarrow> (bool \<times> zip_source_write_state) option" where
  "proto_run p [] = Some p"
| "proto_run p (e # es) = (case proto_step p e of None \<Rightarrow> None | Some p' \<Rightarrow> proto_run p' es)"

lemma proto_run_append: "proto_run p (xs @ ys) = (case proto_run p xs of None \<Rightarrow> None | Some p' \<Rightarrow> proto_run p' ys)"
  by (induction p xs rule: proto_run.induct) (simp_all split: option.splits)

text \<open>
  A client may ask for anything, in any order and with any arguments; the archive the source comes
  from may be closed under it.
\<close>

inductive source_step :: "'u callbacks \<Rightarrow> 'u zip_source \<Rightarrow> 'u zip_source \<Rightarrow> bool" for C where
  "zip_source_open C s = (r, s') \<Longrightarrow> source_step C s s'"
| "zip_source_close C s = (r, s') \<Longrightarrow> source_step C s s'"
| "zip_source_read C s data len = (r, d, s') \<Longrightarrow> source_step C s s'"
| "zip_source_seek C s offset whence = (r, s') \<Longrightarrow> source_step C s s'"
| "zip_source_tell C s = (r, s') \<Longrightarrow> source_step C s s'"
| "zip_source_begin_write C s = (r, s') \<Longrightarrow> source_step C s s'"
| "zip_source_begin_write_cloning C s len = (r, s') \<Longrightarrow> source_step C s s'"
| "zip_source_write C s bs len = (r, s') \<Longrightarrow> source_step C s s'"
| "zip_source_seek_write C s offset whence = (r, s') \<Longrightarrow> source_step C s s'"
| "zip_source_tell_write C s = (r, s') \<Longrightarrow> source_step C s s'"
| "zip_source_commit_write C s = (r, s') \<Longrightarrow> source_step C s s'"
| "zip_source_rollback_write C s = s' \<Longrightarrow> source_step C s s'"
| "zip_source_remove C s = (r, s') \<Longrightarrow> source_step C s s'"
| "zip_source_stat C s st = (r, st', s') \<Longrightarrow> source_step C s s'"
| "zip_source_accept_empty C s = (b, s') \<Longrightarrow> source_step C s s'"
| "zip_source_get_file_attributes C s a = (r, a', s') \<Longrightarrow> source_step C s s'"
| "upd_state (\<lambda>st. st\<lparr>src_source_closed := True\<rparr>) s = s' \<Longrightarrow> source_step C s s'"

inductive_cases source_stepE: "source_step C s s'"

definition well_supported :: "'u source_state \<Rightarrow> bool" where
  "well_supported st \<longleftrightarrow>
     source_supports_cmd (Plain st) ZIP_SOURCE_CLOSE \<and>
     (source_supports_cmd (Plain st) ZIP_SOURCE_BEGIN_WRITE \<or> source_supports_cmd (Plain st) ZIP_SOURCE_BEGIN_WRITE_CLONING
        \<longrightarrow> source_supports_cmd (Plain st) ZIP_SOURCE_COMMIT_WRITE \<and> source_supports_cmd (Plain st) ZIP_SOURCE_ROLLBACK_WRITE)"

definition writable :: "'u source_state \<Rightarrow> bool" where
  "writable st \<longleftrightarrow> source_supports_cmd (Plain st) ZIP_SOURCE_COMMIT_WRITE \<and> source_supports_cmd (Plain st) ZIP_SOURCE_ROLLBACK_WRITE"

text \<open>The layer's own state and the automaton agree.\<close>

definition conforms :: "('u \<times> cmd_log) zip_source \<Rightarrow> bool" where
  "conforms s \<longleftrightarrow> (\<exists>st. s = Plain st \<and> well_supported st
     \<and> proto_run (False, ZIP_SOURCE_WRITE_CLOSED) (snd (src_ud st)) = Some (src_open_count st > 0, src_write_state st)
     \<and> (src_write_state st \<in> {ZIP_SOURCE_WRITE_OPEN, ZIP_SOURCE_WRITE_FAILED} \<longrightarrow> writable st))"

text \<open>Two states that differ in what the protocol does not look at.\<close>

definition same_protocol :: "'u source_state \<Rightarrow> 'u source_state \<Rightarrow> bool" where
  "same_protocol st st' \<longleftrightarrow> src_open_count st' = src_open_count st \<and> src_write_state st' = src_write_state st
     \<and> src_supports st' = src_supports st"

lemma supports_cong: "src_supports st' = src_supports st \<Longrightarrow> source_supports_cmd (Plain st') cmd = source_supports_cmd (Plain st) cmd"
  by (simp add: source_supports_cmd_def zip_source_supports_def)

lemma dispatch_plain:
  "source_dispatch (logged f) (Plain st) d n cmd =
     (case f (fst (src_ud st)) d n cmd of
        (r, d', u') \<Rightarrow> (r, d', Plain (st\<lparr>src_ud := (u', snd (src_ud st) @ [(cmd, r \<ge> 0)])\<rparr>)))"
  by (cases "src_ud st") (simp add: source_dispatch_def logged_def split: prod.splits)

lemma set_error_plain [simp]:
  "source_set_error ze se (Plain st) = Plain (st\<lparr>src_error := (src_error st)\<lparr>zip_err := ze, sys_err := se\<rparr>\<rparr>)"
  by (simp add: source_set_error_def)

lemma call_simple_error:
  assumes "source_call_simple (logged f) (Plain st) d n ZIP_SOURCE_ERROR = (r, d', s')"
  shows "\<exists>st' es. s' = Plain st' \<and> same_protocol st st' \<and> snd (src_ud st') = snd (src_ud st) @ es \<and> fst ` set es \<subseteq> {ZIP_SOURCE_ERROR}"
  using assms by (auto simp: source_call_simple_def dispatch_plain same_protocol_def split: if_splits prod.splits)

lemma call_plain:
  assumes "zip_source_call (logged f) (Plain st) d n cmd = (r, d', s')"
  shows "\<exists>st' es. s' = Plain st' \<and> same_protocol st st'
    \<and> (if source_supports_cmd (Plain st) cmd
       then snd (src_ud st') = snd (src_ud st) @ (cmd, r \<ge> 0) # es \<and> fst ` set es \<subseteq> {ZIP_SOURCE_ERROR}
       else snd (src_ud st') = snd (src_ud st) \<and> r = -1)"
proof (cases "source_supports_cmd (Plain st) cmd")
  case False
  with assms show ?thesis by (auto simp: zip_source_call_def same_protocol_def)
next
  case True
  obtain r0 d0 u0 where c: "f (fst (src_ud st)) d n cmd = (r0, d0, u0)" by (metis prod_cases3)
  let ?st1 = "st\<lparr>src_ud := (u0, snd (src_ud st) @ [(cmd, r0 \<ge> 0)])\<rparr>"
  show ?thesis
  proof (cases "r0 < 0 \<and> cmd \<noteq> ZIP_SOURCE_ERROR \<and> cmd \<noteq> ZIP_SOURCE_SUPPORTS")
    case False
    with assms True c show ?thesis by (auto simp: zip_source_call_def dispatch_plain same_protocol_def)
  next
    case err: True
    obtain r2 e s2 where e: "source_call_simple (logged f) (Plain ?st1) (SD_Error 0 0) 8 ZIP_SOURCE_ERROR = (r2, e, s2)"
      by (metis prod_cases3)
    from call_simple_error [OF e] obtain st2 es where st2: "s2 = Plain st2" "same_protocol ?st1 st2"
      "snd (src_ud st2) = snd (src_ud st) @ (cmd, r0 \<ge> 0) # es" "fst ` set es \<subseteq> {ZIP_SOURCE_ERROR}" by auto
    show ?thesis
      using assms True c err e st2
      by (auto simp: zip_source_call_def dispatch_plain same_protocol_def split: if_splits zip_source_data.splits)
  qed
qed

lemma proto_run_errors: "fst ` set es \<subseteq> {ZIP_SOURCE_ERROR} \<Longrightarrow> proto_run p es = Some p"
proof (induction es)
  case (Cons e es)
  then show ?case by (cases e; cases p) simp
qed simp

lemma proto_run_call:
  assumes "proto_run p0 l = Some p" and "proto_step p (cmd, ok) = Some p'" and "fst ` set es \<subseteq> {ZIP_SOURCE_ERROR}"
  shows "proto_run p0 (l @ (cmd, ok) # es) = Some p'"
  using assms by (simp add: proto_run_append proto_run_errors)

text \<open>
  One call of the callback that the automaton allows, followed by the update of the layer's state
  that goes with it.
\<close>

lemma conforms_call:
  assumes c: "conforms (Plain st)" and call: "zip_source_call (logged f) (Plain st) d n cmd = (r, d', s')"
    and step: "source_supports_cmd (Plain st) cmd \<longrightarrow>
      proto_step (src_open_count st > 0, src_write_state st) (cmd, r \<ge> 0) = Some (rd, w)"
  shows "\<exists>st'. s' = Plain st' \<and> same_protocol st st' \<and> well_supported st'
    \<and> (src_write_state st \<in> {ZIP_SOURCE_WRITE_OPEN, ZIP_SOURCE_WRITE_FAILED} \<longrightarrow> writable st')
    \<and> proto_run (False, ZIP_SOURCE_WRITE_CLOSED) (snd (src_ud st')) =
        Some (if source_supports_cmd (Plain st) cmd then (rd, w) else (src_open_count st > 0, src_write_state st))
    \<and> (\<not> source_supports_cmd (Plain st) cmd \<longrightarrow> r = -1)"
proof -
  from call_plain [OF call] obtain st' es where st': "s' = Plain st'" "same_protocol st st'"
    "if source_supports_cmd (Plain st) cmd
     then snd (src_ud st') = snd (src_ud st) @ (cmd, r \<ge> 0) # es \<and> fst ` set es \<subseteq> {ZIP_SOURCE_ERROR}
     else snd (src_ud st') = snd (src_ud st) \<and> r = -1" by blast
  have sup: "source_supports_cmd (Plain st') x = source_supports_cmd (Plain st) x" for x
    using st'(2) by (intro supports_cong) (simp add: same_protocol_def)
  have "proto_run (False, ZIP_SOURCE_WRITE_CLOSED) (snd (src_ud st')) =
      Some (if source_supports_cmd (Plain st) cmd then (rd, w) else (src_open_count st > 0, src_write_state st))"
    using c st'(3) step by (auto simp: conforms_def proto_run_call)
  with st' c show ?thesis by (intro exI [of _ st']) (auto simp: conforms_def well_supported_def writable_def sup)
qed

lemma conforms_upd:
  assumes "conforms (Plain st)" and "same_protocol st st'" and "snd (src_ud st') = snd (src_ud st)"
  shows "conforms (Plain st')"
proof -
  have "source_supports_cmd (Plain st') x = source_supports_cmd (Plain st) x" for x
    using assms(2) by (intro supports_cong) (simp add: same_protocol_def)
  with assms show ?thesis by (auto simp: conforms_def same_protocol_def well_supported_def writable_def)
qed

lemma conforms_Plain: "conforms s \<Longrightarrow> \<exists>st. s = Plain st"
  by (auto simp: conforms_def)

lemma conforms_error_simp [simp]: "conforms (Plain (st\<lparr>src_error := e\<rparr>)) = conforms (Plain st)"
  by (simp add: conforms_def well_supported_def writable_def source_supports_cmd_def zip_source_supports_def)

lemma conforms_upd_state:
  assumes "conforms s" and "\<And>st. same_protocol st (f st)" and "\<And>st. src_ud (f st) = src_ud st"
  shows "conforms (upd_state f s)"
proof -
  from conforms_Plain [OF assms(1)] obtain st where s: "s = Plain st" ..
  show ?thesis unfolding s upd_state.simps
    by (rule conforms_upd [OF assms(1) [unfolded s] assms(2)]) (simp add: assms(3))
qed

lemma conforms_error [intro]: "conforms s \<Longrightarrow> conforms (source_set_error ze se s)"
  unfolding source_set_error_def by (erule conforms_upd_state) (simp_all add: same_protocol_def)

lemma conforms_flags [intro]:
  "conforms s \<Longrightarrow> conforms (upd_state (\<lambda>st. st\<lparr>src_eof := b\<rparr>) s)"
  "conforms s \<Longrightarrow> conforms (upd_state (\<lambda>st. st\<lparr>src_had_read_error := b\<rparr>) s)"
  "conforms s \<Longrightarrow> conforms (upd_state (\<lambda>st. st\<lparr>src_source_closed := b\<rparr>) s)"
  "conforms s \<Longrightarrow> conforms (upd_state (count_bytes n) s)"
  by (erule conforms_upd_state; simp add: same_protocol_def count_bytes_def)+

text \<open>Commands that leave the automaton where it is.\<close>

lemma conforms_keep:
  assumes c: "conforms s" and call: "zip_source_call (logged f) s d n cmd = (r, d', s')"
    and step: "source_supports_cmd s cmd \<Longrightarrow>
      proto_step (ZIP_SOURCE_IS_OPEN_READING s, src_write_state (src_state s)) (cmd, r \<ge> 0)
        = Some (ZIP_SOURCE_IS_OPEN_READING s, src_write_state (src_state s))"
  shows "conforms s'" and "ZIP_SOURCE_IS_OPEN_READING s' = ZIP_SOURCE_IS_OPEN_READING s"
    and "src_write_state (src_state s') = src_write_state (src_state s)"
proof -
  from conforms_Plain [OF c] obtain st where s: "s = Plain st" ..
  have st: "source_supports_cmd (Plain st) cmd \<longrightarrow>
      proto_step (src_open_count st > 0, src_write_state st) (cmd, r \<ge> 0) = Some (src_open_count st > 0, src_write_state st)"
    using step by (simp add: s ZIP_SOURCE_IS_OPEN_READING_def)
  obtain st' where st': "s' = Plain st'" "same_protocol st st'" "well_supported st'"
    "src_write_state st \<in> {ZIP_SOURCE_WRITE_OPEN, ZIP_SOURCE_WRITE_FAILED} \<Longrightarrow> writable st'"
    "proto_run (False, ZIP_SOURCE_WRITE_CLOSED) (snd (src_ud st')) =
      Some (if source_supports_cmd (Plain st) cmd then (src_open_count st > 0, src_write_state st)
            else (src_open_count st > 0, src_write_state st))"
    "\<not> source_supports_cmd (Plain st) cmd \<Longrightarrow> r = -1"
    using conforms_call [OF c [unfolded s] call [unfolded s] st] by blast
  then show "conforms s'" "ZIP_SOURCE_IS_OPEN_READING s' = ZIP_SOURCE_IS_OPEN_READING s"
    "src_write_state (src_state s') = src_write_state (src_state s)"
    by (auto simp: conforms_def same_protocol_def ZIP_SOURCE_IS_OPEN_READING_def s)
qed

lemma conforms_read_loop:
  "conforms s \<Longrightarrow> ZIP_SOURCE_IS_OPEN_READING s \<Longrightarrow>
   source_read_loop (logged f) s data len n = (b, k, data', s') \<Longrightarrow> conforms s'"
proof (induction "logged f" s data len n arbitrary: b k data' s' rule: source_read_loop.induct)
  case (1 s data len n)
  show ?case
  proof (cases "n < len")
    case True
    obtain r d s1 where call: "zip_source_call (logged f) s (SD_Bytes (drop n data)) (len - n) ZIP_SOURCE_READ = (r, d, s1)"
      by (metis prod_cases3)
    have k: "conforms s1" "ZIP_SOURCE_IS_OPEN_READING s1"
      using conforms_keep [OF 1(2) call] 1(3) by auto
    show ?thesis
      using 1(1) [OF True call [symmetric] refl] 1(4) True call k
      by (subst (asm) (2) source_read_loop.simps) (auto simp: Let_def split: if_splits)
  qed (use 1 in \<open>simp add: source_read_loop.simps\<close>)
qed

lemma conforms_read:
  assumes "conforms s" and "zip_source_read (logged f) s data len = (r, d, s')"
  shows "conforms s'"
proof -
  obtain b k data' s1 where loop: "source_read_loop (logged f) s (the data) len 0 = (b, k, data', s1)"
    by (metis prod_cases4)
  show ?thesis
    using assms conforms_read_loop [OF assms(1) _ loop] loop
    by (auto simp: zip_source_read_def split: if_splits)
qed

lemma conforms_open:
  assumes "conforms s" and "zip_source_open (logged f) s = (r, s')"
  shows "conforms s'"
proof -
  from conforms_Plain [OF assms(1)] obtain st where s: "s = Plain st" ..
  note c = assms(1) [unfolded s]
  obtain r0 d s1 where call: "zip_source_call (logged f) (Plain st) SD_Null 0 ZIP_SOURCE_OPEN = (r0, d, s1)"
    by (metis prod_cases3)
  have reopen: "conforms (Plain (open_reset st))" if "src_open_count st > 0"
    using c that by (auto simp: conforms_def open_reset_def well_supported_def writable_def source_supports_cmd_def zip_source_supports_def)
  have "conforms (if r0 < 0 then s1 else upd_state open_reset s1)"
    if "src_open_count st = 0" "src_write_state st \<noteq> ZIP_SOURCE_WRITE_REMOVED"
  proof -
    have step: "source_supports_cmd (Plain st) ZIP_SOURCE_OPEN \<longrightarrow>
      proto_step (src_open_count st > 0, src_write_state st) (ZIP_SOURCE_OPEN, r0 \<ge> 0) = Some (r0 \<ge> 0, src_write_state st)"
      using that by simp
    from conforms_call [OF c call step] obtain st' where st': "s1 = Plain st'" "same_protocol st st'" "well_supported st'"
      "src_write_state st \<in> {ZIP_SOURCE_WRITE_OPEN, ZIP_SOURCE_WRITE_FAILED} \<Longrightarrow> writable st'"
      "proto_run (False, ZIP_SOURCE_WRITE_CLOSED) (snd (src_ud st')) =
        Some (if source_supports_cmd (Plain st) ZIP_SOURCE_OPEN then (r0 \<ge> 0, src_write_state st) else (src_open_count st > 0, src_write_state st))"
      "\<not> source_supports_cmd (Plain st) ZIP_SOURCE_OPEN \<Longrightarrow> r0 = -1" by blast
    then show ?thesis using that
      by (auto simp: conforms_def same_protocol_def open_reset_def well_supported_def writable_def
          source_supports_cmd_def zip_source_supports_def split: if_splits)
  qed
  then show ?thesis
    using assms(2) call reopen c
    by (auto simp: s Let_def ZIP_SOURCE_IS_OPEN_READING_def split: if_splits)
qed

lemma conforms_close:
  assumes "conforms s" and "zip_source_close (logged f) s = (r, s')"
  shows "conforms s'" and "src_write_state (src_state s') = src_write_state (src_state s)"
    and "src_open_count (src_state s') = src_open_count (src_state s) - 1"
    and "r < 0 \<longleftrightarrow> src_open_count (src_state s) = 0"
proof -
  from conforms_Plain [OF assms(1)] obtain st where s: "s = Plain st" ..
  note c = assms(1) [unfolded s]
  let ?st1 = "st\<lparr>src_open_count := src_open_count st - 1\<rparr>"
  have sup: "source_supports_cmd (Plain ?st1) x = source_supports_cmd (Plain st) x" for x
    by (intro supports_cong) simp
  have "conforms s' \<and> src_write_state (src_state s') = src_write_state st
    \<and> src_open_count (src_state s') = src_open_count st - 1 \<and> (r < 0 \<longleftrightarrow> src_open_count st = 0)"
  proof (cases "src_open_count st = 1")
    case False
    have "conforms (Plain ?st1)" if "src_open_count st > 1"
      using c that sup by (auto simp: conforms_def well_supported_def writable_def)
    with False assms(2) c show ?thesis
      by (auto simp: s zip_source_close_def numeral_eq_Suc Let_def ZIP_SOURCE_IS_OPEN_READING_def split: if_splits)
  next
    case True
    obtain r0 d s1 where call: "zip_source_call (logged f) (Plain ?st1) SD_Null 0 ZIP_SOURCE_CLOSE = (r0, d, s1)"
      by (metis prod_cases3)
    from call_plain [OF call] obtain st' es where st': "s1 = Plain st'" "same_protocol ?st1 st'"
      "snd (src_ud st') = snd (src_ud st) @ (ZIP_SOURCE_CLOSE, r0 \<ge> 0) # es" "fst ` set es \<subseteq> {ZIP_SOURCE_ERROR}"
      using c sup by (auto simp: conforms_def well_supported_def)
    have sup': "source_supports_cmd (Plain st') x = source_supports_cmd (Plain st) x" for x
      using st'(2) by (intro supports_cong) (simp add: same_protocol_def)
    have "proto_run (False, ZIP_SOURCE_WRITE_CLOSED) (snd (src_ud st)) = Some (True, src_write_state st)"
      using c True by (simp add: conforms_def)
    from proto_run_call [OF this _ st'(4), of ZIP_SOURCE_CLOSE "r0 \<ge> 0" "(False, src_write_state st)"]
    have "proto_run (False, ZIP_SOURCE_WRITE_CLOSED) (snd (src_ud st')) = Some (False, src_write_state st)"
      by (simp add: st'(3))
    then have "conforms s1"
      using c st'(1,2) True sup' by (auto simp: conforms_def same_protocol_def well_supported_def writable_def)
    then show ?thesis
      using assms(2) call st'(1,2) True
      by (auto simp: s zip_source_close_def numeral_eq_Suc Let_def ZIP_SOURCE_IS_OPEN_READING_def same_protocol_def)
  qed
  then show "conforms s'" "src_write_state (src_state s') = src_write_state (src_state s)"
    "src_open_count (src_state s') = src_open_count (src_state s) - 1" "r < 0 \<longleftrightarrow> src_open_count (src_state s) = 0"
    by (simp_all add: s)
qed

lemma supported_write_state [simp]:
  "well_supported (st\<lparr>src_write_state := w\<rparr>) = well_supported st"
  "writable (st\<lparr>src_write_state := w\<rparr>) = writable st"
  by (simp_all add: well_supported_def writable_def source_supports_cmd_def zip_source_supports_def)

text \<open>A command that moves the state of the write, whose new state the layer then stores.\<close>

lemma conforms_write_state:
  assumes c: "conforms s" and call: "zip_source_call (logged f) s d n cmd = (r, d', s')"
    and step: "source_supports_cmd s cmd \<Longrightarrow>
      proto_step (ZIP_SOURCE_IS_OPEN_READING s, src_write_state (src_state s)) (cmd, r \<ge> 0)
        = Some (ZIP_SOURCE_IS_OPEN_READING s, w)"
    and unsupported: "\<not> source_supports_cmd s cmd \<Longrightarrow> r = -1 \<Longrightarrow> w = src_write_state (src_state s)"
    and wr: "w \<in> {ZIP_SOURCE_WRITE_OPEN, ZIP_SOURCE_WRITE_FAILED} \<Longrightarrow> writable (src_state s)"
  shows "conforms (set_write_state w s')" and "src_open_count (src_state s') = src_open_count (src_state s)"
proof -
  from conforms_Plain [OF c] obtain st where s: "s = Plain st" ..
  have st: "source_supports_cmd (Plain st) cmd \<longrightarrow>
      proto_step (src_open_count st > 0, src_write_state st) (cmd, r \<ge> 0) = Some (src_open_count st > 0, w)"
    using step by (simp add: s ZIP_SOURCE_IS_OPEN_READING_def)
  obtain st' where st': "s' = Plain st'" "same_protocol st st'" "well_supported st'"
    "src_write_state st \<in> {ZIP_SOURCE_WRITE_OPEN, ZIP_SOURCE_WRITE_FAILED} \<Longrightarrow> writable st'"
    "proto_run (False, ZIP_SOURCE_WRITE_CLOSED) (snd (src_ud st')) =
      Some (if source_supports_cmd (Plain st) cmd then (src_open_count st > 0, w) else (src_open_count st > 0, src_write_state st))"
    "\<not> source_supports_cmd (Plain st) cmd \<Longrightarrow> r = -1"
    using conforms_call [OF c [unfolded s] call [unfolded s] st] by blast
  have "writable st' = writable st"
    using st'(2) supports_cong [of st' st] by (simp add: writable_def same_protocol_def)
  with wr have w: "w \<in> {ZIP_SOURCE_WRITE_OPEN, ZIP_SOURCE_WRITE_FAILED} \<Longrightarrow> writable st'" by (simp add: s)
  have p: "proto_run (False, ZIP_SOURCE_WRITE_CLOSED) (snd (src_ud st')) = Some (src_open_count st' > 0, w)"
    using st'(2,5,6) unsupported by (auto simp: s same_protocol_def split: if_splits)
  show "conforms (set_write_state w s')"
    using st'(3) w p by (auto simp: st'(1) conforms_def set_write_state_def)
  show "src_open_count (src_state s') = src_open_count (src_state s)"
    using st'(2) by (simp add: st'(1) s same_protocol_def)
qed

lemma conforms_writable:
  assumes "conforms s" and "source_supports_cmd s ZIP_SOURCE_BEGIN_WRITE \<or> source_supports_cmd s ZIP_SOURCE_BEGIN_WRITE_CLONING"
  shows "writable (src_state s)"
  using assms by (auto simp: conforms_def well_supported_def writable_def)

lemma call_unsupported:
  "zip_source_call C s d n cmd = (r, d', s') \<Longrightarrow> \<not> source_supports_cmd s cmd \<Longrightarrow> r = -1"
  by (simp add: zip_source_call_def)

lemma conforms_begin:
  assumes c: "conforms s" and call: "zip_source_call (logged f) s d n cmd = (r, d', s')"
    and cmd: "cmd = ZIP_SOURCE_BEGIN_WRITE \<or> cmd = ZIP_SOURCE_BEGIN_WRITE_CLONING"
    and w: "src_write_state (src_state s) \<noteq> ZIP_SOURCE_WRITE_OPEN"
  shows "conforms (if r < 0 then s' else set_write_state ZIP_SOURCE_WRITE_OPEN s')"
proof (cases "r < 0")
  case True
  have "conforms s'" using cmd w True by (intro conforms_keep(1) [OF c call]) auto
  with True show ?thesis by simp
next
  case False
  then have "source_supports_cmd s cmd" using call_unsupported [OF call] by auto
  then have "writable (src_state s)" using conforms_writable [OF c] cmd by auto
  then have "conforms (set_write_state ZIP_SOURCE_WRITE_OPEN s')"
    using cmd w False call_unsupported [OF call] by (intro conforms_write_state(1) [OF c call]) auto
  with False show ?thesis by simp
qed

lemma conforms_begin_write:
  assumes "conforms s"
  shows "zip_source_begin_write (logged f) s = (r, s') \<Longrightarrow> conforms s'"
    and "zip_source_begin_write_cloning (logged f) s n = (r, s') \<Longrightarrow> conforms s'"
  using conforms_begin [OF assms] assms
  by (fastforce simp: zip_source_begin_write_def zip_source_begin_write_cloning_def ZIP_SOURCE_IS_OPEN_WRITING_def
      split: if_splits prod.splits)+

lemma conforms_commit:
  assumes c: "conforms s" and r: "zip_source_commit_write (logged f) s = (r, s')"
  shows "conforms s'"
proof (cases "ZIP_SOURCE_IS_OPEN_WRITING s \<and> src_open_count (src_state s) \<le> 1")
  case False
  with r c show ?thesis by (auto simp: zip_source_commit_write_def split: if_splits)
next
  case True
  obtain r1 s1 where first: "(if ZIP_SOURCE_IS_OPEN_READING s then zip_source_close (logged f) s else (0, s)) = (r1, s1)"
    by (meson surj_pair)
  have s1: "conforms s1" "src_write_state (src_state s1) = ZIP_SOURCE_WRITE_OPEN" "src_open_count (src_state s1) = 0"
    using first c True conforms_close [OF c, of f r1 s1]
    by (auto simp: ZIP_SOURCE_IS_OPEN_WRITING_def ZIP_SOURCE_IS_OPEN_READING_def split: if_splits)
  obtain r2 d s2 where call: "zip_source_call (logged f) s1 SD_Null 0 ZIP_SOURCE_COMMIT_WRITE = (r2, d, s2)"
    by (metis prod_cases3)
  have wr: "writable (src_state s1)" using s1(1,2) by (auto simp: conforms_def)
  then have sup: "source_supports_cmd s1 ZIP_SOURCE_COMMIT_WRITE"
    using s1(1) by (auto simp: conforms_def writable_def)
  have "conforms (set_write_state (if r2 \<ge> 0 then ZIP_SOURCE_WRITE_CLOSED else ZIP_SOURCE_WRITE_FAILED) s2)"
    using sup wr s1(2,3) by (intro conforms_write_state(1) [OF s1(1) call]) (auto simp: ZIP_SOURCE_IS_OPEN_READING_def)
  then show ?thesis
    using r True first call s1(1) by (auto simp: zip_source_commit_write_def split: if_splits)
qed

lemma conforms_rollback:
  assumes c: "conforms s"
  shows "conforms (zip_source_rollback_write (logged f) s)"
proof (cases "src_write_state (src_state s) \<in> {ZIP_SOURCE_WRITE_OPEN, ZIP_SOURCE_WRITE_FAILED}")
  case True
  obtain r d s2 where call: "zip_source_call (logged f) s SD_Null 0 ZIP_SOURCE_ROLLBACK_WRITE = (r, d, s2)"
    by (metis prod_cases3)
  have sup: "source_supports_cmd s ZIP_SOURCE_ROLLBACK_WRITE" using c True by (auto simp: conforms_def writable_def)
  have "conforms (set_write_state ZIP_SOURCE_WRITE_CLOSED s2)"
    using sup True by (intro conforms_write_state(1) [OF c call]) auto
  then show ?thesis using True call by (auto simp: zip_source_rollback_write_def)
qed (use c in \<open>auto simp: zip_source_rollback_write_def\<close>)

lemma rollback_state: "src_write_state (src_state s) \<noteq> ZIP_SOURCE_WRITE_REMOVED \<Longrightarrow> conforms s \<Longrightarrow>
    src_write_state (src_state (zip_source_rollback_write (logged f) s)) = ZIP_SOURCE_WRITE_CLOSED"
proof -
  assume nr: "src_write_state (src_state s) \<noteq> ZIP_SOURCE_WRITE_REMOVED" and c: "conforms s"
  obtain st where st: "s = Plain st" using conforms_Plain [OF c] ..
  obtain r d s2 where call: "zip_source_call (logged f) (Plain st) SD_Null 0 ZIP_SOURCE_ROLLBACK_WRITE = (r, d, s2)"
    by (metis prod_cases3)
  from call_plain [OF call] obtain st2 where "s2 = Plain st2" by blast
  with nr call show ?thesis
    by (cases "src_write_state st") (simp_all add: zip_source_rollback_write_def set_write_state_def st)
qed

lemma conforms_remove:
  assumes c: "conforms s" and r: "zip_source_remove (logged f) s = (r, s')"
  shows "conforms s'"
proof (cases "src_write_state (src_state s) = ZIP_SOURCE_WRITE_REMOVED")
  case True
  with r c show ?thesis by (simp add: zip_source_remove_def)
next
  case False
  obtain r1 s1 where first: "(if ZIP_SOURCE_IS_OPEN_READING s then zip_source_close (logged f) s else (0, s)) = (r1, s1)"
    by (meson surj_pair)
  have s1: "conforms s1" "src_write_state (src_state s1) \<noteq> ZIP_SOURCE_WRITE_REMOVED"
    using first c False conforms_close [OF c, of f r1 s1] by (auto split: if_splits)
  define s2 where "s2 = (if src_write_state (src_state s1) \<noteq> ZIP_SOURCE_WRITE_CLOSED
    then zip_source_rollback_write (logged f) s1 else s1)"
  have s2: "conforms s2" "src_write_state (src_state s2) = ZIP_SOURCE_WRITE_CLOSED"
    using conforms_rollback [OF s1(1)] rollback_state [OF s1(2,1)] s1(1) by (auto simp: s2_def)
  obtain r3 d s3 where call: "zip_source_call (logged f) s2 SD_Null 0 ZIP_SOURCE_REMOVE = (r3, d, s3)"
    by (metis prod_cases3)
  have "conforms (if r3 < 0 then s3 else set_write_state ZIP_SOURCE_WRITE_REMOVED s3)"
  proof (cases "r3 < 0")
    case True
    have "conforms s3" using s2(2) True by (intro conforms_keep(1) [OF s2(1) call]) auto
    with True show ?thesis by simp
  next
    case False
    have "conforms (set_write_state ZIP_SOURCE_WRITE_REMOVED s3)"
      using s2(2) False call_unsupported [OF call] by (intro conforms_write_state(1) [OF s2(1) call]) auto
    with False show ?thesis by simp
  qed
  then show ?thesis
    using r False first call s1(1) by (auto simp: zip_source_remove_def s2_def [symmetric] Let_def split: if_splits)
qed

text \<open>The remaining operations make at most one call, which keeps the automaton where it is.\<close>

lemma conforms_simple:
  assumes c: "conforms s"
  shows "zip_source_seek (logged f) s off wh = (r, s') \<Longrightarrow> conforms s'"
    and "zip_source_tell (logged f) s = (r, s') \<Longrightarrow> conforms s'"
    and "zip_source_write (logged f) s bs len = (r, s') \<Longrightarrow> conforms s'"
    and "zip_source_seek_write (logged f) s off wh = (r, s') \<Longrightarrow> conforms s'"
    and "zip_source_tell_write (logged f) s = (r, s') \<Longrightarrow> conforms s'"
proof -
  note k = conforms_keep(1) [OF c]
  show "conforms s'" if "zip_source_seek (logged f) s off wh = (r, s')"
  proof -
    obtain r1 d s1 where call: "zip_source_call (logged f) s (SD_Seek off wh) sizeof_args_seek ZIP_SOURCE_SEEK = (r1, d, s1)" by (metis prod_cases3)
    have "conforms s1" if "ZIP_SOURCE_IS_OPEN_READING s" by (rule k [OF call]) (use that in \<open>simp add: ZIP_SOURCE_IS_OPEN_WRITING_def\<close>)
    then show ?thesis using that c call by (auto simp: zip_source_seek_def split: if_splits)
  qed
  show "conforms s'" if "zip_source_tell (logged f) s = (r, s')"
  proof -
    obtain r1 d s1 where call: "zip_source_call (logged f) s SD_Null 0 ZIP_SOURCE_TELL = (r1, d, s1)" by (metis prod_cases3)
    have "conforms s1" if "ZIP_SOURCE_IS_OPEN_READING s" by (rule k [OF call]) (use that in \<open>simp add: ZIP_SOURCE_IS_OPEN_WRITING_def\<close>)
    then show ?thesis using that c call by (auto simp: zip_source_tell_def split: if_splits)
  qed
  show "conforms s'" if "zip_source_write (logged f) s bs len = (r, s')"
  proof -
    obtain r1 d s1 where call: "zip_source_call (logged f) s (SD_Bytes bs) len ZIP_SOURCE_WRITE = (r1, d, s1)" by (metis prod_cases3)
    have "conforms s1" if "ZIP_SOURCE_IS_OPEN_WRITING s" by (rule k [OF call]) (use that in \<open>simp add: ZIP_SOURCE_IS_OPEN_WRITING_def\<close>)
    then show ?thesis using that c call by (auto simp: zip_source_write_def split: if_splits)
  qed
  show "conforms s'" if "zip_source_seek_write (logged f) s off wh = (r, s')"
  proof -
    obtain r1 d s1 where call: "zip_source_call (logged f) s (SD_Seek off wh) sizeof_args_seek ZIP_SOURCE_SEEK_WRITE = (r1, d, s1)" by (metis prod_cases3)
    have "conforms s1" if "ZIP_SOURCE_IS_OPEN_WRITING s" by (rule k [OF call]) (use that in \<open>simp add: ZIP_SOURCE_IS_OPEN_WRITING_def\<close>)
    then show ?thesis using that c call by (auto simp: zip_source_seek_write_def split: if_splits)
  qed
  show "conforms s'" if "zip_source_tell_write (logged f) s = (r, s')"
  proof -
    obtain r1 d s1 where call: "zip_source_call (logged f) s SD_Null 0 ZIP_SOURCE_TELL_WRITE = (r1, d, s1)" by (metis prod_cases3)
    have "conforms s1" if "ZIP_SOURCE_IS_OPEN_WRITING s" by (rule k [OF call]) (use that in \<open>simp add: ZIP_SOURCE_IS_OPEN_WRITING_def\<close>)
    then show ?thesis using that c call by (auto simp: zip_source_tell_write_def split: if_splits)
  qed
qed

lemma conforms_information:
  assumes c: "conforms s"
  shows "zip_source_stat (logged f) s st = (r, st', s') \<Longrightarrow> conforms s'"
    and "zip_source_accept_empty (logged f) s = (b, s') \<Longrightarrow> conforms s'"
    and "zip_source_get_file_attributes (logged f) s a = (r, a', s') \<Longrightarrow> conforms s'"
proof -
  obtain p where s: "s = Plain p" using conforms_Plain [OF c] ..
  note k = conforms_keep(1) [OF c [unfolded s]]
  show "conforms s'" if "zip_source_stat (logged f) s st = (r, st', s')"
  proof (cases "src_source_closed p \<or> st = None")
    case True
    with that c show ?thesis by (auto simp: s split: if_splits)
  next
    case False
    then obtain st0 where st: "st = Some st0" by auto
    obtain r1 d s1 where call: "zip_source_call (logged f) (Plain p) (SD_Stat (zip_stat_init st0)) sizeof_stat
        ZIP_SOURCE_STAT = (r1, d, s1)" by (metis prod_cases3)
    have "conforms s1" by (rule k [OF call]) simp
    with False that call show ?thesis by (auto simp: s st)
  qed
  show "conforms s'" if "zip_source_accept_empty (logged f) s = (b, s')"
  proof (cases "source_supports_cmd (Plain p) ZIP_SOURCE_ACCEPT_EMPTY")
    case False
    with that c show ?thesis by (simp add: s)
  next
    case True
    obtain r1 d s1 where call: "zip_source_call (logged f) (Plain p) SD_Null 0 ZIP_SOURCE_ACCEPT_EMPTY = (r1, d, s1)"
      by (metis prod_cases3)
    have "conforms s1" by (rule k [OF call]) simp
    with True that call show ?thesis by (simp add: s)
  qed
  show "conforms s'" if r: "zip_source_get_file_attributes (logged f) s a = (r, a', s')"
  proof (cases "src_source_closed p \<or> a = None")
    case True
    with r c show ?thesis
      by (auto simp: s zip_source_get_file_attributes_def numeral_eq_Suc split: if_splits)
  next
    case False
    then obtain a0 where a: "a = Some a0" by auto
    obtain r1 d s1 where call: "zip_source_call (logged f) (Plain p) (SD_Attributes (zip_file_attributes_init a0))
        sizeof_attributes ZIP_SOURCE_GET_FILE_ATTRIBUTES = (r1, d, s1)" by (metis prod_cases3)
    have s1: "conforms s1" by (rule k [OF call]) simp
    obtain p1 where "s1 = Plain p1" using conforms_Plain [OF s1] ..
    with False r c s1 call show ?thesis
      by (auto simp: s a zip_source_get_file_attributes_def Let_def split: if_splits)
  qed
qed

lemma source_step_conforms:
  assumes "source_step (logged f) s s'" and c: "conforms s"
  shows "conforms s'"
  using assms(1)
proof cases
  case 1
  then show ?thesis by (rule conforms_open [OF c])
next
  case 2
  then show ?thesis by (rule conforms_close(1) [OF c])
next
  case 3
  then show ?thesis by (rule conforms_read [OF c])
next
  case 4
  then show ?thesis by (rule conforms_simple(1) [OF c])
next
  case 5
  then show ?thesis by (rule conforms_simple(2) [OF c])
next
  case 6
  then show ?thesis by (rule conforms_begin_write(1) [OF c])
next
  case 7
  then show ?thesis by (rule conforms_begin_write(2) [OF c])
next
  case 8
  then show ?thesis by (rule conforms_simple(3) [OF c])
next
  case 9
  then show ?thesis by (rule conforms_simple(4) [OF c])
next
  case 10
  then show ?thesis by (rule conforms_simple(5) [OF c])
next
  case 11
  then show ?thesis by (rule conforms_commit [OF c])
next
  case 12
  then show ?thesis using conforms_rollback [OF c, of f] by simp
next
  case 13
  then show ?thesis by (rule conforms_remove [OF c])
next
  case 14
  then show ?thesis by (rule conforms_information(1) [OF c])
next
  case 15
  then show ?thesis by (rule conforms_information(2) [OF c])
next
  case 16
  then show ?thesis by (rule conforms_information(3) [OF c])
next
  case 17
  then show ?thesis using conforms_flags(3) [OF c, of True] by simp
qed

section \<open>Properties\<close>

lemma begin_write_sends:
  assumes "src_write_state st \<noteq> ZIP_SOURCE_WRITE_OPEN" and "source_supports_cmd (Plain st) ZIP_SOURCE_BEGIN_WRITE"
  shows "\<exists>r st1 es. zip_source_begin_write (logged f) (Plain st) = (r, Plain st1)
    \<and> snd (src_ud st1) = snd (src_ud st) @ (ZIP_SOURCE_BEGIN_WRITE, r \<ge> 0) # es"
proof -
  obtain r d s1 where c: "zip_source_call (logged f) (Plain st) SD_Null 0 ZIP_SOURCE_BEGIN_WRITE = (r, d, s1)" by (metis prod_cases3)
  from call_plain [OF this] assms(2) obtain st1 es where "s1 = Plain st1"
    "snd (src_ud st1) = snd (src_ud st) @ (ZIP_SOURCE_BEGIN_WRITE, r \<ge> 0) # es" by auto
  then show ?thesis using c assms(1)
    by (cases "r < 0") (auto simp: zip_source_begin_write_def ZIP_SOURCE_IS_OPEN_WRITING_def set_write_state_def)
qed

text \<open>
  C9. Whatever a client asks of a source, in any order and whatever the callback answers, the
  callback sees a command sequence of the automaton: READ, SEEK and TELL only between OPEN and CLOSE,
  WRITE and its kin only between BEGIN_WRITE and COMMIT or ROLLBACK, no second OPEN or BEGIN_WRITE
  before the end of the first, COMMIT only when reading has been closed, REMOVE only with no write in
  progress, no OPEN after REMOVE until a new write has begun; and the open count and write state of the layer say
  where in the protocol it is. The source must support CLOSE, and COMMIT and ROLLBACK when it supports writing.
  The automaton lets BEGIN_WRITE through after a failed COMMIT and after REMOVE because the layer does: the last part
  says that in these states it is sent whenever the client asks, although the comment on
  \<open>ZIP_SOURCE_WRITE_FAILED\<close> in zipint.h allows only a rollback.
\<close>

theorem source_protocol:
  assumes "well_supported st" and "snd (src_ud st) = []" and "src_open_count st = 0"
    and "src_write_state st = ZIP_SOURCE_WRITE_CLOSED"
    and "(source_step (logged f))\<^sup>*\<^sup>* (Plain st) s"
  shows "\<exists>st'. s = Plain st' \<and>
    proto_run (False, ZIP_SOURCE_WRITE_CLOSED) (snd (src_ud st')) = Some (src_open_count st' > 0, src_write_state st') \<and>
    (src_write_state st' \<in> {ZIP_SOURCE_WRITE_FAILED, ZIP_SOURCE_WRITE_REMOVED} \<and> source_supports_cmd (Plain st') ZIP_SOURCE_BEGIN_WRITE \<longrightarrow>
       (\<exists>r st1 es. zip_source_begin_write (logged f) s = (r, Plain st1)
          \<and> snd (src_ud st1) = snd (src_ud st') @ (ZIP_SOURCE_BEGIN_WRITE, r \<ge> 0) # es))"
proof -
  have "conforms (Plain st)" using assms(1-4) by (simp add: conforms_def)
  with assms(5) have "conforms s" by (induction rule: rtranclp_induct) (auto intro: source_step_conforms)
  then obtain st' where "s = Plain st'"
    "proto_run (False, ZIP_SOURCE_WRITE_CLOSED) (snd (src_ud st')) = Some (src_open_count st' > 0, src_write_state st')"
    by (auto simp: conforms_def)
  then show ?thesis using begin_write_sends [of st' f] by auto
qed

definition sample_state :: "(unit \<times> cmd_log) source_state" where
  "sample_state = \<lparr>src_ud = ((), []), src_error = zip_error_init, src_supports = - 1, src_open_count = 0,
     src_write_state = ZIP_SOURCE_WRITE_CLOSED, src_source_closed = False, src_source_archive = None,
     src_refcount = 1, src_eof = False, src_had_read_error = False, src_bytes_read = 0\<rparr>"

definition sample_callback :: "unit \<Rightarrow> zip_source_data \<Rightarrow> nat \<Rightarrow> zip_source_cmd \<Rightarrow> int \<times> zip_source_data \<times> unit" where
  "sample_callback u d n cmd = (0, d, u)"

lemma sample_supports: "source_supports_cmd (Plain sample_state) cmd"
  by (cases cmd) (simp_all add: source_supports_cmd_def zip_source_supports_def sample_state_def flag_set_def
      ZIP_SOURCE_MAKE_COMMAND_BITMASK_def)

theorem source_protocol_witness:
  "\<exists>st'. snd (zip_source_open (logged sample_callback) (Plain sample_state)) = Plain st'
    \<and> proto_run (False, ZIP_SOURCE_WRITE_CLOSED) (snd (src_ud st')) = Some (src_open_count st' > 0, src_write_state st')"
proof -
  obtain r s where o: "zip_source_open (logged sample_callback) (Plain sample_state) = (r, s)" by (meson surj_pair)
  have step: "(source_step (logged sample_callback))\<^sup>*\<^sup>* (Plain sample_state) s"
    by (rule r_into_rtranclp) (rule source_step.intros(1) [OF o])
  have "well_supported sample_state" by (simp add: well_supported_def sample_supports)
  moreover have "snd (src_ud sample_state) = []" "src_open_count sample_state = 0"
    "src_write_state sample_state = ZIP_SOURCE_WRITE_CLOSED" by (simp_all add: sample_state_def)
  ultimately show ?thesis unfolding o snd_conv using source_protocol [OF _ _ _ _ step] by blast
qed

text \<open>
  C21. Over a callback that never returns more than it is asked for, \<open>zip_source_read\<close> returns -1 or at
  most the length asked for; it falls short only when the end of the data was reached, an error is
  recorded, the archive of the source was closed or the call was not allowed.
\<close>

lemma read_loop_bounds:
  "source_read_loop C s data len k = (failed, n, data', s') \<Longrightarrow> k \<le> len \<Longrightarrow>
    (\<And>s d n. fst (zip_source_call C s d n ZIP_SOURCE_READ) \<le> int n) \<Longrightarrow>
    n \<le> len \<and> (failed \<longrightarrow> src_had_read_error (src_state s')) \<and> (n < len \<longrightarrow> failed \<or> src_eof (src_state s'))"
proof (induction C s data len k arbitrary: failed n data' s' rule: source_read_loop.induct)
  case (1 C s data len k)
  have st: "src_state (upd_state f s0) = f (src_state s0)" for f and s0 :: "'a zip_source" by (cases s0) simp_all
  show ?case
  proof (cases "k < len")
    case True
    obtain r d s1 where call: "zip_source_call C s (SD_Bytes (drop k data)) (len - k) ZIP_SOURCE_READ = (r, d, s1)"
      by (metis prod_cases3)
    have "r \<le> int (len - k)" using 1(4) [of s "SD_Bytes (drop k data)" "len - k"] call by simp
    with True have le: "k + nat r \<le> len" by linarith
    show ?thesis
    proof (cases "r \<le> 0")
      case True
      with 1(2,3) \<open>k < len\<close> call show ?thesis
        by (subst (asm) source_read_loop.simps) (auto simp: Let_def st split: if_splits)
    next
      case False
      then have nz: "\<not> r < 0" "r \<noteq> 0" by simp_all
      have "source_read_loop C s1 (store_block data k d) len (k + nat r) = (failed, n, data', s')"
        using 1(2) True call nz by (subst (asm) source_read_loop.simps) (simp add: Let_def)
      from 1(1) [OF True call [symmetric] refl refl nz this le] 1(4) show ?thesis by blast
    qed
  qed (use 1(2,3) in \<open>simp add: source_read_loop.simps\<close>)
qed

theorem zip_source_read_bounds:
  assumes "\<And>s d n. fst (zip_source_call C s d n ZIP_SOURCE_READ) \<le> int n"
    and "zip_source_read C s data len = (r, data', s')"
  shows "-1 \<le> r \<and> r \<le> int len
    \<and> (r < int len \<longrightarrow> src_eof (src_state s') \<or> src_had_read_error (src_state s') \<or> src_source_closed (src_state s)
         \<or> \<not> ZIP_SOURCE_IS_OPEN_READING s \<or> len > ZIP_INT64_MAX \<or> data = None)"
proof -
  have st: "src_state (upd_state f s0) = f (src_state s0)" for f and s0 :: "'a zip_source" by (cases s0) simp_all
  obtain failed n d s1 where loop: "source_read_loop C s (the data) len 0 = (failed, n, d, s1)" by (metis prod_cases4)
  have "src_eof (count_bytes n (src_state s1)) = src_eof (src_state s1)"
    "src_had_read_error (count_bytes n (src_state s1)) = src_had_read_error (src_state s1)"
    by (simp_all add: count_bytes_def)
  then show ?thesis
    using assms(2) read_loop_bounds [OF loop _ assms(1)]
    by (auto simp: zip_source_read_def loop st zip_source_eof_def source_set_error_def split: if_splits)
qed

theorem zip_source_read_bounds_witness:
  "fst (zip_source_read (logged sample_callback)
     (snd (zip_source_open (logged sample_callback) (Plain sample_state))) (Some [1, 2]) 2) \<le> 2"
proof -
  have "fst (zip_source_call (logged sample_callback) s d n ZIP_SOURCE_READ) \<le> int n" for s d n
    by (cases s) (auto simp: zip_source_call_def source_dispatch_def logged_def sample_callback_def
        source_call_simple_def split: prod.splits zip_source_data.splits)
  moreover obtain r d' s' where r: "zip_source_read (logged sample_callback)
     (snd (zip_source_open (logged sample_callback) (Plain sample_state))) (Some [1, 2]) 2 = (r, d', s')"
    by (metis prod_cases3)
  ultimately have "r \<le> int 2" using zip_source_read_bounds by blast
  then show ?thesis unfolding r by simp
qed

lemma seek_offset_exact:
  assumes "unat offset \<le> unat len" and "unat len \<le> ZIP_INT64_MAX" and "- (2 ^ 63) \<le> off" and "off < 2 ^ 63"
    and "whence \<in> {SEEK_SET, SEEK_CUR, SEEK_END}"
  shows "fst (zip_source_seek_compute_offset offset len (SD_Seek off whence) sizeof_args_seek error) =
    (let base = (if whence = SEEK_CUR then uint offset else if whence = SEEK_END then uint len else 0)
     in if 0 \<le> base + off \<and> base + off \<le> uint len then base + off else -1)"
proof -
  have b: "uint len < 2 ^ 63" "uint offset \<le> uint len" "0 \<le> uint offset"
  proof -
    have u: "uint len = int (unat len)" "uint offset = int (unat offset)" by simp_all
    have "int (unat len) \<le> int ZIP_INT64_MAX" "int (unat offset) \<le> int (unat len)"
      using assms(1,2) by (simp_all only: of_nat_le_iff)
    then show "uint len < 2 ^ 63" "uint offset \<le> uint len" "0 \<le> uint offset"
      by (simp_all add: u [symmetric])
  qed
  define x :: u64 where "x = (if whence = SEEK_CUR then offset + word_of_int off
     else if whence = SEEK_END then len + word_of_int off else word_of_int off)"
  define base where "base = (if whence = SEEK_CUR then uint offset else if whence = SEEK_END then uint len else 0)"
  have base: "0 \<le> base" "base \<le> uint len" using b by (simp_all add: base_def)
  have x: "x = word_of_int (base + off)" by (simp add: x_def base_def)
  have f: "fst (zip_source_seek_compute_offset offset len (SD_Seek off whence) sizeof_args_seek error)
    = (if sint x < 0 \<or> x > len then -1 else sint x)"
    using assms(5) by (auto simp: zip_source_seek_compute_offset_def seek_new_offset_def x_def Let_def)
  have sx: "sint x = signed_take_bit 63 (base + off)" unfolding x signed_of_int by simp
  show ?thesis
  proof (cases "base + off < 2 ^ 63")
    case True
    then have s: "sint x = base + off"
      unfolding sx using assms(3) base by (intro signed_take_bit_int_eq_self) simp_all
    show ?thesis
    proof (cases "base + off < 0")
      case True
      then show ?thesis using f s by (simp add: base_def [symmetric] Let_def)
    next
      case False
      then have "uint x = base + off" using True unfolding x unsigned_of_int by (simp add: take_bit_int_eq_self)
      then have "x > len \<longleftrightarrow> base + off > uint len" by (simp add: word_less_def)
      then show ?thesis using f s False by (auto simp: base_def [symmetric] Let_def)
    qed
  next
    case False
    then have "base + off < 2 ^ 64" using base b(1) assms(4) by simp
    let ?y = "base + off + 2 ^ 63"
    have "?y mod 2 ^ 64 = (?y - 2 ^ 64) mod 2 ^ 64" by (rule minus_mod_self2 [symmetric])
    also have "\<dots> = ?y - 2 ^ 64"
      using False \<open>base + off < 2 ^ 64\<close> by (intro mod_pos_pos_trivial) simp_all
    finally have "sint x = base + off - 2 ^ 64"
      unfolding sx by (simp add: signed_take_bit_eq_take_bit_shift take_bit_eq_mod)
    then have "sint x < 0" using \<open>base + off < 2 ^ 64\<close> by simp
    then show ?thesis using f False b(1) by (simp add: base_def [symmetric] Let_def)
  qed
qed

text \<open>
  \<open>zip_source_seek_compute_offset\<close> computes the mathematical position: the 64-bit additions it
  makes never turn a position outside the data into one inside.
\<close>

theorem seek_compute_offset_exact:
  assumes "unat offset \<le> unat len" and "unat len \<le> ZIP_INT64_MAX" and "- (2 ^ 63) \<le> off" and "off < 2 ^ 63"
    and "whence \<in> {SEEK_SET, SEEK_CUR, SEEK_END}"
  shows "fst (zip_source_seek_compute_offset offset len (SD_Seek off whence) sizeof_args_seek error) =
    (let base = (if whence = SEEK_CUR then uint offset else if whence = SEEK_END then uint len else 0)
     in if 0 \<le> base + off \<and> base + off \<le> uint len then base + off else -1)"
  by (rule seek_offset_exact [OF assms])

theorem seek_compute_offset_exact_witness:
  "fst (zip_source_seek_compute_offset 3 10 (SD_Seek (-2) SEEK_END) sizeof_args_seek zip_error_init) = 8"
  using seek_compute_offset_exact [of 3 10 "-2" SEEK_END zip_error_init] by simp

end
