(* ===== verification/Zip_Source_Buffer.thy ===== *)
theory Zip_Source_Buffer
  imports Zip_Source
begin

text \<open>
  The in-memory source (lib/zip_source_buffer.c): data kept in fragments, with a buffer being read
  and, during a write, a second one. The blocks the fragments point to live in a store that both
  buffers share (a cloned buffer refers to the blocks of the original), so a fragment is the index
  of a block and a length. Sizes and offsets are \<open>nat\<close>s, with the wrap-around test of \<open>buffer_write\<close>
  written out. An access outside an array or through a NULL pointer, undefined in C, is \<open>None\<close>.
  The bytes of arrays obtained from malloc and realloc are the junk the allocator answers with.
  The lemmas show that a well-formed buffer is a flat byte string: reading and writing it through
  fragments refines reading and writing that string, and \<open>buffer_find_fragment\<close> finds the fragment
  of an offset.
\<close>

section \<open>Data\<close>

type_synonym zip_buffer_fragment = "nat \<times> nat"
type_synonym blocks = "bytes list"

record frag_buffer =
  fb_fragments :: "zip_buffer_fragment list"
  fb_offsets :: "nat list"
  fb_nfragments :: nat
  fb_capacity :: nat
  fb_first_owned :: nat
  fb_shared_fragments :: nat
  fb_shared :: bool
  fb_size :: nat
  fb_offset :: nat
  fb_current :: nat

record read_ctx =
  rc_error :: zip_error
  rc_mtime :: int
  rc_attributes :: zip_file_attributes
  rc_in :: frag_buffer
  rc_out :: "frag_buffer option"
  rc_blocks :: blocks
  rc_mem :: mem

abbreviation WRITE_FRAGMENT_SIZE :: nat where "WRITE_FRAGMENT_SIZE \<equiv> 65536"

definition rd :: "'a list \<Rightarrow> nat \<Rightarrow> 'a option" where
  "rd xs i = (if i < length xs then Some (xs ! i) else None)"

definition wr :: "'a list \<Rightarrow> nat \<Rightarrow> 'a \<Rightarrow> 'a list option" where
  "wr xs i x = (if i < length xs then Some (xs[i := x]) else None)"

definition resize_array :: "nat \<Rightarrow> 'a \<Rightarrow> 'a list \<Rightarrow> 'a list" where
  "resize_array n junk xs = take n xs @ replicate (n - length xs) junk"

section \<open>Buffers\<close>

text \<open>
  The binary search. \<open>high = mid - 1\<close> with \<open>mid = 0\<close> wraps around in C and the next access is far
  outside the array.
\<close>

function find_loop :: "nat list \<Rightarrow> nat \<Rightarrow> nat \<Rightarrow> nat \<Rightarrow> nat \<Rightarrow> nat option" where
  "find_loop offs nfr offset low high =
     (if low < high then
        (let mid = (high - low) div 2 + low in
         case rd offs mid of
           None \<Rightarrow> None
         | Some o1 \<Rightarrow>
             if o1 > offset then (if mid = 0 then None else find_loop offs nfr offset low (mid - 1))
             else if mid = nfr then Some mid
             else (case rd offs (mid + 1) of
                     None \<Rightarrow> None
                   | Some o2 \<Rightarrow> if o2 > offset then Some mid else find_loop offs nfr offset (mid + 1) high))
      else Some low)"
  by pat_completeness auto
termination by (relation "measure (\<lambda>(offs, nfr, offset, low, high). high - low)") auto

declare find_loop.simps [simp del]

definition buffer_find_fragment :: "frag_buffer \<Rightarrow> nat \<Rightarrow> nat option" where
  "buffer_find_fragment b offset =
     (if fb_nfragments b = 0 then Some 0
      else find_loop (fb_offsets b) (fb_nfragments b) offset 0 (fb_nfragments b - 1))"

definition buffer_grow_fragments :: "mem \<Rightarrow> frag_buffer \<Rightarrow> nat \<Rightarrow> zip_error option
    \<Rightarrow> bool \<times> frag_buffer \<times> zip_error option \<times> mem" where
  "buffer_grow_fragments m b capacity error =
     (if capacity < fb_capacity b then (True, b, error, m)
      else (case malloc m of
              (None, m1) \<Rightarrow> (False, b, zip_error_set error ZIP_ER_MEMORY 0, m1)
            | (Some j1, m1) \<Rightarrow>
                (let b1 = b\<lparr>fb_fragments := resize_array capacity (j1, j1) (fb_fragments b)\<rparr>
                 in case malloc m1 of
                      (None, m2) \<Rightarrow> (False, b1, zip_error_set error ZIP_ER_MEMORY 0, m2)
                    | (Some j2, m2) \<Rightarrow>
                        (True, b1\<lparr>fb_offsets := resize_array (capacity + 1) j2 (fb_offsets b1),
                                  fb_capacity := capacity\<rparr>, error, m2))))"

text \<open>
  The copying loop of \<open>buffer_new\<close> over the fragments given, from number \<open>i\<close> on, with \<open>j\<close> of them
  kept so far; the flag is false when a fragment has no data.
\<close>

fun new_loop :: "(nat option \<times> nat) list \<Rightarrow> nat \<Rightarrow> nat \<Rightarrow> nat \<Rightarrow> frag_buffer
    \<Rightarrow> (bool \<times> nat \<times> nat \<times> frag_buffer) option" where
  "new_loop [] i j offset b = Some (True, j, offset, b)"
| "new_loop ((data, len) # fs) i j offset b =
     (if len = 0 then new_loop fs (i + 1) j offset b
      else (case data of
              None \<Rightarrow> Some (False, j, offset, b)
            | Some d \<Rightarrow>
                (case (wr (fb_fragments b) j (d, len), wr (fb_offsets b) i offset) of
                   (Some frs, Some offs) \<Rightarrow>
                     new_loop fs (i + 1) (j + 1) (offset + len) (b\<lparr>fb_fragments := frs, fb_offsets := offs\<rparr>)
                 | _ \<Rightarrow> None)))"

text \<open>\<open>current_fragment\<close> is not initialised.\<close>

definition buffer_new :: "mem \<Rightarrow> (nat option \<times> nat) list \<Rightarrow> bool \<Rightarrow> zip_error option
    \<Rightarrow> (frag_buffer option \<times> zip_error option \<times> mem) option" where
  "buffer_new m fragments free_data error =
     (case malloc m of
        (None, m1) \<Rightarrow> Some (None, error, m1)
      | (Some junk, m1) \<Rightarrow>
        (let b = \<lparr>fb_fragments = [], fb_offsets = [], fb_nfragments = 0, fb_capacity = 0, fb_first_owned = 0,
                  fb_shared_fragments = 0, fb_shared = False, fb_size = 0, fb_offset = 0, fb_current = junk\<rparr>
         in if fragments = []
            then (case malloc m1 of
                    (None, m2) \<Rightarrow> Some (None, zip_error_set error ZIP_ER_MEMORY 0, m2)
                  | (Some _, m2) \<Rightarrow> Some (Some (b\<lparr>fb_offsets := [0]\<rparr>), error, m2))
            else
              (case buffer_grow_fragments m1 b (length fragments) None of
                 (False, _, _, m2) \<Rightarrow> Some (None, zip_error_set error ZIP_ER_MEMORY 0, m2)
               | (True, b1, _, m2) \<Rightarrow>
                   (case new_loop fragments 0 0 0 b1 of
                      None \<Rightarrow> None
                    | Some (False, _, _, _) \<Rightarrow> Some (None, zip_error_set error ZIP_ER_INVAL 0, m2)
                    | Some (True, j, offset, b2) \<Rightarrow>
                        (case wr (fb_offsets b2) j offset of
                           None \<Rightarrow> None
                         | Some offs \<Rightarrow>
                             Some (Some (b2\<lparr>fb_nfragments := j, fb_first_owned := (if free_data then 0 else j),
                                            fb_offsets := offs, fb_size := offset\<rparr>), error, m2))))))"

text \<open>The clone and the original, each marked as sharing fragments with the other.\<close>

definition buffer_clone :: "mem \<Rightarrow> frag_buffer \<Rightarrow> nat \<Rightarrow> zip_error
    \<Rightarrow> (frag_buffer option \<times> frag_buffer \<times> zip_error \<times> mem) option" where
  "buffer_clone m b offset error =
     (let fail = (\<lambda>ze m. Some (None, b, error\<lparr>zip_err := ze, sys_err := 0\<rparr>, m)) in
      if offset = 0 then
        (case buffer_new m [] True (Some error) of
           None \<Rightarrow> None | Some (c, error', m') \<Rightarrow> Some (c, b, the error', m'))
      else if offset > fb_size b then fail ZIP_ER_INVAL m
      else if fb_shared b then fail ZIP_ER_INUSE m
      else
        (case buffer_find_fragment b offset of
           None \<Rightarrow> None
         | Some f0 \<Rightarrow>
           (case rd (fb_offsets b) f0 of
              None \<Rightarrow> None
            | Some o0 \<Rightarrow>
              (let fragment = (if offset - o0 = 0 then f0 - 1 else f0) in
               case rd (fb_fragments b) fragment of
                 None \<Rightarrow> None
               | Some (d, len) \<Rightarrow>
                 (let fragment_offset = (if offset - o0 = 0 then len else offset - o0);
                      waste = len - fragment_offset
                  in if waste > offset then fail ZIP_ER_OPNOTSUPP m
                     else (case buffer_new m (map (\<lambda>(d, l). (Some d, l)) (take (fragment + 1) (fb_fragments b)))
                                  False (Some error) of
                             None \<Rightarrow> None
                           | Some (None, error', m') \<Rightarrow> Some (None, b, the error', m')
                           | Some (Some c, error', m') \<Rightarrow>
                               (case (rd (fb_fragments c) (fb_nfragments c - 1), wr (fb_offsets c) (fb_nfragments c) offset) of
                                  (Some (dl, _), Some offs) \<Rightarrow>
                                    Some (Some (c\<lparr>fb_fragments := (fb_fragments c)[fb_nfragments c - 1 := (dl, fragment_offset)],
                                                  fb_offsets := offs, fb_size := offset,
                                                  fb_first_owned := min (fb_first_owned b) (fb_nfragments c),
                                                  fb_shared := True, fb_shared_fragments := fragment + 1\<rparr>),
                                          b\<lparr>fb_shared := True, fb_shared_fragments := fb_nfragments c\<rparr>,
                                          the error', m')
                                | _ \<Rightarrow> None)))))))"

text \<open>What freeing one buffer does to the other; the blocks it owns are released.\<close>

definition buffer_unshare :: "frag_buffer \<Rightarrow> frag_buffer \<Rightarrow> frag_buffer" where
  "buffer_unshare freed other =
     (if fb_shared freed then other\<lparr>fb_shared := False, fb_shared_fragments := 0\<rparr> else other)"

text \<open>A memory access of \<open>left\<close> bytes at \<open>fragment_offset\<close> in a fragment of a block.\<close>

definition block_access :: "blocks \<Rightarrow> zip_buffer_fragment \<Rightarrow> nat \<Rightarrow> nat \<Rightarrow> bool" where
  "block_access blks fr fo left \<longleftrightarrow> fst fr < length blks \<and> fo + left \<le> length (blks ! fst fr)"

function read_frags :: "blocks \<Rightarrow> frag_buffer \<Rightarrow> nat \<Rightarrow> nat \<Rightarrow> nat \<Rightarrow> nat \<Rightarrow> bytes \<Rightarrow> (bytes \<times> nat) option" where
  "read_frags blks b len i fo n acc =
     (if n < len then
        (if i < length (fb_fragments b) \<and> fo \<le> snd (fb_fragments b ! i) then
           (let fr = fb_fragments b ! i; left = min (len - n) (snd fr - fo)
            in if block_access blks fr fo left
               then read_frags blks b len (if left = snd fr - fo then i + 1 else i) 0 (n + left)
                      (acc @ take left (drop fo (blks ! fst fr)))
               else None)
         else None)
      else Some (acc, i))"
  by pat_completeness auto
termination
  by (relation "measure (\<lambda>(blks, b, len, i, fo, n, acc). (length (fb_fragments b) - i) + (len - n))") auto

declare read_frags.simps [simp del]

definition buffer_read :: "blocks \<Rightarrow> frag_buffer \<Rightarrow> nat \<Rightarrow> (int \<times> bytes \<times> frag_buffer) option" where
  "buffer_read blks b len0 =
     (let len = min len0 (fb_size b - fb_offset b)
      in if len = 0 then Some (0, [], b)
         else if len > ZIP_INT64_MAX then Some (-1, [], b)
         else (case rd (fb_offsets b) (fb_current b) of
                 None \<Rightarrow> None
               | Some o0 \<Rightarrow>
                   if fb_offset b < o0 then None
                   else (case read_frags blks b len (fb_current b) (fb_offset b - o0) 0 [] of
                           None \<Rightarrow> None
                         | Some (bs, i) \<Rightarrow>
                             Some (int len, bs, b\<lparr>fb_offset := fb_offset b + len, fb_current := i\<rparr>))))"

definition buffer_seek :: "frag_buffer \<Rightarrow> zip_source_data \<Rightarrow> nat \<Rightarrow> zip_error
    \<Rightarrow> (int \<times> frag_buffer \<times> zip_error) option" where
  "buffer_seek b data len error =
     (case zip_source_seek_compute_offset (word_of_nat (fb_offset b)) (word_of_nat (fb_size b)) data len error of
        (new_offset, error') \<Rightarrow>
          if new_offset < 0 then Some (-1, b, error')
          else (case buffer_find_fragment b (nat new_offset) of
                  None \<Rightarrow> None
                | Some i \<Rightarrow> Some (0, b\<lparr>fb_offset := nat new_offset, fb_current := i\<rparr>, error')))"

function write_frags :: "frag_buffer \<Rightarrow> bytes \<Rightarrow> nat \<Rightarrow> nat \<Rightarrow> nat \<Rightarrow> nat \<Rightarrow> blocks \<Rightarrow> (blocks \<times> nat) option" where
  "write_frags b data len i fo n blks =
     (if n < len then
        (if i < length (fb_fragments b) \<and> fo \<le> snd (fb_fragments b ! i) then
           (let fr = fb_fragments b ! i; left = min (len - n) (snd fr - fo); blk = blks ! fst fr
            in if block_access blks fr fo left
               then write_frags b data len (if left = snd fr - fo then i + 1 else i) 0 (n + left)
                      (blks[fst fr := take fo blk @ take left (drop n data) @ drop (fo + left) blk])
               else None)
         else None)
      else Some (blks, i))"
  by pat_completeness auto
termination
  by (relation "measure (\<lambda>(b, data, len, i, fo, n, blks). (length (fb_fragments b) - i) + (len - n))") auto

declare write_frags.simps [simp del]

text \<open>Doubling the capacity until it suffices, and adding fragments of fresh memory.\<close>

function grow_capacity :: "nat \<Rightarrow> nat \<Rightarrow> nat" where
  "grow_capacity c needed = (if c < needed \<and> 0 < c then grow_capacity (c * 2) needed else c)"
  by pat_completeness auto
termination by (relation "measure (\<lambda>(c, needed). needed - c)") auto

declare grow_capacity.simps [simp del]

fun add_fragments :: "nat \<Rightarrow> mem \<Rightarrow> frag_buffer \<Rightarrow> blocks \<Rightarrow> nat \<Rightarrow> (bool \<times> frag_buffer \<times> blocks \<times> mem) option" where
  "add_fragments 0 m b blks capacity = Some (True, b, blks, m)"
| "add_fragments (Suc k) m b blks capacity =
     (case malloc m of
        (None, m') \<Rightarrow> Some (False, b, blks, m')
      | (Some junk, m') \<Rightarrow>
          (case (wr (fb_fragments b) (fb_nfragments b) (length blks, WRITE_FRAGMENT_SIZE),
                 wr (fb_offsets b) (fb_nfragments b + 1) (capacity + WRITE_FRAGMENT_SIZE)) of
             (Some frs, Some offs) \<Rightarrow>
               add_fragments k m' (b\<lparr>fb_fragments := frs, fb_offsets := offs, fb_nfragments := fb_nfragments b + 1\<rparr>)
                 (blks @ [junk_bytes junk WRITE_FRAGMENT_SIZE]) (capacity + WRITE_FRAGMENT_SIZE)
           | _ \<Rightarrow> None))"

definition buffer_write :: "mem \<Rightarrow> blocks \<Rightarrow> frag_buffer \<Rightarrow> bytes \<Rightarrow> nat \<Rightarrow> zip_error
    \<Rightarrow> (int \<times> frag_buffer \<times> blocks \<times> zip_error \<times> mem) option" where
  "buffer_write m blks b data len error =
     (let nomem = error\<lparr>zip_err := ZIP_ER_MEMORY, sys_err := 0\<rparr> in
      if (fb_offset b + len + WRITE_FRAGMENT_SIZE - 1) mod 2 ^ 64 < len
      then Some (-1, b, blks, error\<lparr>zip_err := ZIP_ER_INVAL, sys_err := 0\<rparr>, m)
      else
        (case rd (fb_offsets b) (fb_nfragments b) of
           None \<Rightarrow> None
         | Some capacity \<Rightarrow>
           (let needed = fb_nfragments b + (len - (capacity - fb_offset b) + WRITE_FRAGMENT_SIZE - 1) div WRITE_FRAGMENT_SIZE in
            case (if fb_offset b + len > capacity \<and> needed > fb_capacity b
                  then buffer_grow_fragments m b
                         (grow_capacity (if fb_capacity b = 0 then 16 else fb_capacity b) needed) (Some error)
                  else (True, b, Some error, m)) of
              (False, b1, _, m1) \<Rightarrow> Some (-1, b1, blks, nomem, m1)
            | (True, b1, _, m1) \<Rightarrow>
              (case (if fb_offset b + len > capacity then add_fragments (needed - fb_nfragments b1) m1 b1 blks capacity
                     else Some (True, b1, blks, m1)) of
                 None \<Rightarrow> None
               | Some (False, b2, blks2, m2) \<Rightarrow> Some (-1, b2, blks2, nomem, m2)
               | Some (True, b2, blks2, m2) \<Rightarrow>
                   (case rd (fb_offsets b2) (fb_current b2) of
                      None \<Rightarrow> None
                    | Some o0 \<Rightarrow>
                        if fb_offset b2 < o0 then None
                        else (case write_frags b2 data len (fb_current b2) (fb_offset b2 - o0) 0 blks2 of
                                None \<Rightarrow> None
                              | Some (blks3, i) \<Rightarrow>
                                  Some (int len, b2\<lparr>fb_offset := fb_offset b2 + len, fb_current := i,
                                                    fb_size := max (fb_size b2) (fb_offset b2 + len)\<rparr>,
                                        blks3, error, m2)))))))"

section \<open>The callback\<close>

definition ctx_inval :: "read_ctx \<Rightarrow> zip_source_data \<Rightarrow> (int \<times> zip_source_data \<times> read_ctx) option" where
  "ctx_inval ctx data = Some (-1, data, ctx\<lparr>rc_error := (rc_error ctx)\<lparr>zip_err := ZIP_ER_INVAL, sys_err := 0\<rparr>\<rparr>)"

definition read_data_supports :: u64 where
  "read_data_supports = zip_source_make_command_bitmap
     [ZIP_SOURCE_GET_FILE_ATTRIBUTES, ZIP_SOURCE_OPEN, ZIP_SOURCE_READ, ZIP_SOURCE_CLOSE, ZIP_SOURCE_STAT,
      ZIP_SOURCE_ERROR, ZIP_SOURCE_FREE, ZIP_SOURCE_SEEK, ZIP_SOURCE_TELL, ZIP_SOURCE_BEGIN_WRITE,
      ZIP_SOURCE_BEGIN_WRITE_CLONING, ZIP_SOURCE_COMMIT_WRITE, ZIP_SOURCE_REMOVE, ZIP_SOURCE_ROLLBACK_WRITE,
      ZIP_SOURCE_SEEK_WRITE, ZIP_SOURCE_TELL_WRITE, ZIP_SOURCE_WRITE]"

text \<open>
  \<open>read_data\<close>: the return value, the data block and the context. \<open>None\<close> is an access through the
  NULL pointer \<open>out\<close> or outside a block.
\<close>

definition read_data ::
  "read_ctx \<Rightarrow> zip_source_data \<Rightarrow> nat \<Rightarrow> zip_source_cmd \<Rightarrow> (int \<times> zip_source_data \<times> read_ctx) option"
where
  "read_data ctx data len cmd =
     (case cmd of
        ZIP_SOURCE_BEGIN_WRITE \<Rightarrow>
          (case buffer_new (rc_mem ctx) [] False (Some (rc_error ctx)) of
             None \<Rightarrow> None
           | Some (None, e, m) \<Rightarrow> Some (-1, data, ctx\<lparr>rc_out := None, rc_error := the e, rc_mem := m\<rparr>)
           | Some (Some b, e, m) \<Rightarrow>
               Some (0, data, ctx\<lparr>rc_out := Some (b\<lparr>fb_offset := 0, fb_current := 0\<rparr>), rc_error := the e, rc_mem := m\<rparr>))
      | ZIP_SOURCE_BEGIN_WRITE_CLONING \<Rightarrow>
          (case buffer_clone (rc_mem ctx) (rc_in ctx) len (rc_error ctx) of
             None \<Rightarrow> None
           | Some (None, bin, e, m) \<Rightarrow>
               Some (-1, data, ctx\<lparr>rc_out := None, rc_in := bin, rc_error := e, rc_mem := m\<rparr>)
           | Some (Some b, bin, e, m) \<Rightarrow>
               Some (0, data, ctx\<lparr>rc_out := Some (b\<lparr>fb_offset := len, fb_current := fb_nfragments b\<rparr>),
                                  rc_in := bin, rc_error := e, rc_mem := m\<rparr>))
      | ZIP_SOURCE_CLOSE \<Rightarrow> Some (0, data, ctx)
      | ZIP_SOURCE_COMMIT_WRITE \<Rightarrow>
          (case rc_out ctx of
             None \<Rightarrow> None
           | Some out \<Rightarrow> Some (0, data, ctx\<lparr>rc_in := buffer_unshare (rc_in ctx) out, rc_out := None\<rparr>))
      | ZIP_SOURCE_ERROR \<Rightarrow>
          (case zip_error_to_data (rc_error ctx) len of
             ([a, b], r) \<Rightarrow> Some (r, SD_Error a b, ctx)
           | (_, r) \<Rightarrow> Some (r, data, ctx))
      | ZIP_SOURCE_FREE \<Rightarrow> Some (0, data, ctx\<lparr>rc_out := None\<rparr>)
      | ZIP_SOURCE_GET_FILE_ATTRIBUTES \<Rightarrow>
          if len < sizeof_attributes then ctx_inval ctx data
          else Some (int sizeof_attributes, SD_Attributes (rc_attributes ctx), ctx)
      | ZIP_SOURCE_OPEN \<Rightarrow> Some (0, data, ctx\<lparr>rc_in := (rc_in ctx)\<lparr>fb_offset := 0, fb_current := 0\<rparr>\<rparr>)
      | ZIP_SOURCE_READ \<Rightarrow>
          if len > ZIP_INT64_MAX then ctx_inval ctx data
          else (case buffer_read (rc_blocks ctx) (rc_in ctx) len of
                  None \<Rightarrow> None
                | Some (r, bs, b) \<Rightarrow>
                    Some (r, (case data of SD_Bytes old \<Rightarrow> SD_Bytes (bs @ drop (length bs) old) | _ \<Rightarrow> SD_Bytes bs),
                          ctx\<lparr>rc_in := b\<rparr>))
      | ZIP_SOURCE_REMOVE \<Rightarrow>
          (case buffer_new (rc_mem ctx) [] False (Some (rc_error ctx)) of
             None \<Rightarrow> None
           | Some (None, e, m) \<Rightarrow> Some (-1, data, ctx\<lparr>rc_error := the e, rc_mem := m\<rparr>)
           | Some (Some b, e, m) \<Rightarrow>
               Some (0, data, ctx\<lparr>rc_in := b, rc_out := map_option (buffer_unshare (rc_in ctx)) (rc_out ctx),
                                  rc_error := the e, rc_mem := m\<rparr>))
      | ZIP_SOURCE_ROLLBACK_WRITE \<Rightarrow>
          Some (0, data, ctx\<lparr>rc_in := (case rc_out ctx of None \<Rightarrow> rc_in ctx | Some out \<Rightarrow> buffer_unshare out (rc_in ctx)),
                             rc_out := None\<rparr>)
      | ZIP_SOURCE_SEEK \<Rightarrow>
          (case buffer_seek (rc_in ctx) data len (rc_error ctx) of
             None \<Rightarrow> None | Some (r, b, e) \<Rightarrow> Some (r, data, ctx\<lparr>rc_in := b, rc_error := e\<rparr>))
      | ZIP_SOURCE_SEEK_WRITE \<Rightarrow>
          (case rc_out ctx of
             None \<Rightarrow> None
           | Some out \<Rightarrow>
               (case buffer_seek out data len (rc_error ctx) of
                  None \<Rightarrow> None | Some (r, b, e) \<Rightarrow> Some (r, data, ctx\<lparr>rc_out := Some b, rc_error := e\<rparr>)))
      | ZIP_SOURCE_STAT \<Rightarrow>
          if len < sizeof_stat then ctx_inval ctx data
          else (case data of
                  SD_Stat st0 \<Rightarrow>
                    (let n = word_of_nat (fb_size (rc_in ctx))
                     in Some (int sizeof_stat,
                              SD_Stat ((zip_stat_init st0)\<lparr>st_mtime := rc_mtime ctx, st_size := n, st_comp_size := n,
                                 st_comp_method := 0, st_encryption_method := 0,
                                 st_valid := ZIP_STAT_MTIME OR ZIP_STAT_SIZE OR ZIP_STAT_COMP_SIZE
                                             OR ZIP_STAT_COMP_METHOD OR ZIP_STAT_ENCRYPTION_METHOD\<rparr>), ctx))
                | _ \<Rightarrow> None)
      | ZIP_SOURCE_SUPPORTS \<Rightarrow> Some (sint read_data_supports, data, ctx)
      | ZIP_SOURCE_TELL \<Rightarrow>
          if fb_offset (rc_in ctx) > ZIP_INT64_MAX
          then Some (-1, data, ctx\<lparr>rc_error := (rc_error ctx)\<lparr>zip_err := ZIP_ER_TELL, sys_err := EOVERFLOW\<rparr>\<rparr>)
          else Some (int (fb_offset (rc_in ctx)), data, ctx)
      | ZIP_SOURCE_TELL_WRITE \<Rightarrow>
          (case rc_out ctx of
             None \<Rightarrow> None
           | Some out \<Rightarrow>
               if fb_offset out > ZIP_INT64_MAX
               then Some (-1, data, ctx\<lparr>rc_error := (rc_error ctx)\<lparr>zip_err := ZIP_ER_TELL, sys_err := EOVERFLOW\<rparr>\<rparr>)
               else Some (int (fb_offset out), data, ctx))
      | ZIP_SOURCE_WRITE \<Rightarrow>
          if len > ZIP_INT64_MAX then ctx_inval ctx data
          else (case (rc_out ctx, data) of
                  (Some out, SD_Bytes bs) \<Rightarrow>
                    (case buffer_write (rc_mem ctx) (rc_blocks ctx) out bs len (rc_error ctx) of
                       None \<Rightarrow> None
                     | Some (r, b, blks, e, m) \<Rightarrow>
                         Some (r, data, ctx\<lparr>rc_out := Some b, rc_blocks := blks, rc_error := e, rc_mem := m\<rparr>))
                | _ \<Rightarrow> None)
      | _ \<Rightarrow> Some (-1, data, ctx\<lparr>rc_error := (rc_error ctx)\<lparr>zip_err := ZIP_ER_OPNOTSUPP, sys_err := 0\<rparr>\<rparr>))"

text \<open>
  The source over this callback. The layer wants a total function; undefined calls, which the
  protocol rules out, are given a failure.
\<close>

definition buffer_callbacks :: "read_ctx callbacks" where
  "buffer_callbacks = \<lparr>cb_f = (\<lambda>ctx d n cmd. case read_data ctx d n cmd of Some r \<Rightarrow> r | None \<Rightarrow> (-1, d, ctx)),
                       cb_l = (\<lambda>lo ctx d n cmd. (-1, d, ctx, lo))\<rparr>"

text \<open>
  \<open>time(NULL)\<close> is an argument, and so is the store of blocks the fragments point into. The fragment
  list is \<open>None\<close> for a NULL pointer. The first answer of \<open>m2\<close> goes to the source itself, the context keeps the rest.
\<close>

definition zip_source_buffer_fragment_with_attributes_create ::
  "int \<Rightarrow> blocks \<Rightarrow> mem \<Rightarrow> (nat option \<times> nat) list option \<Rightarrow> nat \<Rightarrow> bool \<Rightarrow> zip_file_attributes option
     \<Rightarrow> zip_error option \<Rightarrow> (read_ctx zip_source option \<times> zip_error option) option"
where
  "zip_source_buffer_fragment_with_attributes_create now blks m fragments nfragments freep attributes error =
     (if fragments = None \<and> nfragments > 0 then Some (None, zip_error_set error ZIP_ER_INVAL 0)
      else
        (case buffer_new m (case fragments of None \<Rightarrow> [] | Some fs \<Rightarrow> take nfragments fs) freep error of
           None \<Rightarrow> None
         | Some (None, error', m1) \<Rightarrow> Some (None, error')
         | Some (Some b, error', m1) \<Rightarrow>
             (case malloc m1 of
                (None, m2) \<Rightarrow> Some (None, zip_error_set error' ZIP_ER_MEMORY 0)
              | (Some junk, m2) \<Rightarrow>
                  (let a0 = \<lparr>fa_valid = word_of_nat junk, fa_version = word_of_nat junk, fa_host_system = word_of_nat junk,
                             fa_ascii = word_of_nat junk, fa_version_needed = word_of_nat junk,
                             fa_external_file_attributes = word_of_nat junk,
                             fa_general_purpose_bit_flags = word_of_nat junk, fa_general_purpose_bit_mask = word_of_nat junk\<rparr>;
                       ctx = \<lparr>rc_error = zip_error_init, rc_mtime = now,
                              rc_attributes = (case attributes of Some a \<Rightarrow> a | None \<Rightarrow> zip_file_attributes_init a0),
                              rc_in = b, rc_out = None, rc_blocks = blks, rc_mem = tl m2\<rparr>
                   in case zip_source_function_create buffer_callbacks m2 ctx error' of
                        (zs, error'', _) \<Rightarrow> Some (zs, error'')))))"

definition zip_source_buffer_with_attributes_create ::
  "int \<Rightarrow> mem \<Rightarrow> bytes option \<Rightarrow> nat \<Rightarrow> bool \<Rightarrow> zip_file_attributes option \<Rightarrow> zip_error option
     \<Rightarrow> (read_ctx zip_source option \<times> zip_error option) option"
where
  "zip_source_buffer_with_attributes_create now m data len freep attributes error =
     (case data of
        None \<Rightarrow>
          if len > 0 then Some (None, zip_error_set error ZIP_ER_INVAL 0)
          else zip_source_buffer_fragment_with_attributes_create now [] m None 0 freep attributes error
      | Some bs \<Rightarrow>
          zip_source_buffer_fragment_with_attributes_create now [bs] m (Some [(Some 0, len)]) 1 freep attributes error)"

definition zip_source_buffer_create ::
  "int \<Rightarrow> mem \<Rightarrow> bytes option \<Rightarrow> nat \<Rightarrow> bool \<Rightarrow> zip_error option \<Rightarrow> (read_ctx zip_source option \<times> zip_error option) option"
where
  "zip_source_buffer_create now m data len freep error =
     zip_source_buffer_with_attributes_create now m data len freep None error"

section \<open>A well-formed buffer is a byte string\<close>

definition frs :: "frag_buffer \<Rightarrow> zip_buffer_fragment list" where
  "frs b = take (fb_nfragments b) (fb_fragments b)"

definition frag_bytes :: "blocks \<Rightarrow> zip_buffer_fragment \<Rightarrow> bytes" where
  "frag_bytes blks fr = take (snd fr) (blks ! fst fr)"

definition raw_bytes :: "blocks \<Rightarrow> zip_buffer_fragment list \<Rightarrow> bytes" where
  "raw_bytes blks fs = concat (map (frag_bytes blks) fs)"

definition frag_sum :: "zip_buffer_fragment list \<Rightarrow> nat \<Rightarrow> nat" where
  "frag_sum fs i = sum_list (map snd (take i fs))"

definition frags_ok :: "blocks \<Rightarrow> zip_buffer_fragment list \<Rightarrow> bool" where
  "frags_ok blks fs \<longleftrightarrow> distinct (map fst fs)
     \<and> (\<forall>fr\<in>set fs. 0 < snd fr \<and> fst fr < length blks \<and> snd fr \<le> length (blks ! fst fr))"

definition pos_ok :: "zip_buffer_fragment list \<Rightarrow> nat \<Rightarrow> nat \<Rightarrow> bool" where
  "pos_ok fs i pos \<longleftrightarrow> i \<le> length fs \<and> frag_sum fs i \<le> pos \<and> (i < length fs \<longrightarrow> pos \<le> frag_sum fs (Suc i))"

text \<open>
  The offsets are the running sums of the fragment lengths, the cursor is in (or at the end of) its
  fragment, no block is in two fragments and the size is within the capacity.
\<close>

definition fb_inv :: "blocks \<Rightarrow> frag_buffer \<Rightarrow> bool" where
  "fb_inv blks b \<longleftrightarrow>
     fb_nfragments b \<le> fb_capacity b \<and> length (fb_fragments b) = fb_capacity b
     \<and> length (fb_offsets b) = fb_capacity b + 1
     \<and> (\<forall>i\<le>fb_nfragments b. fb_offsets b ! i = frag_sum (frs b) i)
     \<and> frags_ok blks (frs b)
     \<and> fb_size b \<le> frag_sum (frs b) (fb_nfragments b)
     \<and> fb_offset b \<le> fb_size b
     \<and> pos_ok (frs b) (fb_current b) (fb_offset b)"

definition fb_bytes :: "blocks \<Rightarrow> frag_buffer \<Rightarrow> bytes" where
  "fb_bytes blks b = take (fb_size b) (raw_bytes blks (frs b))"

lemma frag_sum_0 [simp]: "frag_sum fs 0 = 0"
  by (simp add: frag_sum_def)

lemma frag_sum_Suc: "i < length fs \<Longrightarrow> frag_sum fs (Suc i) = frag_sum fs i + snd (fs ! i)"
  by (simp add: frag_sum_def take_Suc_conv_app_nth)

lemma frag_sum_mono: "i \<le> j \<Longrightarrow> frag_sum fs i \<le> frag_sum fs j"
proof -
  assume "i \<le> j"
  then have "take j fs = take i fs @ take (j - i) (drop i fs)"
    using take_add [of i "j - i" fs] by simp
  then show ?thesis by (simp add: frag_sum_def)
qed

lemma frags_ok_nth: "frags_ok blks fs \<Longrightarrow> i < length fs \<Longrightarrow>
    0 < snd (fs ! i) \<and> fst (fs ! i) < length blks \<and> snd (fs ! i) \<le> length (blks ! fst (fs ! i))"
  by (simp add: frags_ok_def)

lemma frags_ok_tl: "frags_ok blks (fr # fs) \<Longrightarrow> frags_ok blks fs"
  by (simp add: frags_ok_def)

lemma length_frag_bytes: "frags_ok blks fs \<Longrightarrow> fr \<in> set fs \<Longrightarrow> length (frag_bytes blks fr) = snd fr"
  by (simp add: frags_ok_def frag_bytes_def)

lemma raw_bytes_simps [simp]: "raw_bytes blks [] = []"
  "raw_bytes blks (fr # fs) = frag_bytes blks fr @ raw_bytes blks fs"
  "raw_bytes blks (fs @ gs) = raw_bytes blks fs @ raw_bytes blks gs"
  by (simp_all add: raw_bytes_def)

lemma length_raw_take: "frags_ok blks fs \<Longrightarrow> length (raw_bytes blks (take i fs)) = frag_sum fs i"
proof (induction i)
  case (Suc i)
  show ?case
  proof (cases "i < length fs")
    case True
    then have "length (frag_bytes blks (fs ! i)) = snd (fs ! i)" using length_frag_bytes Suc(2) by simp
    with Suc True show ?thesis by (simp add: take_Suc_conv_app_nth frag_sum_Suc)
  qed (use Suc in \<open>simp add: frag_sum_def\<close>)
qed simp

lemma length_raw: "frags_ok blks fs \<Longrightarrow> length (raw_bytes blks fs) = frag_sum fs (length fs)"
  using length_raw_take [of blks fs "length fs"] by simp

lemma raw_split:
  "i < length fs \<Longrightarrow>
    raw_bytes blks fs = raw_bytes blks (take i fs) @ frag_bytes blks (fs ! i) @ raw_bytes blks (drop (Suc i) fs)"
  by (metis id_take_nth_drop raw_bytes_simps(2,3))

lemma pos_lt: "frag_sum fs i + fo < frag_sum fs (length fs) \<Longrightarrow> i < length fs"
  using frag_sum_mono [of "length fs" i fs] by (meson add_lessD1 leD leI order_less_le_trans)

text \<open>The bytes at a position of a fragment.\<close>

lemma raw_chunk:
  assumes ok: "frags_ok blks fs" and i: "i < length fs" and l: "fo + left \<le> snd (fs ! i)"
  shows "take left (drop fo (blks ! fst (fs ! i))) = take left (drop (frag_sum fs i + fo) (raw_bytes blks fs))"
proof -
  have len: "length (raw_bytes blks (take i fs)) = frag_sum fs i" by (rule length_raw_take [OF ok])
  have flen: "length (frag_bytes blks (fs ! i)) = snd (fs ! i)" using ok i by (simp add: length_frag_bytes)
  have "drop (frag_sum fs i + fo) (raw_bytes blks fs)
      = drop fo (frag_bytes blks (fs ! i) @ raw_bytes blks (drop (Suc i) fs))"
    unfolding raw_split [OF i, of blks] by (simp add: len)
  then have "take left (drop (frag_sum fs i + fo) (raw_bytes blks fs)) = take left (drop fo (frag_bytes blks (fs ! i)))"
    using l flen by simp
  also have "\<dots> = take left (drop fo (blks ! fst (fs ! i)))"
    using l by (simp add: frag_bytes_def drop_take)
  finally show ?thesis by simp
qed

lemma read_frags_correct:
  "read_frags blks b len i fo k acc = res \<Longrightarrow> frags_ok blks (frs b) \<Longrightarrow>
   length (frs b) = fb_nfragments b \<Longrightarrow> k \<le> len \<Longrightarrow> pos_ok (frs b) i (frag_sum (frs b) i + fo) \<Longrightarrow>
   frag_sum (frs b) i + fo + (len - k) \<le> frag_sum (frs b) (length (frs b)) \<Longrightarrow>
   \<exists>i'. res = Some (acc @ take (len - k) (drop (frag_sum (frs b) i + fo) (raw_bytes blks (frs b))), i')
     \<and> pos_ok (frs b) i' (frag_sum (frs b) i + fo + (len - k))"
proof (induction blks b len i fo k acc arbitrary: res rule: read_frags.induct)
  case (1 blks b len i fo k acc)
  let ?fs = "frs b"
  show ?case
  proof (cases "k < len")
    case False
    with 1(2,6) show ?thesis by (auto simp: read_frags.simps)
  next
    case True
    have i: "i < length ?fs" using pos_lt [of ?fs i fo] 1(7) True by simp
    then have nth: "fb_fragments b ! i = ?fs ! i" "i < length (fb_fragments b)"
      by (simp_all add: frs_def)
    define fr where "fr = fb_fragments b ! i"
    define left where "left = min (len - k) (snd fr - fo)"
    have fo: "fo \<le> snd fr" using 1(6) i by (simp add: pos_ok_def frag_sum_Suc fr_def nth)
    have ok: "0 < snd fr" "fst fr < length blks" "snd fr \<le> length (blks ! fst fr)"
      using frags_ok_nth [OF 1(3) i] by (simp_all add: fr_def nth)
    have acc: "block_access blks fr fo left" using ok fo by (auto simp: block_access_def left_def)
    have chunk: "take left (drop fo (blks ! fst fr)) = take left (drop (frag_sum ?fs i + fo) (raw_bytes blks ?fs))"
      using raw_chunk [OF 1(3) i, of fo left] fo by (simp add: fr_def nth left_def)
    define i' where "i' = (if left = snd fr - fo then i + 1 else i)"
    have kl: "k + left \<le> len" using True by (auto simp: left_def min_def)
    show ?thesis
    proof (cases "left = snd fr - fo")
      case full: True
      have pos: "frag_sum ?fs (i + 1) = frag_sum ?fs i + fo + left"
        using frag_sum_Suc [OF i] fo full by (simp add: fr_def nth)
      have p: "pos_ok ?fs (i + 1) (frag_sum ?fs (i + 1) + 0)"
        using i frag_sum_mono [of "i + 1" "Suc (i + 1)" ?fs] by (auto simp: pos_ok_def)
      have "read_frags blks b len (if left = snd fr - fo then i + 1 else i) 0 (k + left) (acc @ take left (drop fo (blks ! fst fr))) = res"
        using 1(2) True nth(2) fo acc by (subst (asm) read_frags.simps) (simp add: fr_def [symmetric] left_def [symmetric] Let_def)
      then have r: "read_frags blks b len (i + 1) 0 (k + left) (acc @ take left (drop fo (blks ! fst fr))) = res"
        unfolding if_P [OF full] .
      have c: "i < length (fb_fragments b) \<and> fo \<le> snd (fb_fragments b ! i)" using nth(2) fo by (simp add: fr_def)
      have bound: "frag_sum ?fs (i + 1) + 0 + (len - (k + left)) \<le> frag_sum ?fs (length ?fs)"
        using 1(7) kl unfolding pos by linarith
      from 1(1) [OF True c fr_def left_def acc, unfolded if_P [OF full], OF r 1(3,4) kl p bound]
      obtain j where j: "res = Some (acc @ take left (drop fo (blks ! fst fr)) @
          take (len - (k + left)) (drop (frag_sum ?fs i + fo + left) (raw_bytes blks ?fs)), j)"
        "pos_ok ?fs j (frag_sum ?fs i + fo + left + (len - (k + left)))"
        unfolding pos add_0_right append_assoc by blast
      have "take left (drop (frag_sum ?fs i + fo) (raw_bytes blks ?fs))
          @ take (len - (k + left)) (drop (frag_sum ?fs i + fo + left) (raw_bytes blks ?fs))
        = take (left + (len - (k + left))) (drop (frag_sum ?fs i + fo) (raw_bytes blks ?fs))"
        by (simp add: take_add add.commute)
      moreover have "left + (len - (k + left)) = len - k" using kl by simp
      moreover have e: "frag_sum ?fs i + fo + left + (len - (k + left)) = frag_sum ?fs i + fo + (len - k)"
        using kl by linarith
      ultimately have "res = Some (acc @ take (len - k) (drop (frag_sum ?fs i + fo) (raw_bytes blks ?fs)), j)"
        using j(1) by (simp only: chunk)
      with j(2) [unfolded e] show ?thesis by blast
    next
      case False
      then have l: "left = len - k" by (simp add: left_def split: if_splits)
      have "read_frags blks b len i 0 (k + left) (acc @ take left (drop fo (blks ! fst fr))) = res"
        using 1(2) True nth(2) fo acc False
        by (subst (asm) read_frags.simps) (simp add: fr_def [symmetric] left_def [symmetric] Let_def)
      moreover have "k + left = len" using l kl True by simp
      ultimately have "res = Some (acc @ take left (drop fo (blks ! fst fr)), i)"
        by (simp add: read_frags.simps)
      moreover have "pos_ok ?fs i (frag_sum ?fs i + fo + left)"
        using 1(6) i frag_sum_Suc [OF i] by (auto simp: pos_ok_def fr_def nth left_def)
      ultimately show ?thesis using l chunk by auto
    qed
  qed
qed

text \<open>Overwriting a piece of one block changes that piece of the byte string.\<close>

lemma raw_write_chunk:
  assumes ok: "frags_ok blks fs" and i: "i < length fs" and l: "fo + length bs \<le> snd (fs ! i)"
    and def: "blks' = blks[fst (fs ! i) := take fo (blks ! fst (fs ! i)) @ bs @ drop (fo + length bs) (blks ! fst (fs ! i))]"
  shows "raw_bytes blks' fs = take (frag_sum fs i + fo) (raw_bytes blks fs) @ bs
           @ drop (frag_sum fs i + fo + length bs) (raw_bytes blks fs)"
    and "frags_ok blks' fs" and "length blks' = length blks"
    and "\<And>d. length (blks' ! d) = length (blks ! d)"
proof -
  let ?d = "fst (fs ! i)"
  have d: "?d < length blks" "snd (fs ! i) \<le> length (blks ! ?d)" using frags_ok_nth [OF ok i] by simp_all
  have other: "frag_bytes blks' fr = frag_bytes blks fr" if "fst fr \<noteq> ?d" for fr
    using that by (simp add: frag_bytes_def def)
  have dis: "fst (fs ! j) \<noteq> ?d" if "j < length fs" "j \<noteq> i" for j
    using ok that i unfolding frags_ok_def by (metis distinct_conv_nth length_map nth_map)
  have "fst fr \<noteq> ?d" if "fr \<in> set (take i fs)" for fr
  proof -
    from that i obtain j where "j < i" "fr = fs ! j" by (auto simp: in_set_conv_nth)
    then show ?thesis using dis [of j] i by simp
  qed
  then have A: "raw_bytes blks' (take i fs) = raw_bytes blks (take i fs)"
    using other by (simp add: raw_bytes_def cong: map_cong)
  have "fst fr \<noteq> ?d" if "fr \<in> set (drop (Suc i) fs)" for fr
  proof -
    from that obtain j where "j < length fs - Suc i" "fr = fs ! (Suc i + j)"
      by (auto simp: in_set_conv_nth)
    then show ?thesis using dis [of "Suc i + j"] by simp
  qed
  then have B: "raw_bytes blks' (drop (Suc i) fs) = raw_bytes blks (drop (Suc i) fs)"
    using other by (simp add: raw_bytes_def cong: map_cong)
  have F: "frag_bytes blks' (fs ! i) = take fo (frag_bytes blks (fs ! i)) @ bs @ drop (fo + length bs) (frag_bytes blks (fs ! i))"
  proof -
    have "fo \<le> snd (fs ! i)" "fo \<le> length (blks ! ?d)" "length bs \<le> snd (fs ! i) - fo" using d l by simp_all
    then show ?thesis using d by (simp add: frag_bytes_def def drop_take take_append min.absorb1 min.absorb2 diff_diff_left)
  qed
  have len: "length (raw_bytes blks (take i fs)) = frag_sum fs i" by (rule length_raw_take [OF ok])
  have flen: "length (frag_bytes blks (fs ! i)) = snd (fs ! i)" using ok i by (simp add: length_frag_bytes)
  show "raw_bytes blks' fs = take (frag_sum fs i + fo) (raw_bytes blks fs) @ bs
           @ drop (frag_sum fs i + fo + length bs) (raw_bytes blks fs)"
    using l flen len unfolding raw_split [OF i, of blks'] raw_split [OF i, of blks] A B F by simp
  show "frags_ok blks' fs" "length blks' = length blks" "\<And>d. length (blks' ! d) = length (blks ! d)"
    using ok d l by (auto simp: frags_ok_def def nth_list_update)
qed

lemma write_frags_correct:
  "write_frags b data len i fo k blks = res \<Longrightarrow> frags_ok blks (frs b) \<Longrightarrow>
   length (frs b) = fb_nfragments b \<Longrightarrow> k \<le> len \<Longrightarrow> len \<le> length data \<Longrightarrow>
   pos_ok (frs b) i (frag_sum (frs b) i + fo) \<Longrightarrow>
   frag_sum (frs b) i + fo + (len - k) \<le> frag_sum (frs b) (length (frs b)) \<Longrightarrow>
   \<exists>blks' i'. res = Some (blks', i') \<and> frags_ok blks' (frs b) \<and> length blks' = length blks
     \<and> raw_bytes blks' (frs b) = take (frag_sum (frs b) i + fo) (raw_bytes blks (frs b)) @ take (len - k) (drop k data)
         @ drop (frag_sum (frs b) i + fo + (len - k)) (raw_bytes blks (frs b))
     \<and> pos_ok (frs b) i' (frag_sum (frs b) i + fo + (len - k))"
proof (induction b data len i fo k blks arbitrary: res rule: write_frags.induct)
  case (1 b data len i fo k blks)
  let ?fs = "frs b"
  have rlen: "length (raw_bytes blks ?fs) = frag_sum ?fs (length ?fs)" by (rule length_raw [OF 1(3)])
  show ?case
  proof (cases "k < len")
    case False
    with 1(2,3,7) show ?thesis by (auto simp: write_frags.simps)
  next
    case True
    have i: "i < length ?fs" using pos_lt [of ?fs i fo] 1(8) True by simp
    then have nth: "fb_fragments b ! i = ?fs ! i" "i < length (fb_fragments b)"
      by (simp_all add: frs_def)
    define fr where "fr = fb_fragments b ! i"
    define left where "left = min (len - k) (snd fr - fo)"
    define blk where "blk = blks ! fst fr"
    define bs where "bs = take left (drop k data)"
    define blks1 where "blks1 = blks[fst fr := take fo blk @ bs @ drop (fo + left) blk]"
    have kl: "k + left \<le> len" using True by (auto simp: left_def min_def)
    have lbs: "length bs = left" using kl 1(6) by (simp add: bs_def)
    have fo: "fo \<le> snd fr" using 1(7) i by (simp add: pos_ok_def frag_sum_Suc fr_def nth)
    have ok: "0 < snd fr" "fst fr < length blks" "snd fr \<le> length (blks ! fst fr)"
      using frags_ok_nth [OF 1(3) i] by (simp_all add: fr_def nth)
    have acc: "block_access blks fr fo left" using ok fo by (auto simp: block_access_def left_def)
    have fl: "fo + length bs \<le> snd (?fs ! i)" using fo lbs by (simp add: left_def fr_def nth)
    note w = raw_write_chunk [OF 1(3) i fl, of blks1, unfolded lbs, folded nth(1), folded fr_def, folded blk_def, OF blks1_def]
    have r: "write_frags b data len (if left = snd fr - fo then i + 1 else i) 0 (k + left) blks1 = res"
      using 1(2) True nth(2) fo acc
      by (subst (asm) write_frags.simps)
        (simp add: fr_def [symmetric] left_def [symmetric] blk_def [symmetric] bs_def [symmetric] blks1_def [symmetric] Let_def)
    show ?thesis
    proof (cases "left = snd fr - fo")
      case full: True
      have pos: "frag_sum ?fs (i + 1) = frag_sum ?fs i + fo + left"
        using frag_sum_Suc [OF i] fo full by (simp add: fr_def nth)
      have p: "pos_ok ?fs (i + 1) (frag_sum ?fs (i + 1) + 0)"
        using i frag_sum_mono [of "i + 1" "Suc (i + 1)" ?fs] by (auto simp: pos_ok_def)
      have "i < length (fb_fragments b) \<and> fo \<le> snd (fb_fragments b ! i)" using nth(2) fo by (simp add: fr_def)
      note c = this
      have r': "write_frags b data len (i + 1) 0 (k + left) blks1 = res" using r unfolding if_P [OF full] .
      have bound: "frag_sum ?fs (i + 1) + 0 + (len - (k + left)) \<le> frag_sum ?fs (length ?fs)"
        using 1(8) kl unfolding pos by linarith
      from 1(1) [OF True c fr_def left_def blk_def acc, unfolded if_P [OF full], folded bs_def, folded blks1_def,
          OF r' w(2) 1(4) kl 1(6) p bound]
      obtain blks' j where j: "res = Some (blks', j)" "frags_ok blks' ?fs" "length blks' = length blks1"
        "raw_bytes blks' ?fs = take (frag_sum ?fs i + fo + left) (raw_bytes blks1 ?fs) @ take (len - (k + left)) (drop (k + left) data)
           @ drop (frag_sum ?fs i + fo + left + (len - (k + left))) (raw_bytes blks1 ?fs)"
        "pos_ok ?fs j (frag_sum ?fs i + fo + left + (len - (k + left)))"
        unfolding pos add_0_right by blast
      have sum: "left + (len - (k + left)) = len - k" using kl by simp
      have bx: "bs @ take (len - (k + left)) (drop (k + left) data) = take (len - k) (drop k data)"
        unfolding sum [symmetric] by (simp add: bs_def take_add add.commute)
      have A: "frag_sum ?fs i + fo \<le> length (raw_bytes blks ?fs)" using 1(8) rlen by simp
      have t: "take (frag_sum ?fs i + fo + left) (raw_bytes blks1 ?fs) = take (frag_sum ?fs i + fo) (raw_bytes blks ?fs) @ bs"
        using A lbs by (simp add: w(1))
      have d: "drop (frag_sum ?fs i + fo + left + (len - (k + left))) (raw_bytes blks1 ?fs)
          = drop (frag_sum ?fs i + fo + left + (len - (k + left))) (raw_bytes blks ?fs)"
        using A lbs by (simp add: w(1) add.assoc add.commute)
      have e: "frag_sum ?fs i + fo + left + (len - (k + left)) = frag_sum ?fs i + fo + (len - k)"
        using kl by linarith
      have "raw_bytes blks' ?fs = take (frag_sum ?fs i + fo) (raw_bytes blks ?fs) @ take (len - k) (drop k data)
         @ drop (frag_sum ?fs i + fo + (len - k)) (raw_bytes blks ?fs)"
        unfolding j(4) t d unfolding e bx [symmetric] by (simp only: append_assoc)
      with j(1,2) j(3) [unfolded w(3)] j(5) [unfolded e] show ?thesis by blast
    next
      case False
      then have l: "left = len - k" by (simp add: left_def split: if_splits)
      have "res = Some (blks1, i)"
        using r False l True by (simp add: write_frags.simps)
      moreover have "pos_ok ?fs i (frag_sum ?fs i + fo + left)"
        using 1(7) i frag_sum_Suc [OF i] by (auto simp: pos_ok_def fr_def nth left_def)
      ultimately show ?thesis using w l by (auto simp: bs_def)
    qed
  qed
qed

lemma fb_invD:
  assumes "fb_inv blks b"
  shows "length (frs b) = fb_nfragments b" and "fb_nfragments b < length (fb_offsets b)"
    and "\<And>i. i \<le> fb_nfragments b \<Longrightarrow> fb_offsets b ! i = frag_sum (frs b) i"
    and "frags_ok blks (frs b)" and "fb_size b \<le> frag_sum (frs b) (length (frs b))"
    and "fb_offset b \<le> fb_size b" and "pos_ok (frs b) (fb_current b) (fb_offset b)"
    and "length (raw_bytes blks (frs b)) = frag_sum (frs b) (length (frs b))"
    and "rd (fb_offsets b) (fb_current b) = Some (frag_sum (frs b) (fb_current b))"
    and "frag_sum (frs b) (fb_current b) \<le> fb_offset b"
proof -
  have l: "length (frs b) = fb_nfragments b" using assms by (simp add: fb_inv_def frs_def)
  then show "length (frs b) = fb_nfragments b" "fb_nfragments b < length (fb_offsets b)"
    "\<And>i. i \<le> fb_nfragments b \<Longrightarrow> fb_offsets b ! i = frag_sum (frs b) i"
    "frags_ok blks (frs b)" "fb_size b \<le> frag_sum (frs b) (length (frs b))"
    "fb_offset b \<le> fb_size b" "pos_ok (frs b) (fb_current b) (fb_offset b)"
    using assms by (simp_all add: fb_inv_def)
  then show "length (raw_bytes blks (frs b)) = frag_sum (frs b) (length (frs b))"
    "rd (fb_offsets b) (fb_current b) = Some (frag_sum (frs b) (fb_current b))"
    "frag_sum (frs b) (fb_current b) \<le> fb_offset b"
    by (auto simp: length_raw rd_def pos_ok_def l)
qed

lemma length_fb_bytes: "fb_inv blks b \<Longrightarrow> length (fb_bytes blks b) = fb_size b"
  using fb_invD(5,8) by (simp add: fb_bytes_def)

subsection \<open>Finding a fragment\<close>

lemma find_loop_correct:
  assumes "\<And>i. i \<le> n \<Longrightarrow> i < length offs \<and> offs ! i = frag_sum fs i" and "length fs = n"
    and "offset \<le> frag_sum fs n"
  shows "low \<le> high \<Longrightarrow> high < n \<Longrightarrow> frag_sum fs low \<le> offset \<Longrightarrow> offset \<le> frag_sum fs (Suc high) \<Longrightarrow>
    \<exists>r. find_loop offs n offset low high = Some r \<and> pos_ok fs r offset"
  using assms
proof (induction offs n offset low high rule: find_loop.induct)
  case (1 offs n offset low high)
  note o = 1(7)
  show ?case
  proof (cases "low < high")
    case False
    with 1(3,4,5,6,8) show ?thesis by (auto simp: find_loop.simps pos_ok_def)
  next
    case True
    define mid where "mid = (high - low) div 2 + low"
    have mid: "low \<le> mid" "mid < high" using True by (auto simp: mid_def)
    have rd: "rd offs mid = Some (frag_sum fs mid)" "rd offs (mid + 1) = Some (frag_sum fs (mid + 1))"
      using o [of mid] o [of "mid + 1"] mid 1(4) by (simp_all add: rd_def)
    have eq: "find_loop offs n offset low high =
      (if frag_sum fs mid > offset then (if mid = 0 then None else find_loop offs n offset low (mid - 1))
       else if frag_sum fs (mid + 1) > offset then Some mid else find_loop offs n offset (mid + 1) high)"
      using True rd mid 1(4) by (subst find_loop.simps) (simp add: mid_def [symmetric] Let_def)
    show ?thesis
    proof (cases "frag_sum fs mid > offset")
      case gt: True
      then have "mid \<noteq> low" using 1(5) by auto
      then have m0: "mid \<noteq> 0" "low \<le> mid - 1" "mid - 1 < n" "Suc (mid - 1) = mid" using mid 1(4) by linarith+
      from 1(1) [OF True mid_def rd(1) gt m0(1) m0(2,3) 1(5) _ o 1(8,9)] gt m0(4)
      show ?thesis using eq m0(1) by simp
    next
      case le: False
      show ?thesis
      proof (cases "frag_sum fs (mid + 1) > offset")
        case True
        then show ?thesis using eq le mid 1(4,8) by (auto simp: pos_ok_def)
      next
        case False
        have "mid \<noteq> n" "mid + 1 \<le> high" "frag_sum fs (mid + 1) \<le> offset" using mid 1(4) False by simp_all
        from 1(2) [OF True mid_def rd(1) le this(1) rd(2) False this(2) 1(4) this(3) 1(6) o 1(8,9)]
        show ?thesis using eq le False by simp
      qed
    qed
  qed
qed

lemma buffer_find_fragment_correct:
  assumes "fb_inv blks b" and "offset \<le> fb_size b"
  shows "\<exists>r. buffer_find_fragment b offset = Some r \<and> pos_ok (frs b) r offset"
proof (cases "fb_nfragments b = 0")
  case True
  then have "frs b = []" by (simp add: frs_def)
  then have "offset = 0" using fb_invD(5) [OF assms(1)] assms(2) by simp
  then show ?thesis using True \<open>frs b = []\<close> by (auto simp: buffer_find_fragment_def pos_ok_def)
next
  case False
  let ?n = "fb_nfragments b"
  note i = fb_invD [OF assms(1)]
  have o: "j < length (fb_offsets b) \<and> fb_offsets b ! j = frag_sum (frs b) j" if "j \<le> ?n" for j
    using i(2,3) that by auto
  have le: "offset \<le> frag_sum (frs b) ?n" using i(1,5) assms(2) by simp
  have "Suc (?n - 1) = ?n" using False by simp
  then have "\<exists>r. find_loop (fb_offsets b) ?n offset 0 (?n - 1) = Some r \<and> pos_ok (frs b) r offset"
    using False le by (intro find_loop_correct [OF o i(1) le]) simp_all
  then show ?thesis using False by (simp add: buffer_find_fragment_def)
qed

subsection \<open>Reading and seeking\<close>

lemma buffer_read_spec:
  assumes inv: "fb_inv blks b" and small: "fb_size b \<le> ZIP_INT64_MAX"
  shows "\<exists>b'. buffer_read blks b len = Some (int (min len (fb_size b - fb_offset b)), take len (drop (fb_offset b) (fb_bytes blks b)), b')
    \<and> fb_inv blks b' \<and> fb_bytes blks b' = fb_bytes blks b \<and> fb_size b' = fb_size b
    \<and> fb_offset b' = fb_offset b + min len (fb_size b - fb_offset b)"
proof -
  note i = fb_invD [OF inv]
  define n where "n = min len (fb_size b - fb_offset b)"
  have n: "fb_offset b + n \<le> fb_size b" using i(6) by (auto simp: n_def)
  have t: "take len (drop (fb_offset b) (fb_bytes blks b)) = take n (drop (fb_offset b) (raw_bytes blks (frs b)))"
    by (simp add: fb_bytes_def drop_take n_def)
  show ?thesis
  proof (cases "n = 0")
    case True
    then have "buffer_read blks b len = Some (0, [], b)" by (simp add: buffer_read_def n_def [symmetric])
    then show ?thesis using True inv t by (intro exI [of _ b]) (simp add: n_def [symmetric])
  next
    case False
    let ?o = "frag_sum (frs b) (fb_current b)"
    have pos: "?o + (fb_offset b - ?o) = fb_offset b" using i(10) by simp
    have "pos_ok (frs b) (fb_current b) (?o + (fb_offset b - ?o))" unfolding pos by (rule i(7))
    moreover have "?o + (fb_offset b - ?o) + (n - 0) \<le> frag_sum (frs b) (length (frs b))"
      unfolding pos using n i(5) by simp
    ultimately obtain k where k: "read_frags blks b n (fb_current b) (fb_offset b - ?o) 0 []
        = Some ([] @ take (n - 0) (drop (?o + (fb_offset b - ?o)) (raw_bytes blks (frs b))), k)"
      "pos_ok (frs b) k (?o + (fb_offset b - ?o) + (n - 0))"
      using read_frags_correct [OF refl i(4,1), of 0 n "fb_current b" "fb_offset b - ?o" "[]"] by blast
    let ?b = "b\<lparr>fb_offset := fb_offset b + n, fb_current := k\<rparr>"
    have "frs ?b = frs b" by (simp add: frs_def)
    then have "fb_inv blks ?b" using inv k(2) n unfolding pos by (simp add: fb_inv_def)
    moreover have "buffer_read blks b len = Some (int n, take n (drop (fb_offset b) (raw_bytes blks (frs b))), ?b)"
      using False n small i(9,10) k(1) unfolding pos
      by (simp add: buffer_read_def n_def [symmetric] Let_def)
    ultimately show ?thesis using t \<open>frs ?b = frs b\<close> by (intro exI [of _ ?b]) (simp add: fb_bytes_def n_def)
  qed
qed

subsection \<open>Writing\<close>

lemma grow_capacity_ge: "0 < c \<Longrightarrow> needed \<le> grow_capacity c needed \<and> c \<le> grow_capacity c needed"
  by (induction c needed rule: grow_capacity.induct) (subst (1 2) grow_capacity.simps, auto)

lemma grow_fragments_inv:
  assumes inv: "fb_inv blks b" and "fb_capacity b \<le> capacity"
  shows "\<exists>b'. buffer_grow_fragments [] b capacity error = (True, b', error, []) \<and> fb_inv blks b' \<and> fb_capacity b' = capacity
    \<and> frs b' = frs b \<and> fb_size b' = fb_size b \<and> fb_offset b' = fb_offset b \<and> fb_current b' = fb_current b
    \<and> fb_nfragments b' = fb_nfragments b"
proof -
  let ?b = "b\<lparr>fb_fragments := resize_array capacity (0, 0) (fb_fragments b),
              fb_offsets := resize_array (capacity + 1) 0 (fb_offsets b), fb_capacity := capacity\<rparr>"
  have l: "fb_nfragments b \<le> length (fb_fragments b)" "length (fb_fragments b) \<le> capacity"
    "length (fb_offsets b) \<le> capacity + 1" "fb_nfragments b < length (fb_offsets b)"
    using inv assms(2) by (simp_all add: fb_inv_def)
  have f: "frs ?b = frs b" using l by (simp add: frs_def resize_array_def)
  have "fb_inv blks ?b"
    using inv l f unfolding fb_inv_def by (auto simp: resize_array_def nth_append)
  moreover have "buffer_grow_fragments [] b capacity error = (True, ?b, error, [])"
    using assms(2) by (simp add: buffer_grow_fragments_def Let_def)
  ultimately show ?thesis using f by (intro exI [of _ ?b]) simp
qed

lemma raw_bytes_extend: "frags_ok blks fs \<Longrightarrow> raw_bytes (blks @ extra) fs = raw_bytes blks fs"
  by (auto simp: raw_bytes_def frag_bytes_def frags_ok_def nth_append intro!: arg_cong [of _ _ concat])

lemma frag_sum_append: "i \<le> length fs \<Longrightarrow> frag_sum (fs @ gs) i = frag_sum fs i"
  by (simp add: frag_sum_def)

text \<open>One more fragment of fresh memory.\<close>

lemma add_fragment_inv:
  assumes inv: "fb_inv blks b" and room: "fb_nfragments b < fb_capacity b" and blk: "length blk = WRITE_FRAGMENT_SIZE"
    and cap: "capacity = frag_sum (frs b) (length (frs b))"
    and def: "b' = b\<lparr>fb_fragments := (fb_fragments b)[fb_nfragments b := (length blks, WRITE_FRAGMENT_SIZE)],
      fb_offsets := (fb_offsets b)[fb_nfragments b + 1 := capacity + WRITE_FRAGMENT_SIZE],
      fb_nfragments := fb_nfragments b + 1\<rparr>"
  shows "fb_inv (blks @ [blk]) b'" and "frs b' = frs b @ [(length blks, WRITE_FRAGMENT_SIZE)]"
    and "raw_bytes (blks @ [blk]) (frs b') = raw_bytes blks (frs b) @ blk"
proof -
  note i = fb_invD [OF inv]
  have lf: "length (fb_fragments b) = fb_capacity b" using inv by (simp add: fb_inv_def)
  show f: "frs b' = frs b @ [(length blks, WRITE_FRAGMENT_SIZE)]"
    using room lf by (simp add: frs_def def take_Suc_conv_app_nth)
  have ok: "frags_ok (blks @ [blk]) (frs b')"
    using i(4) blk unfolding f by (auto simp: frags_ok_def nth_append)
  have sum: "frag_sum (frs b') j = (if j \<le> fb_nfragments b then frag_sum (frs b) j else capacity + WRITE_FRAGMENT_SIZE)"
    if "j \<le> fb_nfragments b + 1" for j
    using that i(1) cap unfolding f by (auto simp: frag_sum_append) (simp add: frag_sum_def)
  have "fb_offsets b' ! j = frag_sum (frs b') j" if "j \<le> fb_nfragments b'" for j
    using that i(3) [of j] sum [of j] room inv by (auto simp: def fb_inv_def nth_list_update)
  moreover have "pos_ok (frs b') (fb_current b) (fb_offset b)"
  proof -
    have le: "fb_current b \<le> fb_nfragments b" using i(1,7) by (simp add: pos_ok_def)
    have "fb_offset b \<le> frag_sum (frs b') (Suc (fb_current b))"
    proof (cases "fb_current b < fb_nfragments b")
      case True
      then show ?thesis using i(1,7) sum [of "Suc (fb_current b)"] by (simp add: pos_ok_def)
    next
      case False
      then have "Suc (fb_current b) = fb_nfragments b + 1" using le by simp
      then show ?thesis using sum [of "fb_nfragments b + 1"] i(5,6) cap by simp
    qed
    then show ?thesis using i(1,7) sum [of "fb_current b"] le f by (simp add: pos_ok_def)
  qed
  moreover have "fb_size b \<le> frag_sum (frs b') (fb_nfragments b')"
    using sum [of "fb_nfragments b + 1"] i(5) cap by (simp add: def)
  ultimately show "fb_inv (blks @ [blk]) b'"
    using inv ok room by (simp add: fb_inv_def def)
  show "raw_bytes (blks @ [blk]) (frs b') = raw_bytes blks (frs b) @ blk"
    using raw_bytes_extend [OF i(4)] blk unfolding f by (simp add: frag_bytes_def nth_append)
qed

lemma add_fragments_inv:
  "fb_inv blks b \<Longrightarrow> fb_nfragments b + k \<le> fb_capacity b \<Longrightarrow> capacity = frag_sum (frs b) (length (frs b)) \<Longrightarrow>
   \<exists>b' blks' extra. add_fragments k [] b blks capacity = Some (True, b', blks', []) \<and> fb_inv blks' b'
     \<and> raw_bytes blks' (frs b') = raw_bytes blks (frs b) @ extra \<and> length extra = k * WRITE_FRAGMENT_SIZE
     \<and> fb_size b' = fb_size b \<and> fb_offset b' = fb_offset b \<and> fb_current b' = fb_current b
     \<and> fb_nfragments b' = fb_nfragments b + k"
proof (induction k arbitrary: b blks capacity)
  case 0
  then show ?case by auto
next
  case (Suc k)
  define blk where "blk = junk_bytes 0 WRITE_FRAGMENT_SIZE"
  define b1 where "b1 = b\<lparr>fb_fragments := (fb_fragments b)[fb_nfragments b := (length blks, WRITE_FRAGMENT_SIZE)],
      fb_offsets := (fb_offsets b)[fb_nfragments b + 1 := capacity + WRITE_FRAGMENT_SIZE],
      fb_nfragments := fb_nfragments b + 1\<rparr>"
  have room: "fb_nfragments b < fb_capacity b" using Suc.prems by simp
  have lblk: "length blk = WRITE_FRAGMENT_SIZE" by (simp add: blk_def)
  note a = add_fragment_inv [OF Suc.prems(1) room lblk Suc.prems(3) b1_def]
  have lens: "fb_nfragments b < length (fb_fragments b)" "fb_nfragments b + 1 < length (fb_offsets b)"
    using Suc.prems(1) room by (simp_all add: fb_inv_def)
  have step: "add_fragments (Suc k) [] b blks capacity = add_fragments k [] b1 (blks @ [blk]) (capacity + WRITE_FRAGMENT_SIZE)"
    using lens by (simp add: wr_def b1_def blk_def)
  have room1: "fb_nfragments b1 + k \<le> fb_capacity b1" using Suc.prems(2) by (simp add: b1_def)
  have cap1: "capacity + WRITE_FRAGMENT_SIZE = frag_sum (frs b1) (length (frs b1))"
    unfolding a(2) Suc.prems(3) by (simp add: frag_sum_def)
  from Suc.IH [OF a(1) room1 cap1] obtain b' blks' extra where r:
    "add_fragments k [] b1 (blks @ [blk]) (capacity + WRITE_FRAGMENT_SIZE) = Some (True, b', blks', [])" "fb_inv blks' b'"
    "raw_bytes blks' (frs b') = (raw_bytes blks (frs b) @ blk) @ extra" "length extra = k * WRITE_FRAGMENT_SIZE"
    "fb_size b' = fb_size b1" "fb_offset b' = fb_offset b1" "fb_current b' = fb_current b1"
    "fb_nfragments b' = fb_nfragments b1 + k" unfolding a(3) by blast
  show ?case
    unfolding step using r lblk by (intro exI [of _ b'] exI [of _ blks'] exI [of _ "blk @ extra"]) (simp add: b1_def)
qed

lemma buffer_write_spec:
  assumes inv: "fb_inv blks b" and data: "len \<le> length data"
    and small: "fb_offset b + len + WRITE_FRAGMENT_SIZE - 1 < 2 ^ 64"
  shows "\<exists>b' blks'. buffer_write [] blks b data len error = Some (int len, b', blks', error, []) \<and> fb_inv blks' b'
    \<and> fb_bytes blks' b' = take (fb_offset b) (fb_bytes blks b) @ take len data @ drop (fb_offset b + len) (fb_bytes blks b)
    \<and> fb_offset b' = fb_offset b + len \<and> fb_size b' = max (fb_size b) (fb_offset b + len)"
proof -
  note i = fb_invD [OF inv]
  let ?n = "fb_nfragments b"
  define cap where "cap = frag_sum (frs b) (length (frs b))"
  define needed where "needed = ?n + (len - (cap - fb_offset b) + WRITE_FRAGMENT_SIZE - 1) div WRITE_FRAGMENT_SIZE"
  have rdcap: "rd (fb_offsets b) ?n = Some cap" using i(1,2,3) by (simp add: rd_def cap_def)
  have nowrap: "\<not> (fb_offset b + len + WRITE_FRAGMENT_SIZE - 1) mod 2 ^ 64 < len" using small by simp
  have "\<exists>b1. (if fb_offset b + len > cap \<and> needed > fb_capacity b
             then buffer_grow_fragments [] b (grow_capacity (if fb_capacity b = 0 then 16 else fb_capacity b) needed) (Some error)
             else (True, b, Some error, [])) = (True, b1, Some error, [])
      \<and> fb_inv blks b1 \<and> (fb_offset b + len > cap \<longrightarrow> needed \<le> fb_capacity b1) \<and> frs b1 = frs b \<and> fb_size b1 = fb_size b
      \<and> fb_offset b1 = fb_offset b \<and> fb_current b1 = fb_current b \<and> fb_nfragments b1 = ?n"
  proof (cases "fb_offset b + len > cap \<and> needed > fb_capacity b")
    case True
    let ?c = "grow_capacity (if fb_capacity b = 0 then 16 else fb_capacity b) needed"
    have "needed \<le> ?c" "fb_capacity b \<le> ?c"
      using grow_capacity_ge [of "if fb_capacity b = 0 then 16 else fb_capacity b" needed] by (auto split: if_splits)
    with grow_fragments_inv [OF inv this(2), of "Some error"] True show ?thesis by auto
  qed (use inv in auto)
  then obtain b1 where b1: "(if fb_offset b + len > cap \<and> needed > fb_capacity b
             then buffer_grow_fragments [] b (grow_capacity (if fb_capacity b = 0 then 16 else fb_capacity b) needed) (Some error)
             else (True, b, Some error, [])) = (True, b1, Some error, [])"
    "fb_inv blks b1" "fb_offset b + len > cap \<Longrightarrow> needed \<le> fb_capacity b1" "frs b1 = frs b" "fb_size b1 = fb_size b"
    "fb_offset b1 = fb_offset b" "fb_current b1 = fb_current b" "fb_nfragments b1 = ?n" by blast
  have "\<exists>b2 blks2 extra. (if fb_offset b + len > cap then add_fragments (needed - fb_nfragments b1) [] b1 blks cap
             else Some (True, b1, blks, [])) = Some (True, b2, blks2, [])
      \<and> fb_inv blks2 b2 \<and> raw_bytes blks2 (frs b2) = raw_bytes blks (frs b) @ extra
      \<and> fb_offset b + len \<le> cap + length extra
      \<and> fb_size b2 = fb_size b \<and> fb_offset b2 = fb_offset b \<and> fb_current b2 = fb_current b"
  proof (cases "fb_offset b + len > cap")
    case True
    let ?k = "needed - fb_nfragments b1"
    have "cap = frag_sum (frs b1) (length (frs b1))" by (simp add: b1(4) cap_def)
    moreover have "fb_nfragments b1 \<le> needed" by (simp add: needed_def b1(8))
    then have "fb_nfragments b1 + ?k \<le> fb_capacity b1" using b1(3) [OF True] by simp
    ultimately obtain b2 blks2 extra where r: "add_fragments ?k [] b1 blks cap = Some (True, b2, blks2, [])" "fb_inv blks2 b2"
      "raw_bytes blks2 (frs b2) = raw_bytes blks (frs b1) @ extra" "length extra = ?k * WRITE_FRAGMENT_SIZE"
      "fb_size b2 = fb_size b1" "fb_offset b2 = fb_offset b1" "fb_current b2 = fb_current b1"
      using add_fragments_inv [OF b1(2)] by blast
    define x where "x = len - (cap - fb_offset b)"
    have "?k = (x + WRITE_FRAGMENT_SIZE - 1) div WRITE_FRAGMENT_SIZE" by (simp add: needed_def b1(8) x_def)
    moreover have "x \<le> (x + WRITE_FRAGMENT_SIZE - 1) div WRITE_FRAGMENT_SIZE * WRITE_FRAGMENT_SIZE" by linarith
    ultimately have "x \<le> length extra" using r(4) by simp
    then have "fb_offset b + len \<le> cap + length extra" using i(5,6) by (simp add: x_def cap_def)
    then show ?thesis using r True
      by (intro exI [of _ b2] exI [of _ blks2] exI [of _ extra]) (simp add: b1(4-7))
  next
    case False
    then show ?thesis using b1(2)
      by (intro exI [of _ b1] exI [of _ blks] exI [of _ "[]"]) (simp add: b1(4-7))
  qed
  then obtain b2 blks2 extra where b2: "(if fb_offset b + len > cap then add_fragments (needed - fb_nfragments b1) [] b1 blks cap
             else Some (True, b1, blks, [])) = Some (True, b2, blks2, [])"
    "fb_inv blks2 b2" "raw_bytes blks2 (frs b2) = raw_bytes blks (frs b) @ extra"
    "fb_offset b + len \<le> cap + length extra"
    "fb_size b2 = fb_size b" "fb_offset b2 = fb_offset b" "fb_current b2 = fb_current b" by blast
  note j = fb_invD [OF b2(2)]
  let ?o = "frag_sum (frs b2) (fb_current b2)"
  have pos: "?o + (fb_offset b2 - ?o) = fb_offset b" using j(10) b2(6) by simp
  have raw: "length (raw_bytes blks (frs b)) = cap" using i(8) by (simp add: cap_def)
  have total: "frag_sum (frs b2) (length (frs b2)) = cap + length extra" using j(8) b2(3) raw by simp
  have p2: "pos_ok (frs b2) (fb_current b2) (?o + (fb_offset b2 - ?o))" using j(7,10) by simp
  have l2: "?o + (fb_offset b2 - ?o) + (len - 0) \<le> frag_sum (frs b2) (length (frs b2))"
    unfolding pos total using b2(4) by simp
  from write_frags_correct [OF refl j(4,1) le0 [of len] data p2 l2]
  obtain blks3 k where w: "write_frags b2 data len (fb_current b2) (fb_offset b2 - ?o) 0 blks2 = Some (blks3, k)"
    "frags_ok blks3 (frs b2)" "length blks3 = length blks2"
    "raw_bytes blks3 (frs b2) = take (fb_offset b) (raw_bytes blks2 (frs b2)) @ take len data
       @ drop (fb_offset b + len) (raw_bytes blks2 (frs b2))"
    "pos_ok (frs b2) k (fb_offset b + len)" unfolding pos by auto
  let ?b = "b2\<lparr>fb_offset := fb_offset b2 + len, fb_current := k, fb_size := max (fb_size b2) (fb_offset b2 + len)\<rparr>"
  have f: "frs ?b = frs b2" by (simp add: frs_def)
  have "fb_inv blks3 ?b"
    using b2(2) w(2,5) b2(4) j(1) total unfolding fb_inv_def f by (auto simp: b2(5,6))
  moreover have "buffer_write [] blks b data len error = Some (int len, ?b, blks3, error, [])"
    unfolding buffer_write_def Let_def if_not_P [OF nowrap] rdcap option.case needed_def [symmetric] b1(1) prod.case bool.case
      b2(1) j(9)
    using j(10) w(1) by simp
  moreover have "fb_bytes blks3 ?b = take (fb_offset b) (fb_bytes blks b) @ take len data @ drop (fb_offset b + len) (fb_bytes blks b)"
  proof -
    have o: "fb_offset b \<le> cap" "fb_size b \<le> cap" "fb_offset b \<le> fb_size b" using i(5,6) by (simp_all add: cap_def)
    have lt: "length (take len data) = len" using data by simp
    have toff: "length (take (fb_offset b) (raw_bytes blks (frs b))) = fb_offset b"
      "take (fb_offset b) (raw_bytes blks (frs b) @ extra) = take (fb_offset b) (raw_bytes blks (frs b))"
      using o raw by simp_all
    have "fb_bytes blks3 ?b = take (max (fb_size b) (fb_offset b + len))
       (take (fb_offset b) (raw_bytes blks (frs b)) @ take len data @ drop (fb_offset b + len) (raw_bytes blks (frs b) @ extra))"
      unfolding fb_bytes_def f w(4) b2(3) toff by (simp add: b2(5,6))
    also have "\<dots> = take (fb_offset b) (raw_bytes blks (frs b)) @ take len data
        @ take (fb_size b - (fb_offset b + len)) (drop (fb_offset b + len) (raw_bytes blks (frs b)))"
    proof (cases "fb_offset b + len \<le> fb_size b")
      case True
      then have "max (fb_size b) (fb_offset b + len) = fb_offset b + len + (fb_size b - (fb_offset b + len))" by simp
      with True show ?thesis using o toff(1) lt raw by (simp add: take_add)
    next
      case False
      then have "max (fb_size b) (fb_offset b + len) = fb_offset b + len" "fb_size b - (fb_offset b + len) = 0" by simp_all
      then show ?thesis using toff(1) lt by simp
    qed
    finally have "fb_bytes blks3 ?b = take (fb_offset b) (raw_bytes blks (frs b)) @ take len data
        @ take (fb_size b - (fb_offset b + len)) (drop (fb_offset b + len) (raw_bytes blks (frs b)))" .
    then show ?thesis using o by (simp add: fb_bytes_def drop_take min_def)
  qed
  ultimately show ?thesis by (intro exI [of _ ?b] exI [of _ blks3]) (simp add: b2(5,6))
qed

lemma seek_offset_snd:
  "0 \<le> fst (zip_source_seek_compute_offset offset len data n error) \<Longrightarrow>
    snd (zip_source_seek_compute_offset offset len data n error) = error"
  by (auto simp: zip_source_seek_compute_offset_def Let_def split: zip_source_data.splits option.splits if_splits)

lemma buffer_seek_spec:
  assumes inv: "fb_inv blks b" and small: "fb_size b \<le> ZIP_INT64_MAX" and p: "p \<le> fb_size b"
  shows "\<exists>b'. buffer_seek b (SD_Seek (int p) SEEK_SET) sizeof_args_seek error = Some (0, b', error)
    \<and> fb_inv blks b' \<and> fb_bytes blks b' = fb_bytes blks b \<and> fb_size b' = fb_size b \<and> fb_offset b' = p"
proof -
  have u: "unat (word_of_nat (fb_size b) :: u64) = fb_size b" "unat (word_of_nat (fb_offset b) :: u64) = fb_offset b"
    using small fb_invD(6) [OF inv] by (simp_all add: unsigned_of_nat take_bit_nat_eq_self)
  define off :: u64 where "off = word_of_nat (fb_offset b)"
  define sz :: u64 where "sz = word_of_nat (fb_size b)"
  have us: "unat sz = fb_size b" unfolding sz_def by (rule u(1))
  have ui: "uint sz = int (fb_size b)" unfolding us [symmetric] by (rule uint_nat)
  have pre: "unat off \<le> unat sz" "unat sz \<le> ZIP_INT64_MAX" "- (2 ^ 63) \<le> int p" "int p < 2 ^ 63" "SEEK_SET \<in> {SEEK_SET, SEEK_CUR, SEEK_END}"
    using u small p fb_invD(6) [OF inv] by (simp_all add: off_def sz_def)
  have f: "fst (zip_source_seek_compute_offset off sz (SD_Seek (int p) SEEK_SET) sizeof_args_seek error) = int p"
    unfolding seek_offset_exact [OF pre] Let_def ui using p by simp
  then have "snd (zip_source_seek_compute_offset off sz (SD_Seek (int p) SEEK_SET) sizeof_args_seek error) = error"
    by (intro seek_offset_snd) simp
  with f have c: "zip_source_seek_compute_offset off sz (SD_Seek (int p) SEEK_SET) sizeof_args_seek error = (int p, error)"
    by (rule prod_eqI [of _ "(int p, error)", unfolded fst_conv snd_conv])
  obtain r where r: "buffer_find_fragment b p = Some r" "pos_ok (frs b) r p"
    using buffer_find_fragment_correct [OF inv p] by blast
  let ?b = "b\<lparr>fb_offset := p, fb_current := r\<rparr>"
  have f: "frs ?b = frs b" by (simp add: frs_def)
  have "fb_inv blks ?b" using inv r(2) p by (simp add: fb_inv_def f)
  moreover have "buffer_seek b (SD_Seek (int p) SEEK_SET) sizeof_args_seek error = Some (0, ?b, error)"
    unfolding buffer_seek_def off_def [symmetric] sz_def [symmetric] c using r(1) by simp
  ultimately show ?thesis by (intro exI [of _ ?b]) (simp add: fb_bytes_def f)
qed

section \<open>The interface of a byte device\<close>

text \<open>
  What the users of such a source rely on: content with a position, reads and writes there, and
  seeking to any position up to the end; writes below a limit succeed.
\<close>

fun write_all :: "('s \<Rightarrow> bytes \<Rightarrow> 's option) \<Rightarrow> 's \<Rightarrow> bytes list \<Rightarrow> 's option" where
  "write_all w s [] = Some s"
| "write_all w s (b # bs) = (case w s b of None \<Rightarrow> None | Some s' \<Rightarrow> write_all w s' bs)"

locale byte_device =
  fixes read :: "'s \<Rightarrow> nat \<Rightarrow> (bytes \<times> 's) option"
    and store :: "'s \<Rightarrow> bytes \<Rightarrow> 's option"
    and seek :: "'s \<Rightarrow> nat \<Rightarrow> 's option"
    and inv :: "'s \<Rightarrow> bool"
    and content :: "'s \<Rightarrow> bytes"
    and pos :: "'s \<Rightarrow> nat"
    and limit :: nat
  assumes read_law: "inv s \<Longrightarrow> length (content s) < limit \<Longrightarrow> \<exists>s'. read s n = Some (take n (drop (pos s) (content s)), s')
      \<and> inv s' \<and> content s' = content s \<and> pos s' = min (pos s + n) (length (content s))"
    and write_law: "inv s \<Longrightarrow> pos s + length bs < limit \<Longrightarrow> \<exists>s'. store s bs = Some s' \<and> inv s'
      \<and> content s' = take (pos s) (content s) @ bs @ drop (pos s + length bs) (content s) \<and> pos s' = pos s + length bs"
    and seek_law: "inv s \<Longrightarrow> length (content s) < limit \<Longrightarrow> p \<le> length (content s) \<Longrightarrow>
      \<exists>s'. seek s p = Some s' \<and> inv s' \<and> content s' = content s \<and> pos s' = p"
    and pos_law: "inv s \<Longrightarrow> pos s \<le> length (content s)"
begin

text \<open>What was written is read back after seeking to where it was written.\<close>

lemma write_seek_read:
  assumes "inv s" and "pos s + length bs < limit" and "length (content s) < limit"
  shows "\<exists>s1 s2 s3. store s bs = Some s1 \<and> seek s1 (pos s) = Some s2 \<and> read s2 (length bs) = Some (bs, s3) \<and> inv s3
    \<and> content s3 = content s1"
proof -
  from write_law [OF assms(1,2)] obtain s1 where s1: "store s bs = Some s1" "inv s1"
    "content s1 = take (pos s) (content s) @ bs @ drop (pos s + length bs) (content s)" "pos s1 = pos s + length bs" by blast
  have p: "pos s \<le> length (content s)" by (rule pos_law [OF assms(1)])
  then have l: "length (content s1) < limit" "pos s \<le> length (content s1)" using s1(3) assms(2,3) by auto
  from seek_law [OF s1(2) l] obtain s2 where s2: "seek s1 (pos s) = Some s2" "inv s2" "content s2 = content s1" "pos s2 = pos s"
    by blast
  from read_law [OF s2(2), of "length bs"] l s2(3) obtain s3 where s3:
    "read s2 (length bs) = Some (take (length bs) (drop (pos s) (content s1)), s3)" "inv s3" "content s3 = content s1"
    unfolding s2(3,4) by blast
  have "take (length bs) (drop (pos s) (content s1)) = bs" using p unfolding s1(3) by simp
  with s1 s2 s3 show ?thesis by auto
qed

text \<open>Writing pieces one after the other at the end appends their concatenation.\<close>

lemma write_all_appends:
  "inv s \<Longrightarrow> pos s = length (content s) \<Longrightarrow> length (content s) + length (concat bs) < limit \<Longrightarrow>
    \<exists>s'. write_all store s bs = Some s' \<and> inv s' \<and> content s' = content s @ concat bs \<and> pos s' = length (content s')"
proof (induction bs arbitrary: s)
  case (Cons b bs)
  have "pos s + length b < limit" using Cons.prems by simp
  from write_law [OF Cons.prems(1) this] obtain s1 where s1: "store s b = Some s1" "inv s1"
    "content s1 = content s @ b" "pos s1 = length (content s1)" using Cons.prems(2) by auto
  from Cons.IH [OF s1(2,4)] s1(3) Cons.prems(3) obtain s' where "write_all store s1 bs = Some s'" "inv s'"
    "content s' = content s1 @ concat bs" "pos s' = length (content s')" by auto
  with s1 show ?case by auto
qed auto

end

text \<open>The device a fragment buffer and its blocks make, with all allocations answered.\<close>

definition dev_read :: "blocks \<times> frag_buffer \<Rightarrow> nat \<Rightarrow> (bytes \<times> (blocks \<times> frag_buffer)) option" where
  "dev_read s n = (case buffer_read (fst s) (snd s) n of
     Some (r, bs, b) \<Rightarrow> if r < 0 then None else Some (bs, (fst s, b)) | None \<Rightarrow> None)"

definition dev_write :: "blocks \<times> frag_buffer \<Rightarrow> bytes \<Rightarrow> (blocks \<times> frag_buffer) option" where
  "dev_write s bs = (case buffer_write [] (fst s) (snd s) bs (length bs) zip_error_init of
     Some (r, b, blks, e, m) \<Rightarrow> if r < 0 then None else Some (blks, b) | None \<Rightarrow> None)"

definition dev_seek :: "blocks \<times> frag_buffer \<Rightarrow> nat \<Rightarrow> (blocks \<times> frag_buffer) option" where
  "dev_seek s p = (case buffer_seek (snd s) (SD_Seek (int p) SEEK_SET) sizeof_args_seek zip_error_init of
     Some (r, b, e) \<Rightarrow> if r < 0 then None else Some (fst s, b) | None \<Rightarrow> None)"

interpretation bd: byte_device dev_read dev_write dev_seek "\<lambda>s. fb_inv (fst s) (snd s)" "\<lambda>s. fb_bytes (fst s) (snd s)"
  "\<lambda>s. fb_offset (snd s)" "2 ^ 63"
proof unfold_locales
  fix s :: "blocks \<times> frag_buffer" and n p :: nat and bs :: bytes
  assume inv: "fb_inv (fst s) (snd s)"
  note len = length_fb_bytes [OF inv] and i = fb_invD(6) [OF inv]
  show "fb_offset (snd s) \<le> length (fb_bytes (fst s) (snd s))" using len i by simp
  show "\<exists>s'. dev_read s n = Some (take n (drop (fb_offset (snd s)) (fb_bytes (fst s) (snd s))), s')
      \<and> fb_inv (fst s') (snd s') \<and> fb_bytes (fst s') (snd s') = fb_bytes (fst s) (snd s)
      \<and> fb_offset (snd s') = min (fb_offset (snd s) + n) (length (fb_bytes (fst s) (snd s)))"
    if "length (fb_bytes (fst s) (snd s)) < 2 ^ 63"
  proof -
    have "fb_size (snd s) \<le> ZIP_INT64_MAX" using that len by simp
    from buffer_read_spec [OF inv this, of n] obtain b' where
      "buffer_read (fst s) (snd s) n = Some (int (min n (fb_size (snd s) - fb_offset (snd s))),
         take n (drop (fb_offset (snd s)) (fb_bytes (fst s) (snd s))), b')" "fb_inv (fst s) b'"
      "fb_bytes (fst s) b' = fb_bytes (fst s) (snd s)"
      "fb_offset b' = fb_offset (snd s) + min n (fb_size (snd s) - fb_offset (snd s))" by blast
    then show ?thesis using len i by (intro exI [of _ "(fst s, b')"]) (auto simp: dev_read_def min_def)
  qed
  show "\<exists>s'. dev_write s bs = Some s' \<and> fb_inv (fst s') (snd s')
      \<and> fb_bytes (fst s') (snd s') = take (fb_offset (snd s)) (fb_bytes (fst s) (snd s)) @ bs
          @ drop (fb_offset (snd s) + length bs) (fb_bytes (fst s) (snd s))
      \<and> fb_offset (snd s') = fb_offset (snd s) + length bs"
    if "fb_offset (snd s) + length bs < 2 ^ 63"
  proof -
    have "fb_offset (snd s) + length bs + WRITE_FRAGMENT_SIZE - 1 < 2 ^ 64" using that by simp
    from buffer_write_spec [OF inv order_refl this, of zip_error_init] obtain b' blks' where
      "buffer_write [] (fst s) (snd s) bs (length bs) zip_error_init = Some (int (length bs), b', blks', zip_error_init, [])"
      "fb_inv blks' b'" "fb_bytes blks' b' = take (fb_offset (snd s)) (fb_bytes (fst s) (snd s)) @ bs
         @ drop (fb_offset (snd s) + length bs) (fb_bytes (fst s) (snd s))" "fb_offset b' = fb_offset (snd s) + length bs"
      by auto
    then show ?thesis by (intro exI [of _ "(blks', b')"]) (simp add: dev_write_def)
  qed
  show "\<exists>s'. dev_seek s p = Some s' \<and> fb_inv (fst s') (snd s')
      \<and> fb_bytes (fst s') (snd s') = fb_bytes (fst s) (snd s) \<and> fb_offset (snd s') = p"
    if "length (fb_bytes (fst s) (snd s)) < 2 ^ 63" "p \<le> length (fb_bytes (fst s) (snd s))"
  proof -
    have "fb_size (snd s) \<le> ZIP_INT64_MAX" "p \<le> fb_size (snd s)" using that len by simp_all
    from buffer_seek_spec [OF inv this, of zip_error_init] obtain b' where
      "buffer_seek (snd s) (SD_Seek (int p) SEEK_SET) sizeof_args_seek zip_error_init = Some (0, b', zip_error_init)"
      "fb_inv (fst s) b'" "fb_bytes (fst s) b' = fb_bytes (fst s) (snd s)" "fb_offset b' = p" by blast
    then show ?thesis by (intro exI [of _ "(fst s, b')"]) (simp add: dev_seek_def)
  qed
qed

section \<open>Creation\<close>

text \<open>
  Fragments with data make a well-formed buffer with the concatenation of their bytes, once its
  cursor is set as \<open>read_data\<close> does when it is opened.
\<close>

definition given :: "(nat \<times> nat) list \<Rightarrow> (nat option \<times> nat) list" where
  "given fs = map (\<lambda>(d, l). (Some d, l)) fs"

lemma new_loop_correct:
  "list_all (\<lambda>fr. 0 < snd fr) fs \<Longrightarrow> j + length fs \<le> length (fb_fragments b) \<Longrightarrow> j + length fs \<le> length (fb_offsets b) \<Longrightarrow>
   new_loop (given fs) j j offset b = Some (True, j + length fs, offset + sum_list (map snd fs),
     b\<lparr>fb_fragments := take j (fb_fragments b) @ fs @ drop (j + length fs) (fb_fragments b),
       fb_offsets := take j (fb_offsets b) @ map (\<lambda>i. offset + frag_sum fs i) [0..<length fs] @ drop (j + length fs) (fb_offsets b)\<rparr>)"
proof (induction fs arbitrary: j offset b)
  case Nil
  then show ?case by (simp add: given_def)
next
  case (Cons fr fs)
  obtain d l where fr: "fr = (d, l)" by (cases fr)
  have l: "l \<noteq> 0" using Cons.prems(1) fr by simp
  have j: "j < length (fb_fragments b)" "j < length (fb_offsets b)" using Cons.prems(2,3) by simp_all
  let ?b = "b\<lparr>fb_fragments := (fb_fragments b)[j := (d, l)], fb_offsets := (fb_offsets b)[j := offset]\<rparr>"
  have step: "new_loop (given (fr # fs)) j j offset b = new_loop (given fs) (Suc j) (Suc j) (offset + l) ?b"
    using l j by (simp add: given_def fr wr_def)
  have ih: "new_loop (given fs) (Suc j) (Suc j) (offset + l) ?b = Some (True, Suc j + length fs, offset + l + sum_list (map snd fs),
     ?b\<lparr>fb_fragments := take (Suc j) (fb_fragments ?b) @ fs @ drop (Suc j + length fs) (fb_fragments ?b),
       fb_offsets := take (Suc j) (fb_offsets ?b) @ map (\<lambda>i. offset + l + frag_sum fs i) [0..<length fs]
         @ drop (Suc j + length fs) (fb_offsets ?b)\<rparr>)"
    using Cons.prems by (intro Cons.IH) simp_all
  have m: "map (\<lambda>i. offset + frag_sum (fr # fs) i) [0..<length (fr # fs)]
      = offset # map (\<lambda>i. offset + l + frag_sum fs i) [0..<length fs]"
    by (simp add: map_upt_Suc frag_sum_def fr add.assoc del: upt_Suc)
  show ?case
    unfolding step ih m using j by (simp add: fr take_Suc_conv_app_nth add.assoc)
qed

lemma buffer_new_spec:
  assumes fs: "frags_ok blks fs" "fs \<noteq> []"
  shows "\<exists>b. buffer_new [] (given fs) free error = Some (Some b, error, [])
    \<and> fb_inv blks (b\<lparr>fb_offset := 0, fb_current := 0\<rparr>)
    \<and> fb_bytes blks (b\<lparr>fb_offset := 0, fb_current := 0\<rparr>) = raw_bytes blks fs"
proof -
  let ?n = "length fs"
  let ?b0 = "\<lparr>fb_fragments = [], fb_offsets = [], fb_nfragments = 0, fb_capacity = 0, fb_first_owned = 0,
                  fb_shared_fragments = 0, fb_shared = False, fb_size = 0, fb_offset = 0, fb_current = 0\<rparr>"
  let ?b1 = "?b0\<lparr>fb_fragments := replicate ?n (0, 0), fb_offsets := replicate (Suc ?n) 0, fb_capacity := ?n\<rparr>"
  have pos: "list_all (\<lambda>fr. 0 < snd fr) fs" using fs(1) by (auto simp: frags_ok_def list_all_iff)
  have ln: "length (given fs) = ?n" "given fs \<noteq> []" using fs(2) by (simp_all add: given_def)
  have grow: "buffer_grow_fragments [] ?b0 ?n None = (True, ?b1, None, [])"
    by (simp add: buffer_grow_fragments_def Let_def resize_array_def)
  have loop: "new_loop (given fs) 0 0 0 ?b1 = Some (True, ?n, sum_list (map snd fs),
     ?b1\<lparr>fb_fragments := fs, fb_offsets := map (frag_sum fs) [0..<?n] @ [0]\<rparr>)"
    using new_loop_correct [OF pos, of 0 ?b1 0] by (simp add: replicate_append_same [symmetric] del: replicate_append_same)
  define offs where "offs = map (frag_sum fs) [0..<?n] @ [sum_list (map snd fs)]"
  have w: "wr (map (frag_sum fs) [0..<?n] @ [0]) ?n (sum_list (map snd fs)) = Some offs"
    using list_update_length [of "map (frag_sum fs) [0..<?n]" 0 "[]"] by (simp add: wr_def offs_def)
  define b where "b = ?b1\<lparr>fb_fragments := fs, fb_nfragments := ?n, fb_first_owned := (if free then 0 else ?n),
    fb_offsets := offs, fb_size := sum_list (map snd fs)\<rparr>"
  have r: "buffer_new [] (given fs) free error = Some (Some b, error, [])"
    using ln grow loop w by (simp add: buffer_new_def Let_def b_def)
  let ?b = "b\<lparr>fb_offset := 0, fb_current := 0\<rparr>"
  have f: "frs ?b = fs" by (simp add: frs_def b_def)
  have total: "frag_sum fs ?n = sum_list (map snd fs)" by (simp add: frag_sum_def)
  have "offs ! i = frag_sum fs i" if "i \<le> ?n" for i
    using that total by (cases "i = ?n") (simp_all add: offs_def nth_append)
  then have "fb_inv blks ?b"
    unfolding fb_inv_def f using fs total by (simp add: b_def offs_def pos_ok_def)
  moreover have "fb_bytes blks ?b = raw_bytes blks fs"
    using length_raw [OF fs(1)] total unfolding fb_bytes_def f by (simp add: b_def)
  ultimately show ?thesis using r by blast
qed

lemma find_loop_range:
  "find_loop offs n offset low high = Some r \<Longrightarrow> low < n \<Longrightarrow> high < n \<Longrightarrow> r < n"
proof (induction offs n offset low high rule: find_loop.induct)
  case (1 offs n offset low high)
  show ?case
  proof (cases "low < high")
    case False
    with 1(3-5) show ?thesis by (simp add: find_loop.simps)
  next
    case True
    define mid where "mid = (high - low) div 2 + low"
    have mid: "low \<le> mid" "mid < high" using True by (auto simp: mid_def)
    from 1(1,2) [OF True mid_def] 1(3-5) True mid show ?thesis
      by (subst (asm) (3) find_loop.simps) (auto simp: mid_def [symmetric] Let_def split: option.splits if_splits)
  qed
qed

section \<open>Properties\<close>

text \<open>
  C7. A buffer of fragments is a byte string with a position, for as long as allocations succeed
  and positions stay below 2^63: bytes written, across any number of fragments and with growth, are
  exactly what a read after seeking back gives, and the rest of the string is untouched.
\<close>

theorem buffer_write_seek_read:
  assumes "fb_inv blks b" and "fb_offset b + length bs < 2 ^ 63" and "fb_size b < 2 ^ 63"
  shows "\<exists>b1 blks1 b2 b3.
      buffer_write [] blks b bs (length bs) zip_error_init = Some (int (length bs), b1, blks1, zip_error_init, [])
    \<and> buffer_seek b1 (SD_Seek (int (fb_offset b)) SEEK_SET) sizeof_args_seek zip_error_init = Some (0, b2, zip_error_init)
    \<and> buffer_read blks1 b2 (length bs) = Some (int (length bs), bs, b3)
    \<and> fb_bytes blks1 b3 = take (fb_offset b) (fb_bytes blks b) @ bs @ drop (fb_offset b + length bs) (fb_bytes blks b)"
proof -
  note i = fb_invD(6) [OF assms(1)] and len = length_fb_bytes [OF assms(1)]
  have "fb_offset b + length bs + WRITE_FRAGMENT_SIZE - 1 < 2 ^ 64" using assms(2) by simp
  from buffer_write_spec [OF assms(1) order_refl this, of zip_error_init] obtain b1 blks1 where
    b1: "buffer_write [] blks b bs (length bs) zip_error_init = Some (int (length bs), b1, blks1, zip_error_init, [])"
      "fb_inv blks1 b1" "fb_bytes blks1 b1 = take (fb_offset b) (fb_bytes blks b) @ bs @ drop (fb_offset b + length bs) (fb_bytes blks b)"
      "fb_size b1 = max (fb_size b) (fb_offset b + length bs)" by auto
  have s1: "fb_size b1 \<le> ZIP_INT64_MAX" "fb_offset b \<le> fb_size b1" using assms(2,3) i b1(4) by simp_all
  from buffer_seek_spec [OF b1(2) s1, of zip_error_init] obtain b2 where
    b2: "buffer_seek b1 (SD_Seek (int (fb_offset b)) SEEK_SET) sizeof_args_seek zip_error_init = Some (0, b2, zip_error_init)"
      "fb_inv blks1 b2" "fb_bytes blks1 b2 = fb_bytes blks1 b1" "fb_size b2 = fb_size b1" "fb_offset b2 = fb_offset b" by blast
  have "fb_size b2 \<le> ZIP_INT64_MAX" using b2(4) s1 by simp
  from buffer_read_spec [OF b2(2) this, of "length bs"] obtain b3 where
    b3: "buffer_read blks1 b2 (length bs) = Some (int (min (length bs) (fb_size b2 - fb_offset b2)),
        take (length bs) (drop (fb_offset b2) (fb_bytes blks1 b2)), b3)" "fb_bytes blks1 b3 = fb_bytes blks1 b2" by blast
  have "min (length bs) (fb_size b2 - fb_offset b2) = length bs" using b1(4) b2(4,5) by simp
  moreover have "take (length bs) (drop (fb_offset b2) (fb_bytes blks1 b2)) = bs"
    unfolding b2(3,5) b1(3) using i len by simp
  ultimately show ?thesis using b1(1,3) b2(1,3) b3 by auto
qed

definition empty_buffer :: frag_buffer where
  "empty_buffer = \<lparr>fb_fragments = [], fb_offsets = [0], fb_nfragments = 0, fb_capacity = 0, fb_first_owned = 0,
     fb_shared_fragments = 0, fb_shared = False, fb_size = 0, fb_offset = 0, fb_current = 0\<rparr>"

lemma empty_buffer_inv: "fb_inv blks empty_buffer"
  by (simp add: fb_inv_def empty_buffer_def frs_def frags_ok_def pos_ok_def)

theorem buffer_write_seek_read_witness:
  "\<exists>b1 blks1. buffer_write [] [] empty_buffer [1, 2, 3] 3 zip_error_init = Some (3, b1, blks1, zip_error_init, [])
    \<and> (\<exists>b2 b3. buffer_seek b1 (SD_Seek 0 SEEK_SET) sizeof_args_seek zip_error_init = Some (0, b2, zip_error_init)
         \<and> buffer_read blks1 b2 3 = Some (3, [1, 2, 3], b3))"
proof -
  have e: "fb_offset empty_buffer = 0" "fb_size empty_buffer = 0" by (simp_all add: empty_buffer_def)
  have l: "length [1 :: u8, 2, 3] = 3" by simp
  have "fb_offset empty_buffer + length [1 :: u8, 2, 3] < 2 ^ 63" "fb_size empty_buffer < 2 ^ 63" by (simp_all add: e)
  note r = buffer_write_seek_read [OF empty_buffer_inv [of "[]"] this, unfolded e l]
  have "int 0 = 0" "int 3 = 3" by simp_all
  from r [unfolded this] show ?thesis by blast
qed

text \<open>
  C28. A buffer made of non-empty fragments (each with its own block) holds the concatenation of
  their bytes, and its tables are well formed for the search and the copying loops.
\<close>

theorem buffer_new_contents:
  assumes "frags_ok blks fs" and "fs \<noteq> []"
  shows "\<exists>b. buffer_new [] (map (\<lambda>(d, l). (Some d, l)) fs) free error = Some (Some b, error, [])
    \<and> fb_inv blks (b\<lparr>fb_offset := 0, fb_current := 0\<rparr>)
    \<and> fb_bytes blks (b\<lparr>fb_offset := 0, fb_current := 0\<rparr>) = concat (map (\<lambda>(d, l). take l (blks ! d)) fs)"
  using buffer_new_spec [OF assms, of free error]
  by (simp add: given_def raw_bytes_def frag_bytes_def [abs_def] case_prod_unfold)

theorem buffer_new_contents_witness:
  "\<exists>b. buffer_new [] [(Some 0, 2), (Some 1, 1)] False None = Some (Some b, None, [])
    \<and> fb_bytes [[7, 8], [9, 9]] (b\<lparr>fb_offset := 0, fb_current := 0\<rparr>) = [7, 8, 9]"
proof -
  have "frags_ok [[7, 8], [9, 9]] [(0, 2), (1, 1)]" by (simp add: frags_ok_def)
  from buffer_new_contents [OF this, of False None] show ?thesis by auto
qed

text \<open>
  When a fragment given to \<open>buffer_new\<close> is empty, the offset of the next one is stored at the
  number it has among the fragments given rather than among those kept: with an empty first
  fragment, the offset of the first kept one is never written and stays what malloc left there.
\<close>

theorem buffer_new_empty_fragment:
  "\<exists>b m. buffer_new [Some x, Some y, Some z] [(Some 0, 0), (Some 1, 3)] free None = Some (Some b, None, m)
    \<and> fb_nfragments b = 1 \<and> frs b = [(1, 3)] \<and> fb_offsets b ! 0 = z"
  by (simp add: buffer_new_def buffer_grow_fragments_def resize_array_def wr_def Let_def frs_def)

text \<open>
  \<open>buffer_find_fragment\<close> ends and, on a well-formed buffer, returns a fragment whose range
  holds the offset (the last one for the end of the data); its subtraction never wraps.
\<close>

theorem buffer_find_fragment_finds:
  assumes "fb_inv blks b" and "offset \<le> fb_size b" and "0 < fb_size b"
  shows "\<exists>i < fb_nfragments b. buffer_find_fragment b offset = Some i
    \<and> fb_offsets b ! i \<le> offset \<and> offset \<le> fb_offsets b ! (i + 1)"
proof -
  note inv = fb_invD [OF assms(1)]
  have n: "fb_nfragments b \<noteq> 0" using inv(1,5) assms(3) by (intro notI) simp
  note o = inv(3)
  have le: "offset \<le> frag_sum (frs b) (fb_nfragments b)" using inv(1,5) assms(2) by simp
  obtain i where i: "buffer_find_fragment b offset = Some i" "pos_ok (frs b) i offset"
    using buffer_find_fragment_correct [OF assms(1,2)] by blast
  have "find_loop (fb_offsets b) (fb_nfragments b) offset 0 (fb_nfragments b - 1) = Some i"
    using i(1) n by (simp add: buffer_find_fragment_def)
  then have "i < fb_nfragments b" using find_loop_range [of "fb_offsets b" "fb_nfragments b" offset 0 "fb_nfragments b - 1" i] n
    by simp
  then show ?thesis using i o inv(1) by (auto simp: pos_ok_def)
qed

theorem buffer_find_fragment_finds_witness:
  "\<exists>i<2. buffer_find_fragment \<lparr>fb_fragments = [(0, 2), (1, 1)], fb_offsets = [0, 2, 3], fb_nfragments = 2, fb_capacity = 2,
     fb_first_owned = 0, fb_shared_fragments = 0, fb_shared = False, fb_size = 3, fb_offset = 0, fb_current = 0\<rparr> 2 = Some i"
proof -
  let ?b = "\<lparr>fb_fragments = [(0, 2), (1, 1)], fb_offsets = [0, 2, 3], fb_nfragments = 2, fb_capacity = 2,
     fb_first_owned = 0, fb_shared_fragments = 0, fb_shared = False, fb_size = 3, fb_offset = 0, fb_current = 0\<rparr>"
  have "fb_inv [[7, 8], [9]] ?b"
    by (simp add: fb_inv_def frs_def frags_ok_def pos_ok_def frag_sum_def le_Suc_eq numeral_eq_Suc)
  from buffer_find_fragment_finds [OF this, of 2] show ?thesis by auto
qed

end
