(* ===== verification/Zip_Types.thy ===== *)
theory Zip_Types
  imports Zip_Hash Zip_String Zip_Source
begin

text \<open>
  The structures of lib/zipint.h that the archive components share: extra fields, directory
  entries, the central directory and the archive itself, with the flag constants of zip.h and
  zipint.h. Strings and lists of extra fields are values: where the C shares one between an
  original entry and its clone, the sharing is only observable through the cached encoding of a
  string. The array of entries is the list of its \<open>nentry\<close> used elements, with the allocated
  capacity beside it. The progress callback and the list of open sources are not part of the record.
\<close>

section \<open>Flags and limits\<close>

abbreviation ZIP_FL_NOCASE :: u32 where "ZIP_FL_NOCASE \<equiv> 1"
abbreviation ZIP_FL_NODIR :: u32 where "ZIP_FL_NODIR \<equiv> 2"
abbreviation ZIP_FL_LOCAL :: u32 where "ZIP_FL_LOCAL \<equiv> 256"
abbreviation ZIP_FL_CENTRAL :: u32 where "ZIP_FL_CENTRAL \<equiv> 512"
abbreviation ZIP_FL_FORCE_ZIP64 :: u32 where "ZIP_FL_FORCE_ZIP64 \<equiv> 1024"
abbreviation ZIP_FL_OVERWRITE :: u32 where "ZIP_FL_OVERWRITE \<equiv> 8192"
abbreviation ZIP_EF_BOTH :: u32 where "ZIP_EF_BOTH \<equiv> 768"
abbreviation ZIP_AFL_RDONLY :: u32 where "ZIP_AFL_RDONLY \<equiv> 2"

abbreviation ZIP_EXTRA_FIELD_ALL :: nat where "ZIP_EXTRA_FIELD_ALL \<equiv> 65535"
abbreviation ZIP_EXTRA_FIELD_NEW :: nat where "ZIP_EXTRA_FIELD_NEW \<equiv> 65535"

abbreviation ZIP_EF_UTF_8_COMMENT :: u16 where "ZIP_EF_UTF_8_COMMENT \<equiv> 0x6375"
abbreviation ZIP_EF_UTF_8_NAME :: u16 where "ZIP_EF_UTF_8_NAME \<equiv> 0x7075"
abbreviation ZIP_EF_WINZIP_AES :: u16 where "ZIP_EF_WINZIP_AES \<equiv> 0x9901"
abbreviation ZIP_EF_ZIP64 :: u16 where "ZIP_EF_ZIP64 \<equiv> 1"

definition ZIP_EF_IS_INTERNAL :: "u16 \<Rightarrow> bool" where
  "ZIP_EF_IS_INTERNAL i \<longleftrightarrow>
     i = ZIP_EF_UTF_8_COMMENT \<or> i = ZIP_EF_UTF_8_NAME \<or> i = ZIP_EF_WINZIP_AES \<or> i = ZIP_EF_ZIP64"

abbreviation ZIP_DIRENT_COMP_METHOD :: u32 where "ZIP_DIRENT_COMP_METHOD \<equiv> 1"
abbreviation ZIP_DIRENT_FILENAME :: u32 where "ZIP_DIRENT_FILENAME \<equiv> 2"
abbreviation ZIP_DIRENT_COMMENT :: u32 where "ZIP_DIRENT_COMMENT \<equiv> 4"
abbreviation ZIP_DIRENT_EXTRA_FIELD :: u32 where "ZIP_DIRENT_EXTRA_FIELD \<equiv> 8"
abbreviation ZIP_DIRENT_ATTRIBUTES :: u32 where "ZIP_DIRENT_ATTRIBUTES \<equiv> 0x10"
abbreviation ZIP_DIRENT_LAST_MOD :: u32 where "ZIP_DIRENT_LAST_MOD \<equiv> 0x20"
abbreviation ZIP_DIRENT_ENCRYPTION_METHOD :: u32 where "ZIP_DIRENT_ENCRYPTION_METHOD \<equiv> 0x40"
abbreviation ZIP_DIRENT_PASSWORD :: u32 where "ZIP_DIRENT_PASSWORD \<equiv> 0x80"
abbreviation ZIP_DIRENT_ALL :: u32 where "ZIP_DIRENT_ALL \<equiv> 0xffffffff"

abbreviation ZIP_GPBF_ENCRYPTED :: u16 where "ZIP_GPBF_ENCRYPTED \<equiv> 1"
abbreviation ZIP_GPBF_DATA_DESCRIPTOR :: u16 where "ZIP_GPBF_DATA_DESCRIPTOR \<equiv> 8"
abbreviation ZIP_GPBF_STRONG_ENCRYPTION :: u16 where "ZIP_GPBF_STRONG_ENCRYPTION \<equiv> 0x40"
abbreviation ZIP_GPBF_ENCODING_UTF_8 :: u16 where "ZIP_GPBF_ENCODING_UTF_8 \<equiv> 0x800"

abbreviation ZIP_EM_NONE :: u16 where "ZIP_EM_NONE \<equiv> 0"
abbreviation ZIP_EM_TRAD_PKWARE :: u16 where "ZIP_EM_TRAD_PKWARE \<equiv> 1"
abbreviation ZIP_EM_AES_128 :: u16 where "ZIP_EM_AES_128 \<equiv> 0x101"
abbreviation ZIP_EM_AES_192 :: u16 where "ZIP_EM_AES_192 \<equiv> 0x102"
abbreviation ZIP_EM_AES_256 :: u16 where "ZIP_EM_AES_256 \<equiv> 0x103"
abbreviation ZIP_EM_UNKNOWN :: u16 where "ZIP_EM_UNKNOWN \<equiv> 0xffff"

abbreviation ZIP_CM_DEFAULT :: int where "ZIP_CM_DEFAULT \<equiv> -1"
abbreviation ZIP_CM_REPLACED_DEFAULT :: int where "ZIP_CM_REPLACED_DEFAULT \<equiv> -2"
abbreviation ZIP_CM_STORE :: int where "ZIP_CM_STORE \<equiv> 0"
abbreviation ZIP_CM_DEFLATE :: int where "ZIP_CM_DEFLATE \<equiv> 8"
abbreviation ZIP_CM_BZIP2 :: int where "ZIP_CM_BZIP2 \<equiv> 12"
abbreviation ZIP_CM_LZMA :: int where "ZIP_CM_LZMA \<equiv> 14"
abbreviation ZIP_CM_WINZIP_AES :: int where "ZIP_CM_WINZIP_AES \<equiv> 99"

abbreviation EFBIG :: int where "EFBIG \<equiv> 27"

abbreviation CDENTRYSIZE :: nat where "CDENTRYSIZE \<equiv> 46"
abbreviation LENTRYSIZE :: nat where "LENTRYSIZE \<equiv> 30"
abbreviation EOCDLEN :: nat where "EOCDLEN \<equiv> 22"
abbreviation EOCD64LOCLEN :: nat where "EOCD64LOCLEN \<equiv> 20"
abbreviation EOCD64LEN :: nat where "EOCD64LEN \<equiv> 56"
abbreviation EFZIP64SIZE :: nat where "EFZIP64SIZE \<equiv> 28"
abbreviation EF_WINZIP_AES_SIZE :: nat where "EF_WINZIP_AES_SIZE \<equiv> 7"

abbreviation CENTRAL_MAGIC :: bytes where "CENTRAL_MAGIC \<equiv> [80, 75, 1, 2]"
abbreviation LOCAL_MAGIC :: bytes where "LOCAL_MAGIC \<equiv> [80, 75, 3, 4]"
abbreviation EOCD_MAGIC :: bytes where "EOCD_MAGIC \<equiv> [80, 75, 5, 6]"
abbreviation EOCD64LOC_MAGIC :: bytes where "EOCD64LOC_MAGIC \<equiv> [80, 75, 6, 7]"
abbreviation EOCD64_MAGIC :: bytes where "EOCD64_MAGIC \<equiv> [80, 75, 6, 6]"

section \<open>Structures\<close>

record zip_extra_field =
  ef_flags :: u32
  ef_id :: u16
  ef_size :: nat
  ef_data :: bytes

record zip_dirent =
  de_changed :: u32
  de_local_extra_fields_read :: bool
  de_cloned :: bool
  de_crc_valid :: bool
  de_version_madeby :: u16
  de_version_needed :: u16
  de_bitflags :: u16
  de_comp_method :: int
  de_last_mod :: int
  de_crc :: u32
  de_comp_size :: u64
  de_uncomp_size :: u64
  de_filename :: "zip_string option"
  de_extra_fields :: "zip_extra_field list"
  de_comment :: "zip_string option"
  de_disk_number :: u32
  de_int_attrib :: u16
  de_ext_attrib :: u32
  de_offset :: u64
  de_compression_level :: u16
  de_encryption_method :: u16
  de_password :: "bytes option"

record 'u zip_entry =
  ze_orig :: "zip_dirent option"
  ze_changes :: "zip_dirent option"
  ze_source :: "'u zip_source option"
  ze_deleted :: bool

record 'u zip_cdir =
  cd_entry :: "'u zip_entry list"
  cd_nentry_alloc :: nat
  cd_size :: u64
  cd_offset :: u64
  cd_comment :: "zip_string option"
  cd_is_zip64 :: bool

record 'u zip_t =
  za_src :: "'u zip_source"
  za_open_flags :: u32
  za_error :: zip_error
  za_flags :: u32
  za_ch_flags :: u32
  za_default_password :: "bytes option"
  za_comment_orig :: "zip_string option"
  za_comment_changes :: "zip_string option"
  za_comment_changed :: bool
  za_nentry_alloc :: nat
  za_entry :: "'u zip_entry list"
  za_names :: zip_hash

definition za_set_error :: "int \<Rightarrow> int \<Rightarrow> 'u zip_t \<Rightarrow> 'u zip_t" where
  "za_set_error e s za = za\<lparr>za_error := (za_error za)\<lparr>zip_err := e, sys_err := s\<rparr>\<rparr>"

definition upd_entry :: "nat \<Rightarrow> ('u zip_entry \<Rightarrow> 'u zip_entry) \<Rightarrow> 'u zip_t \<Rightarrow> 'u zip_t" where
  "upd_entry idx f za = za\<lparr>za_entry := (za_entry za)[idx := f (za_entry za ! idx)]\<rparr>"

definition ZIP_IS_RDONLY :: "'u zip_t \<Rightarrow> bool" where
  "ZIP_IS_RDONLY za \<longleftrightarrow> flag_set (za_ch_flags za) ZIP_AFL_RDONLY"

definition ZIP_ENTRY_CHANGED :: "'u zip_entry \<Rightarrow> u32 \<Rightarrow> bool" where
  "ZIP_ENTRY_CHANGED e f \<longleftrightarrow> (case ze_changes e of None \<Rightarrow> False | Some c \<Rightarrow> flag_set (de_changed c) f)"

definition ZIP_ENTRY_DATA_CHANGED :: "'u zip_entry \<Rightarrow> bool" where
  "ZIP_ENTRY_DATA_CHANGED e \<longleftrightarrow> ze_source e \<noteq> None"

definition ZIP_ENTRY_HAS_CHANGES :: "'u zip_entry \<Rightarrow> bool" where
  "ZIP_ENTRY_HAS_CHANGES e \<longleftrightarrow> ZIP_ENTRY_DATA_CHANGED e \<or> ze_deleted e \<or> ZIP_ENTRY_CHANGED e ZIP_DIRENT_ALL"

definition ZIP_CM_IS_DEFAULT :: "int \<Rightarrow> bool" where
  "ZIP_CM_IS_DEFAULT x \<longleftrightarrow> x = ZIP_CM_DEFAULT \<or> x = ZIP_CM_REPLACED_DEFAULT"

definition ZIP_CM_ACTUAL :: "int \<Rightarrow> u16" where
  "ZIP_CM_ACTUAL x = word_of_int (if ZIP_CM_IS_DEFAULT x then ZIP_CM_DEFLATE else x)"

end
