(* ===== verification/Zip_Io.thy ===== *)
theory Zip_Io
  imports Zip_Types Zip_Source_Buffer
begin

text \<open>
  Reading and writing whole blocks through a source (lib/zip_io_util.c, \<open>_zip_buffer_new_from_source\<close>
  of lib/zip_buffer.c, \<open>_zip_string_write\<close> of lib/zip_string.c, lib/zip_memdup.c). The locales
  \<open>byte_sink\<close> and \<open>byte_stream\<close> state what the layers above rely on when they write an archive and
  read one; both are interpreted on the in-memory source.
\<close>

section \<open>Operations\<close>

definition zip_memdup :: "mem \<Rightarrow> bytes \<Rightarrow> nat \<Rightarrow> zip_error option \<Rightarrow> bytes option \<times> zip_error option \<times> mem" where
  "zip_memdup m data len error =
     (if len = 0 then (None, error, m)
      else (case malloc m of
              (None, m1) \<Rightarrow> (None, zip_error_set error ZIP_ER_MEMORY 0, m1)
            | (Some _, m1) \<Rightarrow> (Some (take len data), error, m1)))"

definition zip_error_set_from_source :: "zip_error option \<Rightarrow> 'u zip_source \<Rightarrow> zip_error option" where
  "zip_error_set_from_source err src = zip_error_copy err (src_error (src_state src))"

text \<open>The status, the block, the source and the error.\<close>

definition zip_read ::
  "'u callbacks \<Rightarrow> 'u zip_source \<Rightarrow> bytes \<Rightarrow> nat \<Rightarrow> zip_error option \<Rightarrow> int \<times> bytes \<times> 'u zip_source \<times> zip_error option" where
  "zip_read C src b len error =
     (if len > ZIP_INT64_MAX then (-1, b, src, zip_error_set error ZIP_ER_INTERNAL 0)
      else (case zip_source_read C src (Some b) len of
              (n, b1, src1) \<Rightarrow>
                if n < 0 then (-1, the b1, src1, zip_error_set_from_source error src1)
                else if n < int len then (-1, the b1, src1, zip_error_set error ZIP_ER_EOF 0)
                else (0, the b1, src1, error)))"

definition nul_to_space :: "u8 \<Rightarrow> u8" where
  "nul_to_space c = (if c = 0 then 32 else c)"

text \<open>
  The block read (or NULL), the cursor or source it came from, the error and the allocator. Bytes
  come from the cursor if one is given.
\<close>

definition zip_read_data ::
  "'u callbacks \<Rightarrow> mem \<Rightarrow> zip_buffer option \<Rightarrow> 'u zip_source \<Rightarrow> nat \<Rightarrow> bool \<Rightarrow> zip_error option
     \<Rightarrow> bytes option \<times> zip_buffer option \<times> 'u zip_source \<times> zip_error option \<times> mem" where
  "zip_read_data C m buffer src len nulp error =
     (if len = 0 \<and> \<not> nulp then (None, buffer, src, error, m)
      else (case malloc m of
              (None, m1) \<Rightarrow> (None, buffer, src, zip_error_set error ZIP_ER_MEMORY 0, m1)
            | (Some junk, m1) \<Rightarrow>
                (let finish = (\<lambda>r. if nulp then map nul_to_space (take len r) @ [0] else r) in
                 case buffer of
                   Some b \<Rightarrow>
                     (case zip_buffer_get b (word_of_nat len) of
                        (None, b1) \<Rightarrow> (None, Some b1, src, zip_error_set error ZIP_ER_MEMORY 0, m1)
                      | (Some p, b1) \<Rightarrow> (Some (finish (take len (drop p (buf_data b1)))), Some b1, src, error, m1))
                 | None \<Rightarrow>
                     (case zip_read C src (junk_bytes junk (len + (if nulp then 1 else 0))) len error of
                        (r, bs, src1, error1) \<Rightarrow>
                          if r < 0 then (None, None, src1, error1, m1)
                          else (Some (finish bs), None, src1, error1, m1)))))"

definition zip_read_string ::
  "'u callbacks \<Rightarrow> mem \<Rightarrow> zip_buffer option \<Rightarrow> 'u zip_source \<Rightarrow> nat \<Rightarrow> bool \<Rightarrow> zip_error option
     \<Rightarrow> zip_string option \<times> zip_buffer option \<times> 'u zip_source \<times> zip_error option \<times> mem" where
  "zip_read_string C m buffer src len nulp error =
     (case zip_read_data C m buffer src len nulp error of
        (None, b1, src1, error1, m1) \<Rightarrow> (None, b1, src1, error1, m1)
      | (Some raw, b1, src1, error1, m1) \<Rightarrow>
          (case zip_string_new m1 raw len ZIP_FL_ENC_GUESS error1 of
             (s, error2, m2) \<Rightarrow> (s, b1, src1, error2, m2)))"

text \<open>A cursor over a block read from a source; the block given, or a fresh one.\<close>

definition zip_buffer_new_from_source ::
  "'u callbacks \<Rightarrow> mem \<Rightarrow> 'u zip_source \<Rightarrow> nat \<Rightarrow> bytes option \<Rightarrow> zip_error option
     \<Rightarrow> zip_buffer option \<times> 'u zip_source \<times> zip_error option \<times> mem" where
  "zip_buffer_new_from_source C m src sz buf error =
     (case zip_buffer_new m buf (word_of_nat sz) of
        (None, m1) \<Rightarrow> (None, src, zip_error_set error ZIP_ER_MEMORY 0, m1)
      | (Some b, m1) \<Rightarrow>
          (case zip_read C src (buf_data b) sz error of
             (r, bs, src1, error1) \<Rightarrow>
               if r < 0 then (None, src1, error1, m1)
               else (Some (b\<lparr>buf_data := bs\<rparr>), src1, error1, m1)))"

definition zip_write :: "'u callbacks \<Rightarrow> 'u zip_t \<Rightarrow> bytes \<Rightarrow> nat \<Rightarrow> int \<times> 'u zip_t" where
  "zip_write C za data len =
     (case zip_source_write C (za_src za) data len of
        (n, src) \<Rightarrow>
          (let za1 = za\<lparr>za_src := src\<rparr> in
           if n < 0 then (-1, za1\<lparr>za_error := the (zip_error_set_from_source (Some (za_error za1)) src)\<rparr>)
           else if n \<noteq> int len then (-1, za_set_error ZIP_ER_WRITE EINTR za1)
           else (0, za1)))"

definition zip_string_write :: "'u callbacks \<Rightarrow> 'u zip_t \<Rightarrow> zip_string option \<Rightarrow> int \<times> 'u zip_t" where
  "zip_string_write C za s =
     (case s of None \<Rightarrow> (0, za) | Some s \<Rightarrow> zip_write C za (zs_raw s) (zs_length s))"

section \<open>Writing to a sink\<close>

text \<open>The archive after \<open>bs\<close> went to its source.\<close>

definition appended :: "('u zip_source \<Rightarrow> bool) \<Rightarrow> ('u zip_source \<Rightarrow> bytes) \<Rightarrow> bytes \<Rightarrow> 'u zip_t \<Rightarrow> 'u zip_t \<Rightarrow> bool" where
  "appended good out bs za za1 \<longleftrightarrow>
     good (za_src za1) \<and> out (za_src za1) = out (za_src za) @ bs \<and> za1 = za\<lparr>za_src := za_src za1\<rparr>"

lemma appended_refl: "good (za_src za) \<Longrightarrow> appended good out [] za za"
  by (simp add: appended_def)

lemma appended_trans:
  assumes "appended good out as za za1" and "appended good out bs za1 za2"
  shows "appended good out (as @ bs) za za2"
  using assms by (cases za; cases za1; cases za2) (simp add: appended_def)

lemma appendedD:
  "appended good out bs za za1 \<Longrightarrow> good (za_src za1)"
  "appended good out bs za za1 \<Longrightarrow> out (za_src za1) = out (za_src za) @ bs"
  by (simp_all add: appended_def)

locale byte_sink =
  fixes C :: "'u callbacks"
    and good :: "'u zip_source \<Rightarrow> bool"
    and out :: "'u zip_source \<Rightarrow> bytes"
    and limit :: nat
  assumes write_law: "good s \<Longrightarrow> n \<le> length data \<Longrightarrow> length (out s) + n < limit \<Longrightarrow>
      \<exists>s1. zip_source_write C s data n = (int n, s1) \<and> good s1 \<and> out s1 = out s @ take n data"
    and tell_law: "good s \<Longrightarrow> length (out s) < limit \<Longrightarrow>
      \<exists>s1. zip_source_tell_write C s = (int (length (out s)), s1) \<and> good s1 \<and> out s1 = out s"
begin

lemma zip_write_appends:
  assumes "good (za_src za)" and "n \<le> length data" and "length (out (za_src za)) + n < limit"
  shows "\<exists>za1. zip_write C za data n = (0, za1) \<and> appended good out (take n data) za za1"
proof -
  from write_law [OF assms] obtain s1 where "zip_source_write C (za_src za) data n = (int n, s1)" "good s1"
    "out s1 = out (za_src za) @ take n data" by blast
  then show ?thesis by (intro exI [of _ "za\<lparr>za_src := s1\<rparr>"]) (simp add: zip_write_def appended_def)
qed

lemma zip_string_write_appends:
  assumes "good (za_src za)" and "\<And>s. str = Some s \<Longrightarrow> zs_length s \<le> length (zs_raw s)"
    and "length (out (za_src za)) + zip_string_length str < limit"
  shows "\<exists>za1. zip_string_write C za str = (0, za1)
    \<and> appended good out (case str of None \<Rightarrow> [] | Some s \<Rightarrow> take (zs_length s) (zs_raw s)) za za1"
proof (cases str)
  case None
  then show ?thesis using assms(1) by (simp add: zip_string_write_def appended_refl)
next
  case (Some s)
  then show ?thesis using zip_write_appends [of za "zs_length s" "zs_raw s"] assms
    by (simp add: zip_string_write_def zip_string_length_def)
qed

end

section \<open>Reading from a stream\<close>

locale byte_stream =
  fixes C :: "'u callbacks"
    and good :: "'u zip_source \<Rightarrow> bool"
    and rest :: "'u zip_source \<Rightarrow> bytes"
    and limit :: nat
  assumes read_law: "good s \<Longrightarrow> n \<le> length b \<Longrightarrow> n < limit \<Longrightarrow> length (rest s) < limit \<Longrightarrow>
      \<exists>s1. zip_source_read C s (Some b) n
           = (int (min n (length (rest s))), Some (take n (rest s) @ drop (min n (length (rest s))) b), s1)
         \<and> good s1 \<and> rest s1 = drop n (rest s)"
    and limit_le: "limit \<le> 2 ^ 63"
begin

text \<open>All of the block or nothing.\<close>

lemma zip_read_exact:
  assumes "good s" and "n \<le> length b" and "n < limit" and "length (rest s) < limit"
  shows "\<exists>s1. zip_read C s b n error = (if n \<le> length (rest s) then (0, take n (rest s) @ drop n b, s1, error)
      else (-1, rest s @ drop (length (rest s)) b, s1, zip_error_set error ZIP_ER_EOF 0))
    \<and> good s1 \<and> rest s1 = drop n (rest s)"
proof -
  from read_law [OF assms] obtain s1 where
    "zip_source_read C s (Some b) n
       = (int (min n (length (rest s))), Some (take n (rest s) @ drop (min n (length (rest s))) b), s1)"
    "good s1" "rest s1 = drop n (rest s)" by blast
  moreover have "\<not> n > ZIP_INT64_MAX" using assms(3) limit_le by simp
  ultimately show ?thesis by (intro exI [of _ s1]) (auto simp: zip_read_def min_def)
qed

text \<open>With all allocations answered, a cursor over the next \<open>n\<close> bytes, good and at their start.\<close>

lemma new_from_source:
  assumes "good s" and "n < limit" and "n \<le> length (rest s)" and "length (rest s) < limit"
    and "\<And>bs. buf = Some bs \<Longrightarrow> length bs = n"
  shows "\<exists>b s1. zip_buffer_new_from_source C [] s n buf error = (Some b, s1, error, [])
    \<and> buf_inv b \<and> buf_ok b \<and> buf_offset b = 0 \<and> buf_data b = take n (rest s) \<and> good s1 \<and> rest s1 = drop n (rest s)"
proof -
  have u: "unat (word_of_nat n :: u64) = n"
    using assms(2) limit_le by (simp add: unsigned_of_nat take_bit_nat_eq_self)
  obtain b where b: "zip_buffer_new [] buf (word_of_nat n) = (Some b, [])" "length (buf_data b) = n"
    "buf_ok b" "buf_offset b = 0" "buf_size b = word_of_nat n"
    using assms(5) u by (cases buf) (auto simp: zip_buffer_new_def)
  then have l: "n \<le> length (buf_data b)" by simp
  from zip_read_exact [OF assms(1) l assms(2,4), of error] obtain s1 where
    "zip_read C s (buf_data b) n error = (0, take n (rest s) @ drop n (buf_data b), s1, error)" "good s1" "rest s1 = drop n (rest s)"
    using assms(3) by auto
  then show ?thesis
    using b u assms(3) by (intro exI [of _ "b\<lparr>buf_data := take n (rest s)\<rparr>"] exI [of _ s1])
      (simp add: zip_buffer_new_from_source_def buf_inv_def)
qed

end
section \<open>The in-memory source as a sink and as a stream\<close>

definition mem_writer :: "read_ctx zip_source \<Rightarrow> bool" where
  "mem_writer s \<longleftrightarrow> (\<exists>st out. s = Plain st \<and> src_write_state st = ZIP_SOURCE_WRITE_OPEN
     \<and> source_supports_cmd s ZIP_SOURCE_WRITE \<and> source_supports_cmd s ZIP_SOURCE_TELL_WRITE
     \<and> rc_out (src_ud st) = Some out \<and> fb_inv (rc_blocks (src_ud st)) out \<and> fb_offset out = fb_size out
     \<and> rc_mem (src_ud st) = [])"

definition mem_written :: "read_ctx zip_source \<Rightarrow> bytes" where
  "mem_written s = (case rc_out (src_ud (src_state s)) of
     None \<Rightarrow> [] | Some out \<Rightarrow> fb_bytes (rc_blocks (src_ud (src_state s))) out)"

lemma supports_cmd_upd:
  "source_supports_cmd (Plain (st\<lparr>src_ud := u\<rparr>)) cmd = source_supports_cmd (Plain st) cmd"
  by (simp add: source_supports_cmd_def zip_source_supports_def)

lemma buffer_call:
  assumes "source_supports_cmd (Plain st) cmd" and "read_data (src_ud st) d n cmd = Some (r, d1, ctx)" and "0 \<le> r"
  shows "zip_source_call buffer_callbacks (Plain st) d n cmd = (r, d1, Plain (st\<lparr>src_ud := ctx\<rparr>))"
  using assms by (simp add: zip_source_call_def source_dispatch_def buffer_callbacks_def)

interpretation mem_sink: byte_sink buffer_callbacks mem_writer mem_written "2 ^ 63"
proof unfold_locales
  fix s :: "read_ctx zip_source" and n :: nat and data :: bytes
  assume "mem_writer s"
  then obtain st out where s: "s = Plain st" "src_write_state st = ZIP_SOURCE_WRITE_OPEN"
    "source_supports_cmd (Plain st) ZIP_SOURCE_WRITE" "source_supports_cmd (Plain st) ZIP_SOURCE_TELL_WRITE"
    "rc_out (src_ud st) = Some out" "fb_inv (rc_blocks (src_ud st)) out" "fb_offset out = fb_size out"
    "rc_mem (src_ud st) = []" unfolding mem_writer_def by blast
  have open_w: "ZIP_SOURCE_IS_OPEN_WRITING (Plain st)" using s(2) by (simp add: ZIP_SOURCE_IS_OPEN_WRITING_def)
  have len: "length (mem_written s) = fb_size out" "mem_written s = fb_bytes (rc_blocks (src_ud st)) out"
    using s(1,5) length_fb_bytes [OF s(6)] by (simp_all add: mem_written_def)
  show "\<exists>s1. zip_source_write buffer_callbacks s data n = (int n, s1) \<and> mem_writer s1
      \<and> mem_written s1 = mem_written s @ take n data"
    if n: "n \<le> length data" and small: "length (mem_written s) + n < 2 ^ 63"
  proof -
    have "fb_offset out + n + WRITE_FRAGMENT_SIZE - 1 < 2 ^ 64" using small len s(7) by simp
    from buffer_write_spec [OF s(6) n this, of "rc_error (src_ud st)"] obtain b blks where
      b: "buffer_write [] (rc_blocks (src_ud st)) out data n (rc_error (src_ud st)) = Some (int n, b, blks, rc_error (src_ud st), [])"
      "fb_inv blks b" "fb_bytes blks b = take (fb_offset out) (fb_bytes (rc_blocks (src_ud st)) out) @ take n data
         @ drop (fb_offset out + n) (fb_bytes (rc_blocks (src_ud st)) out)"
      "fb_offset b = fb_offset out + n" "fb_size b = max (fb_size out) (fb_offset out + n)" by blast
    let ?ctx = "(src_ud st)\<lparr>rc_out := Some b, rc_blocks := blks, rc_mem := []\<rparr>"
    have "read_data (src_ud st) (SD_Bytes data) n ZIP_SOURCE_WRITE = Some (int n, SD_Bytes data, ?ctx)"
      using b(1) s(5,8) small by (simp add: read_data_def)
    from buffer_call [OF s(3) this] have
      "zip_source_write buffer_callbacks s data n = (int n, Plain (st\<lparr>src_ud := ?ctx\<rparr>))"
      using open_w small unfolding s(1) zip_source_write_def by simp
    moreover have "mem_writer (Plain (st\<lparr>src_ud := ?ctx\<rparr>))"
      using s b by (simp add: mem_writer_def supports_cmd_upd)
    moreover have "mem_written (Plain (st\<lparr>src_ud := ?ctx\<rparr>)) = mem_written s @ take n data"
      using b(3) s(7) len length_fb_bytes [OF s(6)] by (simp add: mem_written_def)
    ultimately show ?thesis by blast
  qed
  show "\<exists>s1. zip_source_tell_write buffer_callbacks s = (int (length (mem_written s)), s1) \<and> mem_writer s1
      \<and> mem_written s1 = mem_written s" if small: "length (mem_written s) < 2 ^ 63"
  proof -
    have "read_data (src_ud st) SD_Null 0 ZIP_SOURCE_TELL_WRITE = Some (int (fb_size out), SD_Null, src_ud st)"
      using s(5,7) small len by (simp add: read_data_def)
    from buffer_call [OF s(4) this] have "zip_source_tell_write buffer_callbacks s = (int (fb_size out), s)"
      using open_w unfolding s(1) zip_source_tell_write_def by simp
    then show ?thesis using len(1) \<open>mem_writer s\<close> by auto
  qed
qed

definition mem_reader :: "read_ctx zip_source \<Rightarrow> bool" where
  "mem_reader s \<longleftrightarrow> (\<exists>st. s = Plain st \<and> src_open_count st > 0 \<and> \<not> src_source_closed st \<and> \<not> src_had_read_error st
     \<and> source_supports_cmd s ZIP_SOURCE_READ \<and> fb_inv (rc_blocks (src_ud st)) (rc_in (src_ud st))
     \<and> fb_size (rc_in (src_ud st)) \<le> ZIP_INT64_MAX
     \<and> (src_eof st \<longrightarrow> fb_offset (rc_in (src_ud st)) = fb_size (rc_in (src_ud st))))"

definition mem_left :: "read_ctx zip_source \<Rightarrow> bytes" where
  "mem_left s = (let ctx = src_ud (src_state s) in drop (fb_offset (rc_in ctx)) (fb_bytes (rc_blocks ctx) (rc_in ctx)))"
lemma mem_read_step:
  assumes r: "mem_reader s" and n: "n \<le> ZIP_INT64_MAX"
  shows "\<exists>s1. zip_source_call buffer_callbacks s (SD_Bytes d) n ZIP_SOURCE_READ
      = (int (min n (length (mem_left s))), SD_Bytes (take n (mem_left s) @ drop (min n (length (mem_left s))) d), s1)
    \<and> mem_reader s1 \<and> mem_left s1 = drop n (mem_left s) \<and> src_eof (src_state s1) = src_eof (src_state s)"
proof -
  obtain st where s: "s = Plain st" "src_open_count st > 0" "\<not> src_source_closed st" "\<not> src_had_read_error st"
    "source_supports_cmd (Plain st) ZIP_SOURCE_READ" "fb_inv (rc_blocks (src_ud st)) (rc_in (src_ud st))"
    "fb_size (rc_in (src_ud st)) \<le> ZIP_INT64_MAX" "src_eof st \<longrightarrow> fb_offset (rc_in (src_ud st)) = fb_size (rc_in (src_ud st))"
    using r unfolding mem_reader_def by blast
  let ?b = "rc_in (src_ud st)" and ?blks = "rc_blocks (src_ud st)"
  let ?left = "fb_size ?b - fb_offset ?b"
  note len = length_fb_bytes [OF s(6)] and le = fb_invD(6) [OF s(6)]
  have left: "mem_left s = drop (fb_offset ?b) (fb_bytes ?blks ?b)" "length (mem_left s) = ?left"
    using s(1) len by (simp_all add: mem_left_def Let_def)
  obtain b1 where b1: "buffer_read ?blks ?b n = Some (int (min n ?left), take n (mem_left s), b1)" "fb_inv ?blks b1"
    "fb_bytes ?blks b1 = fb_bytes ?blks ?b" "fb_size b1 = fb_size ?b" "fb_offset b1 = fb_offset ?b + min n ?left"
    using buffer_read_spec [OF s(6,7), of n] unfolding left(1) by blast
  let ?ctx = "(src_ud st)\<lparr>rc_in := b1\<rparr>"
  have "read_data (src_ud st) (SD_Bytes d) n ZIP_SOURCE_READ
      = Some (int (min n ?left), SD_Bytes (take n (mem_left s) @ drop (min n ?left) d), ?ctx)"
    using b1(1) n left(2) by (simp add: read_data_def min.commute)
  from buffer_call [OF s(5) this] have "zip_source_call buffer_callbacks s (SD_Bytes d) n ZIP_SOURCE_READ
      = (int (min n ?left), SD_Bytes (take n (mem_left s) @ drop (min n ?left) d), Plain (st\<lparr>src_ud := ?ctx\<rparr>))"
    unfolding s(1) by simp
  moreover have "mem_reader (Plain (st\<lparr>src_ud := ?ctx\<rparr>))"
    using s b1 le by (auto simp: mem_reader_def supports_cmd_upd)
  moreover have "mem_left (Plain (st\<lparr>src_ud := ?ctx\<rparr>)) = drop n (mem_left s)"
    unfolding left(1) using b1(3,5) len le by (simp add: mem_left_def Let_def min_def add.commute)
  ultimately show ?thesis using left(2) s(1) by auto
qed

lemma state_upd [simp]: "src_state (upd_state f s) = f (src_state s)"
  by (cases s) simp_all

lemma mem_reader_flags:
  assumes "mem_reader s" and "\<And>st. f st = st\<lparr>src_eof := e st, src_bytes_read := k st\<rparr>"
    and "\<And>st. e st \<Longrightarrow> src_eof st \<or> mem_left s = []"
  shows "mem_reader (upd_state f s) \<and> mem_left (upd_state f s) = mem_left s"
proof -
  obtain st where s: "s = Plain st" using assms(1) by (auto simp: mem_reader_def)
  have "source_supports_cmd (Plain (f st)) c = source_supports_cmd (Plain st) c" for c
    by (simp add: source_supports_cmd_def zip_source_supports_def assms(2))
  then show ?thesis using assms(1,3) length_fb_bytes fb_invD(6) unfolding s
    by (auto simp: mem_reader_def mem_left_def Let_def assms(2)) (metis diff_is_0_eq le_antisym)
qed

lemma count_bytes_alt: "count_bytes n st = st\<lparr>src_eof := src_eof st,
    src_bytes_read := (if src_bytes_read st + word_of_nat n < src_bytes_read st then - 1 else src_bytes_read st + word_of_nat n)\<rparr>"
  by (simp add: count_bytes_def)

lemma mem_read_loop:
  assumes r: "mem_reader s" and n: "0 < n" "n \<le> length data" "n \<le> ZIP_INT64_MAX"
  shows "\<exists>s1. source_read_loop buffer_callbacks s data n 0
      = (False, min n (length (mem_left s)), take n (mem_left s) @ drop (min n (length (mem_left s))) data, s1)
    \<and> mem_reader s1 \<and> mem_left s1 = drop n (mem_left s)"
proof -
  let ?k = "min n (length (mem_left s))" and ?d = "take n (mem_left s) @ drop (min n (length (mem_left s))) data"
  from mem_read_step [OF r n(3), of data] obtain s1 where
    s1: "zip_source_call buffer_callbacks s (SD_Bytes data) n ZIP_SOURCE_READ = (int ?k, SD_Bytes ?d, s1)"
    "mem_reader s1" "mem_left s1 = drop n (mem_left s)" "src_eof (src_state s1) = src_eof (src_state s)" by blast
  let ?eof = "\<lambda>s. upd_state (\<lambda>st. st\<lparr>src_eof := True\<rparr>) s"
  have eof: "mem_reader (?eof s') \<and> mem_left (?eof s') = mem_left s'" if "mem_reader s'" "mem_left s' = []" for s'
    by (rule mem_reader_flags [OF that(1), where e = "\<lambda>_. True" and k = src_bytes_read]) (use that(2) in simp_all)
  show ?thesis
  proof (cases "n \<le> length (mem_left s)")
    case True
    then show ?thesis using s1 n
      by (subst source_read_loop.simps) (simp add: store_block_def min_absorb1 source_read_loop.simps [of _ _ _ n n])
  next
    case False
    then have k: "?k = length (mem_left s)" "?k < n" "mem_left s1 = []" using s1(3) by auto
    let ?m = "length (mem_left s)"
    have m: "n - ?m \<le> ZIP_INT64_MAX" using n(3) by simp
    from mem_read_step [OF s1(2) m, of "drop ?m ?d"] k(3) obtain s2 where
      s2: "zip_source_call buffer_callbacks s1 (SD_Bytes (drop ?m ?d)) (n - ?m) ZIP_SOURCE_READ = (0, SD_Bytes (drop ?m ?d), s2)"
      "mem_reader s2" "mem_left s2 = []" by auto
    have d: "take ?m ?d @ drop ?m ?d = ?d" by (rule append_take_drop_id)
    have l2: "source_read_loop buffer_callbacks s1 ?d n ?m = (False, ?m, ?d, ?eof s2)"
      using s2(1) False d by (subst source_read_loop.simps) (simp add: store_block_def Let_def)
    show ?thesis
    proof (cases "?m = 0")
      case True
      then show ?thesis using s1 n k(3) eof [OF s1(2) k(3)]
        by (subst source_read_loop.simps) (simp add: store_block_def)
    next
      case nz: False
      then have "source_read_loop buffer_callbacks s data n 0 = source_read_loop buffer_callbacks s1 ?d n ?m"
        using s1(1) n k(1) by (subst source_read_loop.simps) (simp add: store_block_def Let_def)
      then show ?thesis using l2 k eof [OF s2(2,3)] s2(3) False by (intro exI [of _ "?eof s2"]) simp
    qed
  qed
qed

interpretation mem_stream: byte_stream buffer_callbacks mem_reader mem_left "2 ^ 63"
proof unfold_locales
  fix s :: "read_ctx zip_source" and n :: nat and b :: bytes
  assume r: "mem_reader s" and n: "n \<le> length b" "n < 2 ^ 63"
  obtain st where s: "s = Plain st" "src_open_count st > 0" "\<not> src_source_closed st" "\<not> src_had_read_error st"
    "src_eof st \<longrightarrow> mem_left s = []"
    using r length_fb_bytes by (auto simp: mem_reader_def mem_left_def Let_def)
  show "\<exists>s1. zip_source_read buffer_callbacks s (Some b) n
        = (int (min n (length (mem_left s))), Some (take n (mem_left s) @ drop (min n (length (mem_left s))) b), s1)
      \<and> mem_reader s1 \<and> mem_left s1 = drop n (mem_left s)"
  proof (cases "src_eof st \<or> n = 0")
    case True
    then show ?thesis using s r n by (auto simp: zip_source_read_def ZIP_SOURCE_IS_OPEN_READING_def zip_source_eof_def)
  next
    case False
    then have pos: "0 < n" "n \<le> ZIP_INT64_MAX" using n by simp_all
    from mem_read_loop [OF r pos(1) n(1) pos(2)] obtain s1 where
      l: "source_read_loop buffer_callbacks s b n 0
          = (False, min n (length (mem_left s)), take n (mem_left s) @ drop (min n (length (mem_left s))) b, s1)"
      "mem_reader s1" "mem_left s1 = drop n (mem_left s)" by blast
    have "mem_reader (upd_state (count_bytes k) s1) \<and> mem_left (upd_state (count_bytes k) s1) = mem_left s1" for k
      by (rule mem_reader_flags [OF l(2) count_bytes_alt]) simp
    then show ?thesis using l False pos(2) s
      by (intro exI [of _ "upd_state (count_bytes (min n (length (mem_left s)))) s1"])
        (simp add: zip_source_read_def ZIP_SOURCE_IS_OPEN_READING_def zip_source_eof_def)
  qed
qed simp

text \<open>An archive over an in-memory source being written, used for examples.\<close>

definition sample_buffer :: frag_buffer where
  "sample_buffer = \<lparr>fb_fragments = [], fb_offsets = [0], fb_nfragments = 0, fb_capacity = 0, fb_first_owned = 0,
     fb_shared_fragments = 0, fb_shared = False, fb_size = 0, fb_offset = 0, fb_current = 0\<rparr>"

definition sample_context :: read_ctx where
  "sample_context = \<lparr>rc_error = zip_error_init, rc_mtime = 0,
     rc_attributes = \<lparr>fa_valid = 0, fa_version = 1, fa_host_system = 0, fa_ascii = 0, fa_version_needed = 0,
       fa_external_file_attributes = 0, fa_general_purpose_bit_flags = 0, fa_general_purpose_bit_mask = 0\<rparr>,
     rc_in = sample_buffer, rc_out = Some sample_buffer, rc_blocks = [], rc_mem = []\<rparr>"

definition sample_writer :: "read_ctx zip_source" where
  "sample_writer = Plain \<lparr>src_ud = sample_context, src_error = zip_error_init, src_supports = read_data_supports,
     src_open_count = 1, src_write_state = ZIP_SOURCE_WRITE_OPEN, src_source_closed = False, src_source_archive = None,
     src_refcount = 1, src_eof = False, src_had_read_error = False, src_bytes_read = 0\<rparr>"

definition sample_archive :: "read_ctx zip_t" where
  "sample_archive = \<lparr>za_src = sample_writer, za_open_flags = 0, za_error = zip_error_init, za_flags = 0, za_ch_flags = 0,
     za_default_password = None, za_comment_orig = None, za_comment_changes = None, za_comment_changed = False,
     za_nentry_alloc = 0, za_entry = [], za_names = the (fst (zip_hash_new [] None))\<rparr>"

lemma sample_buffer_inv: "fb_inv blks sample_buffer" "fb_bytes blks sample_buffer = []"
  by (simp_all add: fb_inv_def fb_bytes_def sample_buffer_def frs_def frags_ok_def pos_ok_def)

lemma sample_writer_ok: "mem_writer sample_writer" "mem_written sample_writer = []"
  using sample_buffer_inv
  by (simp_all add: mem_writer_def mem_written_def sample_writer_def sample_context_def sample_buffer_def
      source_supports_cmd_def zip_source_supports_def read_data_supports_def zip_source_make_command_bitmap_def
      ZIP_SOURCE_MAKE_COMMAND_BITMASK_def flag_set_def)

end
