(* ===== verification/Zip_Extra_Field.thy ===== *)
theory Zip_Extra_Field
  imports Zip_Io
begin

text \<open>
  Extra fields of directory entries (lib/zip_extra_field.c). A linked list of fields is a list, the
  NULL pointer the empty one. The lemmas show that the fields written to a sink are those a parse of
  the written bytes yields, and what deleting, searching, merging and filtering do to the list.
\<close>

section \<open>Operations\<close>

text \<open>The test \<open>ef->flags & flags & ZIP_EF_BOTH\<close>.\<close>

definition ef_in :: "u32 \<Rightarrow> zip_extra_field \<Rightarrow> bool" where
  "ef_in flags ef \<longleftrightarrow> flag_set (ef_flags ef AND flags) ZIP_EF_BOTH"

definition zip_ef_new :: "mem \<Rightarrow> u16 \<Rightarrow> nat \<Rightarrow> bytes \<Rightarrow> u32 \<Rightarrow> zip_extra_field option \<times> mem" where
  "zip_ef_new m i sz data flags =
     (case malloc m of
        (None, m1) \<Rightarrow> (None, m1)
      | (Some _, m1) \<Rightarrow>
          if sz > 0 then
            (case zip_memdup m1 data sz None of
               (None, _, m2) \<Rightarrow> (None, m2)
             | (Some d, _, m2) \<Rightarrow> (Some \<lparr>ef_flags = flags, ef_id = i, ef_size = sz, ef_data = d\<rparr>, m2))
          else (Some \<lparr>ef_flags = flags, ef_id = i, ef_size = sz, ef_data = []\<rparr>, m1))"

fun ef_clone_loop :: "mem \<Rightarrow> zip_extra_field list \<Rightarrow> zip_extra_field list option \<times> mem" where
  "ef_clone_loop m [] = (Some [], m)"
| "ef_clone_loop m (ef # efs) =
     (case zip_ef_new m (ef_id ef) (ef_size ef) (ef_data ef) (ef_flags ef) of
        (None, m1) \<Rightarrow> (None, m1)
      | (Some d, m1) \<Rightarrow>
          (case ef_clone_loop m1 efs of (None, m2) \<Rightarrow> (None, m2) | (Some ds, m2) \<Rightarrow> (Some (d # ds), m2)))"

definition zip_ef_clone :: "mem \<Rightarrow> zip_extra_field list \<Rightarrow> zip_error option \<Rightarrow> zip_extra_field list \<times> zip_error option \<times> mem" where
  "zip_ef_clone m efs error =
     (case ef_clone_loop m efs of
        (None, m1) \<Rightarrow> ([], zip_error_set error ZIP_ER_MEMORY 0, m1)
      | (Some ds, m1) \<Rightarrow> (ds, error, m1))"

definition ef_clear :: "u32 \<Rightarrow> zip_extra_field \<Rightarrow> zip_extra_field" where
  "ef_clear flags ef = ef\<lparr>ef_flags := ef_flags ef AND NOT (flags AND ZIP_EF_BOTH)\<rparr>"

text \<open>
  The loop of \<open>_zip_ef_delete_by_id\<close>, with \<open>i\<close> matching fields seen and kept so far. After a field
  was removed for a single index, \<open>i\<close> has passed that index and the loop is left.
\<close>

fun ef_delete_loop :: "zip_extra_field list \<Rightarrow> nat \<Rightarrow> nat \<Rightarrow> u32 \<Rightarrow> nat \<Rightarrow> zip_extra_field list" where
  "ef_delete_loop [] i id_idx flags k = []"
| "ef_delete_loop (ef # efs) i id_idx flags k =
     (if ef_in flags ef \<and> (unat (ef_id ef) = i \<or> i = ZIP_EXTRA_FIELD_ALL) then
        (if id_idx = ZIP_EXTRA_FIELD_ALL \<or> k = id_idx then
           (let ef1 = ef_clear flags ef in
            if ef_flags ef1 AND ZIP_EF_BOTH = 0 then
              (if id_idx = ZIP_EXTRA_FIELD_ALL then ef_delete_loop efs i id_idx flags k else efs)
            else ef1 # (if k + 1 > id_idx then efs else ef_delete_loop efs i id_idx flags (k + 1)))
         else ef # (if k + 1 > id_idx then efs else ef_delete_loop efs i id_idx flags (k + 1)))
      else ef # ef_delete_loop efs i id_idx flags k)"

definition zip_ef_delete_by_id :: "zip_extra_field list \<Rightarrow> nat \<Rightarrow> nat \<Rightarrow> u32 \<Rightarrow> zip_extra_field list" where
  "zip_ef_delete_by_id efs i id_idx flags = ef_delete_loop efs i id_idx flags 0"

text \<open>The data and the size stored through \<open>lenp\<close>; an empty field yields a block of one NUL.\<close>

fun ef_get_loop :: "zip_extra_field list \<Rightarrow> u16 \<Rightarrow> nat \<Rightarrow> u32 \<Rightarrow> nat \<Rightarrow> (bytes \<times> nat) option" where
  "ef_get_loop [] i id_idx flags k = None"
| "ef_get_loop (ef # efs) i id_idx flags k =
     (if ef_id ef = i \<and> ef_in flags ef then
        (if k < id_idx then ef_get_loop efs i id_idx flags (k + 1)
         else Some (if ef_size ef > 0 then ef_data ef else [0], ef_size ef))
      else ef_get_loop efs i id_idx flags k)"

definition zip_ef_get_by_id ::
  "zip_extra_field list \<Rightarrow> u16 \<Rightarrow> nat \<Rightarrow> u32 \<Rightarrow> zip_error option \<Rightarrow> (bytes \<times> nat) option \<times> zip_error option" where
  "zip_ef_get_by_id efs i id_idx flags error =
     (case ef_get_loop efs i id_idx flags 0 of
        None \<Rightarrow> (None, zip_error_set error ZIP_ER_NOENT 0)
      | Some r \<Rightarrow> (Some r, error))"

definition ef_same :: "zip_extra_field \<Rightarrow> zip_extra_field \<Rightarrow> bool" where
  "ef_same a b \<longleftrightarrow> ef_id a = ef_id b \<and> ef_size a = ef_size b \<and> (ef_size a = 0 \<or> ef_data a = ef_data b)"

fun ef_merge_loop :: "zip_extra_field list \<Rightarrow> zip_extra_field list \<Rightarrow> zip_extra_field list" where
  "ef_merge_loop to [] = to"
| "ef_merge_loop to (f # from) =
     (if list_ex (\<lambda>t. ef_same t f) to
      then ef_merge_loop (upd_first (\<lambda>t. ef_same t f) (\<lambda>t. t\<lparr>ef_flags := ef_flags t OR (ef_flags f AND ZIP_EF_BOTH)\<rparr>) to) from
      else ef_merge_loop (to @ [f]) from)"

definition zip_ef_merge :: "zip_extra_field list \<Rightarrow> zip_extra_field list \<Rightarrow> zip_extra_field list" where
  "zip_ef_merge to from = (if to = [] then from else ef_merge_loop to from)"

text \<open>
  The parsing loop; \<open>Inl\<close> is the error to report. A field is taken only when its data lies in the
  buffer, so each round moves the cursor by at least the four bytes of its head.
\<close>

lemma get_moves:
  assumes "zip_buffer_get b len = (Some p, b1)"
  shows "buf_ok b" and "p = unat (buf_offset b)" and "buf_size b1 = buf_size b" and "buf_data b1 = buf_data b"
    and "buf_ok b1" and "unat (buf_offset b1) = unat (buf_offset b) + unat len"
    and "unat (buf_offset b) + unat len \<le> unat (buf_size b)"
proof -
  have r: "room b (unat len)" using assms by (simp add: get_eq split: if_splits)
  then have b1: "b1 = b\<lparr>buf_offset := buf_offset b + len\<rparr>" "p = unat (buf_offset b)"
    using assms by (simp_all add: get_eq)
  then show "buf_ok b" "p = unat (buf_offset b)" "buf_size b1 = buf_size b" "buf_data b1 = buf_data b"
    "buf_ok b1" "unat (buf_offset b) + unat len \<le> unat (buf_size b)"
    using r by (simp_all add: room_def)
  show "unat (buf_offset b1) = unat (buf_offset b) + unat len" unfolding b1 using room_offset_add [OF r] by simp
qed

lemma get_16_moves:
  assumes "zip_buffer_get_16 b = (v, b1)" and "buf_ok b1"
  shows "buf_ok b" and "buf_size b1 = buf_size b" and "buf_data b1 = buf_data b"
    and "unat (buf_offset b1) = unat (buf_offset b) + 2"
proof -
  obtain g b2 where g: "zip_buffer_get b 2 = (g, b2)" by fastforce
  then have b2: "b2 = b1" using assms(1) by (auto simp: zip_buffer_get_16_def Let_def split: option.splits)
  have "g \<noteq> None" using g assms(2) unfolding b2 by (auto simp: get_eq split: if_splits)
  then obtain p where "zip_buffer_get b 2 = (Some p, b1)" using g b2 by blast
  from get_moves [OF this] show "buf_ok b" "buf_size b1 = buf_size b" "buf_data b1 = buf_data b"
    "unat (buf_offset b1) = unat (buf_offset b) + 2" by simp_all
qed

function ef_parse_loop :: "mem \<Rightarrow> zip_buffer \<Rightarrow> u32 \<Rightarrow> zip_extra_field list
    \<Rightarrow> ((int \<times> int) + zip_extra_field list) \<times> zip_buffer \<times> mem" where
  "ef_parse_loop m b flags acc =
     (if buf_ok b \<and> zip_buffer_left b \<ge> 4 then
        (case zip_buffer_get_16 b of
           (fid, b1) \<Rightarrow>
             (case zip_buffer_get_16 b1 of
                (flen, b2) \<Rightarrow>
                  (case zip_buffer_get b2 (ucast flen) of
                     (None, b3) \<Rightarrow> (Inl (ZIP_ER_INCONS, ZIP_ER_DETAIL_INVALID_EF_LENGTH), b3, m)
                   | (Some p, b3) \<Rightarrow>
                       (case zip_ef_new m fid (unat flen) (drop p (buf_data b3)) flags of
                          (None, m1) \<Rightarrow> (Inl (ZIP_ER_MEMORY, 0), b3, m1)
                        | (Some ef, m1) \<Rightarrow> ef_parse_loop m1 b3 flags (acc @ [ef])))))
      else (Inr acc, b, m))"
  by pat_completeness auto
termination
proof (relation "measure (\<lambda>(m, b, flags, acc). unat (buf_size b) - unat (buf_offset b))", goal_cases)
  case 1
  then show ?case by simp
next
  case (2 m b flags acc fid b1 flen b2 x b3 p r m1 ef)
  then have g: "zip_buffer_get b2 (ucast flen) = (Some p, b3)" "zip_buffer_get_16 b1 = (flen, b2)" "zip_buffer_get_16 b = (fid, b1)"
    by simp_all
  note m3 = get_moves [OF g(1)]
  note m2 = get_16_moves [OF g(2) m3(1)]
  note mv = get_16_moves [OF g(3) m2(1)]
  show ?case using m3(3,6,7) m2(2,4) mv(2,4) by simp
qed

declare ef_parse_loop.simps [simp del]

definition zip_ef_parse ::
  "mem \<Rightarrow> bytes \<Rightarrow> nat \<Rightarrow> u32 \<Rightarrow> zip_error option \<Rightarrow> bool \<times> zip_extra_field list \<times> zip_error option \<times> mem" where
  "zip_ef_parse m data len flags error =
     (case zip_buffer_new m (Some (take len data)) (word_of_nat len) of
        (None, m1) \<Rightarrow> (False, [], zip_error_set error ZIP_ER_MEMORY 0, m1)
      | (Some b, m1) \<Rightarrow>
          (case ef_parse_loop m1 b flags [] of
             (Inl (e, d), b1, m2) \<Rightarrow> (False, [], zip_error_set error e d, m2)
           | (Inr efs, b1, m2) \<Rightarrow>
               if \<not> zip_buffer_eof b1 then
                 (let glen = zip_buffer_left b1 in
                  case zip_buffer_get b1 glen of
                    (g, b2) \<Rightarrow>
                      if glen \<ge> 4 \<or> g = None \<or> take (unat glen) (drop (the g) (buf_data b2)) \<noteq> replicate (unat glen) 0
                      then (False, [], zip_error_set error ZIP_ER_INCONS ZIP_ER_DETAIL_EF_TRAILING_GARBAGE, m2)
                      else (True, efs, error, m2))
               else (True, efs, error, m2)))"

fun zip_ef_remove_internal :: "zip_extra_field list \<Rightarrow> zip_extra_field list" where
  "zip_ef_remove_internal [] = []"
| "zip_ef_remove_internal (ef # efs) =
     (if ZIP_EF_IS_INTERNAL (ef_id ef) then zip_ef_remove_internal efs else ef # zip_ef_remove_internal efs)"

fun ef_size_loop :: "zip_extra_field list \<Rightarrow> u32 \<Rightarrow> nat \<Rightarrow> nat" where
  "ef_size_loop [] flags sz = sz"
| "ef_size_loop (ef # efs) flags sz =
     ef_size_loop efs flags (if ef_in flags ef then (sz + 4 + ef_size ef) mod 65536 else sz)"

definition zip_ef_size :: "zip_extra_field list \<Rightarrow> u32 \<Rightarrow> nat" where
  "zip_ef_size efs flags = ef_size_loop efs flags 0"

fun ef_write_loop :: "'u callbacks \<Rightarrow> zip_buffer \<Rightarrow> 'u zip_t \<Rightarrow> zip_extra_field list \<Rightarrow> u32 \<Rightarrow> int \<times> 'u zip_t" where
  "ef_write_loop C b za [] flags = (0, za)"
| "ef_write_loop C b za (ef # efs) flags =
     (if ef_in flags ef then
        (let b1 = snd (zip_buffer_set_offset b 0);
             b2 = snd (zip_buffer_put_16 b1 (ef_id ef));
             b3 = snd (zip_buffer_put_16 b2 (word_of_nat (ef_size ef)))
         in if \<not> buf_ok b3 then (-1, za_set_error ZIP_ER_INTERNAL 0 za)
            else (case zip_write C za (buf_data b3) 4 of
                    (r, za1) \<Rightarrow>
                      if r < 0 then (-1, za1)
                      else if ef_size ef > 0 then
                        (case zip_write C za1 (ef_data ef) (ef_size ef) of
                           (r, za2) \<Rightarrow> if r < 0 then (-1, za2) else ef_write_loop C b3 za2 efs flags)
                      else ef_write_loop C b3 za1 efs flags))
      else ef_write_loop C b za efs flags)"

text \<open>The four bytes of the head are set before they are first read.\<close>

definition zip_ef_write :: "'u callbacks \<Rightarrow> mem \<Rightarrow> 'u zip_t \<Rightarrow> zip_extra_field list \<Rightarrow> u32 \<Rightarrow> int \<times> 'u zip_t \<times> mem" where
  "zip_ef_write C m za efs flags =
     (case zip_buffer_new m (Some (replicate 4 0)) 4 of
        (None, m1) \<Rightarrow> (-1, za, m1)
      | (Some b, m1) \<Rightarrow> (case ef_write_loop C b za efs flags of (r, za1) \<Rightarrow> (r, za1, m1)))"

text \<open>What \<open>_zip_read_local_ef\<close> does to an entry once the local fields are parsed.\<close>

definition store_local_ef :: "zip_extra_field list \<Rightarrow> 'u zip_entry \<Rightarrow> 'u zip_entry" where
  "store_local_ef efs e =
     (case ze_orig e of
        None \<Rightarrow> e
      | Some orig \<Rightarrow>
          (let orig1 = orig\<lparr>de_extra_fields :=
                 (if efs = [] then de_extra_fields orig
                  else zip_ef_merge (de_extra_fields orig) (zip_ef_remove_internal efs)),
                 de_local_extra_fields_read := True\<rparr>
           in e\<lparr>ze_orig := Some orig1,
                ze_changes := map_option (\<lambda>c. if de_local_extra_fields_read c then c
                  else c\<lparr>de_extra_fields := de_extra_fields orig1, de_local_extra_fields_read := True\<rparr>) (ze_changes e)\<rparr>))"

text \<open>\<open>errno\<close> is the value the failing seek left.\<close>

definition zip_read_local_ef :: "'u callbacks \<Rightarrow> int \<Rightarrow> mem \<Rightarrow> 'u zip_t \<Rightarrow> nat \<Rightarrow> int \<times> 'u zip_t \<times> mem" where
  "zip_read_local_ef C errno m za idx =
     (if idx \<ge> length (za_entry za) then (-1, za_set_error ZIP_ER_INVAL 0 za, m)
      else
        (case ze_orig (za_entry za ! idx) of
           None \<Rightarrow> (0, za, m)
         | Some orig \<Rightarrow>
             if de_local_extra_fields_read orig then (0, za, m)
             else if unat (de_offset orig + 26) > ZIP_INT64_MAX then (-1, za_set_error ZIP_ER_SEEK EFBIG za, m)
             else
               (case zip_source_seek C (za_src za) (int (unat (de_offset orig + 26))) SEEK_SET of
                  (r, src1) \<Rightarrow>
                    if r < 0 then
                      (-1, za\<lparr>za_src := src1, za_error := the (zip_error_set_from_source (Some (za_error za)) src1)\<rparr>, m)
                    else
                      (case zip_buffer_new_from_source C m src1 4 (Some (replicate 4 0)) (Some (za_error za)) of
                         (None, src2, e, m1) \<Rightarrow> (-1, za\<lparr>za_src := src2, za_error := the e\<rparr>, m1)
                       | (Some b, src2, e, m1) \<Rightarrow>
                           (let za1 = za\<lparr>za_src := src2, za_error := the e\<rparr>;
                                (fname_len, b1) = zip_buffer_get_16 b;
                                (ef_len, b2) = zip_buffer_get_16 b1
                            in if \<not> zip_buffer_eof b2 then (-1, za_set_error ZIP_ER_INTERNAL 0 za1, m1)
                               else if ef_len = 0 then (0, upd_entry idx (store_local_ef []) za1, m1)
                               else
                                 (case zip_source_seek C src2 (int (unat fname_len)) SEEK_CUR of
                                    (r, src3) \<Rightarrow>
                                      if r < 0 then (-1, za_set_error ZIP_ER_SEEK errno (za1\<lparr>za_src := src3\<rparr>), m1)
                                      else
                                        (case zip_read_data C m1 None src3 (unat ef_len) False (Some (za_error za1)) of
                                           (None, _, src4, e2, m2) \<Rightarrow> (-1, za1\<lparr>za_src := src4, za_error := the e2\<rparr>, m2)
                                         | (Some raw, _, src4, e2, m2) \<Rightarrow>
                                             (case zip_ef_parse m2 raw (unat ef_len) ZIP_FL_LOCAL e2 of
                                                (ok, efs, e3, m3) \<Rightarrow>
                                                  (let za2 = za1\<lparr>za_src := src4, za_error := the e3\<rparr> in
                                                   if \<not> ok then (-1, za2, m3)
                                                   else (0, upd_entry idx (store_local_ef efs) za2, m3))))))))))"

section \<open>What is written is what is parsed\<close>

definition ef_ok :: "zip_extra_field \<Rightarrow> bool" where
  "ef_ok ef \<longleftrightarrow> ef_size ef < 65536 \<and> length (ef_data ef) = ef_size ef"

definition ef_bytes :: "zip_extra_field \<Rightarrow> bytes" where
  "ef_bytes ef = le_enc 2 (unat (ef_id ef)) @ le_enc 2 (ef_size ef) @ ef_data ef"

definition efs_bytes :: "u32 \<Rightarrow> zip_extra_field list \<Rightarrow> bytes" where
  "efs_bytes flags efs = concat (map ef_bytes (filter (ef_in flags) efs))"

lemma efs_bytes_simps [simp]:
  "efs_bytes flags [] = []"
  "efs_bytes flags (ef # efs) = (if ef_in flags ef then ef_bytes ef @ efs_bytes flags efs else efs_bytes flags efs)"
  by (simp_all add: efs_bytes_def)

lemma length_ef_bytes: "ef_ok ef \<Longrightarrow> length (ef_bytes ef) = 4 + ef_size ef"
  by (simp add: ef_bytes_def ef_ok_def)

lemma ef_size_loop_mod:
  "list_all ef_ok efs \<Longrightarrow> ef_size_loop efs flags sz mod 65536 = (sz + length (efs_bytes flags efs)) mod 65536"
  by (induction efs arbitrary: sz) (simp_all add: length_ef_bytes mod_simps add.assoc)

lemma ef_size_loop_lt: "sz < 65536 \<Longrightarrow> ef_size_loop efs flags sz < 65536"
  by (induction efs arbitrary: sz) auto

lemma zip_ef_size_bytes:
  "list_all ef_ok efs \<Longrightarrow> zip_ef_size efs flags = length (efs_bytes flags efs) mod 65536"
  using ef_size_loop_mod [of efs flags 0] ef_size_loop_lt [of 0 efs flags] by (simp add: zip_ef_size_def)

lemma ef_in_flags: "ef_in flags (ef\<lparr>ef_data := d\<rparr>) = ef_in flags ef"
  by (simp add: ef_in_def)

text \<open>The head of a field in the four bytes of the scratch block.\<close>

lemma ef_head:
  fixes i k :: u16
  assumes "buf_inv b" and "buf_size b = 4"
  defines "b3 \<equiv> snd (zip_buffer_put_16 (snd (zip_buffer_put_16 (snd (zip_buffer_set_offset b 0)) i)) k)"
  shows "buf_ok b3" and "buf_inv b3" and "buf_size b3 = 4" and "buf_data b3 = le_enc 2 (unat i) @ le_enc 2 (unat k)"
proof -
  have "wrote (snd (zip_buffer_set_offset b 0)) [] 4"
    using assms(1,2) by (simp add: zip_buffer_set_offset_def wrote_def buf_inv_def)
  from puts_wrote(2) [OF puts_wrote(2) [OF this], of i k]
  have "wrote b3 (le_enc 2 (unat i) @ le_enc 2 (unat k)) 0" unfolding b3_def by simp
  moreover have "buf_size b3 = 4"
    unfolding b3_def using assms(2)
    by (simp add: zip_buffer_put_16_def zip_buffer_set_offset_def get_eq split: option.splits prod.splits)
  ultimately show "buf_ok b3" "buf_inv b3" "buf_size b3 = 4" "buf_data b3 = le_enc 2 (unat i) @ le_enc 2 (unat k)"
    by (auto simp: wrote_def buf_inv_def)
qed

context byte_sink
begin

lemma ef_write_loop_appends:
  "list_all ef_ok efs \<Longrightarrow> buf_inv b \<Longrightarrow> buf_size b = 4 \<Longrightarrow> good (za_src za) \<Longrightarrow>
    length (out (za_src za)) + length (efs_bytes flags efs) < limit \<Longrightarrow>
    \<exists>za1. ef_write_loop C b za efs flags = (0, za1) \<and> appended good out (efs_bytes flags efs) za za1"
proof (induction efs arbitrary: b za)
  case Nil
  then show ?case by (simp add: appended_refl)
next
  case (Cons ef efs)
  show ?case
  proof (cases "ef_in flags ef")
    case False
    then show ?thesis using Cons by simp
  next
    case True
    let ?b = "snd (zip_buffer_put_16 (snd (zip_buffer_put_16 (snd (zip_buffer_set_offset b 0)) (ef_id ef))) (word_of_nat (ef_size ef)))"
    note h = ef_head [OF Cons.prems(2,3), of "ef_id ef" "word_of_nat (ef_size ef)"]
    have ok: "ef_size ef < 65536" "length (ef_data ef) = ef_size ef" "list_all ef_ok efs" "ef_ok ef"
      using Cons.prems(1) by (auto simp: ef_ok_def [of ef])
    have u: "unat (word_of_nat (ef_size ef) :: u16) = ef_size ef" using ok(1) by (simp add: unsigned_of_nat take_bit_nat_eq_self)
    have d: "take 4 (buf_data ?b) = buf_data ?b" "ef_bytes ef = buf_data ?b @ ef_data ef"
      unfolding h(4) u by (simp_all add: ef_bytes_def)
    have lim: "length (out (za_src za)) + (4 + ef_size ef + length (efs_bytes flags efs)) < limit"
      using Cons.prems(5) True length_ef_bytes [OF ok(4)] by simp
    from zip_write_appends [OF Cons.prems(4), of 4 "buf_data ?b"] h(4) lim obtain za1 where
      za1: "zip_write C za (buf_data ?b) 4 = (0, za1)" "appended good out (buf_data ?b) za za1"
      unfolding d(1) by auto
    note o1 = appendedD [OF za1(2)]
    have l1: "length (out (za_src za1)) = length (out (za_src za)) + 4" unfolding o1(2) h(4) by simp
    obtain za2 where
      za2: "(if ef_size ef > 0 then zip_write C za1 (ef_data ef) (ef_size ef) else (0, za1)) = (0, za2)"
      "appended good out (ef_data ef) za1 za2"
    proof (cases "ef_size ef > 0")
      case True
      then show ?thesis using zip_write_appends [OF o1(1), of "ef_size ef" "ef_data ef"] ok(2) lim l1 that by auto
    next
      case False
      then show ?thesis using appended_refl [of good za1 out] o1(1) ok(2) that by simp
    qed
    have l2: "length (out (za_src za2)) = length (out (za_src za)) + 4 + ef_size ef"
      unfolding appendedD(2) [OF za2(2)] using l1 ok(2) by simp
    from Cons.IH [OF ok(3) h(2,3) appendedD(1) [OF za2(2)]] lim l2 obtain za3 where
      za3: "ef_write_loop C ?b za2 efs flags = (0, za3)" "appended good out (efs_bytes flags efs) za2 za3" by auto
    have "ef_write_loop C b za (ef # efs) flags = (0, za3)"
      using True h(1) za1(1) za2(1) za3(1) by (simp add: Let_def split: if_splits)
    moreover have "appended good out (efs_bytes flags (ef # efs)) za za3"
      using appended_trans [OF appended_trans [OF za1(2) za2(2)] za3(2)] True d(2) by simp
    ultimately show ?thesis by blast
  qed
qed

lemma zip_ef_write_appends:
  assumes "list_all ef_ok efs" and "good (za_src za)" and "length (out (za_src za)) + length (efs_bytes flags efs) < limit"
  shows "\<exists>za1. zip_ef_write C [] za efs flags = (0, za1, []) \<and> appended good out (efs_bytes flags efs) za za1"
proof -
  let ?b = "\<lparr>buf_ok = True, buf_free_data = False, buf_data = replicate 4 0, buf_size = 4, buf_offset = 0\<rparr>"
  have "buf_inv ?b" by (simp add: buf_inv_def)
  moreover have "zip_buffer_new [] (Some (replicate 4 0)) 4 = (Some ?b, [])" by (simp add: zip_buffer_new_def)
  ultimately show ?thesis using ef_write_loop_appends [OF assms(1), of ?b za flags] assms(2,3)
    by (auto simp: zip_ef_write_def)
qed

end

text \<open>Parsing, with all allocations answered.\<close>

definition with_flags :: "u32 \<Rightarrow> zip_extra_field \<Rightarrow> zip_extra_field" where
  "with_flags flags ef = ef\<lparr>ef_flags := flags\<rparr>"

lemma ef_parse_loop_correct:
  "list_all ef_ok efs \<Longrightarrow> reads b (concat (map ef_bytes efs) @ pad) \<Longrightarrow> length pad < 4 \<Longrightarrow>
    \<exists>b1. ef_parse_loop [] b flags acc = (Inr (acc @ map (with_flags flags) efs), b1, []) \<and> reads b1 pad"
proof (induction efs arbitrary: b acc)
  case Nil
  then have "\<not> zip_buffer_left b \<ge> 4" using zip_buffer_left_reads [of b pad] by (simp add: word_le_nat_alt)
  then show ?case using Nil by (subst ef_parse_loop.simps) simp
next
  case (Cons ef efs)
  let ?rest = "concat (map ef_bytes efs) @ pad"
  have ok: "ef_size ef < 65536" "length (ef_data ef) = ef_size ef" "list_all ef_ok efs"
    using Cons.prems(1) by (auto simp: ef_ok_def [of ef])
  have u: "unat (word_of_nat (ef_size ef) :: u16) = ef_size ef" using ok(1) by (simp add: unsigned_of_nat take_bit_nat_eq_self)
  have r: "reads b (le_enc 2 (unat (ef_id ef)) @ (le_enc 2 (unat (word_of_nat (ef_size ef) :: u16)) @ (ef_data ef @ ?rest)))"
    using Cons.prems(2) unfolding u by (simp add: ef_bytes_def [of ef])
  note g1 = gets_read(3,4) [OF r]
  note g2 = gets_read(3,4) [OF g1(2)]
  have "unat (ucast (word_of_nat (ef_size ef) :: u16) :: u64) = length (ef_data ef)"
    using ok u by (simp add: unsigned_ucast_eq take_bit_nat_eq_self)
  from zip_buffer_get_reads [OF g2(2) this] obtain p b3 where
    b3: "zip_buffer_get (snd (zip_buffer_get_16 (snd (zip_buffer_get_16 b)))) (ucast (word_of_nat (ef_size ef) :: u16)) = (Some p, b3)"
    "take (length (ef_data ef)) (drop p (buf_data b3)) = ef_data ef" "reads b3 ?rest" by blast
  have new: "zip_ef_new [] (ef_id ef) (ef_size ef) (drop p (buf_data b3)) flags = (Some (with_flags flags ef), [])"
    using b3(2) ok(2) by (cases ef) (auto simp: zip_ef_new_def zip_memdup_def with_flags_def)
  have left: "buf_ok b" "zip_buffer_left b \<ge> 4"
    using zip_buffer_left_reads [OF r] readsD(2) [OF r] by (simp_all add: word_le_nat_alt)
  have p1: "zip_buffer_get_16 b = (ef_id ef, snd (zip_buffer_get_16 b))" using g1(1) by (simp add: prod_eq_iff)
  have p2: "zip_buffer_get_16 (snd (zip_buffer_get_16 b)) = (word_of_nat (ef_size ef), snd (zip_buffer_get_16 (snd (zip_buffer_get_16 b))))"
    using g2(1) by (simp add: prod_eq_iff)
  have "ef_parse_loop [] b flags acc = ef_parse_loop [] b3 flags (acc @ [with_flags flags ef])"
    using left b3(1) new u by (subst ef_parse_loop.simps, subst p1, simp only: prod.case, subst p2) simp
  then show ?case using Cons.IH [OF ok(3) b3(3) Cons.prems(3), of "acc @ [with_flags flags ef]"] by simp
qed

lemma zip_ef_parse_correct:
  assumes "list_all ef_ok efs" and "length pad < 4" and "set pad \<subseteq> {0}"
    and "data = concat (map ef_bytes efs) @ pad" and "length data < 65536"
  shows "zip_ef_parse [] data (length data) flags error = (True, map (with_flags flags) efs, error, [])"
proof -
  have "length data < 2 ^ 64" using assms(5) by simp
  from zip_buffer_new_reads [OF this] obtain b where
    b: "zip_buffer_new [] (Some data) (word_of_nat (length data)) = (Some b, [])" "reads b data" by blast
  from ef_parse_loop_correct [OF assms(1) b(2) [unfolded assms(4)] assms(2), of flags "[]"] obtain b1 where
    b1: "ef_parse_loop [] b flags [] = (Inr (map (with_flags flags) efs), b1, [])" "reads b1 pad" by auto
  have l: "unat (zip_buffer_left b1) = length pad" by (rule zip_buffer_left_reads [OF b1(2)])
  have "reads b1 (pad @ [])" using b1(2) by simp
  from zip_buffer_get_reads [OF this l] obtain p b2 where
    g: "zip_buffer_get b1 (zip_buffer_left b1) = (Some p, b2)" "take (length pad) (drop p (buf_data b2)) = pad" by blast
  have "pad = replicate (length pad) 0" using assms(3) by (metis replicate_eqI subset_singletonD insert_iff empty_iff ex_in_conv insert_subset)
  then have "take (unat (zip_buffer_left b1)) (drop p (buf_data b2)) = replicate (unat (zip_buffer_left b1)) 0"
    using g(2) l by simp
  moreover have "\<not> zip_buffer_left b1 \<ge> 4" using l assms(2) by (simp add: word_le_nat_alt)
  ultimately show ?thesis using b(1) b1(1) g(1) by (simp add: zip_ef_parse_def Let_def)
qed

section \<open>Deleting, searching and merging\<close>

definition ef_match :: "u16 \<Rightarrow> u32 \<Rightarrow> zip_extra_field \<Rightarrow> bool" where
  "ef_match i flags ef \<longleftrightarrow> ef_id ef = i \<and> ef_in flags ef"

definition ef_value :: "zip_extra_field \<Rightarrow> bytes \<times> nat" where
  "ef_value ef = (if ef_size ef > 0 then ef_data ef else [0], ef_size ef)"

lemma ef_get_loop_nth:
  "k \<le> n \<Longrightarrow> ef_get_loop efs i n flags k =
    (let ms = filter (ef_match i flags) efs in if n - k < length ms then Some (ef_value (ms ! (n - k))) else None)"
proof (induction efs arbitrary: k)
  case (Cons ef efs)
  show ?case
  proof (cases "ef_match i flags ef \<and> k < n")
    case True
    then have "n - k = Suc (n - Suc k)" by (simp add: Suc_diff_Suc)
    with True Cons.IH [of "Suc k"] show ?thesis by (simp add: ef_match_def Let_def)
  next
    case False
    with Cons show ?thesis by (auto simp: ef_match_def ef_value_def Let_def)
  qed
qed simp

lemma zip_ef_get_by_id_nth:
  "zip_ef_get_by_id efs i n flags error =
    (let ms = filter (ef_match i flags) efs in
     if n < length ms then (Some (ef_value (ms ! n)), error) else (None, zip_error_set error ZIP_ER_NOENT 0))"
  using ef_get_loop_nth [of 0 n efs i flags] by (simp add: zip_ef_get_by_id_def Let_def)

lemma flag_cleared: "\<not> flag_set ((a AND NOT (b AND c)) AND b) (c :: u32)"
proof -
  have e: "((a AND NOT (b AND c)) AND b) AND c = a AND (NOT (b AND c) AND (b AND c))" by (simp only: ac_simps)
  show ?thesis unfolding flag_set_def e by (simp only: bit.conj_cancel_left bit.conj_zero_right)
qed

lemma cleared_none: "a AND c = 0 \<Longrightarrow> \<not> flag_set (a AND b) (c :: u32)"
proof -
  assume "a AND c = 0"
  moreover have "(a AND b) AND c = b AND (a AND c)" by (simp only: ac_simps)
  ultimately show ?thesis by (simp add: flag_set_def)
qed

lemma ef_delete_loop_Cons:
  assumes "unat i \<noteq> 65535"
  shows "ef_delete_loop (ef # efs) (unat i) n flags k =
    (if \<not> ef_match i flags ef then ef # ef_delete_loop efs (unat i) n flags k
     else if n = 65535 \<or> k = n then
       (if ef_flags (ef_clear flags ef) AND ZIP_EF_BOTH = 0
        then (if n = 65535 then ef_delete_loop efs (unat i) n flags k else efs)
        else ef_clear flags ef # (if k + 1 > n then efs else ef_delete_loop efs (unat i) n flags (k + 1)))
     else ef # (if k + 1 > n then efs else ef_delete_loop efs (unat i) n flags (k + 1)))"
proof -
  have "(ef_in flags ef \<and> (unat (ef_id ef) = unat i \<or> unat i = ZIP_EXTRA_FIELD_ALL)) = ef_match i flags ef"
    using assms by (auto simp: word_unat_eq_iff ef_match_def)
  then show ?thesis by (simp add: Let_def)
qed

lemma ef_clear_no_match: "\<not> ef_match i flags (ef_clear flags ef)"
  using flag_cleared [of "ef_flags ef" flags "ZIP_EF_BOTH"] by (simp add: ef_match_def ef_in_def ef_clear_def)

lemma ef_clear_id [simp]: "ef_id (ef_clear flags ef) = ef_id ef"
  by (simp add: ef_clear_def)

lemma ef_delete_loop_same:
  assumes "unat i \<noteq> 65535" and "n \<noteq> 65535"
  shows "k \<le> n \<Longrightarrow> filter (ef_match i flags) (ef_delete_loop efs (unat i) n flags k) =
    take (n - k) (filter (ef_match i flags) efs) @ drop (Suc (n - k)) (filter (ef_match i flags) efs)"
proof (induction efs arbitrary: k)
  case (Cons ef efs)
  show ?case
  proof (cases "ef_match i flags ef \<and> k < n")
    case True
    then have "n - k = Suc (n - Suc k)" "Suc k \<le> n" by (simp_all add: Suc_diff_Suc)
    then show ?thesis using True Cons.IH [of "Suc k"] assms(2) by (simp add: ef_delete_loop_Cons [OF assms(1)] del: ef_delete_loop.simps(2))
  next
    case False
    then show ?thesis using Cons ef_clear_no_match [of i flags ef] assms(2)
      by (simp add: ef_delete_loop_Cons [OF assms(1)] del: ef_delete_loop.simps(2))
  qed
qed simp

lemma ef_delete_loop_all:
  assumes "unat i \<noteq> 65535"
  shows "k + length efs \<le> 65535 \<Longrightarrow> filter (ef_match i flags) (ef_delete_loop efs (unat i) 65535 flags k) = []"
proof (induction efs arbitrary: k)
  case (Cons ef efs)
  then show ?case using ef_clear_no_match [of i flags ef] by (simp add: ef_delete_loop_Cons [OF assms] del: ef_delete_loop.simps(2))
qed simp

lemma zip_ef_get_by_id_cong:
  assumes "map ef_value (filter (ef_match j fl) xs) = map ef_value (filter (ef_match j fl) ys)"
  shows "zip_ef_get_by_id xs j k fl error = zip_ef_get_by_id ys j k fl error"
proof -
  have "length (filter (ef_match j fl) xs) = length (filter (ef_match j fl) ys)"
    using arg_cong [OF assms, of length] by simp
  moreover have "k < length (filter (ef_match j fl) ys) \<Longrightarrow>
      ef_value (filter (ef_match j fl) xs ! k) = ef_value (filter (ef_match j fl) ys ! k)"
    using assms calculation by (metis nth_map)
  ultimately show ?thesis by (simp add: zip_ef_get_by_id_nth Let_def)
qed

lemma ef_delete_loop_other:
  assumes "unat i \<noteq> 65535" and "j \<noteq> i"
  shows "filter (ef_match j fl) (ef_delete_loop efs (unat i) n flags k) = filter (ef_match j fl) efs"
proof (induction efs arbitrary: k)
  case (Cons ef efs)
  have "ef_match i flags ef \<Longrightarrow> \<not> ef_match j fl ef \<and> \<not> ef_match j fl (ef_clear flags ef)"
    using assms(2) by (auto simp: ef_match_def)
  with Cons show ?case by (cases "ef_match i flags ef"; cases "n = 65535") (simp_all add: ef_delete_loop_Cons [OF assms(1)] del: ef_delete_loop.simps(2))
qed simp

lemma ef_same_sym: "ef_same a b = ef_same b a"
  by (auto simp: ef_same_def)

lemma ef_same_trans: "ef_same a b \<Longrightarrow> ef_same b c \<Longrightarrow> ef_same a c"
  by (auto simp: ef_same_def)

lemma flags_apart:
  fixes a b c :: u32
  shows "(a AND b) AND c = 0 \<Longrightarrow> ((x AND NOT (b AND c)) AND a) AND c = (x AND a) AND c"
  unfolding bit_eq_iff by (auto simp: bit_simps)

lemma flags_apart_none:
  fixes a b c :: u32
  shows "(a AND b) AND c = 0 \<Longrightarrow> (x AND NOT (b AND c)) AND c = 0 \<Longrightarrow> (x AND a) AND c = 0"
  unfolding bit_eq_iff by (auto simp: bit_simps)

lemma ef_match_clear:
  assumes "(fl AND flags) AND ZIP_EF_BOTH = 0"
  shows "ef_match j fl (ef_clear flags ef) \<longleftrightarrow> ef_match j fl ef"
    and "ef_flags (ef_clear flags ef) AND ZIP_EF_BOTH = 0 \<Longrightarrow> \<not> ef_match j fl ef"
    and "ef_value (ef_clear flags ef) = ef_value ef"
  using flags_apart [OF assms, of "ef_flags ef"] flags_apart_none [OF assms, of "ef_flags ef"]
  unfolding ef_match_def ef_in_def flag_set_def ef_clear_def ef_value_def by (simp_all del: bit.conj_disj_distrib)

lemma ef_delete_loop_other_header:
  fixes i :: u16
  assumes "unat i \<noteq> ZIP_EXTRA_FIELD_ALL" and "(fl AND flags) AND ZIP_EF_BOTH = 0"
  shows "map ef_value (filter (ef_match j fl) (ef_delete_loop efs (unat i) n flags k))
       = map ef_value (filter (ef_match j fl) efs)"
proof (induction efs arbitrary: k)
  case (Cons ef efs)
  show ?case using Cons ef_match_clear [OF assms(2)]
    by (auto simp: ef_delete_loop_Cons [OF assms(1)] simp del: ef_delete_loop.simps(2))
qed simp

lemma ef_in_or: "ef_in fl (t\<lparr>ef_flags := ef_flags t OR (ef_flags f AND ZIP_EF_BOTH)\<rparr>) \<longleftrightarrow> ef_in fl t \<or> ef_in fl f"
proof -
  have f: "ef_flags (t\<lparr>ef_flags := ef_flags t OR (ef_flags f AND ZIP_EF_BOTH)\<rparr>) = ef_flags t OR (ef_flags f AND ZIP_EF_BOTH)"
    by simp
  have d: "(ef_flags t OR (ef_flags f AND ZIP_EF_BOTH)) AND fl
      = (ef_flags t AND fl) OR ((ef_flags f AND fl) AND ZIP_EF_BOTH)"
    by (simp only: bit.conj_disj_distrib2) (simp only: ac_simps)
  have "flag_set ((ef_flags f AND fl) AND ZIP_EF_BOTH) ZIP_EF_BOTH = flag_set (ef_flags f AND fl) ZIP_EF_BOTH"
    by (simp add: flag_set_def and.assoc)
  then show ?thesis unfolding ef_in_def f d flag_set_or by simp
qed

text \<open>A field with the id, size and data of \<open>x\<close> that the header \<open>fl\<close> has.\<close>

text \<open>A header has this field: some field of the list with its id, its size and its data is marked for the header.\<close>

definition ef_present :: "u32 \<Rightarrow> zip_extra_field \<Rightarrow> zip_extra_field list \<Rightarrow> bool" where
  "ef_present fl x efs \<longleftrightarrow> (\<exists>t \<in> set efs. ef_id t = ef_id x \<and> ef_value t = ef_value x \<and> ef_flags t AND fl AND ZIP_EF_BOTH \<noteq> 0)"

lemma ef_same_value: "ef_same a b \<longleftrightarrow> ef_id a = ef_id b \<and> ef_value a = ef_value b"
  by (auto simp: ef_same_def ef_value_def)

lemma ef_present_same: "ef_present fl x efs \<longleftrightarrow> (\<exists>t \<in> set efs. ef_same t x \<and> ef_in fl t)"
  by (auto simp: ef_present_def ef_same_value ef_in_def flag_set_def and.assoc)

lemma upd_first_split:
  "list_ex P xs \<Longrightarrow> \<exists>ys y zs. xs = ys @ y # zs \<and> P y \<and> upd_first P f xs = ys @ f y # zs"
proof (induction xs)
  case (Cons x xs)
  show ?case
  proof (cases "P x")
    case True
    then show ?thesis by (intro exI [of _ "[]"] exI [of _ x] exI [of _ xs]) simp
  next
    case False
    then obtain ys y zs where "xs = ys @ y # zs" "P y" "upd_first P f xs = ys @ f y # zs"
      using Cons by auto
    then show ?thesis using False by (intro exI [of _ "x # ys"] exI [of _ y] exI [of _ zs]) simp
  qed
qed simp

lemma ef_merge_loop_present:
  "ef_present fl x (ef_merge_loop to fs) \<longleftrightarrow> ef_present fl x to \<or> ef_present fl x fs"
proof (induction to fs rule: ef_merge_loop.induct)
  case (2 to f fs)
  have head: "ef_present fl x (f # fs) \<longleftrightarrow> (ef_same f x \<and> ef_in fl f) \<or> ef_present fl x fs"
    by (auto simp: ef_present_same)
  show ?case
  proof (cases "list_ex (\<lambda>t. ef_same t f) to")
    case True
    let ?g = "\<lambda>t. t\<lparr>ef_flags := ef_flags t OR (ef_flags f AND ZIP_EF_BOTH)\<rparr>"
    from upd_first_split [OF True, of ?g] obtain ys y zs where
      u: "to = ys @ y # zs" "ef_same y f" "upd_first (\<lambda>t. ef_same t f) ?g to = ys @ ?g y # zs" by blast
    have "ef_same (?g y) x = ef_same f x" "ef_same y x = ef_same f x"
      using u(2) ef_same_sym ef_same_trans by (auto simp: ef_same_def)
    then have "ef_present fl x (ys @ ?g y # zs) \<longleftrightarrow> ef_present fl x (ys @ y # zs) \<or> (ef_same f x \<and> ef_in fl f)"
      using ef_in_or [of fl y f] by (auto simp: ef_present_same)
    then have "ef_present fl x (upd_first (\<lambda>t. ef_same t f) ?g to) \<longleftrightarrow> ef_present fl x to \<or> (ef_same f x \<and> ef_in fl f)"
      by (simp only: u(3)) (simp only: u(1))
    then show ?thesis using True 2(1) head by auto
  next
    case False
    have "ef_present fl x (to @ [f]) \<longleftrightarrow> ef_present fl x to \<or> (ef_same f x \<and> ef_in fl f)"
      by (auto simp: ef_present_same)
    then show ?thesis using False 2(2) head by auto
  qed
qed (simp add: ef_present_same)

section \<open>Properties\<close>

text \<open>
  C5. The extra fields written for one header, local or central, to an in-memory archive are what a
  parse of the written bytes yields, in order, and the size announced for them is the number of
  bytes written.
\<close>

theorem zip_ef_write_parse:
  assumes "list_all ef_ok efs" and "mem_writer (za_src za)" and "length (efs_bytes flags efs) < 65536"
    and "length (mem_written (za_src za)) + 65536 \<le> 2 ^ 63"
  shows "\<exists>za1 bs. zip_ef_write buffer_callbacks [] za efs flags = (0, za1, [])
    \<and> mem_written (za_src za1) = mem_written (za_src za) @ bs \<and> length bs = zip_ef_size efs flags
    \<and> zip_ef_parse [] bs (length bs) fl error = (True, map (with_flags fl) (filter (ef_in flags) efs), error, [])"
proof -
  have "length (mem_written (za_src za)) + length (efs_bytes flags efs) < 2 ^ 63" using assms(3,4) by simp
  from mem_sink.zip_ef_write_appends [OF assms(1,2) this] obtain za1 where
    w: "zip_ef_write buffer_callbacks [] za efs flags = (0, za1, [])"
      "appended mem_writer mem_written (efs_bytes flags efs) za za1" by blast
  have "list_all ef_ok (filter (ef_in flags) efs)" using assms(1) by (auto simp: list_all_iff)
  from zip_ef_parse_correct [OF this, of "[]" "efs_bytes flags efs" fl error] assms(3)
  have "zip_ef_parse [] (efs_bytes flags efs) (length (efs_bytes flags efs)) fl error
      = (True, map (with_flags fl) (filter (ef_in flags) efs), error, [])" by (simp add: efs_bytes_def)
  then show ?thesis using w(1) appendedD(2) [OF w(2)] zip_ef_size_bytes [OF assms(1), of flags] assms(3) by auto
qed

theorem zip_ef_write_parse_witness:
  "\<exists>za1 bs. zip_ef_write buffer_callbacks [] sample_archive
       [\<lparr>ef_flags = 768, ef_id = 7, ef_size = 2, ef_data = [1, 2]\<rparr>] 256 = (0, za1, [])
    \<and> zip_ef_parse [] bs (length bs) 512 None
      = (True, [\<lparr>ef_flags = 512, ef_id = 7, ef_size = 2, ef_data = [1, 2]\<rparr>], None, [])"
proof -
  let ?efs = "[\<lparr>ef_flags = 768, ef_id = 7, ef_size = 2, ef_data = [1, 2 :: u8]\<rparr>]"
  have "list_all ef_ok ?efs" "mem_writer (za_src sample_archive)" "length (efs_bytes 256 ?efs) < 65536"
    "length (mem_written (za_src sample_archive)) + 65536 \<le> 2 ^ 63"
    using sample_writer_ok by (simp_all add: ef_ok_def sample_archive_def ef_bytes_def)
  from zip_ef_write_parse [OF this, of 512 None] show ?thesis
    by (auto simp: with_flags_def ef_in_def flag_set_def)
qed

text \<open>
  C24. After deleting the fields of an id for some headers, by position or all of them, a search for
  that id in these headers skips exactly the deleted ones; a search for any other id, and a search of
  any id in a header the deletion was not asked for, give what they gave before.
\<close>

theorem zip_ef_delete_then_get:
  assumes "unat i \<noteq> ZIP_EXTRA_FIELD_ALL" and "length efs \<le> 65535"
  shows "zip_ef_get_by_id (zip_ef_delete_by_id efs (unat i) n flags) i k flags error
       = (if n = ZIP_EXTRA_FIELD_ALL then (None, zip_error_set error ZIP_ER_NOENT 0)
          else zip_ef_get_by_id efs i (if k < n then k else k + 1) flags error)
    \<and> (\<forall>j fl. j \<noteq> i \<or> (fl AND flags) AND ZIP_EF_BOTH = 0
         \<longrightarrow> zip_ef_get_by_id (zip_ef_delete_by_id efs (unat i) n flags) j k fl error
           = zip_ef_get_by_id efs j k fl error)"
proof -
  let ?efs = "zip_ef_delete_by_id efs (unat i) n flags"
  have same: "filter (ef_match i flags) ?efs =
      (if n = ZIP_EXTRA_FIELD_ALL then []
       else take n (filter (ef_match i flags) efs) @ drop (Suc n) (filter (ef_match i flags) efs))"
    using ef_delete_loop_same [OF assms(1), of n 0 flags efs] ef_delete_loop_all [OF assms(1), of 0 efs flags] assms(2)
    by (simp add: zip_ef_delete_by_id_def)
  have other: "map ef_value (filter (ef_match j fl) ?efs) = map ef_value (filter (ef_match j fl) efs)"
    if "j \<noteq> i \<or> (fl AND flags) AND ZIP_EF_BOTH = 0" for j fl
    using that ef_delete_loop_other [OF assms(1), of j fl efs n flags 0]
      ef_delete_loop_other_header [OF assms(1), of fl flags j efs n 0]
    by (auto simp: zip_ef_delete_by_id_def)
  show ?thesis
    using same zip_ef_get_by_id_cong [OF other, of _ _ k error]
    by (auto simp: zip_ef_get_by_id_nth Let_def nth_append min_def)
qed

theorem zip_ef_delete_then_get_witness:
  "fst (zip_ef_get_by_id (zip_ef_delete_by_id [\<lparr>ef_flags = 768, ef_id = 7, ef_size = 1, ef_data = [1]\<rparr>,
      \<lparr>ef_flags = 768, ef_id = 7, ef_size = 1, ef_data = [2]\<rparr>] 7 0 256) 7 0 256 None) = Some ([2], 1)"
  using zip_ef_delete_then_get [of 7 "[\<lparr>ef_flags = 768, ef_id = 7, ef_size = 1, ef_data = [1]\<rparr>,
      \<lparr>ef_flags = 768, ef_id = 7, ef_size = 1, ef_data = [2]\<rparr>]" 0 256 0 None]
  by (simp add: zip_ef_get_by_id_def ef_in_def flag_set_def)

text \<open>
  C25. Merging the fields of the local header into those of the central one loses and invents
  nothing: a field is in a header after the merge exactly when one of the lists had it there.
\<close>

theorem zip_ef_merge_present:
  "ef_present fl x (zip_ef_merge ts fs) \<longleftrightarrow> ef_present fl x ts \<or> ef_present fl x fs"
  using ef_merge_loop_present [of fl x ts fs] by (auto simp: zip_ef_merge_def ef_present_same)

theorem zip_ef_merge_present_witness:
  "ef_present 256 \<lparr>ef_flags = 0, ef_id = 7, ef_size = 1, ef_data = [2]\<rparr>
     (zip_ef_merge [\<lparr>ef_flags = 512, ef_id = 7, ef_size = 1, ef_data = [1]\<rparr>] [\<lparr>ef_flags = 256, ef_id = 7, ef_size = 1, ef_data = [2]\<rparr>])"
  unfolding zip_ef_merge_present by (simp add: ef_present_def ef_value_def)

end
