(* ===== verification/Zip_Dirent.thy ===== *)
theory Zip_Dirent
  imports Zip_Extra_Field
begin

text \<open>
  Directory entries and the central directory (lib/zip_dirent.c, lib/zip_entry.c): their headers
  written to the archive's source and read back, local and central, with the Zip64, UTF-8 and WinZip
  AES extra fields. crc32 (zlib) and mktime and localtime (libc) are parameters. A reader returns
  no entry where the C returns -1; the partly filled structure is only freed by its callers.
\<close>

section \<open>Parameters\<close>

record tm =
  tm_sec :: int
  tm_min :: int
  tm_hour :: int
  tm_mday :: int
  tm_mon :: int
  tm_year :: int
  tm_isdst :: int

record libs =
  lb_crc32 :: "u32 \<Rightarrow> bytes option \<Rightarrow> u32"
  lb_mktime :: "tm \<Rightarrow> int"
  lb_localtime :: "int \<Rightarrow> tm option"

section \<open>Entries and directories\<close>

definition zip_entry_init :: "'u zip_entry" where
  "zip_entry_init = \<lparr>ze_orig = None, ze_changes = None, ze_source = None, ze_deleted = False\<rparr>"

text \<open>The size of \<open>struct zip_entry\<close>.\<close>

abbreviation sizeof_entry :: nat where "sizeof_entry \<equiv> 32"

definition zip_cdir_grow ::
  "mem \<Rightarrow> 'u zip_cdir \<Rightarrow> nat \<Rightarrow> zip_error option \<Rightarrow> bool \<times> 'u zip_cdir \<times> zip_error option \<times> mem" where
  "zip_cdir_grow m cd additional error =
     (if additional = 0 then (True, cd, error, m)
      else
        (let new_alloc = (cd_nentry_alloc cd + additional) mod 2 ^ 64 in
         if new_alloc < additional \<or> new_alloc > ZIP_UINT64_MAX div sizeof_entry
         then (False, cd, zip_error_set error ZIP_ER_MEMORY 0, m)
         else (case malloc m of
                 (None, m1) \<Rightarrow> (False, cd, zip_error_set error ZIP_ER_MEMORY 0, m1)
               | (Some _, m1) \<Rightarrow>
                   (True, cd\<lparr>cd_entry := cd_entry cd @ replicate (new_alloc - length (cd_entry cd)) zip_entry_init,
                             cd_nentry_alloc := new_alloc\<rparr>, error, m1))))"

definition zip_cdir_new :: "mem \<Rightarrow> nat \<Rightarrow> zip_error option \<Rightarrow> 'u zip_cdir option \<times> zip_error option \<times> mem" where
  "zip_cdir_new m nentry error =
     (case malloc m of
        (None, m1) \<Rightarrow> (None, zip_error_set error ZIP_ER_MEMORY 0, m1)
      | (Some _, m1) \<Rightarrow>
          (case zip_cdir_grow m1 \<lparr>cd_entry = [], cd_nentry_alloc = 0, cd_size = 0, cd_offset = 0, cd_comment = None,
                                 cd_is_zip64 = False\<rparr> nentry error of
             (False, _, e, m2) \<Rightarrow> (None, e, m2)
           | (True, cd, e, m2) \<Rightarrow> (Some cd, e, m2)))"

definition ZIP_EXT_ATTRIB_DEFAULT :: u32 where
  "ZIP_EXT_ATTRIB_DEFAULT = push_bit 16 0x81b6"

definition zip_dirent_init :: zip_dirent where
  "zip_dirent_init = \<lparr>de_changed = 0, de_local_extra_fields_read = False, de_cloned = False, de_crc_valid = True,
     de_version_madeby = 63 OR push_bit 8 3, de_version_needed = 10, de_bitflags = 0, de_comp_method = ZIP_CM_DEFAULT,
     de_last_mod = 0, de_crc = 0, de_comp_size = 0, de_uncomp_size = 0, de_filename = None, de_extra_fields = [],
     de_comment = None, de_disk_number = 0, de_int_attrib = 0, de_ext_attrib = ZIP_EXT_ATTRIB_DEFAULT, de_offset = 0,
     de_compression_level = 0, de_encryption_method = ZIP_EM_NONE, de_password = None\<rparr>"

definition zip_dirent_clone :: "mem \<Rightarrow> zip_dirent option \<Rightarrow> zip_dirent option \<times> mem" where
  "zip_dirent_clone m sde =
     (case malloc m of
        (None, m1) \<Rightarrow> (None, m1)
      | (Some _, m1) \<Rightarrow>
          (Some ((case sde of Some d \<Rightarrow> d | None \<Rightarrow> zip_dirent_init)\<lparr>de_changed := 0, de_cloned := True\<rparr>), m1))"

definition zip_dirent_new :: "mem \<Rightarrow> zip_dirent option \<times> mem" where
  "zip_dirent_new m = (case malloc m of (None, m1) \<Rightarrow> (None, m1) | (Some _, m1) \<Rightarrow> (Some zip_dirent_init, m1))"

text \<open>What a finalized entry still points to: the strings, fields and password it shares.\<close>

definition zip_dirent_finalize :: "zip_dirent \<Rightarrow> zip_dirent" where
  "zip_dirent_finalize de =
     (let owns = (\<lambda>f. \<not> de_cloned de \<or> flag_set (de_changed de) f) in
      de\<lparr>de_filename := (if owns ZIP_DIRENT_FILENAME then None else de_filename de),
         de_extra_fields := (if owns ZIP_DIRENT_EXTRA_FIELD then [] else de_extra_fields de),
         de_comment := (if owns ZIP_DIRENT_COMMENT then None else de_comment de),
         de_password := (if owns ZIP_DIRENT_PASSWORD then None else de_password de)\<rparr>)"

definition zip_dirent_needs_zip64 :: "zip_dirent \<Rightarrow> u32 \<Rightarrow> bool" where
  "zip_dirent_needs_zip64 de flags \<longleftrightarrow>
     de_uncomp_size de \<ge> 0xffffffff \<or> de_comp_size de \<ge> 0xffffffff
     \<or> (flag_set flags ZIP_FL_CENTRAL \<and> de_offset de \<ge> 0xffffffff)"

text \<open>The entry, or the error code set.\<close>

definition zip_get_dirent :: "'u zip_t \<Rightarrow> nat \<Rightarrow> u32 \<Rightarrow> int + zip_dirent" where
  "zip_get_dirent za idx flags =
     (if idx \<ge> length (za_entry za) then Inl ZIP_ER_INVAL
      else
        (let e = za_entry za ! idx in
         case (if flag_set flags ZIP_FL_UNCHANGED then None else ze_changes e) of
           Some c \<Rightarrow> Inr c
         | None \<Rightarrow>
             (case ze_orig e of
                None \<Rightarrow> Inl ZIP_ER_INVAL
              | Some orig \<Rightarrow>
                  if ze_deleted e \<and> \<not> flag_set flags ZIP_FL_UNCHANGED then Inl ZIP_ER_DELETED else Inr orig)))"

section \<open>Time stamps\<close>

definition zip_d2u_time :: "libs \<Rightarrow> u16 \<Rightarrow> u16 \<Rightarrow> int" where
  "zip_d2u_time L dtime ddate =
     lb_mktime L \<lparr>tm_sec = push_bit 1 (uint dtime) AND 62,
                  tm_min = drop_bit 5 (uint dtime) AND 63,
                  tm_hour = drop_bit 11 (uint dtime) AND 31,
                  tm_mday = uint ddate AND 31,
                  tm_mon = (drop_bit 5 (uint ddate) AND 15) - 1,
                  tm_year = (drop_bit 9 (uint ddate) AND 127) + 1980 - 1900,
                  tm_isdst = -1\<rparr>"

text \<open>The time and the date.\<close>

definition zip_u2d_time :: "libs \<Rightarrow> int \<Rightarrow> u16 \<times> u16" where
  "zip_u2d_time L intime =
     (case lb_localtime L intime of
        None \<Rightarrow> (0, 33)
      | Some tm \<Rightarrow>
          (let year = (if tm_year tm < 80 then 80 else tm_year tm) in
           (word_of_int (push_bit 11 (tm_hour tm) + push_bit 5 (tm_min tm) + drop_bit 1 (tm_sec tm)),
            word_of_int (push_bit 9 (year + 1900 - 1980) + push_bit 5 (tm_mon tm + 1) + tm_mday tm))))"

section \<open>Reading a header\<close>

text \<open>The fixed part after the magic number: the entry and the lengths of the name, the fields and the comment.\<close>

definition dirent_read_fixed :: "libs \<Rightarrow> bool \<Rightarrow> zip_buffer \<Rightarrow> zip_dirent \<times> u16 \<times> u16 \<times> u16 \<times> zip_buffer" where
  "dirent_read_fixed L local b0 =
     (let zde = zip_dirent_init;
          (v, b1) = (if local then (0, b0) else zip_buffer_get_16 b0);
          (needed, b2) = zip_buffer_get_16 b1;
          (bitflags, b3) = zip_buffer_get_16 b2;
          (comp_meth, b4) = zip_buffer_get_16 b3;
          (dostime, b5) = zip_buffer_get_16 b4;
          (dosdate, b6) = zip_buffer_get_16 b5;
          (crc, b7) = zip_buffer_get_32 b6;
          (csize, b8) = zip_buffer_get_32 b7;
          (usize, b9) = zip_buffer_get_32 b8;
          (filename_len, b10) = zip_buffer_get_16 b9;
          (ef_len, b11) = zip_buffer_get_16 b10;
          zde1 = zde\<lparr>de_version_madeby := v, de_version_needed := needed, de_bitflags := bitflags,
                     de_comp_method := int (unat comp_meth), de_last_mod := zip_d2u_time L dostime dosdate,
                     de_crc := crc, de_comp_size := ucast csize, de_uncomp_size := ucast usize\<rparr>
      in if local then (zde1\<lparr>de_disk_number := 0, de_int_attrib := 0, de_ext_attrib := 0, de_offset := 0\<rparr>,
                        filename_len, ef_len, 0, b11)
         else
           (let (comment_len, b12) = zip_buffer_get_16 b11;
                (disk, b13) = zip_buffer_get_16 b12;
                (iattr, b14) = zip_buffer_get_16 b13;
                (eattr, b15) = zip_buffer_get_32 b14;
                (off, b16) = zip_buffer_get_32 b15
            in (zde1\<lparr>de_disk_number := ucast disk, de_int_attrib := iattr, de_ext_attrib := eattr, de_offset := ucast off\<rparr>,
                filename_len, ef_len, comment_len, b16)))"

definition dirent_encryption :: "zip_dirent \<Rightarrow> u16" where
  "dirent_encryption zde =
     (if flag_set (de_bitflags zde) ZIP_GPBF_ENCRYPTED
      then (if flag_set (de_bitflags zde) ZIP_GPBF_STRONG_ENCRYPTION then ZIP_EM_UNKNOWN else ZIP_EM_TRAD_PKWARE)
      else ZIP_EM_NONE)"

text \<open>Whether a string that the header declares to be UTF-8 is not; the string with its cached encoding.\<close>

definition utf8_claim :: "u16 \<Rightarrow> zip_string option \<Rightarrow> bool \<times> zip_string option" where
  "utf8_claim bitflags s =
     (if flag_set bitflags ZIP_GPBF_ENCODING_UTF_8
      then (case zip_guess_encoding s ZIP_ENCODING_UTF8_KNOWN of (enc, s1) \<Rightarrow> (enc = ZIP_ENCODING_ERROR, s1))
      else (False, s))"

definition dirent_process_ef_utf_8 ::
  "libs \<Rightarrow> mem \<Rightarrow> zip_extra_field list \<Rightarrow> u16 \<Rightarrow> zip_string option \<Rightarrow> zip_string option \<times> mem" where
  "dirent_process_ef_utf_8 L m efs i str =
     (case fst (zip_ef_get_by_id efs i 0 ZIP_EF_BOTH None) of
        None \<Rightarrow> (str, m)
      | Some (ef, ef_len) \<Rightarrow>
          if ef_len < 5 \<or> ef ! 0 \<noteq> 1 then (str, m)
          else (case zip_buffer_new m (Some (take ef_len ef)) (word_of_nat ef_len) of
                  (None, m1) \<Rightarrow> (str, m1)
                | (Some b, m1) \<Rightarrow>
                    (let (_, b1) = zip_buffer_get_8 b;
                         (ef_crc, b2) = zip_buffer_get_32 b1
                     in if zip_string_crc32 (lb_crc32 L) str = ef_crc then
                          (let len = (ucast (zip_buffer_left b2) :: u16) in
                           case zip_buffer_get b2 (ucast len) of
                             (p, b3) \<Rightarrow>
                               (case zip_string_new m1 (case p of None \<Rightarrow> [] | Some p \<Rightarrow> drop p (buf_data b3))
                                       (unat len) ZIP_FL_ENC_UTF_8 None of
                                  (None, _, m2) \<Rightarrow> (str, m2)
                                | (Some s, _, m2) \<Rightarrow> (Some s, m2)))
                        else (str, m1))))"

text \<open>The sizes, the offset and the disk number a Zip64 field holds; \<open>None\<close> if it does not fit the header.\<close>

definition zip64_values :: "bool \<Rightarrow> zip_dirent \<Rightarrow> zip_buffer \<Rightarrow> zip_dirent \<times> zip_buffer" where
  "zip64_values local zde b0 =
     (let (zde1, b1) = (if de_uncomp_size zde = 0xffffffff
                        then (let (v, b) = zip_buffer_get_64 b0 in (zde\<lparr>de_uncomp_size := v\<rparr>, b))
                        else if local then (zde, snd (zip_buffer_skip b0 8)) else (zde, b0));
          (zde2, b2) = (if de_comp_size zde1 = 0xffffffff
                        then (let (v, b) = zip_buffer_get_64 b1 in (zde1\<lparr>de_comp_size := v\<rparr>, b)) else (zde1, b1))
      in if local then (zde2, b2)
         else
           (let (zde3, b3) = (if de_offset zde2 = 0xffffffff
                              then (let (v, b) = zip_buffer_get_64 b2 in (zde2\<lparr>de_offset := v\<rparr>, b)) else (zde2, b2))
            in if de_disk_number zde3 = 0xffff
               then (let (v, b) = zip_buffer_get_32 b3 in (zde3\<lparr>de_disk_number := v\<rparr>, b)) else (zde3, b3)))"

definition zip64_extra_match :: "zip_dirent \<Rightarrow> nat \<Rightarrow> zip_buffer \<Rightarrow> bool" where
  "zip64_extra_match zde got_len b =
     (if got_len = 28 \<or> got_len = 24 then
        (let b0 = (if got_len = 28 then snd (zip_buffer_set_offset b 24) else b);
             (d, b1) = (if got_len = 28 then zip_buffer_get_32 b0 else (de_disk_number zde, b0));
             b2 = snd (zip_buffer_set_offset b1 0);
             (u, b3) = zip_buffer_get_64 b2;
             (c, b4) = zip_buffer_get_64 b3;
             (off, b5) = zip_buffer_get_64 b4
         in de_disk_number zde = d \<and> de_uncomp_size zde = u \<and> de_comp_size zde = c \<and> de_offset zde = off)
      else False)"

definition dirent_read_zip64 ::
  "mem \<Rightarrow> bool \<Rightarrow> zip_dirent \<Rightarrow> zip_error option \<Rightarrow> zip_dirent option \<times> zip_error option \<times> mem" where
  "dirent_read_zip64 m local zde error =
     (if de_uncomp_size zde = 0xffffffff \<or> de_comp_size zde = 0xffffffff \<or> de_offset zde = 0xffffffff then
        (case zip_ef_get_by_id (de_extra_fields zde) ZIP_EF_ZIP64 0 (if local then ZIP_FL_LOCAL else ZIP_FL_CENTRAL) error of
           (None, error1) \<Rightarrow> (None, error1, m)
         | (Some (ef, got_len), error1) \<Rightarrow>
             (case zip_buffer_new m (Some (take got_len ef)) (word_of_nat got_len) of
                (None, m1) \<Rightarrow> (None, zip_error_set error1 ZIP_ER_MEMORY 0, m1)
              | (Some b, m1) \<Rightarrow>
                  (let (zde1, b1) = zip64_values local zde b in
                   if \<not> zip_buffer_eof b1 \<and> \<not> zip64_extra_match zde1 got_len b1
                   then (None, zip_error_set error1 ZIP_ER_INCONS ZIP_ER_DETAIL_INVALID_ZIP64_EF, m1)
                   else (Some zde1, error1, m1))))
      else (Some zde, error, m))"

definition dirent_process_winzip_aes ::
  "mem \<Rightarrow> zip_dirent \<Rightarrow> zip_error option \<Rightarrow> zip_dirent option \<times> zip_error option \<times> mem" where
  "dirent_process_winzip_aes m de error =
     (if de_comp_method de \<noteq> ZIP_CM_WINZIP_AES then (Some de, error, m)
      else
        (case fst (zip_ef_get_by_id (de_extra_fields de) ZIP_EF_WINZIP_AES 0 ZIP_EF_BOTH None) of
           None \<Rightarrow> (None, zip_error_set error ZIP_ER_INCONS ZIP_ER_DETAIL_INVALID_WINZIPAES_EF, m)
         | Some (ef, ef_len) \<Rightarrow>
             if ef_len < 7 then (None, zip_error_set error ZIP_ER_INCONS ZIP_ER_DETAIL_INVALID_WINZIPAES_EF, m)
             else
               (case zip_buffer_new m (Some (take ef_len ef)) (word_of_nat ef_len) of
                  (None, m1) \<Rightarrow> (None, zip_error_set error ZIP_ER_INTERNAL 0, m1)
                | (Some b, m1) \<Rightarrow>
                    (let notsupp = (None, zip_error_set error ZIP_ER_ENCRNOTSUPP 0, m1);
                         (version, b1) = zip_buffer_get_16 b;
                         (vendor, b2) = zip_buffer_get b1 2;
                         (mode, b3) = zip_buffer_get_8 b2;
                         (comp_meth, b4) = zip_buffer_get_16 b3
                     in if version \<noteq> 1 \<and> version \<noteq> 2 then notsupp
                        else if take 2 (drop (the vendor) (buf_data b2)) \<noteq> [65, 69] then notsupp
                        else if mode \<noteq> 1 \<and> mode \<noteq> 2 \<and> mode \<noteq> 3 then notsupp
                        else if ef_len \<noteq> 7
                        then (None, zip_error_set error ZIP_ER_INCONS ZIP_ER_DETAIL_INVALID_WINZIPAES_EF, m1)
                        else (Some (de\<lparr>de_crc_valid := (version = 1),
                                      de_encryption_method := (if mode = 1 then ZIP_EM_AES_128
                                        else if mode = 2 then ZIP_EM_AES_192 else ZIP_EM_AES_256),
                                      de_comp_method := int (unat comp_meth)\<rparr>), error, m1)))))"

text \<open>The part of variable length: file name, extra fields and comment, from the cursor.\<close>

definition dirent_read_name ::
  "'u callbacks \<Rightarrow> mem \<Rightarrow> zip_buffer \<Rightarrow> 'u zip_source \<Rightarrow> zip_dirent \<Rightarrow> nat \<Rightarrow> zip_error option
     \<Rightarrow> (zip_string option) option \<times> zip_buffer \<times> 'u zip_source \<times> zip_error option \<times> mem" where
  "dirent_read_name C m b src zde len error =
     (if len = 0 then (Some None, b, src, error, m)
      else
        (case zip_read_string C m (Some b) src len True error of
           (None, b1, src1, e, m1) \<Rightarrow>
             (None, the b1, src1,
              (if map_option zip_error_code_zip e = Some ZIP_ER_EOF
               then zip_error_set e ZIP_ER_INCONS ZIP_ER_DETAIL_VARIABLE_SIZE_OVERFLOW else e), m1)
         | (Some s, b1, src1, e, m1) \<Rightarrow>
             (case utf8_claim (de_bitflags zde) (Some s) of
                (bad, s1) \<Rightarrow>
                  if bad then (None, the b1, src1, zip_error_set e ZIP_ER_INCONS ZIP_ER_DETAIL_INVALID_UTF8_IN_FILENAME, m1)
                  else (Some s1, the b1, src1, e, m1))))"

definition dirent_read_ef ::
  "'u callbacks \<Rightarrow> mem \<Rightarrow> zip_buffer \<Rightarrow> 'u zip_source \<Rightarrow> bool \<Rightarrow> nat \<Rightarrow> zip_error option
     \<Rightarrow> zip_extra_field list option \<times> zip_buffer \<times> 'u zip_source \<times> zip_error option \<times> mem" where
  "dirent_read_ef C m b src local len error =
     (if len = 0 then (Some [], b, src, error, m)
      else
        (case zip_read_data C m (Some b) src len False error of
           (None, b1, src1, e, m1) \<Rightarrow> (None, the b1, src1, e, m1)
         | (Some ef, b1, src1, e, m1) \<Rightarrow>
             (case zip_ef_parse m1 ef len (if local then ZIP_FL_LOCAL else ZIP_FL_CENTRAL) e of
                (ok, efs, e1, m2) \<Rightarrow> (if ok then Some efs else None, the b1, src1, e1, m2))))"

definition dirent_read_comment ::
  "'u callbacks \<Rightarrow> mem \<Rightarrow> zip_buffer \<Rightarrow> 'u zip_source \<Rightarrow> zip_dirent \<Rightarrow> nat \<Rightarrow> zip_error option
     \<Rightarrow> (zip_string option) option \<times> zip_buffer \<times> 'u zip_source \<times> zip_error option \<times> mem" where
  "dirent_read_comment C m b src zde len error =
     (if len = 0 then (Some None, b, src, error, m)
      else
        (case zip_read_string C m (Some b) src len False error of
           (None, b1, src1, e, m1) \<Rightarrow> (None, the b1, src1, e, m1)
         | (Some s, b1, src1, e, m1) \<Rightarrow>
             (case utf8_claim (de_bitflags zde) (Some s) of
                (bad, s1) \<Rightarrow>
                  if bad then (None, the b1, src1, zip_error_set e ZIP_ER_INCONS ZIP_ER_DETAIL_INVALID_UTF8_IN_COMMENT, m1)
                  else (Some s1, the b1, src1, e, m1))))"

text \<open>The checks and conversions after the variable part.\<close>

definition dirent_read_finish ::
  "libs \<Rightarrow> mem \<Rightarrow> bool \<Rightarrow> zip_buffer \<Rightarrow> zip_dirent \<Rightarrow> zip_error option \<Rightarrow> zip_dirent option \<times> zip_error option \<times> mem" where
  "dirent_read_finish L m local b zde error =
     (let (name, m1) = dirent_process_ef_utf_8 L m (de_extra_fields zde) ZIP_EF_UTF_8_NAME (de_filename zde);
          (comment, m2) = dirent_process_ef_utf_8 L m1 (de_extra_fields zde) ZIP_EF_UTF_8_COMMENT (de_comment zde)
      in case dirent_read_zip64 m2 local (zde\<lparr>de_filename := name, de_comment := comment\<rparr>) error of
           (None, e, m3) \<Rightarrow> (None, e, m3)
         | (Some zde1, e, m3) \<Rightarrow>
             if \<not> buf_ok b then (None, zip_error_set e ZIP_ER_INTERNAL 0, m3)
             else if unat (de_offset zde1) > ZIP_INT64_MAX then (None, zip_error_set e ZIP_ER_SEEK EFBIG, m3)
             else (case dirent_process_winzip_aes m3 zde1 e of
                     (None, e1, m4) \<Rightarrow> (None, e1, m4)
                   | (Some zde2, e1, m4) \<Rightarrow>
                       (Some (zde2\<lparr>de_extra_fields := zip_ef_remove_internal (de_extra_fields zde2)\<rparr>), e1, m4)))"

text \<open>
  \<open>_zip_dirent_read\<close>: the size of the header and the entry, the cursor if one was given, the source.
  \<open>memcmp\<close> is only reached with the magic number in the cursor.
\<close>

definition zip_dirent_read ::
  "libs \<Rightarrow> 'u callbacks \<Rightarrow> mem \<Rightarrow> 'u zip_source \<Rightarrow> zip_buffer option \<Rightarrow> bool \<Rightarrow> zip_error option
     \<Rightarrow> (nat \<times> zip_dirent) option \<times> zip_buffer option \<times> 'u zip_source \<times> zip_error option \<times> mem" where
  "zip_dirent_read L C m src buffer local error =
     (let sz = (if local then LENTRYSIZE else CDENTRYSIZE);
          keep = (\<lambda>b. map_option (\<lambda>_. b) buffer)
      in case (case buffer of
                 Some b \<Rightarrow>
                   if unat (zip_buffer_left b) < sz then (None, src, zip_error_set error ZIP_ER_NOZIP 0, m)
                   else (Some b, src, error, m)
               | None \<Rightarrow> zip_buffer_new_from_source C m src sz (Some (replicate sz 0)) error) of
           (None, src1, e1, m1) \<Rightarrow> (None, buffer, src1, e1, m1)
         | (Some b, src1, e1, m1) \<Rightarrow>
             (case zip_buffer_get b 4 of
                (p, b1) \<Rightarrow>
                  if take 4 (drop (the p) (buf_data b1)) \<noteq> (if local then LOCAL_MAGIC else CENTRAL_MAGIC)
                  then (None, keep b1, src1, zip_error_set e1 ZIP_ER_NOZIP 0, m1)
                  else
                    (case dirent_read_fixed L local b1 of
                       (zde, filename_len, ef_len, comment_len, b2) \<Rightarrow>
                         if \<not> buf_ok b2 then (None, keep b2, src1, zip_error_set e1 ZIP_ER_INTERNAL 0, m1)
                         else
                           (let zde1 = zde\<lparr>de_encryption_method := dirent_encryption zde, de_filename := None,
                                           de_extra_fields := [], de_comment := None\<rparr>;
                                var = unat filename_len + unat ef_len + unat comment_len
                            in case (if buffer \<noteq> None then
                                       (if unat (zip_buffer_left b2) < var
                                        then (None, src1, zip_error_set e1 ZIP_ER_INCONS ZIP_ER_DETAIL_VARIABLE_SIZE_OVERFLOW, m1)
                                        else (Some b2, src1, e1, m1))
                                     else zip_buffer_new_from_source C m1 src1 var None e1) of
                                 (None, src2, e2, m2) \<Rightarrow> (None, keep b2, src2, e2, m2)
                               | (Some b3, src2, e2, m2) \<Rightarrow>
                                   (case dirent_read_name C m2 b3 src2 zde1 (unat filename_len) e2 of
                                      (None, b4, src3, e3, m3) \<Rightarrow> (None, keep b4, src3, e3, m3)
                                    | (Some name, b4, src3, e3, m3) \<Rightarrow>
                                      (case dirent_read_ef C m3 b4 src3 local (unat ef_len) e3 of
                                         (None, b5, src4, e4, m4) \<Rightarrow> (None, keep b5, src4, e4, m4)
                                       | (Some efs, b5, src4, e4, m4) \<Rightarrow>
                                         (case dirent_read_comment C m4 b5 src4 zde1 (unat comment_len) e4 of
                                            (None, b6, src5, e5, m5) \<Rightarrow> (None, keep b6, src5, e5, m5)
                                          | (Some comment, b6, src5, e5, m5) \<Rightarrow>
                                            (case dirent_read_finish L m5 local b6
                                                   (zde1\<lparr>de_filename := name, de_extra_fields := efs, de_comment := comment,
                                                         de_local_extra_fields_read := (local \<and> ef_len \<noteq> 0)\<rparr>) e5 of
                                               (None, e6, m6) \<Rightarrow> (None, keep b6, src5, e6, m6)
                                             | (Some zde2, e6, m6) \<Rightarrow> (Some (sz + var, zde2), keep b6, src5, e6, m6)))))))))"

section \<open>The size of a header\<close>

definition zip_dirent_size ::
  "'u callbacks \<Rightarrow> mem \<Rightarrow> 'u zip_source \<Rightarrow> u16 \<Rightarrow> zip_error option \<Rightarrow> int \<times> 'u zip_source \<times> zip_error option \<times> mem" where
  "zip_dirent_size C m src flags error =
     (let local = flag_set flags 256;
          sz = (if local then LENTRYSIZE else CDENTRYSIZE)
      in case zip_source_seek C src (if local then 26 else 28) SEEK_CUR of
           (r, src1) \<Rightarrow>
             if r < 0 then (-1, src1, zip_error_set_from_source error src1, m)
             else
               (let n = (if local then 4 else 6) in
                case zip_buffer_new_from_source C m src1 n (Some (replicate n 0)) error of
                  (None, src2, e, m1) \<Rightarrow> (-1, src2, e, m1)
                | (Some b, src2, e, m1) \<Rightarrow>
                    (let (a1, b1) = zip_buffer_get_16 b;
                         (a2, b2) = zip_buffer_get_16 b1;
                         (a3, b3) = (if local then (0, b2) else zip_buffer_get_16 b2)
                     in if \<not> zip_buffer_eof b3 then (-1, src2, zip_error_set e ZIP_ER_INTERNAL 0, m1)
                        else (int (sz + unat a1 + unat a2 + unat a3), src2, e, m1))))"

section \<open>Writing a header\<close>

text \<open>The field (or NULL) and the error.\<close>

definition zip_ef_utf8 ::
  "libs \<Rightarrow> mem \<Rightarrow> u16 \<Rightarrow> zip_string option \<Rightarrow> zip_error option \<Rightarrow> zip_extra_field option \<times> zip_error option \<times> mem" where
  "zip_ef_utf8 L m i str error =
     (case fst (zip_string_get m str ZIP_FL_ENC_RAW None) of
        None \<Rightarrow> (None, error, m)
      | Some (raw, len) \<Rightarrow>
          if len + 5 > ZIP_UINT16_MAX then (None, zip_error_set error ZIP_ER_INVAL 0, m)
          else
            (case zip_buffer_new m None (word_of_nat (len + 5)) of
               (None, m1) \<Rightarrow> (None, zip_error_set error ZIP_ER_MEMORY 0, m1)
             | (Some b, m1) \<Rightarrow>
                 (let b1 = snd (zip_buffer_put_8 b 1);
                      b2 = snd (zip_buffer_put_32 b1 (zip_string_crc32 (lb_crc32 L) str));
                      b3 = snd (zip_buffer_put b2 raw (word_of_nat len))
                  in if \<not> buf_ok b3 then (None, zip_error_set error ZIP_ER_INTERNAL 0, m1)
                     else (case zip_ef_new m1 i (unat (zip_buffer_tell b3) mod 65536) (buf_data b3) ZIP_EF_BOTH of
                             (ef, m2) \<Rightarrow> (ef, error, m2)))))"

text \<open>
  The first part of \<open>_zip_dirent_write\<close>: the UTF-8 flag, or the fields that hold the UTF-8 name and
  comment; the entry with the flag and the cached encodings.
\<close>

definition dirent_write_utf8 ::
  "libs \<Rightarrow> mem \<Rightarrow> zip_dirent \<Rightarrow> u32 \<Rightarrow> zip_error option
     \<Rightarrow> zip_extra_field list option \<times> zip_dirent \<times> zip_error option \<times> mem" where
  "dirent_write_utf8 L m de0 flags error =
     (let (name_enc, name) = zip_guess_encoding (de_filename de0) ZIP_ENCODING_UNKNOWN;
          (com_enc, comment) = zip_guess_encoding (de_comment de0) ZIP_ENCODING_UNKNOWN;
          de = de0\<lparr>de_filename := name, de_comment := comment\<rparr>
      in if (name_enc = ZIP_ENCODING_UTF8_KNOWN \<and> com_enc = ZIP_ENCODING_ASCII)
            \<or> (name_enc = ZIP_ENCODING_ASCII \<and> com_enc = ZIP_ENCODING_UTF8_KNOWN)
            \<or> (name_enc = ZIP_ENCODING_UTF8_KNOWN \<and> com_enc = ZIP_ENCODING_UTF8_KNOWN)
         then (Some [], de\<lparr>de_bitflags := de_bitflags de OR ZIP_GPBF_ENCODING_UTF_8\<rparr>, error, m)
         else
           (let de1 = de\<lparr>de_bitflags := de_bitflags de AND NOT ZIP_GPBF_ENCODING_UTF_8\<rparr> in
            case (if name_enc = ZIP_ENCODING_UTF8_KNOWN
                  then (case zip_ef_utf8 L m ZIP_EF_UTF_8_NAME (de_filename de1) error of
                          (None, e, m1) \<Rightarrow> (None, e, m1) | (Some ef, e, m1) \<Rightarrow> (Some [ef], e, m1))
                  else (Some [], error, m)) of
              (None, e, m1) \<Rightarrow> (None, de1, e, m1)
            | (Some efs, e, m1) \<Rightarrow>
                if \<not> flag_set flags ZIP_FL_LOCAL \<and> com_enc = ZIP_ENCODING_UTF8_KNOWN
                then (case zip_ef_utf8 L m1 ZIP_EF_UTF_8_COMMENT (de_comment de1) e of
                        (None, e1, m2) \<Rightarrow> (None, de1, e1, m2)
                      | (Some ef2, e1, m2) \<Rightarrow> (Some (ef2 # efs), de1, e1, m2))
                else (Some efs, de1, e, m1)))"

definition is_winzip_aes :: "zip_dirent \<Rightarrow> bool" where
  "is_winzip_aes de \<longleftrightarrow> de_encryption_method de = ZIP_EM_AES_128 \<or> de_encryption_method de = ZIP_EM_AES_192
     \<or> de_encryption_method de = ZIP_EM_AES_256"

text \<open>The contents of the Zip64 field.\<close>

definition zip64_fill :: "zip_dirent \<Rightarrow> u32 \<Rightarrow> zip_buffer \<Rightarrow> zip_buffer" where
  "zip64_fill de flags b =
     (let force = flag_set flags ZIP_FL_FORCE_ZIP64;
          put = (\<lambda>c v b. if c then snd (zip_buffer_put_64 b v) else b)
      in if flag_set flags ZIP_FL_LOCAL then
           (if force \<or> de_comp_size de > 0xffffffff \<or> de_uncomp_size de > 0xffffffff
            then put True (de_comp_size de) (put True (de_uncomp_size de) b) else b)
         else
           (if force \<or> de_comp_size de > 0xffffffff \<or> de_uncomp_size de > 0xffffffff \<or> de_offset de > 0xffffffff
            then put (de_offset de \<ge> 0xffffffff) (de_offset de)
                   (put (de_comp_size de \<ge> 0xffffffff) (de_comp_size de)
                      (put (de_uncomp_size de \<ge> 0xffffffff) (de_uncomp_size de) b))
            else b))"

text \<open>
  The Zip64 and WinZip AES fields, put in front of \<open>efs\<close>. The C does not test the result of
  \<open>_zip_ef_new\<close> and writes through it: \<open>None\<close> is the access through NULL. \<open>Inl\<close> is the error.
\<close>

definition dirent_zip64_ef ::
  "mem \<Rightarrow> zip_dirent \<Rightarrow> u32 \<Rightarrow> zip_extra_field list \<Rightarrow> (((int + zip_extra_field list) \<times> mem)) option" where
  "dirent_zip64_ef m de flags efs =
     (case zip_buffer_new m (Some (replicate EFZIP64SIZE 0)) (word_of_nat EFZIP64SIZE) of
        (None, m1) \<Rightarrow> Some (Inl ZIP_ER_MEMORY, m1)
      | (Some b, m1) \<Rightarrow>
          (let b1 = zip64_fill de flags b in
           if \<not> buf_ok b1 then Some (Inl ZIP_ER_INTERNAL, m1)
           else (case zip_ef_new m1 ZIP_EF_ZIP64 (unat (zip_buffer_tell b1)) (buf_data b1) ZIP_EF_BOTH of
                   (None, m2) \<Rightarrow> None
                 | (Some ef, m2) \<Rightarrow> Some (Inr (ef # efs), m2))))"

definition dirent_aes_ef ::
  "mem \<Rightarrow> zip_dirent \<Rightarrow> zip_extra_field list \<Rightarrow> ((int + zip_extra_field list) \<times> mem) option" where
  "dirent_aes_ef m de efs =
     (case zip_buffer_new m (Some (replicate EF_WINZIP_AES_SIZE 0)) (word_of_nat EF_WINZIP_AES_SIZE) of
        (None, m1) \<Rightarrow> Some (Inl ZIP_ER_MEMORY, m1)
      | (Some b, m1) \<Rightarrow>
          (let b1 = snd (zip_buffer_put_16 b 2);
               b2 = snd (zip_buffer_put b1 [65, 69] 2);
               b3 = snd (zip_buffer_put_8 b2 (ucast (de_encryption_method de AND 0xff)));
               b4 = snd (zip_buffer_put_16 b3 (word_of_int (de_comp_method de)))
           in if \<not> buf_ok b4 then Some (Inl ZIP_ER_INTERNAL, m1)
              else (case zip_ef_new m1 ZIP_EF_WINZIP_AES EF_WINZIP_AES_SIZE (buf_data b4) ZIP_EF_BOTH of
                      (None, m2) \<Rightarrow> None
                    | (Some ef, m2) \<Rightarrow> Some (Inr (ef # efs), m2))))"

text \<open>A size or offset in its field of 32 bits.\<close>

definition cut32 :: "u64 \<Rightarrow> u32" where
  "cut32 v = (if v < 0xffffffff then ucast v else 0xffffffff)"

text \<open>The fixed part of the header, put into \<open>b\<close>.\<close>

definition dirent_put_fixed :: "libs \<Rightarrow> zip_dirent \<Rightarrow> u32 \<Rightarrow> zip_extra_field list \<Rightarrow> zip_buffer \<Rightarrow> zip_buffer" where
  "dirent_put_fixed L de flags efs b =
     (let local = flag_set flags ZIP_FL_LOCAL;
          aes = is_winzip_aes de;
          p16 = (\<lambda>v b. snd (zip_buffer_put_16 b v));
          p32 = (\<lambda>v b. snd (zip_buffer_put_32 b v));
          (dostime, dosdate) = zip_u2d_time L (de_last_mod de);
          needed = (if zip_dirent_needs_zip64 de flags then 45 else 0);
          big = local \<and> (de_comp_size de \<ge> 0xffffffff \<or> de_uncomp_size de \<ge> 0xffffffff);
          ef_total_size = zip_ef_size (de_extra_fields de) flags + zip_ef_size efs ZIP_EF_BOTH;
          b1 = snd (zip_buffer_put b (if local then LOCAL_MAGIC else CENTRAL_MAGIC) 4);
          b2 = (if local then b1 else p16 (de_version_madeby de) b1);
          b3 = p16 (if needed > de_version_needed de then needed else de_version_needed de) b2;
          b4 = p16 (de_bitflags de) b3;
          b5 = p16 (if aes then word_of_int ZIP_CM_WINZIP_AES else word_of_int (de_comp_method de)) b4;
          b6 = p16 dostime b5;
          b7 = p16 dosdate b6;
          b8 = p32 (if aes \<and> de_uncomp_size de < 20 then 0 else de_crc de) b7;
          b9 = p32 (if big then 0xffffffff else cut32 (de_comp_size de)) b8;
          b10 = p32 (if big then 0xffffffff else cut32 (de_uncomp_size de)) b9;
          b11 = p16 (word_of_nat (zip_string_length (de_filename de))) b10;
          b12 = p16 (word_of_nat ef_total_size) b11
      in if local then b12
         else
           p32 (cut32 (de_offset de)) (p32 (de_ext_attrib de) (p16 (de_int_attrib de)
             (p16 (ucast (de_disk_number de)) (p16 (word_of_nat (zip_string_length (de_comment de))) b12)))))"

text \<open>The writes: fixed part, name, the extra fields of this function and of the entry, comment.\<close>

definition dirent_write_parts ::
  "'u callbacks \<Rightarrow> mem \<Rightarrow> 'u zip_t \<Rightarrow> zip_dirent \<Rightarrow> u32 \<Rightarrow> zip_extra_field list \<Rightarrow> zip_buffer \<Rightarrow> int \<times> 'u zip_t \<times> mem" where
  "dirent_write_parts C m za de flags efs b =
     (case zip_write C za (buf_data b) (unat (zip_buffer_tell b)) of
        (r1, za1) \<Rightarrow>
          if r1 < 0 then (-1, za1, m)
          else
            (case zip_string_write C za1 (de_filename de) of
               (r2, za2) \<Rightarrow>
                 if r2 < 0 then (-1, za2, m)
                 else
                   (case (if efs \<noteq> [] then zip_ef_write C m za2 efs ZIP_EF_BOTH else (0, za2, m)) of
                      (r3, za3, m1) \<Rightarrow>
                        if r3 < 0 then (-1, za3, m1)
                        else
                          (case (if de_extra_fields de \<noteq> [] then zip_ef_write C m1 za3 (de_extra_fields de) flags
                                 else (0, za3, m1)) of
                             (r4, za4, m2) \<Rightarrow>
                               if r4 < 0 then (-1, za4, m2)
                               else if flag_set flags ZIP_FL_LOCAL then (0, za4, m2)
                               else (case zip_string_write C za4 (de_comment de) of
                                       (r5, za5) \<Rightarrow> if r5 < 0 then (-1, za5, m2) else (0, za5, m2))))))"

text \<open>The result, the archive and the entry.\<close>

definition zip_dirent_write ::
  "libs \<Rightarrow> 'u callbacks \<Rightarrow> mem \<Rightarrow> 'u zip_t \<Rightarrow> zip_dirent \<Rightarrow> u32 \<Rightarrow> (int \<times> 'u zip_t \<times> zip_dirent \<times> mem) option" where
  "zip_dirent_write L C m za de0 flags =
     (case dirent_write_utf8 L m de0 flags (Some (za_error za)) of
        (None, de, e, m1) \<Rightarrow> Some (-1, za\<lparr>za_error := the e\<rparr>, de, m1)
      | (Some efs1, de1, e, m1) \<Rightarrow>
          (let za1 = za\<lparr>za_error := the e\<rparr>;
               de = de1\<lparr>de_bitflags := (if de_encryption_method de1 = ZIP_EM_NONE
                         then de_bitflags de1 AND NOT ZIP_GPBF_ENCRYPTED else de_bitflags de1 OR ZIP_GPBF_ENCRYPTED)\<rparr>;
               is_zip64 = (flag_set flags ZIP_FL_LOCAL \<and> flag_set flags ZIP_FL_FORCE_ZIP64)
                          \<or> zip_dirent_needs_zip64 de flags
           in case (if is_zip64 then dirent_zip64_ef m1 de flags efs1 else Some (Inr efs1, m1)) of
                None \<Rightarrow> None
              | Some (Inl ze, m2) \<Rightarrow> Some (-1, za_set_error ze 0 za1, de, m2)
              | Some (Inr efs2, m2) \<Rightarrow>
                (case (if is_winzip_aes de then dirent_aes_ef m2 de efs2 else Some (Inr efs2, m2)) of
                   None \<Rightarrow> None
                 | Some (Inl ze, m3) \<Rightarrow> Some (-1, za_set_error ze 0 za1, de, m3)
                 | Some (Inr efs, m3) \<Rightarrow>
                   (case zip_buffer_new m3 (Some (replicate CDENTRYSIZE 0)) (word_of_nat CDENTRYSIZE) of
                      (None, m4) \<Rightarrow> Some (-1, za_set_error ZIP_ER_MEMORY 0 za1, de, m4)
                    | (Some b, m4) \<Rightarrow>
                      (let b1 = dirent_put_fixed L de flags efs b in
                       if \<not> buf_ok b1 then Some (-1, za_set_error ZIP_ER_INTERNAL 0 za1, de, m4)
                       else (case dirent_write_parts C m4 za1 de flags efs b1 of
                               (r, za2, m5) \<Rightarrow> Some (if r < 0 then -1 else if is_zip64 then 1 else 0, za2, de, m5)))))))"

section \<open>The central directory\<close>

fun cdir_write_entries ::
  "libs \<Rightarrow> 'u callbacks \<Rightarrow> mem \<Rightarrow> 'u zip_t \<Rightarrow> nat list \<Rightarrow> bool \<Rightarrow> (int \<times> bool \<times> 'u zip_t \<times> mem) option" where
  "cdir_write_entries L C m za [] is_zip64 = Some (0, is_zip64, za, m)"
| "cdir_write_entries L C m za (idx # filelist) is_zip64 =
     (let e = za_entry za ! idx in
      case (case ze_changes e of Some c \<Rightarrow> Some c | None \<Rightarrow> ze_orig e) of
        None \<Rightarrow> None
      | Some de \<Rightarrow>
          (case zip_dirent_write L C m za de ZIP_FL_CENTRAL of
             None \<Rightarrow> None
           | Some (r, za1, de1, m1) \<Rightarrow>
               (let za2 = upd_entry idx (\<lambda>e. if ze_changes e \<noteq> None then e\<lparr>ze_changes := Some de1\<rparr>
                                             else e\<lparr>ze_orig := Some de1\<rparr>) za1
                in if r < 0 then Some (-1, is_zip64, za2, m1)
                   else cdir_write_entries L C m1 za2 filelist (is_zip64 \<or> r \<noteq> 0))))"

text \<open>The end records, put into \<open>b\<close>.\<close>

definition cdir_put_eocd :: "bool \<Rightarrow> u64 \<Rightarrow> u64 \<Rightarrow> u64 \<Rightarrow> zip_string option \<Rightarrow> zip_buffer \<Rightarrow> zip_buffer" where
  "cdir_put_eocd is_zip64 survivors sz offset comment b =
     (let p16 = (\<lambda>v b. snd (zip_buffer_put_16 b v));
          p32 = (\<lambda>v b. snd (zip_buffer_put_32 b v));
          p64 = (\<lambda>v b. snd (zip_buffer_put_64 b v));
          put = (\<lambda>bs b. snd (zip_buffer_put b bs 4));
          n16 = (if survivors \<ge> 0xffff then 0xffff else ucast survivors :: u16);
          b1 = (if is_zip64 then
                  p32 1 (p64 (offset + sz) (p32 0 (put EOCD64LOC_MAGIC
                    (p64 offset (p64 sz (p64 survivors (p64 survivors (p32 0 (p32 0 (p16 45 (p16 45
                      (p64 (word_of_nat (EOCD64LEN - 12)) (put EOCD64_MAGIC b)))))))))))))
                else b)
      in p16 (case comment of None \<Rightarrow> 0 | Some c \<Rightarrow> word_of_nat (zs_length c))
           (p32 (cut32 offset) (p32 (cut32 sz) (p16 n16 (p16 n16 (p32 0 (put EOCD_MAGIC b1)))))))"

definition zip_cdir_write ::
  "libs \<Rightarrow> 'u callbacks \<Rightarrow> mem \<Rightarrow> 'u zip_t \<Rightarrow> nat list \<Rightarrow> nat \<Rightarrow> (int \<times> 'u zip_t \<times> mem) option" where
  "zip_cdir_write L C m za filelist survivors =
     (let from_source = (\<lambda>za src. za\<lparr>za_src := src,
            za_error := the (zip_error_set_from_source (Some (za_error za)) src)\<rparr>)
      in case zip_source_tell_write C (za_src za) of
           (off, src1) \<Rightarrow>
             if off < 0 then Some (-1, from_source za src1, m)
             else
               (case cdir_write_entries L C m (za\<lparr>za_src := src1\<rparr>) (take survivors filelist) False of
                  None \<Rightarrow> None
                | Some (r, z64, za1, m1) \<Rightarrow>
                    if r < 0 then Some (-1, za1, m1)
                    else
                      (case zip_source_tell_write C (za_src za1) of
                         (off2, src2) \<Rightarrow>
                           if off2 < 0 then Some (-1, from_source za1 src2, m1)
                           else
                             (let za2 = za1\<lparr>za_src := src2\<rparr>;
                                  offset = (word_of_int off :: u64);
                                  sz = word_of_int off2 - offset;
                                  is_zip64 = z64 \<or> offset > 0xffffffff \<or> survivors > ZIP_UINT16_MAX;
                                  comment = (if za_comment_changed za2 then za_comment_changes za2 else za_comment_orig za2)
                              in case zip_buffer_new m1 (Some (replicate (EOCDLEN + EOCD64LEN + EOCD64LOCLEN) 0))
                                        (word_of_nat (EOCDLEN + EOCD64LEN + EOCD64LOCLEN)) of
                                   (None, m2) \<Rightarrow> Some (-1, za_set_error ZIP_ER_MEMORY 0 za2, m2)
                                 | (Some b, m2) \<Rightarrow>
                                     (let b1 = cdir_put_eocd is_zip64 (word_of_nat survivors) sz offset comment b in
                                      if \<not> buf_ok b1 then Some (-1, za_set_error ZIP_ER_INTERNAL 0 za2, m2)
                                      else
                                        (case zip_write C za2 (buf_data b1) (unat (zip_buffer_tell b1)) of
                                           (r1, za3) \<Rightarrow>
                                             if r1 < 0 then Some (-1, za3, m2)
                                             else
                                               (case zip_string_write C za3 comment of
                                                  (r2, za4) \<Rightarrow>
                                                    if r2 < 0 then Some (-1, za4, m2)
                                                    else Some (sint sz, za4, m2))))))))"

section \<open>Attributes\<close>

abbreviation GPBF_ALLOWED_MASK :: u16 where "GPBF_ALLOWED_MASK \<equiv> 0x0836"

definition dirent_version_needed :: "zip_dirent \<Rightarrow> bool \<Rightarrow> u16" where
  "dirent_version_needed de force_zip64 =
     (if de_comp_method de = ZIP_CM_LZMA then 63
      else if is_winzip_aes de then 51
      else if de_comp_method de = ZIP_CM_BZIP2 then 46
      else if force_zip64 \<or> zip_dirent_needs_zip64 de 0 then 45
      else if de_comp_method de = ZIP_CM_DEFLATE \<or> de_encryption_method de = ZIP_EM_TRAD_PKWARE then 20
      else (case de_filename de of
              Some s \<Rightarrow> if zs_length s > 0 \<and> zs_raw s ! (zs_length s - 1) = 47 then 20 else 10
            | None \<Rightarrow> 10))"

definition zip_dirent_apply_attributes :: "zip_dirent \<Rightarrow> zip_file_attributes \<Rightarrow> bool \<Rightarrow> u32 \<Rightarrow> zip_dirent" where
  "zip_dirent_apply_attributes de0 attributes force_zip64 changed =
     (let has = (\<lambda>m. flag_set (fa_valid attributes) m);
          manual = flag_set changed ZIP_DIRENT_ATTRIBUTES;
          mask = fa_general_purpose_bit_mask attributes AND GPBF_ALLOWED_MASK;
          de1 = (if has ZIP_FILE_ATTRIBUTES_GENERAL_PURPOSE_BIT_FLAGS
                 then de0\<lparr>de_bitflags := (de_bitflags de0 AND NOT mask) OR (fa_general_purpose_bit_flags attributes AND mask)\<rparr>
                 else de0);
          de2 = (if has ZIP_FILE_ATTRIBUTES_ASCII
                 then de1\<lparr>de_int_attrib := (de_int_attrib de1 AND NOT 1) OR (if fa_ascii attributes \<noteq> 0 then 1 else 0)\<rparr>
                 else de1);
          de3 = (if \<not> manual \<and> has ZIP_FILE_ATTRIBUTES_EXTERNAL_FILE_ATTRIBUTES
                 then de2\<lparr>de_ext_attrib := fa_external_file_attributes attributes\<rparr> else de2);
          de4 = de3\<lparr>de_version_needed := dirent_version_needed de3 force_zip64\<rparr>;
          de5 = (if has ZIP_FILE_ATTRIBUTES_VERSION_NEEDED
                 then de4\<lparr>de_version_needed := max (de_version_needed de4) (ucast (fa_version_needed attributes))\<rparr> else de4);
          de6 = de5\<lparr>de_version_madeby := 63 OR (de_version_madeby de5 AND 0xff00)\<rparr>
      in if \<not> manual \<and> has ZIP_FILE_ATTRIBUTES_HOST_SYSTEM
         then de6\<lparr>de_version_madeby := (de_version_madeby de6 AND 0xff) OR push_bit 8 (ucast (fa_host_system attributes))\<rparr>
         else de6)"

section \<open>The bytes of a header\<close>

definition header_tail :: "zip_dirent \<Rightarrow> bytes" where
  "header_tail de = le_enc 2 (unat (word_of_nat (zip_string_length (de_comment de)) :: u16))
     @ le_enc 2 (unat (ucast (de_disk_number de) :: u16)) @ le_enc 2 (unat (de_int_attrib de))
     @ le_enc 4 (unat (de_ext_attrib de)) @ le_enc 4 (unat (cut32 (de_offset de)))"

definition header_common :: "libs \<Rightarrow> zip_dirent \<Rightarrow> u16 \<Rightarrow> u32 \<Rightarrow> u32 \<Rightarrow> nat \<Rightarrow> bytes" where
  "header_common L de needed csize usize ef_len = le_enc 2 (unat needed) @ le_enc 2 (unat (de_bitflags de))
     @ le_enc 2 (unat (word_of_int (de_comp_method de) :: u16))
     @ le_enc 2 (unat (fst (zip_u2d_time L (de_last_mod de)))) @ le_enc 2 (unat (snd (zip_u2d_time L (de_last_mod de))))
     @ le_enc 4 (unat (de_crc de)) @ le_enc 4 (unat csize) @ le_enc 4 (unat usize)
     @ le_enc 2 (unat (word_of_nat (zip_string_length (de_filename de)) :: u16))
     @ le_enc 2 (unat (word_of_nat ef_len :: u16))"

definition version_written :: "zip_dirent \<Rightarrow> u32 \<Rightarrow> u16" where
  "version_written de flags = (let needed = (if zip_dirent_needs_zip64 de flags then 45 else 0)
     in if needed > de_version_needed de then needed else de_version_needed de)"

lemma dirent_put_fixed_central:
  assumes b: "wrote b [] 46" and flags: "\<not> flag_set flags ZIP_FL_LOCAL" and aes: "\<not> is_winzip_aes de"
  shows "wrote (dirent_put_fixed L de flags efs b)
    (CENTRAL_MAGIC @ le_enc 2 (unat (de_version_madeby de))
     @ header_common L de (version_written de flags) (cut32 (de_comp_size de)) (cut32 (de_uncomp_size de))
         (zip_ef_size (de_extra_fields de) flags + zip_ef_size efs ZIP_EF_BOTH)
     @ header_tail de) 0"
  unfolding dirent_put_fixed_def Let_def header_common_def header_tail_def version_written_def case_prod_unfold
  using b flags aes
  by - (simp only: if_False flag_set_0 simp_thms, (rule puts_to put_to | assumption | simp)+)
lemma dirent_put_fixed_local:
  assumes b: "wrote b [] 46" and flags: "flag_set flags ZIP_FL_LOCAL" and aes: "\<not> is_winzip_aes de"
  defines "big \<equiv> de_comp_size de \<ge> 0xffffffff \<or> de_uncomp_size de \<ge> 0xffffffff"
  shows "wrote (dirent_put_fixed L de flags efs b)
    (LOCAL_MAGIC @ header_common L de (version_written de flags) (if big then 0xffffffff else cut32 (de_comp_size de))
         (if big then 0xffffffff else cut32 (de_uncomp_size de))
         (zip_ef_size (de_extra_fields de) flags + zip_ef_size efs ZIP_EF_BOTH)) 16"
  unfolding dirent_put_fixed_def Let_def header_common_def header_tail_def version_written_def case_prod_unfold big_def
  using b flags aes
  by - (simp only: if_True simp_thms, (rule puts_to put_to | assumption | simp)+)

lemma get_reads_pair:
  "reads b (le_enc 2 (unat v16) @ rest) \<Longrightarrow> \<exists>b1. zip_buffer_get_16 b = (v16, b1) \<and> reads b1 rest"
  "reads b (le_enc 4 (unat v32) @ rest) \<Longrightarrow> \<exists>b1. zip_buffer_get_32 b = (v32, b1) \<and> reads b1 rest"
  "reads b (le_enc 8 (unat v64) @ rest) \<Longrightarrow> \<exists>b1. zip_buffer_get_64 b = (v64, b1) \<and> reads b1 rest"
  using gets_read [of b] by (metis prod.collapse)+

lemma dirent_read_fixed_central:
  fixes comp_meth disk :: u16 and cs us off :: u32
  assumes "reads b (le_enc 2 (unat v) @ le_enc 2 (unat needed) @ le_enc 2 (unat bf) @ le_enc 2 (unat comp_meth)
    @ le_enc 2 (unat tim) @ le_enc 2 (unat dat) @ le_enc 4 (unat crc) @ le_enc 4 (unat cs) @ le_enc 4 (unat us)
    @ le_enc 2 (unat nl) @ le_enc 2 (unat el) @ le_enc 2 (unat cl) @ le_enc 2 (unat disk) @ le_enc 2 (unat ia)
    @ le_enc 4 (unat ea) @ le_enc 4 (unat off) @ rest)"
  shows "\<exists>b1. dirent_read_fixed L False b = (zip_dirent_init\<lparr>de_version_madeby := v, de_version_needed := needed,
      de_bitflags := bf, de_comp_method := int (unat comp_meth), de_last_mod := zip_d2u_time L tim dat, de_crc := crc,
      de_comp_size := ucast cs, de_uncomp_size := ucast us, de_disk_number := ucast disk, de_int_attrib := ia,
      de_ext_attrib := ea, de_offset := ucast off\<rparr>, nl, el, cl, b1) \<and> reads b1 rest"
proof -
  note g1 = gets_read(3,4) [OF assms]
  note g2 = gets_read(3,4) [OF g1(2)]
  note g3 = gets_read(3,4) [OF g2(2)]
  note g4 = gets_read(3,4) [OF g3(2)]
  note g5 = gets_read(3,4) [OF g4(2)]
  note g6 = gets_read(3,4) [OF g5(2)]
  note g7 = gets_read(5,6) [OF g6(2)]
  note g8 = gets_read(5,6) [OF g7(2)]
  note g9 = gets_read(5,6) [OF g8(2)]
  note g10 = gets_read(3,4) [OF g9(2)]
  note g11 = gets_read(3,4) [OF g10(2)]
  note g12 = gets_read(3,4) [OF g11(2)]
  note g13 = gets_read(3,4) [OF g12(2)]
  note g14 = gets_read(3,4) [OF g13(2)]
  note g15 = gets_read(5,6) [OF g14(2)]
  note g16 = gets_read(5,6) [OF g15(2)]
  show ?thesis
    by (rule exI, rule conjI [OF _ g16(2)])
      (simp add: dirent_read_fixed_def case_prod_unfold Let_def g1(1) g2(1) g3(1) g4(1) g5(1) g6(1) g7(1) g8(1) g9(1) g10(1) g11(1) g12(1) g13(1) g14(1) g15(1) g16(1))
qed
section \<open>Zip64\<close>

definition zip64_bytes :: "zip_dirent \<Rightarrow> bytes" where
  "zip64_bytes de = (if de_uncomp_size de \<ge> 0xffffffff then le_enc 8 (unat (de_uncomp_size de)) else [])
     @ (if de_comp_size de \<ge> 0xffffffff then le_enc 8 (unat (de_comp_size de)) else [])
     @ (if de_offset de \<ge> 0xffffffff then le_enc 8 (unat (de_offset de)) else [])"

definition needs64 :: "zip_dirent \<Rightarrow> bool" where
  "needs64 de \<longleftrightarrow> de_uncomp_size de > 0xffffffff \<or> de_comp_size de > 0xffffffff \<or> de_offset de > 0xffffffff"

lemma length_zip64_bytes: "length (zip64_bytes de) \<le> 24"
  by (simp add: zip64_bytes_def)

lemma zip64_bytes_pos: "needs64 de \<Longrightarrow> 0 < length (zip64_bytes de)"
  unfolding needs64_def zip64_bytes_def by (elim disjE) (simp_all add: less_imp_le)

lemma zip64_fill_central:
  assumes "wrote b [] 28" and "\<not> flag_set flags ZIP_FL_LOCAL" and "needs64 de"
  shows "wrote (zip64_fill de flags b) (zip64_bytes de) (28 - length (zip64_bytes de))"
proof -
  have c: "flag_set flags ZIP_FL_FORCE_ZIP64 \<or> 0xffffffff < de_comp_size de \<or> 0xffffffff < de_uncomp_size de \<or> 0xffffffff < de_offset de"
    using assms(3) by (auto simp: needs64_def)
  define put where "put c v b = (if c then snd (zip_buffer_put_64 b v) else b)" for c v b
  have step: "wrote (put c v b) (bs @ (if c then le_enc 8 (unat v) else [])) (n - length (if c then le_enc 8 (unat v) else []))"
    if "wrote b bs n" "8 \<le> n" for c v b bs n
    using that puts_wrote(4) [OF that, of v] by (simp add: put_def)
  let ?x = "\<lambda>c v. if c then le_enc 8 (unat v) else []"
  let ?u = "?x (0xffffffff \<le> de_uncomp_size de) (de_uncomp_size de)"
  let ?c = "?x (0xffffffff \<le> de_comp_size de) (de_comp_size de)"
  have l: "length ?u \<le> 8" "length ?c \<le> 8" by simp_all
  have 1: "wrote (put (0xffffffff \<le> de_uncomp_size de) (de_uncomp_size de) b) ([] @ ?u) (28 - length ?u)"
    by (rule step [OF assms(1)]) simp
  have 2: "wrote (put (0xffffffff \<le> de_comp_size de) (de_comp_size de) (put (0xffffffff \<le> de_uncomp_size de) (de_uncomp_size de) b))
      (([] @ ?u) @ ?c) (28 - length ?u - length ?c)" by (rule step [OF 1]) (use l in simp)
  from step [OF 2, of "0xffffffff \<le> de_offset de" "de_offset de"] l
  show ?thesis using c assms(2) unfolding zip64_fill_def Let_def put_def [symmetric]
    by (simp add: zip64_bytes_def diff_diff_left add.assoc)
qed

definition zip64_ef :: "zip_dirent \<Rightarrow> zip_extra_field" where
  "zip64_ef de = \<lparr>ef_flags = ZIP_EF_BOTH, ef_id = ZIP_EF_ZIP64, ef_size = length (zip64_bytes de), ef_data = zip64_bytes de\<rparr>"

lemma dirent_zip64_ef_central:
  assumes "\<not> flag_set flags ZIP_FL_LOCAL" and "needs64 de"
  shows "dirent_zip64_ef [] de flags efs = Some (Inr (zip64_ef de # efs), [])"
proof -
  obtain b where b: "zip_buffer_new [] (Some (replicate 28 0)) (word_of_nat 28) = (Some b, [])" "wrote b [] 28"
    using zip_buffer_new_wrote [of "replicate 28 0"] by auto
  note w = zip64_fill_central [OF b(2) assms]
  have "take (length (zip64_bytes de)) (buf_data (zip64_fill de flags b)) = zip64_bytes de"
    using w wroteD(3) [OF w] by (simp add: wrote_def)
  then have "zip_ef_new [] ZIP_EF_ZIP64 (length (zip64_bytes de)) (buf_data (zip64_fill de flags b)) ZIP_EF_BOTH = (Some (zip64_ef de), [])"
    using zip64_bytes_pos [OF assms(2)] by (simp add: zip_ef_new_def zip_memdup_def zip64_ef_def)
  then show ?thesis using b(1) wroteD(2) [OF w] zip_buffer_tell_wrote [OF w] by (simp add: dirent_zip64_ef_def Let_def)
qed

lemma ucast_cut32: "(ucast (cut32 v) :: u64) = (if v < 0xffffffff then v else 0xffffffff)"
proof (cases "v < 0xffffffff")
  case True
  then have "unat v < 2 ^ 32" by (simp add: word_less_nat_alt)
  then have "unat (ucast (ucast v :: u32) :: u64) = unat v"
    by (simp add: unsigned_ucast_eq) (simp only: unsigned_take_bit_eq, simp add: take_bit_nat_eq_self)
  then show ?thesis using True by (simp add: cut32_def word_unat_eq_iff)
next
  case False
  then show ?thesis by (simp add: cut32_def)
qed

lemma cut32_max: "(ucast (cut32 v) :: u64) = 0xffffffff \<longleftrightarrow> v \<ge> 0xffffffff"
  by (auto simp: ucast_cut32 not_less)

lemma zip64_values_central:
  assumes "reads b (zip64_bytes de)"
    and "de_uncomp_size zde = ucast (cut32 (de_uncomp_size de))" and "de_comp_size zde = ucast (cut32 (de_comp_size de))"
    and "de_offset zde = ucast (cut32 (de_offset de))" and "de_disk_number zde \<noteq> 0xffff"
  shows "\<exists>b1. zip64_values False zde b = (zde\<lparr>de_uncomp_size := de_uncomp_size de, de_comp_size := de_comp_size de,
      de_offset := de_offset de\<rparr>, b1) \<and> reads b1 []"
proof -
  let ?g = "\<lambda>c v b. if c then zip_buffer_get_64 b else (v, b)"
  have step: "\<exists>b1. ?g c v b = (v, b1) \<and> reads b1 rest"
    if "reads b ((if c then le_enc 8 (unat v) else []) @ rest)" for c v b rest
    using that get_reads_pair(3) [of b v rest] by (cases c) auto
  let ?cu = "de_uncomp_size de \<ge> 0xffffffff" and ?cc = "de_comp_size de \<ge> 0xffffffff" and ?co = "de_offset de \<ge> 0xffffffff"
  from step [OF assms(1) [unfolded zip64_bytes_def]] obtain b1 where
    1: "?g ?cu (de_uncomp_size de) b = (de_uncomp_size de, b1)" and r1: "reads b1 ((if ?cc then le_enc 8 (unat (de_comp_size de)) else [])
       @ (if ?co then le_enc 8 (unat (de_offset de)) else []))" by blast
  from step [OF r1] obtain b2 where
    2: "?g ?cc (de_comp_size de) b1 = (de_comp_size de, b2)" and r2: "reads b2 (if ?co then le_enc 8 (unat (de_offset de)) else [])" by blast
  from step [of b2 ?co "de_offset de" "[]"] r2 obtain b3 where
    3: "?g ?co (de_offset de) b2 = (de_offset de, b3)" and r3: "reads b3 []" by auto
  have u: "\<not> ?cu \<Longrightarrow> de_uncomp_size zde = de_uncomp_size de" "\<not> ?cc \<Longrightarrow> de_comp_size zde = de_comp_size de"
    "\<not> ?co \<Longrightarrow> de_offset zde = de_offset de"
    unfolding assms(2-4) ucast_cut32 by (simp_all add: not_le)
  have m: "de_uncomp_size zde = 0xffffffff \<longleftrightarrow> ?cu" "de_comp_size zde = 0xffffffff \<longleftrightarrow> ?cc" "de_offset zde = 0xffffffff \<longleftrightarrow> ?co"
    unfolding assms(2-4) by (rule cut32_max)+
  have e1: "(if ?cu then (let (v, b) = zip_buffer_get_64 b in (zde\<lparr>de_uncomp_size := v\<rparr>, b)) else (zde, b))
      = (zde\<lparr>de_uncomp_size := de_uncomp_size de\<rparr>, b1)"
    using 1 u(1) by (auto split: if_splits)
  have e2: "(if ?cc then (let (v, b) = zip_buffer_get_64 b1 in (z\<lparr>de_comp_size := v\<rparr>, b)) else (z, b1))
      = (z\<lparr>de_comp_size := de_comp_size de\<rparr>, b2)" if "\<not> ?cc \<Longrightarrow> de_comp_size z = de_comp_size de" for z
    using 2 that by (auto split: if_splits)
  have e3: "(if ?co then (let (v, b) = zip_buffer_get_64 b2 in (z\<lparr>de_offset := v\<rparr>, b)) else (z, b2))
      = (z\<lparr>de_offset := de_offset de\<rparr>, b3)" if "\<not> ?co \<Longrightarrow> de_offset z = de_offset de" for z
    using 3 that by (auto split: if_splits)
  let ?z1 = "zde\<lparr>de_uncomp_size := de_uncomp_size de\<rparr>"
  let ?z2 = "?z1\<lparr>de_comp_size := de_comp_size de\<rparr>"
  have "de_comp_size ?z1 = de_comp_size zde" "de_offset ?z2 = de_offset zde" by simp_all
  with u m e2 [of ?z1] e3 [of ?z2] have f:
    "(if de_comp_size ?z1 = 0xffffffff then (let (v, b) = zip_buffer_get_64 b1 in (?z1\<lparr>de_comp_size := v\<rparr>, b)) else (?z1, b1)) = (?z2, b2)"
    "(if de_offset ?z2 = 0xffffffff then (let (v, b) = zip_buffer_get_64 b2 in (?z2\<lparr>de_offset := v\<rparr>, b)) else (?z2, b2))
       = (?z2\<lparr>de_offset := de_offset de\<rparr>, b3)" by simp_all
  have d: "(de_disk_number (?z2\<lparr>de_offset := de_offset de\<rparr>) = 0xffff) = False" using assms(5) by simp
  have "zip64_values False zde b = (?z2\<lparr>de_offset := de_offset de\<rparr>, b3)"
    unfolding zip64_values_def m(1) if_False e1 [unfolded Let_def] f [unfolded Let_def] d Let_def prod.case by (rule refl)
  then show ?thesis using r3 by simp
qed

section \<open>Names, comments and fields of an entry\<close>

definition str_ok :: "zip_string option \<Rightarrow> bool" where
  "str_ok str \<longleftrightarrow> (case str of None \<Rightarrow> True
     | Some s \<Rightarrow> 0 < zs_length s \<and> zs_length s < 65536 \<and> zs_length s \<le> length (zs_raw s))"

text \<open>An encoding found earlier agrees with the bytes.\<close>

definition enc_ok :: "zip_string option \<Rightarrow> bool" where
  "enc_ok str \<longleftrightarrow> (case str of None \<Rightarrow> True
     | Some s \<Rightarrow> zs_encoding s = ZIP_ENCODING_ASCII \<or> zs_encoding s = ZIP_ENCODING_UTF8_KNOWN
         \<longrightarrow> guess_loop ZIP_ENCODING_ASCII (take (zs_length s) (zs_raw s)) \<noteq> ZIP_ENCODING_CP437)"

definition str_bytes :: "zip_string option \<Rightarrow> bytes" where
  "str_bytes str = (case str of None \<Rightarrow> [] | Some s \<Rightarrow> take (zs_length s) (zs_raw s))"

lemma length_str_bytes: "str_ok str \<Longrightarrow> length (str_bytes str) = zip_string_length str"
  by (cases str) (auto simp: str_ok_def str_bytes_def zip_string_length_def)

lemma zip_string_length_lt: "str_ok str \<Longrightarrow> zip_string_length str < 65536"
  by (cases str) (auto simp: str_ok_def zip_string_length_def)

definition known :: "zip_string option \<Rightarrow> bool" where
  "known str \<longleftrightarrow> fst (zip_guess_encoding str ZIP_ENCODING_UNKNOWN) = ZIP_ENCODING_UTF8_KNOWN"

definition ascii :: "zip_string option \<Rightarrow> bool" where
  "ascii str \<longleftrightarrow> fst (zip_guess_encoding str ZIP_ENCODING_UNKNOWN) = ZIP_ENCODING_ASCII"

lemma guess_same:
  "zip_string_length (snd (zip_guess_encoding str e)) = zip_string_length str"
  "str_bytes (snd (zip_guess_encoding str e)) = str_bytes str"
  "str_ok (snd (zip_guess_encoding str e)) = str_ok str"
  by (cases str; simp add: zip_guess_encoding_def zip_string_length_def str_bytes_def str_ok_def Let_def)+

lemma known_valid:
  assumes "known str \<or> ascii str" and "enc_ok str"
  shows "guess_loop ZIP_ENCODING_ASCII (str_bytes str) \<noteq> ZIP_ENCODING_CP437"
proof (cases str)
  case None
  then show ?thesis by (simp add: str_bytes_def guess_loop.simps)
next
  case (Some s)
  then show ?thesis using assms
    by (auto simp: known_def ascii_def enc_ok_def str_bytes_def zip_guess_encoding_def Let_def split: if_splits)
qed

lemma read_data_cursor:
  assumes "reads b (xs @ rest)" and "0 < length xs" and "length xs < 65536"
  shows "\<exists>b1. zip_read_data C [] (Some b) src (length xs) nulp error
      = (Some (if nulp then map nul_to_space xs @ [0] else xs), Some b1, src, error, []) \<and> reads b1 rest"
proof -
  have "unat (word_of_nat (length xs) :: u64) = length xs"
    using assms(3) by (simp add: unsigned_of_nat take_bit_nat_eq_self)
  from zip_buffer_get_reads [OF assms(1) this] assms(2) show ?thesis
    by (auto simp: zip_read_data_def Let_def)
qed

lemma read_string_cursor:
  assumes "reads b (xs @ rest)" and "0 < length xs" and "length xs < 65536" and "nulp \<Longrightarrow> 0 \<notin> set xs"
  shows "\<exists>b1. zip_read_string C [] (Some b) src (length xs) nulp error
      = (Some \<lparr>zs_raw = xs @ [0], zs_length = length xs, zs_encoding = ZIP_ENCODING_UNKNOWN, zs_converted = None,
               zs_converted_length = 0\<rparr>, Some b1, src, error, []) \<and> reads b1 rest"
proof -
  have "map nul_to_space xs = xs" if "nulp"
    using assms(4) [OF that] by (intro map_idI) (auto simp: nul_to_space_def)
  then have t: "take (length xs) (if nulp then map nul_to_space xs @ [0] else xs) = xs" by simp
  from read_data_cursor [OF assms(1-3), of C src nulp error] obtain b1 where
    "zip_read_data C [] (Some b) src (length xs) nulp error
      = (Some (if nulp then map nul_to_space xs @ [0] else xs), Some b1, src, error, [])" "reads b1 rest" by blast
  then show ?thesis using assms(2) t by (simp add: zip_read_string_def zip_string_new_def)
qed

lemma utf8_claim_fine:
  assumes "flag_set bf ZIP_GPBF_ENCODING_UTF_8 \<Longrightarrow> guess_loop ZIP_ENCODING_ASCII xs \<noteq> ZIP_ENCODING_CP437"
  shows "\<exists>s1. utf8_claim bf (Some \<lparr>zs_raw = xs @ [0], zs_length = length xs, zs_encoding = ZIP_ENCODING_UNKNOWN,
      zs_converted = None, zs_converted_length = 0\<rparr>) = (False, Some s1)
    \<and> str_bytes (Some s1) = xs \<and> zip_string_length (Some s1) = length xs"
proof -
  have "guess_loop ZIP_ENCODING_ASCII xs \<in> {ZIP_ENCODING_ASCII, ZIP_ENCODING_UTF8_GUESSED, ZIP_ENCODING_CP437}"
    using guess_loop_values [of ZIP_ENCODING_ASCII xs] by simp
  then show ?thesis using assms
    by (auto simp: utf8_claim_def zip_guess_encoding_def Let_def str_bytes_def zip_string_length_def)
qed

lemma dirent_read_name_cursor:
  assumes "reads b (str_bytes str @ rest)" and "str_ok str" and "0 \<notin> set (str_bytes str)"
    and "flag_set (de_bitflags zde) ZIP_GPBF_ENCODING_UTF_8 \<Longrightarrow> guess_loop ZIP_ENCODING_ASCII (str_bytes str) \<noteq> ZIP_ENCODING_CP437"
  shows "\<exists>str1 b1. dirent_read_name C [] b src zde (zip_string_length str) error = (Some str1, b1, src, error, [])
    \<and> reads b1 rest \<and> str_bytes str1 = str_bytes str \<and> zip_string_length str1 = zip_string_length str"
proof (cases str)
  case None
  then show ?thesis using assms(1) by (simp add: dirent_read_name_def zip_string_length_def str_bytes_def)
next
  case (Some s)
  then have l: "0 < length (str_bytes str)" "length (str_bytes str) < 65536" "zip_string_length str = length (str_bytes str)"
    using assms(2) by (auto simp: str_ok_def str_bytes_def zip_string_length_def)
  from utf8_claim_fine [OF assms(4)] obtain s1 where s1: "utf8_claim (de_bitflags zde) (Some \<lparr>zs_raw = str_bytes str @ [0],
      zs_length = length (str_bytes str), zs_encoding = ZIP_ENCODING_UNKNOWN, zs_converted = None, zs_converted_length = 0\<rparr>)
      = (False, Some s1)" "str_bytes (Some s1) = str_bytes str" "zip_string_length (Some s1) = length (str_bytes str)" by blast
  from read_string_cursor [OF assms(1) l(1,2), of True C src error] assms(3) s1 l show ?thesis
    by (auto simp: dirent_read_name_def)
qed

lemma dirent_read_comment_cursor:
  assumes "reads b (str_bytes str @ rest)" and "str_ok str"
    and "flag_set (de_bitflags zde) ZIP_GPBF_ENCODING_UTF_8 \<Longrightarrow> guess_loop ZIP_ENCODING_ASCII (str_bytes str) \<noteq> ZIP_ENCODING_CP437"
  shows "\<exists>str1 b1. dirent_read_comment C [] b src zde (zip_string_length str) error = (Some str1, b1, src, error, [])
    \<and> reads b1 rest \<and> str_bytes str1 = str_bytes str \<and> zip_string_length str1 = zip_string_length str"
proof (cases str)
  case None
  then show ?thesis using assms(1) by (simp add: dirent_read_comment_def zip_string_length_def str_bytes_def)
next
  case (Some s)
  then have l: "0 < length (str_bytes str)" "length (str_bytes str) < 65536" "zip_string_length str = length (str_bytes str)"
    using assms(2) by (auto simp: str_ok_def str_bytes_def zip_string_length_def)
  from utf8_claim_fine [OF assms(3)] obtain s1 where s1: "utf8_claim (de_bitflags zde) (Some \<lparr>zs_raw = str_bytes str @ [0],
      zs_length = length (str_bytes str), zs_encoding = ZIP_ENCODING_UNKNOWN, zs_converted = None, zs_converted_length = 0\<rparr>)
      = (False, Some s1)" "str_bytes (Some s1) = str_bytes str" "zip_string_length (Some s1) = length (str_bytes str)" by blast
  from read_string_cursor [OF assms(1) l(1,2), of False C src error] s1 l show ?thesis
    by (auto simp: dirent_read_comment_def)
qed

lemma dirent_read_ef_cursor:
  assumes "reads b (concat (map ef_bytes efs) @ rest)" and "list_all ef_ok efs" and "length (concat (map ef_bytes efs)) < 65536"
  shows "\<exists>b1. dirent_read_ef C [] b src local (length (concat (map ef_bytes efs))) error
      = (Some (map (with_flags (if local then ZIP_FL_LOCAL else ZIP_FL_CENTRAL)) efs), b1, src, error, []) \<and> reads b1 rest"
proof (cases "efs = []")
  case True
  then show ?thesis using assms(1) by (simp add: dirent_read_ef_def)
next
  case False
  define xs where "xs = concat (map ef_bytes efs)"
  from False obtain ef efs1 where "efs = ef # efs1" by (cases efs) simp_all
  then have pos: "0 < length xs" by (simp add: ef_bytes_def xs_def)
  have "xs = concat (map ef_bytes efs) @ []" "length xs < 65536" using assms(3) by (simp_all add: xs_def)
  from zip_ef_parse_correct [OF assms(2) _ _ this]
  have p: "zip_ef_parse [] xs (length xs) fl error = (True, map (with_flags fl) efs, error, [])" for fl by simp
  from read_data_cursor [of b xs rest C src False error] assms(1,3) pos obtain b1 where
    "zip_read_data C [] (Some b) src (length xs) False error = (Some xs, Some b1, src, error, [])" "reads b1 rest"
    by (auto simp: xs_def)
  then show ?thesis using pos p unfolding xs_def [symmetric] by (simp add: dirent_read_ef_def)
qed

section \<open>A central header written and read back\<close>

lemma zip_ef_remove_internal_filter: "zip_ef_remove_internal efs = filter (\<lambda>ef. \<not> ZIP_EF_IS_INTERNAL (ef_id ef)) efs"
  by (induction efs) simp_all

lemma no_utf8_field:
  assumes "\<forall>ef \<in> set efs. ef_id ef \<noteq> i"
  shows "dirent_process_ef_utf_8 L m efs i str = (str, m)"
proof -
  have "filter (ef_match i fl) efs = []" for fl using assms by (auto simp: ef_match_def filter_empty_conv)
  then show ?thesis by (simp add: dirent_process_ef_utf_8_def zip_ef_get_by_id_nth)
qed

definition zip64_efs :: "zip_dirent \<Rightarrow> zip_extra_field list" where
  "zip64_efs de = (if needs64 de then [zip64_ef de] else [])"

text \<open>The sizes and the offset either need the Zip64 field or fit their 32 bits, the reserved value excluded.\<close>

definition sizes_ok :: "zip_dirent \<Rightarrow> bool" where
  "sizes_ok de \<longleftrightarrow> needs64 de
     \<or> de_uncomp_size de < 0xffffffff \<and> de_comp_size de < 0xffffffff \<and> de_offset de < 0xffffffff"

lemma sizes_ok_needs64:
  "sizes_ok de \<Longrightarrow> zip_dirent_needs_zip64 de ZIP_FL_CENTRAL = needs64 de"
  by (auto simp: sizes_ok_def needs64_def zip_dirent_needs_zip64_def flag_set_def less_imp_le)

lemma with_flags_simps [simp]:
  "ef_id (with_flags fl ef) = ef_id ef" "ef_flags (with_flags fl ef) = fl" "ef_size (with_flags fl ef) = ef_size ef"
  "ef_data (with_flags fl ef) = ef_data ef"
  by (simp_all add: with_flags_def)

lemma dirent_read_zip64_central:
  assumes "sizes_ok de" and "\<forall>ef \<in> set own. ef_id ef \<noteq> ZIP_EF_ZIP64"
    and "de_uncomp_size zde = ucast (cut32 (de_uncomp_size de))" and "de_comp_size zde = ucast (cut32 (de_comp_size de))"
    and "de_offset zde = ucast (cut32 (de_offset de))" and "de_disk_number zde \<noteq> 0xffff"
    and "de_extra_fields zde = map (with_flags ZIP_FL_CENTRAL) (zip64_efs de @ own)"
  shows "dirent_read_zip64 [] False zde error
    = (Some (zde\<lparr>de_uncomp_size := de_uncomp_size de, de_comp_size := de_comp_size de, de_offset := de_offset de\<rparr>), error, [])"
proof (cases "needs64 de")
  case False
  then have "de_uncomp_size de < 0xffffffff" "de_comp_size de < 0xffffffff" "de_offset de < 0xffffffff"
    using assms(1) by (simp_all add: sizes_ok_def)
  then have l: "\<not> de_uncomp_size de \<ge> 0xffffffff" "\<not> de_comp_size de \<ge> 0xffffffff" "\<not> de_offset de \<ge> 0xffffffff"
    and s: "de_uncomp_size de = de_uncomp_size zde" "de_comp_size de = de_comp_size zde" "de_offset de = de_offset zde"
    unfolding assms(3-5) ucast_cut32 by (simp_all add: not_le)
  have "\<not> (de_uncomp_size zde = 0xffffffff \<or> de_comp_size zde = 0xffffffff \<or> de_offset zde = 0xffffffff)"
    unfolding assms(3-5) cut32_max using l by blast
  then show ?thesis unfolding s dirent_read_zip64_def by simp
next
  case True
  let ?n = "length (zip64_bytes de)"
  have cond: "de_uncomp_size zde = 0xffffffff \<or> de_comp_size zde = 0xffffffff \<or> de_offset zde = 0xffffffff"
    using True unfolding assms(3-5) cut32_max needs64_def by (auto simp: less_imp_le)
  have "filter (ef_match ZIP_EF_ZIP64 ZIP_FL_CENTRAL) (de_extra_fields zde) = [with_flags ZIP_FL_CENTRAL (zip64_ef de)]"
    using True assms(2) unfolding assms(7)
    by (auto simp: zip64_efs_def ef_match_def zip64_ef_def ef_in_def flag_set_def filter_empty_conv)
  then have get: "zip_ef_get_by_id (de_extra_fields zde) ZIP_EF_ZIP64 0 ZIP_FL_CENTRAL error = (Some (zip64_bytes de, ?n), error)"
    using zip64_bytes_pos [OF True] by (simp add: zip_ef_get_by_id_nth ef_value_def zip64_ef_def)
  obtain b where b: "zip_buffer_new [] (Some (zip64_bytes de)) (word_of_nat ?n) = (Some b, [])" "reads b (zip64_bytes de)"
    using zip_buffer_new_reads [of "zip64_bytes de"] length_zip64_bytes [of de] by auto
  from zip64_values_central [OF b(2) assms(3-6)] obtain b1 where
    v: "zip64_values False zde b = (zde\<lparr>de_uncomp_size := de_uncomp_size de, de_comp_size := de_comp_size de,
      de_offset := de_offset de\<rparr>, b1)" "reads b1 []" by blast
  have "zip_buffer_eof b1" using zip_buffer_eof_reads [OF v(2)] by simp
  then show ?thesis unfolding dirent_read_zip64_def if_P [OF cond] using get b(1) v(1) by simp
qed

lemma dirent_read_finish_central:
  assumes "sizes_ok de" and own: "\<forall>ef \<in> set own. \<not> ZIP_EF_IS_INTERNAL (ef_id ef)"
    and "de_uncomp_size zde = ucast (cut32 (de_uncomp_size de))" and "de_comp_size zde = ucast (cut32 (de_comp_size de))"
    and "de_offset zde = ucast (cut32 (de_offset de))" and "de_disk_number zde \<noteq> 0xffff"
    and "de_extra_fields zde = map (with_flags ZIP_FL_CENTRAL) (zip64_efs de @ own)"
    and "unat (de_offset de) \<le> ZIP_INT64_MAX" and "de_comp_method zde \<noteq> ZIP_CM_WINZIP_AES" and "buf_ok b"
  shows "dirent_read_finish L [] False b zde error
    = (Some (zde\<lparr>de_uncomp_size := de_uncomp_size de, de_comp_size := de_comp_size de, de_offset := de_offset de,
                 de_extra_fields := map (with_flags ZIP_FL_CENTRAL) own\<rparr>), error, [])"
proof -
  have ids: "\<forall>ef \<in> set own. ef_id ef \<noteq> ZIP_EF_ZIP64" "\<forall>ef \<in> set (de_extra_fields zde). ef_id ef \<noteq> ZIP_EF_UTF_8_NAME"
    "\<forall>ef \<in> set (de_extra_fields zde). ef_id ef \<noteq> ZIP_EF_UTF_8_COMMENT"
    using own unfolding assms(7) by (auto simp: ZIP_EF_IS_INTERNAL_def zip64_efs_def zip64_ef_def split: if_splits)
  let ?z = "zde\<lparr>de_filename := de_filename zde, de_comment := de_comment zde\<rparr>"
  have z: "?z = zde" by simp
  have rm: "zip_ef_remove_internal (de_extra_fields zde) = map (with_flags ZIP_FL_CENTRAL) own"
    using own unfolding assms(7) zip_ef_remove_internal_filter
    by (auto simp: zip64_efs_def zip64_ef_def ZIP_EF_IS_INTERNAL_def filter_map o_def intro!: filter_True)
  show ?thesis
    using dirent_read_zip64_central [OF assms(1) ids(1) assms(3-7), of error] assms(8-10) rm
    unfolding dirent_read_finish_def no_utf8_field [OF ids(2)] no_utf8_field [OF ids(3)] Let_def prod.case z
    by (simp add: dirent_process_winzip_aes_def)
qed

lemma flag_set_and: "flag_set (x AND y) p \<longleftrightarrow> x AND (y AND p) \<noteq> 0"
  by (simp add: flag_set_def and.assoc)

text \<open>The two bits of the general purpose flags that are set or cleared, and the one tested beside them.\<close>

lemma bit_flags:
  fixes x :: u16
  shows "flag_set (x AND NOT 0x800) 0x40 = flag_set x 0x40" and "flag_set (x OR 0x800) 0x40 = flag_set x 0x40"
    and "flag_set (x AND NOT 1) 0x40 = flag_set x 0x40" and "flag_set (x OR 1) 0x40 = flag_set x 0x40"
    and "flag_set (x AND NOT 1) 0x800 = flag_set x 0x800" and "flag_set (x OR 1) 0x800 = flag_set x 0x800"
    and "\<not> flag_set (x AND NOT 0x800) 0x800" and "\<not> flag_set (x AND NOT 1) 1" and "flag_set (x OR 1) 1"
  unfolding flag_set_or flag_set_and by (simp_all add: flag_set_def)

lemmas bit_flags_simps = bit_flags [simplified]

definition header_ok :: "zip_dirent \<Rightarrow> bool" where
  "header_ok de \<longleftrightarrow>
     str_ok (de_filename de) \<and> 0 \<notin> set (str_bytes (de_filename de)) \<and> enc_ok (de_filename de)
     \<and> str_ok (de_comment de) \<and> enc_ok (de_comment de)
     \<and> (known (de_filename de) \<longrightarrow> known (de_comment de) \<or> ascii (de_comment de))
     \<and> (known (de_comment de) \<longrightarrow> known (de_filename de) \<or> ascii (de_filename de))
     \<and> de_encryption_method de \<in> {ZIP_EM_NONE, ZIP_EM_TRAD_PKWARE}
     \<and> \<not> flag_set (de_bitflags de) ZIP_GPBF_STRONG_ENCRYPTION
     \<and> 0 \<le> de_comp_method de \<and> de_comp_method de < 65536 \<and> de_comp_method de \<noteq> ZIP_CM_WINZIP_AES
     \<and> list_all ef_ok (de_extra_fields de) \<and> (\<forall>ef \<in> set (de_extra_fields de). \<not> ZIP_EF_IS_INTERNAL (ef_id ef))
     \<and> length (efs_bytes ZIP_FL_CENTRAL (de_extra_fields de)) + 28 < 65536
     \<and> unat (de_offset de) \<le> ZIP_INT64_MAX \<and> (ucast (de_disk_number de) :: u16) \<noteq> 0xffff \<and> sizes_ok de"

text \<open>The entry as \<open>_zip_dirent_write\<close> leaves it: the encodings cached and two bits of the flags set.\<close>

definition flagged :: "zip_dirent \<Rightarrow> zip_dirent" where
  "flagged de =
     (let bits = (if (known (de_filename de) \<or> ascii (de_filename de)) \<and> (known (de_comment de) \<or> ascii (de_comment de))
                     \<and> (known (de_filename de) \<or> known (de_comment de))
                  then de_bitflags de OR ZIP_GPBF_ENCODING_UTF_8 else de_bitflags de AND NOT ZIP_GPBF_ENCODING_UTF_8)
      in de\<lparr>de_filename := snd (zip_guess_encoding (de_filename de) ZIP_ENCODING_UNKNOWN),
            de_comment := snd (zip_guess_encoding (de_comment de) ZIP_ENCODING_UNKNOWN),
            de_bitflags := (if de_encryption_method de = ZIP_EM_NONE then bits AND NOT ZIP_GPBF_ENCRYPTED
                            else bits OR ZIP_GPBF_ENCRYPTED)\<rparr>)"

lemma flagged_simps [simp]:
  "de_version_madeby (flagged de) = de_version_madeby de" "de_version_needed (flagged de) = de_version_needed de"
  "de_comp_method (flagged de) = de_comp_method de" "de_last_mod (flagged de) = de_last_mod de"
  "de_crc (flagged de) = de_crc de" "de_comp_size (flagged de) = de_comp_size de"
  "de_uncomp_size (flagged de) = de_uncomp_size de" "de_extra_fields (flagged de) = de_extra_fields de"
  "de_disk_number (flagged de) = de_disk_number de" "de_int_attrib (flagged de) = de_int_attrib de"
  "de_ext_attrib (flagged de) = de_ext_attrib de" "de_offset (flagged de) = de_offset de"
  "de_encryption_method (flagged de) = de_encryption_method de"
  "zip_string_length (de_filename (flagged de)) = zip_string_length (de_filename de)"
  "zip_string_length (de_comment (flagged de)) = zip_string_length (de_comment de)"
  "str_bytes (de_filename (flagged de)) = str_bytes (de_filename de)"
  "str_bytes (de_comment (flagged de)) = str_bytes (de_comment de)"
  "str_ok (de_filename (flagged de)) = str_ok (de_filename de)" "str_ok (de_comment (flagged de)) = str_ok (de_comment de)"
  by (simp_all add: flagged_def Let_def guess_same)

lemma same_sizes:
  "needs64 (flagged de) = needs64 de" "zip64_bytes (flagged de) = zip64_bytes de" "zip64_ef (flagged de) = zip64_ef de"
  "zip_dirent_needs_zip64 (flagged de) fl = zip_dirent_needs_zip64 de fl" "version_written (flagged de) fl = version_written de fl"
  "is_winzip_aes (flagged de) = is_winzip_aes de"
  by (simp_all add: needs64_def zip64_bytes_def zip64_ef_def zip_dirent_needs_zip64_def version_written_def is_winzip_aes_def)

lemma flagged_utf8:
  assumes "flag_set (de_bitflags (flagged de)) ZIP_GPBF_ENCODING_UTF_8"
  shows "known (de_filename de) \<or> ascii (de_filename de)" and "known (de_comment de) \<or> ascii (de_comment de)"
  using assms by (auto simp: flagged_def Let_def bit_flags_simps split: if_splits)

lemma flagged_encryption:
  assumes "header_ok de" and "de_bitflags zde = de_bitflags (flagged de)"
  shows "dirent_encryption zde = de_encryption_method de"
proof -
  have "flag_set (de_bitflags (flagged de)) ZIP_GPBF_STRONG_ENCRYPTION = flag_set (de_bitflags de) ZIP_GPBF_STRONG_ENCRYPTION"
    by (simp add: flagged_def Let_def bit_flags_simps)
  moreover have "flag_set (de_bitflags (flagged de)) ZIP_GPBF_ENCRYPTED \<longleftrightarrow> de_encryption_method de \<noteq> ZIP_EM_NONE"
    by (simp add: flagged_def Let_def bit_flags_simps)
  ultimately show ?thesis using assms by (auto simp: dirent_encryption_def header_ok_def)
qed

lemma dirent_write_utf8_plain:
  assumes "header_ok de"
  shows "\<exists>de1. dirent_write_utf8 L [] de fl error = (Some [], de1, error, [])
    \<and> flagged de = de1\<lparr>de_bitflags := (if de_encryption_method de1 = ZIP_EM_NONE
        then de_bitflags de1 AND NOT ZIP_GPBF_ENCRYPTED else de_bitflags de1 OR ZIP_GPBF_ENCRYPTED)\<rparr>"
proof -
  obtain ne n ce c where g: "zip_guess_encoding (de_filename de) ZIP_ENCODING_UNKNOWN = (ne, n)"
    "zip_guess_encoding (de_comment de) ZIP_ENCODING_UNKNOWN = (ce, c)" by (metis prod.exhaust)
  have "ne = ZIP_ENCODING_UTF8_KNOWN \<longrightarrow> ce = ZIP_ENCODING_UTF8_KNOWN \<or> ce = ZIP_ENCODING_ASCII"
    "ce = ZIP_ENCODING_UTF8_KNOWN \<longrightarrow> ne = ZIP_ENCODING_UTF8_KNOWN \<or> ne = ZIP_ENCODING_ASCII"
    using assms g by (auto simp: header_ok_def known_def ascii_def)
  then show ?thesis
    using g by (auto simp: dirent_write_utf8_def Let_def flagged_def known_def ascii_def)
qed

definition central_bytes :: "libs \<Rightarrow> zip_dirent \<Rightarrow> bytes" where
  "central_bytes L de = CENTRAL_MAGIC @ le_enc 2 (unat (de_version_madeby de))
     @ header_common L de (version_written de ZIP_FL_CENTRAL) (cut32 (de_comp_size de)) (cut32 (de_uncomp_size de))
         (zip_ef_size (de_extra_fields de) ZIP_FL_CENTRAL + zip_ef_size (zip64_efs de) ZIP_EF_BOTH)
     @ header_tail de"

definition variable_bytes :: "zip_dirent \<Rightarrow> bytes" where
  "variable_bytes de = str_bytes (de_filename de) @ efs_bytes ZIP_EF_BOTH (zip64_efs de)
     @ efs_bytes ZIP_FL_CENTRAL (de_extra_fields de) @ str_bytes (de_comment de)"

lemma length_central_bytes [simp]: "length (central_bytes L de) = 46"
  by (simp add: central_bytes_def header_common_def header_tail_def)

lemma zip64_efs_ok: "list_all ef_ok (zip64_efs de)"
  using length_zip64_bytes [of de] by (simp add: zip64_efs_def zip64_ef_def ef_ok_def)

lemma zip64_efs_flagged: "zip64_efs (flagged de) = zip64_efs de"
  by (simp add: zip64_efs_def same_sizes)

context byte_sink
begin

lemma zip_ef_write_nonempty:
  assumes "list_all ef_ok efs" and "good (za_src za)" and "length (out (za_src za)) + length (efs_bytes flags efs) < limit"
  shows "\<exists>za1. (if efs \<noteq> [] then zip_ef_write C [] za efs flags else (0, za, [])) = (0, za1, [])
    \<and> appended good out (efs_bytes flags efs) za za1"
  using zip_ef_write_appends [OF assms] appended_refl [of good za out] assms(2) by (cases "efs = []") auto

lemma string_write_bytes:
  assumes "good (za_src za)" and "str_ok str" and "length (out (za_src za)) + length (str_bytes str) < limit"
  shows "\<exists>za1. zip_string_write C za str = (0, za1) \<and> appended good out (str_bytes str) za za1"
  using zip_string_write_appends [OF assms(1), of str] assms(2,3) length_str_bytes [OF assms(2)]
  by (auto simp: str_ok_def str_bytes_def split: option.splits)

lemma dirent_write_parts_appends:
  assumes b: "wrote b hdr n" and ok: "list_all ef_ok efs" "list_all ef_ok (de_extra_fields de)"
    "str_ok (de_filename de)" "str_ok (de_comment de)"
    and flags: "\<not> flag_set flags ZIP_FL_LOCAL" and g: "good (za_src za)"
    and lim: "length (out (za_src za)) + length (hdr @ str_bytes (de_filename de) @ efs_bytes ZIP_EF_BOTH efs
       @ efs_bytes flags (de_extra_fields de) @ str_bytes (de_comment de)) < limit"
  shows "\<exists>za1. dirent_write_parts C [] za de flags efs b = (0, za1, [])
    \<and> appended good out (hdr @ str_bytes (de_filename de) @ efs_bytes ZIP_EF_BOTH efs
       @ efs_bytes flags (de_extra_fields de) @ str_bytes (de_comment de)) za za1"
proof -
  have t: "unat (zip_buffer_tell b) = length hdr" "take (length hdr) (buf_data b) = hdr" "length hdr \<le> length (buf_data b)"
    using zip_buffer_tell_wrote [OF b] b wroteD(3) [OF b] by (auto simp: wrote_def buf_inv_def word_le_nat_alt)
  have "length (out (za_src za)) + length hdr < limit" using lim by simp
  from zip_write_appends [OF g t(3) this] obtain z1 where
    1: "zip_write C za (buf_data b) (length hdr) = (0, z1)" "appended good out hdr za z1" unfolding t(2) by blast
  note d1 = appendedD [OF 1(2)]
  have "length (out (za_src z1)) + length (str_bytes (de_filename de)) < limit" unfolding d1(2) using lim by simp
  from string_write_bytes [OF d1(1) ok(3) this] obtain z2 where
    2: "zip_string_write C z1 (de_filename de) = (0, z2)" "appended good out (str_bytes (de_filename de)) z1 z2" by blast
  note d2 = appendedD [OF 2(2)]
  have "length (out (za_src z2)) + length (efs_bytes ZIP_EF_BOTH efs) < limit" unfolding d2(2) d1(2) using lim by simp
  from zip_ef_write_nonempty [OF ok(1) d2(1) this] obtain z3 where
    3: "(if efs \<noteq> [] then zip_ef_write C [] z2 efs ZIP_EF_BOTH else (0, z2, [])) = (0, z3, [])"
    "appended good out (efs_bytes ZIP_EF_BOTH efs) z2 z3" by blast
  note d3 = appendedD [OF 3(2)]
  have "length (out (za_src z3)) + length (efs_bytes flags (de_extra_fields de)) < limit"
    unfolding d3(2) d2(2) d1(2) using lim by simp
  from zip_ef_write_nonempty [OF ok(2) d3(1) this] obtain z4 where
    4: "(if de_extra_fields de \<noteq> [] then zip_ef_write C [] z3 (de_extra_fields de) flags else (0, z3, [])) = (0, z4, [])"
    "appended good out (efs_bytes flags (de_extra_fields de)) z3 z4" by blast
  note d4 = appendedD [OF 4(2)]
  have "length (out (za_src z4)) + length (str_bytes (de_comment de)) < limit"
    unfolding d4(2) d3(2) d2(2) d1(2) using lim by simp
  from string_write_bytes [OF d4(1) ok(4) this] obtain z5 where
    5: "zip_string_write C z4 (de_comment de) = (0, z5)" "appended good out (str_bytes (de_comment de)) z4 z5" by blast
  have "dirent_write_parts C [] za de flags efs b = (0, z5, [])"
    unfolding dirent_write_parts_def t(1) 1(1) 2(1) 3(1) 4(1) 5(1) prod.case using flags by simp
  moreover have "appended good out (hdr @ str_bytes (de_filename de) @ efs_bytes ZIP_EF_BOTH efs
       @ efs_bytes flags (de_extra_fields de) @ str_bytes (de_comment de)) za z5"
    using appended_trans [OF 1(2) appended_trans [OF 2(2) appended_trans [OF 3(2) appended_trans [OF 4(2) 5(2)]]]] .
  ultimately show ?thesis by blast
qed

lemma dirent_write_central:
  assumes "header_ok de" and "good (za_src za)"
    and "length (out (za_src za)) + length (central_bytes L (flagged de) @ variable_bytes de) < limit"
  shows "\<exists>za1. zip_dirent_write L C [] za de ZIP_FL_CENTRAL = Some (if needs64 de then 1 else 0, za1, flagged de, [])
    \<and> appended good out (central_bytes L (flagged de) @ variable_bytes de) za za1"
proof -
  let ?d = "flagged de" and ?fl = "ZIP_FL_CENTRAL"
  have fl: "\<not> flag_set ?fl ZIP_FL_LOCAL" by (simp add: flag_set_def)
  from dirent_write_utf8_plain [OF assms(1), of L ?fl "Some (za_error za)"] obtain d1 where
    1: "dirent_write_utf8 L [] de ?fl (Some (za_error za)) = (Some [], d1, Some (za_error za), [])"
    "?d = d1\<lparr>de_bitflags := (if de_encryption_method d1 = ZIP_EM_NONE
        then de_bitflags d1 AND NOT ZIP_GPBF_ENCRYPTED else de_bitflags d1 OR ZIP_GPBF_ENCRYPTED)\<rparr>" by blast
  have enc: "de_encryption_method de \<in> {ZIP_EM_NONE, ZIP_EM_TRAD_PKWARE}" and sz: "sizes_ok de"
    using assms(1) by (simp_all add: header_ok_def)
  then have aes: "\<not> is_winzip_aes ?d" by (auto simp: is_winzip_aes_def)
  have z64: "zip_dirent_needs_zip64 ?d ?fl = needs64 de" using sizes_ok_needs64 [OF sz] by (simp add: same_sizes)
  have efs: "(if needs64 de then dirent_zip64_ef [] ?d ?fl [] else Some (Inr [], [])) = Some (Inr (zip64_efs de), [])"
    using dirent_zip64_ef_central [OF fl, of ?d "[]"] by (simp add: same_sizes zip64_efs_def)
  obtain b where b: "zip_buffer_new [] (Some (replicate 46 0)) (word_of_nat 46) = (Some b, [])" "wrote b [] 46"
    using zip_buffer_new_wrote [of "replicate 46 0"] by auto
  have w: "wrote (dirent_put_fixed L ?d ?fl (zip64_efs de) b) (central_bytes L ?d) 0"
    using dirent_put_fixed_central [OF b(2) fl aes, of L "zip64_efs de"] by (simp add: central_bytes_def zip64_efs_flagged)
  have okd: "list_all ef_ok (de_extra_fields ?d)" "str_ok (de_filename ?d)" "str_ok (de_comment ?d)"
    using assms(1) by (simp_all add: header_ok_def)
  have v: "variable_bytes de = str_bytes (de_filename ?d) @ efs_bytes ZIP_EF_BOTH (zip64_efs de)
      @ efs_bytes ?fl (de_extra_fields ?d) @ str_bytes (de_comment ?d)" by (simp add: variable_bytes_def)
  from dirent_write_parts_appends [OF w zip64_efs_ok okd fl assms(2)] assms(3) obtain za1 where
    p: "dirent_write_parts C [] za ?d ?fl (zip64_efs de) (dirent_put_fixed L ?d ?fl (zip64_efs de) b) = (0, za1, [])"
    "appended good out (central_bytes L ?d @ variable_bytes de) za za1" unfolding v by blast
  have "zip_dirent_write L C [] za de ?fl = Some (if needs64 de then 1 else 0, za1, ?d, [])"
    unfolding zip_dirent_write_def 1(1) prod.case option.case Let_def 1(2) [symmetric]
    using fl z64 efs aes b(1) wroteD(2) [OF w] p(1) by simp
  with p(2) show ?thesis by blast
qed

end

lemma ucast_u16_max:
  fixes x :: u16
  assumes "(ucast x :: u32) = 0xffff"
  shows "x = 0xffff"
proof -
  have "unat x < 65536" using unsigned_less [of x, where 'a = nat] by simp
  then have "unat (ucast x :: u32) = unat x" by (simp add: unsigned_ucast_eq take_bit_nat_eq_self)
  then show ?thesis using assms by (simp add: word_unat_eq_iff)
qed

lemma unat_of_small: "n < 65536 \<Longrightarrow> unat (word_of_nat n :: u16) = n"
  by (simp add: unsigned_of_nat take_bit_nat_eq_self)

definition kept :: "zip_dirent \<Rightarrow> zip_extra_field list" where
  "kept de = filter (ef_in ZIP_FL_CENTRAL) (de_extra_fields de)"

lemma header_fields:
  assumes "header_ok de"
  shows "list_all ef_ok (zip64_efs de @ kept de)" and "\<forall>ef \<in> set (kept de). \<not> ZIP_EF_IS_INTERNAL (ef_id ef)"
    and "efs_bytes ZIP_EF_BOTH (zip64_efs de) @ efs_bytes ZIP_FL_CENTRAL (de_extra_fields de)
       = concat (map ef_bytes (zip64_efs de @ kept de))"
    and "zip_ef_size (de_extra_fields de) ZIP_FL_CENTRAL + zip_ef_size (zip64_efs de) ZIP_EF_BOTH
       = length (concat (map ef_bytes (zip64_efs de @ kept de)))"
    and "length (concat (map ef_bytes (zip64_efs de @ kept de))) < 65536"
proof -
  have ok: "list_all ef_ok (de_extra_fields de)" "length (efs_bytes ZIP_FL_CENTRAL (de_extra_fields de)) + 28 < 65536"
    using assms by (simp_all add: header_ok_def)
  show "list_all ef_ok (zip64_efs de @ kept de)" using ok(1) zip64_efs_ok [of de] by (auto simp: kept_def list_all_iff)
  show "\<forall>ef \<in> set (kept de). \<not> ZIP_EF_IS_INTERNAL (ef_id ef)" using assms by (simp add: header_ok_def kept_def)
  have both: "ef_in ZIP_EF_BOTH (zip64_ef de)" by (simp add: ef_in_def zip64_ef_def flag_set_def)
  have l: "length (efs_bytes ZIP_EF_BOTH (zip64_efs de)) \<le> 28"
    using both length_zip64_bytes [of de] by (simp add: zip64_efs_def ef_bytes_def zip64_ef_def)
  show e: "efs_bytes ZIP_EF_BOTH (zip64_efs de) @ efs_bytes ZIP_FL_CENTRAL (de_extra_fields de)
       = concat (map ef_bytes (zip64_efs de @ kept de))"
    using both by (simp add: zip64_efs_def efs_bytes_def kept_def)
  show "length (concat (map ef_bytes (zip64_efs de @ kept de))) < 65536" unfolding e [symmetric] using l ok(2) by simp
  show "zip_ef_size (de_extra_fields de) ZIP_FL_CENTRAL + zip_ef_size (zip64_efs de) ZIP_EF_BOTH
       = length (concat (map ef_bytes (zip64_efs de @ kept de)))"
    unfolding zip_ef_size_bytes [OF ok(1)] zip_ef_size_bytes [OF zip64_efs_ok] e [symmetric] using l ok(2) by simp
qed

definition same_header :: "libs \<Rightarrow> zip_dirent \<Rightarrow> zip_dirent \<Rightarrow> bool" where
  "same_header L de zde \<longleftrightarrow>
     de_version_madeby zde = de_version_madeby de \<and> de_version_needed zde = version_written de ZIP_FL_CENTRAL
     \<and> de_bitflags zde = de_bitflags (flagged de) \<and> de_comp_method zde = de_comp_method de
     \<and> de_encryption_method zde = de_encryption_method de
     \<and> de_last_mod zde = zip_d2u_time L (fst (zip_u2d_time L (de_last_mod de))) (snd (zip_u2d_time L (de_last_mod de)))
     \<and> de_crc zde = de_crc de \<and> de_comp_size zde = de_comp_size de \<and> de_uncomp_size zde = de_uncomp_size de
     \<and> str_bytes (de_filename zde) = str_bytes (de_filename de)
     \<and> de_extra_fields zde = map (with_flags ZIP_FL_CENTRAL) (kept de)
     \<and> str_bytes (de_comment zde) = str_bytes (de_comment de)
     \<and> de_disk_number zde = ucast (ucast (de_disk_number de) :: u16) \<and> de_int_attrib zde = de_int_attrib de
     \<and> de_ext_attrib zde = de_ext_attrib de \<and> de_offset zde = de_offset de"

lemma dirent_read_central:
  assumes ok: "header_ok de" and b: "reads b (central_bytes L (flagged de) @ variable_bytes de @ rest)"
  shows "\<exists>zde b1. zip_dirent_read L C [] src (Some b) False error
      = (Some (46 + length (variable_bytes de), zde), Some b1, src, error, []) \<and> reads b1 rest \<and> same_header L de zde"
proof -
  let ?d = "flagged de" and ?all = "zip64_efs de @ kept de"
  note hf = header_fields [OF ok]
  have str: "str_ok (de_filename de)" "str_ok (de_comment de)" "0 \<notin> set (str_bytes (de_filename de))"
    "enc_ok (de_filename de)" "enc_ok (de_comment de)" using ok by (simp_all add: header_ok_def)
  have v: "variable_bytes de = str_bytes (de_filename de) @ concat (map ef_bytes ?all) @ str_bytes (de_comment de)"
    using hf(3) by (simp add: variable_bytes_def)
  define nl where "nl = (word_of_nat (zip_string_length (de_filename de)) :: u16)"
  define el where "el = (word_of_nat (length (concat (map ef_bytes ?all))) :: u16)"
  define cl where "cl = (word_of_nat (zip_string_length (de_comment de)) :: u16)"
  have u: "unat nl = zip_string_length (de_filename de)" "unat el = length (concat (map ef_bytes ?all))"
    "unat cl = zip_string_length (de_comment de)"
    unfolding nl_def el_def cl_def by (simp_all only: unat_of_small zip_string_length_lt [OF str(1)]
        zip_string_length_lt [OF str(2)] hf(5))
  have left: "\<not> unat (zip_buffer_left b) < 46" using zip_buffer_left_reads [OF b] by simp
  have l4: "length CENTRAL_MAGIC = 4" by simp
  have r4: "reads b (CENTRAL_MAGIC @ (drop 4 (central_bytes L ?d) @ variable_bytes de @ rest))"
    using b by (simp add: central_bytes_def)
  have "unat (4 :: u64) = length CENTRAL_MAGIC" by simp
  from zip_buffer_get_reads [OF r4 this, unfolded l4] obtain p b1 where
    1: "zip_buffer_get b 4 = (Some p, b1)" "take 4 (drop p (buf_data b1)) = CENTRAL_MAGIC"
      "reads b1 (drop 4 (central_bytes L ?d) @ variable_bytes de @ rest)" by blast
  have "reads b1 (le_enc 2 (unat (de_version_madeby de)) @ le_enc 2 (unat (version_written de ZIP_FL_CENTRAL))
    @ le_enc 2 (unat (de_bitflags ?d)) @ le_enc 2 (unat (word_of_int (de_comp_method de) :: u16))
    @ le_enc 2 (unat (fst (zip_u2d_time L (de_last_mod de)))) @ le_enc 2 (unat (snd (zip_u2d_time L (de_last_mod de))))
    @ le_enc 4 (unat (de_crc de)) @ le_enc 4 (unat (cut32 (de_comp_size de))) @ le_enc 4 (unat (cut32 (de_uncomp_size de)))
    @ le_enc 2 (unat nl) @ le_enc 2 (unat el) @ le_enc 2 (unat cl) @ le_enc 2 (unat (ucast (de_disk_number de) :: u16))
    @ le_enc 2 (unat (de_int_attrib de)) @ le_enc 4 (unat (de_ext_attrib de)) @ le_enc 4 (unat (cut32 (de_offset de)))
    @ variable_bytes de @ rest)"
    using 1(3) hf(4) by (simp add: central_bytes_def header_common_def header_tail_def same_sizes zip64_efs_flagged nl_def el_def cl_def)
  from dirent_read_fixed_central [OF this, of L] obtain b2 z where
    2: "dirent_read_fixed L False b1 = (z, nl, el, cl, b2)" "reads b2 (variable_bytes de @ rest)"
    "z = zip_dirent_init\<lparr>de_version_madeby := de_version_madeby de, de_version_needed := version_written de ZIP_FL_CENTRAL,
      de_bitflags := de_bitflags ?d, de_comp_method := int (unat (word_of_int (de_comp_method de) :: u16)),
      de_last_mod := zip_d2u_time L (fst (zip_u2d_time L (de_last_mod de))) (snd (zip_u2d_time L (de_last_mod de))),
      de_crc := de_crc de, de_comp_size := ucast (cut32 (de_comp_size de)), de_uncomp_size := ucast (cut32 (de_uncomp_size de)),
      de_disk_number := ucast (ucast (de_disk_number de) :: u16), de_int_attrib := de_int_attrib de,
      de_ext_attrib := de_ext_attrib de, de_offset := ucast (cut32 (de_offset de))\<rparr>" by blast
  have comp_meth: "int (unat (word_of_int (de_comp_method de) :: u16)) = de_comp_method de"
    using ok by (simp add: header_ok_def unsigned_of_int take_bit_int_eq_self)
  let ?z1 = "z\<lparr>de_encryption_method := dirent_encryption z, de_filename := None, de_extra_fields := [], de_comment := None\<rparr>"
  have bits: "de_bitflags ?z1 = de_bitflags ?d" by (simp add: 2(3))
  have utf: "guess_loop ZIP_ENCODING_ASCII (str_bytes (de_filename de)) \<noteq> ZIP_ENCODING_CP437"
    "guess_loop ZIP_ENCODING_ASCII (str_bytes (de_comment de)) \<noteq> ZIP_ENCODING_CP437"
    if "flag_set (de_bitflags ?z1) ZIP_GPBF_ENCODING_UTF_8"
    using known_valid [OF flagged_utf8(1) str(4)] known_valid [OF flagged_utf8(2) str(5)] that unfolding bits by blast+
  have r2: "reads b2 (str_bytes (de_filename de) @ (concat (map ef_bytes ?all) @ (str_bytes (de_comment de) @ rest)))"
    using 2(2) unfolding v by simp
  note get_name = dirent_read_name_cursor [OF r2 str(1,3), of ?z1 C src error]
  obtain n b3 where
    3: "dirent_read_name C [] b2 src ?z1 (unat nl) error = (Some n, b3, src, error, [])"
      "reads b3 (concat (map ef_bytes ?all) @ (str_bytes (de_comment de) @ rest))" "str_bytes n = str_bytes (de_filename de)"
    unfolding u(1) using get_name utf(1) by blast
  from dirent_read_ef_cursor [OF 3(2) hf(1,5), where C = C and src = src and local = False and error = error] obtain b4 where
    4: "dirent_read_ef C [] b3 src False (unat el) error = (Some (map (with_flags ZIP_FL_CENTRAL) ?all), b4, src, error, [])"
      "reads b4 (str_bytes (de_comment de) @ rest)" unfolding u(2) by auto
  note get_comment = dirent_read_comment_cursor [OF 4(2) str(2), of ?z1 C src error]
  obtain c b5 where
    5: "dirent_read_comment C [] b4 src ?z1 (unat cl) error = (Some c, b5, src, error, [])" "reads b5 rest"
      "str_bytes c = str_bytes (de_comment de)" unfolding u(3) using get_comment utf(2) by blast
  let ?z2 = "?z1\<lparr>de_filename := n, de_extra_fields := map (with_flags ZIP_FL_CENTRAL) ?all, de_comment := c,
    de_local_extra_fields_read := (False \<and> el \<noteq> 0)\<rparr>"
  let ?z3 = "?z2\<lparr>de_uncomp_size := de_uncomp_size de, de_comp_size := de_comp_size de, de_offset := de_offset de,
    de_extra_fields := map (with_flags ZIP_FL_CENTRAL) (kept de)\<rparr>"
  have disk: "(ucast (ucast (de_disk_number de) :: u16) :: u32) \<noteq> 0xffff"
    using ok ucast_u16_max [of "ucast (de_disk_number de)"] by (auto simp: header_ok_def)
  have 6: "dirent_read_finish L [] False b5 ?z2 error = (Some ?z3, error, [])"
    using ok hf(2) disk comp_meth readsD(2) [OF 5(2)]
    by (intro dirent_read_finish_central) (simp_all add: 2(3) header_ok_def)
  have len: "unat nl + unat el + unat cl = length (variable_bytes de)"
    unfolding u v using length_str_bytes [OF str(1)] length_str_bytes [OF str(2)] by simp
  have left2: "\<not> unat (zip_buffer_left b2) < unat nl + unat el + unat cl"
    unfolding len using zip_buffer_left_reads [OF 2(2)] by simp
  have "zip_dirent_read L C [] src (Some b) False error
      = (Some (46 + length (variable_bytes de), ?z3), Some b5, src, error, [])"
    unfolding zip_dirent_read_def Let_def
    using left 1(1,2) 2(1) readsD(2) [OF 2(2)] left2 len 3(1) 4(1) 5(1) 6 by simp
  moreover have "same_header L de ?z3"
    using 3(3) 5(3) comp_meth flagged_encryption [OF ok, of z] by (simp add: same_header_def 2(3))
  ultimately show ?thesis using 5(2) by blast
qed

lemma packed_fields:
  fixes s m h :: int
  assumes "0 \<le> s" "s < 32" "0 \<le> m" "m < 64" "0 \<le> h" "h < 32"
  shows "push_bit 1 (h * 2048 + m * 32 + s) AND 62 = 2 * s"
    and "drop_bit 5 (h * 2048 + m * 32 + s) AND 63 = m" and "drop_bit 11 (h * 2048 + m * 32 + s) AND 31 = h"
proof -
  let ?x = "h * 2048 + m * 32 + s"
  have d: "?x div 32 = h * 64 + m" "?x div 2048 = h" "?x mod 32 = s"
    using assms int_div_pos_eq [of ?x 32 "h * 64 + m" s] int_div_pos_eq [of ?x 2048 h "m * 32 + s"]
      int_mod_pos_eq [of ?x 32 "h * 64 + m" s] by simp_all
  have a: "x AND 31 = x mod 32" "x AND 63 = x mod 64" for x :: int
    using take_bit_eq_mask [of 5 x] take_bit_eq_mask [of 6 x] by (simp_all add: take_bit_eq_mod mask_eq_exp_minus_1)
  have "push_bit 1 ?x AND 62 = push_bit 1 (?x AND 31)" by (simp add: push_bit_and)
  then show "push_bit 1 ?x AND 62 = 2 * s" by (simp add: a d(3) push_bit_eq_mult)
  show "drop_bit 5 ?x AND 63 = m" "drop_bit 11 ?x AND 31 = h" using assms by (simp_all add: a drop_bit_eq_div d(1,2))
qed

lemma packed_date:
  fixes y mo d :: int
  assumes "0 \<le> d" "d < 32" "0 \<le> mo" "mo < 16" "0 \<le> y" "y < 128"
  shows "(y * 512 + mo * 32 + d) AND 31 = d" and "drop_bit 5 (y * 512 + mo * 32 + d) AND 15 = mo"
    and "drop_bit 9 (y * 512 + mo * 32 + d) AND 127 = y"
proof -
  let ?x = "y * 512 + mo * 32 + d"
  have d: "?x div 32 = y * 16 + mo" "?x div 512 = y" "?x mod 32 = d"
    using assms int_div_pos_eq [of ?x 32 "y * 16 + mo" d] int_div_pos_eq [of ?x 512 y "mo * 32 + d"]
      int_mod_pos_eq [of ?x 32 "y * 16 + mo" d] by simp_all
  have a: "x AND 31 = x mod 32" "x AND 15 = x mod 16" "x AND 127 = x mod 128" for x :: int
    using take_bit_eq_mask [of 5 x] take_bit_eq_mask [of 4 x] take_bit_eq_mask [of 7 x]
    by (simp_all add: take_bit_eq_mod mask_eq_exp_minus_1)
  show "?x AND 31 = d" "drop_bit 5 ?x AND 15 = mo" "drop_bit 9 ?x AND 127 = y"
    using assms by (simp_all only: a drop_bit_eq_div) (simp_all add: d)
qed

section \<open>Properties of the headers\<close>

lemma length_variable_bytes:
  assumes "header_ok de"
  shows "length (variable_bytes de) < 3 * 65536"
proof -
  have "str_ok (de_filename de)" "str_ok (de_comment de)" using assms by (simp_all add: header_ok_def)
  then show ?thesis
    using header_fields(5) [OF assms] zip_string_length_lt [of "de_filename de"] zip_string_length_lt [of "de_comment de"]
    unfolding variable_bytes_def header_fields(3) [OF assms, symmetric] by (simp add: length_str_bytes)
qed

text \<open>
  C2. A central directory header written to an in-memory archive is read back as the same entry:
  \<open>_zip_dirent_write\<close> succeeds, appends the header to the archive, answers whether it is a Zip64
  header, and \<open>_zip_dirent_read\<close>, on a cursor holding these bytes and any bytes after them, takes
  exactly the header, answers its length and builds an entry with the same name, comment, sizes,
  checksum, method, encryption, attributes, offset and central fields, sizes above 32 bits (carried
  by the Zip64 field) included.
\<close>

theorem zip_dirent_write_read:
  assumes "header_ok de" and "mem_writer (za_src za)" and "length (mem_written (za_src za)) + 2 ^ 18 \<le> 2 ^ 63"
  shows "\<exists>za1 de1 bs.
      zip_dirent_write L buffer_callbacks [] za de ZIP_FL_CENTRAL
        = Some (if zip_dirent_needs_zip64 de ZIP_FL_CENTRAL then 1 else 0, za1, de1, [])
      \<and> mem_writer (za_src za1) \<and> mem_written (za_src za1) = mem_written (za_src za) @ bs \<and> length bs < 2 ^ 18
      \<and> (\<forall>C b rest src error. reads b (bs @ rest) \<longrightarrow>
           (\<exists>zde b1. zip_dirent_read L C [] src (Some b) False error
              = (Some (length bs, zde), Some b1, src, error, []) \<and> reads b1 rest \<and> same_header L de zde))"
proof -
  let ?bs = "central_bytes L (flagged de) @ variable_bytes de"
  have "length (mem_written (za_src za)) + length ?bs < 2 ^ 63"
    using assms(3) length_variable_bytes [OF assms(1)] by simp
  from mem_sink.dirent_write_central [OF assms(1,2) this] obtain za1 where
    "zip_dirent_write L buffer_callbacks [] za de ZIP_FL_CENTRAL = Some (if needs64 de then 1 else 0, za1, flagged de, [])"
    "appended mem_writer mem_written ?bs za za1" by blast
  moreover have "zip_dirent_needs_zip64 de ZIP_FL_CENTRAL = needs64 de"
    using assms(1) by (intro sizes_ok_needs64) (simp add: header_ok_def)
  moreover have "length ?bs < 2 ^ 18" using length_variable_bytes [OF assms(1)] by simp
  moreover have "\<forall>C b rest src error. reads b (?bs @ rest) \<longrightarrow>
      (\<exists>zde b1. zip_dirent_read L C [] src (Some b) False error
         = (Some (length ?bs, zde), Some b1, src, error, []) \<and> reads b1 rest \<and> same_header L de zde)"
    unfolding append_assoc length_append length_central_bytes by (intro allI impI dirent_read_central [OF assms(1)])
  ultimately show ?thesis unfolding appended_def
    by (intro exI [of _ za1] exI [of _ "flagged de"] exI [of _ ?bs] conjI) simp_all
qed

definition sample_libs :: libs where
  "sample_libs = \<lparr>lb_crc32 = (\<lambda>_ _. 0), lb_mktime = (\<lambda>_. 0), lb_localtime = (\<lambda>_. None)\<rparr>"

definition sample_dirent :: zip_dirent where
  "sample_dirent = zip_dirent_init\<lparr>de_comp_method := 8, de_filename := Some \<lparr>zs_raw = [97, 46, 99], zs_length = 3,
     zs_encoding = ZIP_ENCODING_UNKNOWN, zs_converted = None, zs_converted_length = 0\<rparr>,
     de_uncomp_size := 0x123456789, de_comp_size := 77, de_crc := 5\<rparr>"

lemma sample_dirent_ok: "header_ok sample_dirent"
  by (simp add: sample_dirent_def header_ok_def zip_dirent_init_def str_ok_def str_bytes_def enc_ok_def known_def
      ascii_def efs_bytes_def sizes_ok_def flag_set_def needs64_def zip_guess_encoding_def guess_loop.simps)

theorem zip_dirent_write_read_witness:
  "\<exists>za1 de1 b zde b1 src.
      zip_dirent_write sample_libs buffer_callbacks [] sample_archive sample_dirent ZIP_FL_CENTRAL = Some (1, za1, de1, [])
      \<and> zip_dirent_read sample_libs buffer_callbacks [] src (Some b) False None
          = (Some (length (mem_written (za_src za1)), zde), Some b1, src, None, [])
      \<and> de_uncomp_size zde = 0x123456789 \<and> str_bytes (de_filename zde) = [97, 46, 99]"
proof -
  have "mem_writer (za_src sample_archive)" "mem_written (za_src sample_archive) = []"
    using sample_writer_ok by (simp_all add: sample_archive_def)
  moreover have "zip_dirent_needs_zip64 sample_dirent ZIP_FL_CENTRAL"
    by (simp add: zip_dirent_needs_zip64_def sample_dirent_def)
  ultimately obtain za1 de1 bs where w: "length bs < 2 ^ 18"
    "zip_dirent_write sample_libs buffer_callbacks [] sample_archive sample_dirent ZIP_FL_CENTRAL = Some (1, za1, de1, [])"
    "mem_written (za_src za1) = bs"
    and r: "\<forall>(C :: read_ctx callbacks) b rest src error. reads b (bs @ rest) \<longrightarrow>
           (\<exists>zde b1. zip_dirent_read sample_libs C [] src (Some b) False error
              = (Some (length bs, zde), Some b1, src, error, []) \<and> reads b1 rest \<and> same_header sample_libs sample_dirent zde)"
    using zip_dirent_write_read [OF sample_dirent_ok, of sample_archive sample_libs] by auto
  obtain b where "reads b (bs @ [])" using zip_buffer_new_reads [of bs] w(1) by auto
  with r obtain zde b1 where "zip_dirent_read sample_libs buffer_callbacks [] sample_writer (Some b) False None
      = (Some (length bs, zde), Some b1, sample_writer, None, [])" "same_header sample_libs sample_dirent zde" by blast
  then show ?thesis using w(2,3) by (fastforce simp: same_header_def sample_dirent_def str_bytes_def)
qed

text \<open>
  C26. DOS times: the two words \<open>_zip_u2d_time\<close> makes of a local time between 1980 and 2107 give
  \<open>_zip_d2u_time\<close> the same broken-down time back, seconds rounded down to an even number and the
  daylight flag left to mktime.
\<close>

theorem zip_u2d_d2u_time:
  assumes "lb_localtime L t = Some tm" and "80 \<le> tm_year tm" "tm_year tm \<le> 207"
    and "0 \<le> tm_mon tm" "tm_mon tm \<le> 11" and "1 \<le> tm_mday tm" "tm_mday tm \<le> 31"
    and "0 \<le> tm_hour tm" "tm_hour tm \<le> 23" and "0 \<le> tm_min tm" "tm_min tm \<le> 59"
    and "0 \<le> tm_sec tm" "tm_sec tm \<le> 60"
  shows "zip_d2u_time L (fst (zip_u2d_time L t)) (snd (zip_u2d_time L t))
    = lb_mktime L (tm\<lparr>tm_sec := 2 * (tm_sec tm div 2), tm_isdst := -1\<rparr>)"
proof -
  define h m s where hms: "h = tm_hour tm" "m = tm_min tm" "s = tm_sec tm div 2"
  define y mo d where ymd: "y = tm_year tm - 80" "mo = tm_mon tm + 1" "d = tm_mday tm"
  have r: "0 \<le> h" "h < 32" "0 \<le> m" "m < 64" "0 \<le> s" "s < 32" "0 \<le> y" "y < 128" "0 \<le> mo" "mo < 16" "0 \<le> d" "d < 32"
    using assms unfolding hms ymd by simp_all
  have u: "zip_u2d_time L t = (word_of_int (h * 2048 + m * 32 + s), word_of_int (y * 512 + mo * 32 + d))"
    using assms(1,2) unfolding hms ymd by (simp add: zip_u2d_time_def Let_def push_bit_eq_mult drop_bit_eq_div)
  have t: "uint (word_of_int (h * 2048 + m * 32 + s) :: u16) = h * 2048 + m * 32 + s"
    "uint (word_of_int (y * 512 + mo * 32 + d) :: u16) = y * 512 + mo * 32 + d"
    unfolding uint_word_of_int using r by simp_all
  show ?thesis
    using packed_fields [OF r(5,6,3,4,1,2)] packed_date [OF r(11,12,9,10,7,8)]
    unfolding u fst_conv snd_conv zip_d2u_time_def t by (cases tm) (simp add: hms ymd)
qed

definition sample_tm :: tm where
  "sample_tm = \<lparr>tm_sec = 59, tm_min = 59, tm_hour = 23, tm_mday = 31, tm_mon = 11, tm_year = 99, tm_isdst = 0\<rparr>"

theorem zip_u2d_d2u_time_witness:
  "\<exists>L. lb_localtime L 5 = Some sample_tm \<and> zip_d2u_time L (fst (zip_u2d_time L 5)) (snd (zip_u2d_time L 5)) = 58"
proof -
  let ?L = "\<lparr>lb_crc32 = (\<lambda>_ _. 0), lb_mktime = tm_sec, lb_localtime = (\<lambda>_. Some sample_tm)\<rparr>"
  have "zip_d2u_time ?L (fst (zip_u2d_time ?L 5)) (snd (zip_u2d_time ?L 5))
      = lb_mktime ?L (sample_tm\<lparr>tm_sec := 2 * (tm_sec sample_tm div 2), tm_isdst := -1\<rparr>)"
    by (rule zip_u2d_d2u_time) (simp_all add: sample_tm_def)
  then show ?thesis by (intro exI [of _ ?L]) (simp add: sample_tm_def)
qed

text \<open>
  C31. The two writers of the Zip64 field disagree at exactly 0xFFFFFFFF: for an entry of that size
  (comp_size and offset below it) \<open>_zip_dirent_needs_zip64\<close> asks for the field and the header's
  own field holds the mark 0xFFFFFFFF, but the test with \<open>>\<close> in \<open>_zip_dirent_write\<close> leaves the
  field without data, and \<open>_zip_dirent_read\<close> rejects the header as having an invalid Zip64 field.
\<close>

theorem zip64_field_empty_at_limit:
  fixes de zde :: zip_dirent
  assumes "de_uncomp_size de = 0xffffffff" and "de_comp_size de < 0xffffffff" and "de_offset de < 0xffffffff"
  shows "zip_dirent_needs_zip64 de ZIP_FL_CENTRAL \<and> cut32 (de_uncomp_size de) = 0xffffffff
    \<and> (\<exists>ef. dirent_zip64_ef [] de ZIP_FL_CENTRAL efs = Some (Inr (ef # efs), [])
         \<and> ef_id ef = ZIP_EF_ZIP64 \<and> ef_size ef = 0
         \<and> dirent_read_zip64 [] False (zde\<lparr>de_uncomp_size := 0xffffffff, de_extra_fields := ef # own\<rparr>) error
             = (None, zip_error_set error ZIP_ER_INCONS ZIP_ER_DETAIL_INVALID_ZIP64_EF, []))"
proof -
  let ?ef = "\<lparr>ef_flags = ZIP_EF_BOTH, ef_id = ZIP_EF_ZIP64, ef_size = 0, ef_data = []\<rparr>"
  let ?z = "zde\<lparr>de_uncomp_size := 0xffffffff, de_extra_fields := ?ef # own\<rparr>"
  obtain b where b: "zip_buffer_new [] (Some (replicate 28 0)) (word_of_nat 28) = (Some b, [])" "wrote b [] 28"
    using zip_buffer_new_wrote [of "replicate 28 0"] by auto
  have "zip64_fill de ZIP_FL_CENTRAL b = b" using assms by (simp add: zip64_fill_def Let_def flag_set_def)
  then have w: "dirent_zip64_ef [] de ZIP_FL_CENTRAL efs = Some (Inr (?ef # efs), [])"
    using b(1) wroteD(2) [OF b(2)] zip_buffer_tell_wrote [OF b(2)] by (simp add: dirent_zip64_ef_def Let_def zip_ef_new_def)
  let ?c = "\<lparr>buf_ok = True, buf_free_data = False, buf_data = [], buf_size = 0, buf_offset = 0\<rparr>"
  have c: "zip_buffer_new [] (Some []) 0 = (Some ?c, [])" by (simp add: zip_buffer_new_def)
  have g: "zip_ef_get_by_id (?ef # own) ZIP_EF_ZIP64 0 ZIP_FL_CENTRAL error = (Some ([0], 0), error)"
    by (simp add: zip_ef_get_by_id_def ef_in_def flag_set_def)
  have "\<not> buf_ok (snd (zip64_values False ?z ?c))"
    by (simp add: zip64_values_def zip_buffer_get_64_def zip_buffer_get_32_def zip_buffer_get_def zip_buffer_peek_def)
  moreover obtain z1 c1 where "zip64_values False ?z ?c = (z1, c1)" by (cases "zip64_values False ?z ?c")
  ultimately have "dirent_read_zip64 [] False ?z error = (None, zip_error_set error ZIP_ER_INCONS ZIP_ER_DETAIL_INVALID_ZIP64_EF, [])"
    using g c by (simp add: dirent_read_zip64_def zip64_extra_match_def zip_buffer_eof_def)
  then show ?thesis using w assms by (intro conjI exI [of _ ?ef]) (simp_all add: zip_dirent_needs_zip64_def cut32_def)
qed

theorem zip64_field_empty_at_limit_witness:
  "\<exists>ef. dirent_zip64_ef [] (zip_dirent_init\<lparr>de_uncomp_size := 0xffffffff\<rparr>) ZIP_FL_CENTRAL [] = Some (Inr [ef], []) \<and> ef_size ef = 0"
proof -
  let ?d = "zip_dirent_init\<lparr>de_uncomp_size := 0xffffffff\<rparr>"
  have "de_uncomp_size ?d = 0xffffffff" "de_comp_size ?d < 0xffffffff" "de_offset ?d < 0xffffffff"
    by (simp_all add: zip_dirent_init_def)
  from zip64_field_empty_at_limit [OF this] show ?thesis by blast
qed

end
