(* ===== verification/Zip_Names.thy ===== *)
theory Zip_Names
  imports Zip_Dirent
begin

text \<open>
  The names of an archive's entries: finding, adding, renaming, replacing, deleting and restoring
  them (lib/zip_get_name.c, zip_name_locate.c, zip_add_entry.c, zip_set_name.c, zip_file_rename.c,
  zip_delete.c, zip_unchange.c, zip_unchange_data.c, zip_unchange_all.c, zip_unchange_archive.c,
  zip_file_replace.c, zip_file_add.c and the deprecated zip_add.c, zip_rename.c, zip_replace.c).
  A C string is a list of bytes read up to its first NUL; NULL is \<open>None\<close>. A function that takes a
  \<open>zip_error_t *\<close> is given \<open>&za->error\<close> or NULL by its callers: the flag \<open>own\<close> says which.
  strcmp, strcasecmp and strrchr are those of the C locale. The theorems relate the entries and
  the hash table of names to an abstract directory: a finite map from positions to names.
\<close>

section \<open>Operations\<close>

definition za_err :: "bool \<Rightarrow> 'u zip_t \<Rightarrow> zip_error option" where
  "za_err own za = (if own then Some (za_error za) else None)"

definition za_put :: "zip_error option \<Rightarrow> 'u zip_t \<Rightarrow> 'u zip_t" where
  "za_put e za = (case e of None \<Rightarrow> za | Some er \<Rightarrow> za\<lparr>za_error := er\<rparr>)"

text \<open>The entry \<open>_zip_get_dirent\<close> answers, changed in place: reading a string caches its encoding.\<close>

definition upd_dirent :: "nat \<Rightarrow> u32 \<Rightarrow> (zip_dirent \<Rightarrow> zip_dirent) \<Rightarrow> 'u zip_t \<Rightarrow> 'u zip_t" where
  "upd_dirent idx flags f za =
     upd_entry idx (\<lambda>e. if flag_set flags ZIP_FL_UNCHANGED \<or> ze_changes e = None
                        then e\<lparr>ze_orig := map_option f (ze_orig e)\<rparr>
                        else e\<lparr>ze_changes := map_option f (ze_changes e)\<rparr>) za"

definition zip_get_name :: "mem \<Rightarrow> 'u zip_t \<Rightarrow> nat \<Rightarrow> u32 \<Rightarrow> bool \<Rightarrow> bytes option \<times> 'u zip_t \<times> mem" where
  "zip_get_name m za idx flags own =
     (case zip_get_dirent za idx flags of
        Inl e \<Rightarrow> (None, za_set_error e 0 za, m)
      | Inr de \<Rightarrow>
          (case zip_string_get m (de_filename de) flags (za_err own za) of
             (r, str, e, m1) \<Rightarrow>
               (map_option fst r, za_put e (upd_dirent idx flags (\<lambda>d. d\<lparr>de_filename := str\<rparr>) za), m1)))"

definition tolower :: "u8 \<Rightarrow> u8" where
  "tolower c = (if 65 \<le> c \<and> c \<le> 90 then c + 32 else c)"

text \<open>\<open>cmp(a, b) == 0\<close> for the comparison the flags choose.\<close>

definition same_name :: "u32 \<Rightarrow> bytes \<Rightarrow> bytes \<Rightarrow> bool" where
  "same_name flags a b \<longleftrightarrow>
     (if flag_set flags ZIP_FL_NOCASE then map tolower (cstr a) = map tolower (cstr b) else cstr a = cstr b)"

text \<open>The name after its last slash.\<close>

definition base_name :: "bytes \<Rightarrow> bytes" where
  "base_name fn = rev (takeWhile (\<lambda>c. c \<noteq> 47) (rev (cstr fn)))"

text \<open>The entries in order, from the positions of the list.\<close>

fun locate_loop :: "mem \<Rightarrow> 'u zip_t \<Rightarrow> bytes \<Rightarrow> u32 \<Rightarrow> bool \<Rightarrow> nat list \<Rightarrow> int \<times> 'u zip_t \<times> mem" where
  "locate_loop m za fname flags own [] = (-1, za_put (zip_error_set (za_err own za) ZIP_ER_NOENT 0) za, m)"
| "locate_loop m za fname flags own (i # is) =
     (case zip_get_name m za i flags own of
        (None, za1, m1) \<Rightarrow> locate_loop m1 za1 fname flags own is
      | (Some fn, za1, m1) \<Rightarrow>
          if same_name flags fname (if flag_set flags ZIP_FL_NODIR then base_name fn else fn)
          then (int i, za_put (zip_error_clear (za_err own za1)) za1, m1)
          else locate_loop m1 za1 fname flags own is)"

definition zip_name_locate :: "mem \<Rightarrow> 'u zip_t \<Rightarrow> bytes option \<Rightarrow> u32 \<Rightarrow> bool \<Rightarrow> int \<times> 'u zip_t \<times> mem" where
  "zip_name_locate m za fname0 flags own =
     (case fname0 of
        None \<Rightarrow> (-1, za_put (zip_error_set (za_err own za) ZIP_ER_INVAL 0) za, m)
      | Some fname \<Rightarrow>
          (case (if \<not> flag_set flags (ZIP_FL_ENC_UTF_8 OR ZIP_FL_ENC_RAW) \<and> cstr fname \<noteq> []
                 then (case zip_string_new m fname (length (cstr fname) mod 2 ^ 16) flags (za_err own za) of
                         (None, e, m1) \<Rightarrow> (None, e, m1)
                       | (Some str, e, m1) \<Rightarrow>
                           (case zip_string_get m1 (Some str) 0 e of (r, _, e2, m2) \<Rightarrow> (map_option fst r, e2, m2)))
                 else (Some fname, za_err own za, m)) of
             (None, e, m1) \<Rightarrow> (-1, za_put e za, m1)
           | (Some fn, e, m1) \<Rightarrow>
               (let za1 = za_put e za
                in if flag_set flags (ZIP_FL_NOCASE OR ZIP_FL_NODIR OR ZIP_FL_ENC_RAW OR ZIP_FL_ENC_STRICT)
                   then locate_loop m1 za1 fn flags own [0..<length (za_entry za1)]
                   else (case zip_hash_lookup (za_names za1) (Some fn) flags (za_err own za1) of
                           (i, e2) \<Rightarrow> (i, za_put e2 za1, m1)))))"

definition zip_add_entry :: "mem \<Rightarrow> 'u zip_t \<Rightarrow> int \<times> 'u zip_t \<times> mem" where
  "zip_add_entry m za =
     (let nentry = length (za_entry za);
          alloc = za_nentry_alloc za;
          used = (\<lambda>za m. (int nentry, za\<lparr>za_entry := za_entry za @ [zip_entry_init]\<rparr>, m))
      in if nentry + 1 \<ge> alloc then
           (let twice = 2 * alloc mod 2 ^ 64;
                additional_entries = (if twice < 16 then 16 else if twice > 1024 then 1024 else twice);
                nalloc = (alloc + additional_entries) mod 2 ^ 64
            in if sizeof_entry * alloc mod 2 ^ 64 > sizeof_entry * nalloc mod 2 ^ 64
               then (-1, za_set_error ZIP_ER_MEMORY 0 za, m)
               else (case malloc m of
                       (None, m1) \<Rightarrow> (-1, za_set_error ZIP_ER_MEMORY 0 za, m1)
                     | (Some _, m1) \<Rightarrow> used (za\<lparr>za_nentry_alloc := nalloc\<rparr>) m1))
         else used za m)"

text \<open>
  A string made from the caller's text: its encoding is found out at once when the caller leaves it
  to be guessed. The inner \<open>None\<close> is the NULL string.
\<close>

definition string_known :: "u32 \<Rightarrow> zip_string option \<Rightarrow> zip_string option" where
  "string_known flags str =
     (if flags AND ZIP_FL_ENCODING_ALL = ZIP_FL_ENC_GUESS
      then (case zip_guess_encoding str ZIP_ENCODING_UNKNOWN of
              (enc, str1) \<Rightarrow> if enc = ZIP_ENCODING_UTF8_GUESSED
                            then map_option (\<lambda>s. s\<lparr>zs_encoding := ZIP_ENCODING_UTF8_KNOWN\<rparr>) str1 else str1)
      else str)"

definition set_name_string ::
  "mem \<Rightarrow> bytes option \<Rightarrow> u32 \<Rightarrow> zip_error option \<Rightarrow> zip_string option option \<times> zip_error option \<times> mem" where
  "set_name_string m name flags error =
     (case name of
        None \<Rightarrow> (Some None, error, m)
      | Some n \<Rightarrow>
          if cstr n = [] then (Some None, error, m)
          else (case zip_string_new m n (length (cstr n) mod 2 ^ 16) flags error of
                  (None, e, m1) \<Rightarrow> (None, e, m1)
                | (Some s, e, m1) \<Rightarrow> (Some (string_known flags (Some s)), e, m1)))"

text \<open>The entry after its name is \<open>str\<close>; \<open>same\<close> says that it is the original name again.\<close>

definition set_name_commit :: "bool \<Rightarrow> zip_string option \<Rightarrow> 'u zip_entry \<Rightarrow> 'u zip_entry" where
  "set_name_commit same str e =
     (if same then
        (case ze_changes e of
           None \<Rightarrow> e
         | Some c \<Rightarrow>
             if flag_set (de_changed c) ZIP_DIRENT_FILENAME
             then (let c1 = c\<lparr>de_changed := de_changed c AND NOT ZIP_DIRENT_FILENAME\<rparr>
                   in if de_changed c1 = 0 then e\<lparr>ze_changes := None\<rparr>
                      else e\<lparr>ze_changes := Some (c1\<lparr>de_filename := (case ze_orig e of None \<Rightarrow> None | Some d \<Rightarrow> de_filename d)\<rparr>)\<rparr>)
             else e)
      else e\<lparr>ze_changes := map_option (\<lambda>c. c\<lparr>de_changed := de_changed c OR ZIP_DIRENT_FILENAME, de_filename := str\<rparr>)
                                      (ze_changes e)\<rparr>)"

text \<open>The name in force, or NULL: what the table of names must forget. Its string is cached in place.\<close>

definition set_name_old :: "mem \<Rightarrow> 'u zip_t \<Rightarrow> nat \<Rightarrow> bytes option option \<times> 'u zip_t \<times> mem" where
  "set_name_old m za idx =
     (let e = za_entry za ! idx
      in case (case ze_changes e of Some c \<Rightarrow> de_filename c
               | None \<Rightarrow> (case ze_orig e of Some d \<Rightarrow> de_filename d | None \<Rightarrow> None)) of
           None \<Rightarrow> (Some None, za, m)
         | Some old_str \<Rightarrow>
             (case zip_string_get m (Some old_str) 0 (Some (za_error za)) of
                (r, str, err, m1) \<Rightarrow>
                  (map_option (Some \<circ> fst) r, za_put err (upd_dirent idx 0 (\<lambda>d. d\<lparr>de_filename := str\<rparr>) za), m1)))"

text \<open>From the two names on: the table of names takes the new one and drops the old one.\<close>

definition set_name_apply :: "mem \<Rightarrow> 'u zip_t \<Rightarrow> nat \<Rightarrow> zip_string option \<Rightarrow> bool \<Rightarrow> int \<times> 'u zip_t \<times> mem" where
  "set_name_apply m za idx str same =
     (case zip_string_get m (if same then (case ze_orig (za_entry za ! idx) of Some d \<Rightarrow> de_filename d | None \<Rightarrow> None) else str)
             0 (Some (za_error za)) of
        (None, _, err, m1) \<Rightarrow> (-1, za_put err za, m1)
      | (Some (new_name, _), str1, err, m1) \<Rightarrow>
          (case set_name_old m1 (za_put err (if same then upd_dirent idx ZIP_FL_UNCHANGED (\<lambda>d. d\<lparr>de_filename := str1\<rparr>) za
                                             else za)) idx of
             (None, za1, m2) \<Rightarrow> (-1, za1, m2)
           | (Some old_name, za1, m2) \<Rightarrow>
               (case zip_hash_add m2 (za_names za1) (Some new_name) idx 0 (Some (za_error za1)) of
                  (False, h, err2, m3) \<Rightarrow> (-1, za_put err2 (za1\<lparr>za_names := h\<rparr>), m3)
                | (True, h, err2, m3) \<Rightarrow>
                    (case (case old_name of
                             None \<Rightarrow> (h, m3)
                           | Some old \<Rightarrow> (case zip_hash_delete m3 h (Some old) None of (_, h1, _, m4) \<Rightarrow> (h1, m4))) of
                       (h1, m4) \<Rightarrow>
                         (0, upd_entry idx (set_name_commit same str1) (za_put err2 (za1\<lparr>za_names := h1\<rparr>)), m4)))))"

definition zip_set_name :: "mem \<Rightarrow> 'u zip_t \<Rightarrow> nat \<Rightarrow> bytes option \<Rightarrow> u32 \<Rightarrow> int \<times> 'u zip_t \<times> mem" where
  "zip_set_name m za idx name flags =
     (if idx \<ge> length (za_entry za) then (-1, za_set_error ZIP_ER_INVAL 0 za, m)
      else if ZIP_IS_RDONLY za then (-1, za_set_error ZIP_ER_RDONLY 0 za, m)
      else
        (case set_name_string m name flags (Some (za_error za)) of
           (None, e, m1) \<Rightarrow> (-1, za_put e za, m1)
         | (Some str, e, m1) \<Rightarrow>
             (case zip_name_locate m1 (za_put e za) name 0 False of
                (i, za1, m2) \<Rightarrow>
                  if i \<ge> 0 \<and> nat i \<noteq> idx then (-1, za_set_error ZIP_ER_EXISTS 0 za1, m2)
                  else if i \<ge> 0 then (0, za1, m2)
                  else
                    (let e = za_entry za1 ! idx;
                         same = (case ze_orig e of Some d \<Rightarrow> zip_string_equal (de_filename d) str | None \<Rightarrow> False)
                     in if \<not> same \<and> ze_changes e = None
                        then (case zip_dirent_clone m2 (ze_orig e) of
                                (None, m3) \<Rightarrow> (-1, za_set_error ZIP_ER_MEMORY 0 za1, m3)
                              | (Some c, m3) \<Rightarrow>
                                  set_name_apply m3 (upd_entry idx (\<lambda>e. e\<lparr>ze_changes := Some c\<rparr>) za1) idx str same)
                        else set_name_apply m2 za1 idx str same))))"

text \<open>\<open>_zip_unchange_data\<close>: freeing the source has no counterpart.\<close>

definition zip_unchange_data :: "'u zip_entry \<Rightarrow> 'u zip_entry" where
  "zip_unchange_data ze =
     (let ze1 = ze\<lparr>ze_source := None\<rparr>;
          ze2 = (case ze_changes ze1 of
                   Some c \<Rightarrow>
                     if flag_set (de_changed c) ZIP_DIRENT_COMP_METHOD \<and> de_comp_method c = ZIP_CM_REPLACED_DEFAULT
                     then (let c1 = c\<lparr>de_changed := de_changed c AND NOT ZIP_DIRENT_COMP_METHOD\<rparr>
                           in ze1\<lparr>ze_changes := (if de_changed c1 = 0 then None else Some c1)\<rparr>)
                     else ze1
                 | None \<Rightarrow> ze1)
      in ze2\<lparr>ze_deleted := False\<rparr>)"

text \<open>The names to put back and to forget; \<open>Inl\<close> is a failure.\<close>

definition unchange_names ::
  "mem \<Rightarrow> 'u zip_t \<Rightarrow> nat \<Rightarrow> bool \<Rightarrow> (bytes option \<times> bytes option) option \<times> 'u zip_t \<times> mem" where
  "unchange_names m za idx renamed =
     (case (if ze_orig (za_entry za ! idx) = None then (Some None, za, m)
            else (case zip_get_name m za idx ZIP_FL_UNCHANGED True of
                    (None, za1, m1) \<Rightarrow> (None, za1, m1)
                  | (Some orig_name, za1, m1) \<Rightarrow>
                      (case zip_name_locate m1 za1 (Some orig_name) 0 False of
                         (i, za2, m2) \<Rightarrow>
                           if i \<ge> 0 \<and> nat i \<noteq> idx then (None, za_set_error ZIP_ER_EXISTS 0 za2, m2)
                           else (Some (Some orig_name), za2, m2)))) of
        (None, za1, m1) \<Rightarrow> (None, za1, m1)
      | (Some orig_name, za1, m1) \<Rightarrow>
          if renamed then
            (case zip_get_name m1 za1 idx 0 True of
               (None, za2, m2) \<Rightarrow> (None, za2, m2)
             | (Some changed_name, za2, m2) \<Rightarrow> (Some (orig_name, Some changed_name), za2, m2))
          else (Some (orig_name, None), za1, m1))"

definition unchange_index :: "mem \<Rightarrow> 'u zip_t \<Rightarrow> nat \<Rightarrow> bytes option \<Rightarrow> bytes option \<Rightarrow> bool \<times> 'u zip_t \<times> mem" where
  "unchange_index m za idx orig_name changed_name =
     (case (case orig_name of
              None \<Rightarrow> (True, za, m)
            | Some n \<Rightarrow> (case zip_hash_add m (za_names za) (Some n) idx 0 (Some (za_error za)) of
                          (ok, h, e, m1) \<Rightarrow> (ok, za_put e (za\<lparr>za_names := h\<rparr>), m1))) of
        (False, za1, m1) \<Rightarrow> (False, za1, m1)
      | (True, za1, m1) \<Rightarrow>
          (case changed_name of
             None \<Rightarrow> (True, za1, m1)
           | Some n \<Rightarrow>
               (case zip_hash_delete m1 (za_names za1) (Some n) (Some (za_error za1)) of
                  (True, h, e, m2) \<Rightarrow> (True, za_put e (za1\<lparr>za_names := h\<rparr>), m2)
                | (False, h, e, m2) \<Rightarrow>
                    (case zip_hash_delete m2 h orig_name None of
                       (_, h1, _, m3) \<Rightarrow> (False, za_put e (za1\<lparr>za_names := h1\<rparr>), m3)))))"

definition zip_unchange :: "mem \<Rightarrow> 'u zip_t \<Rightarrow> nat \<Rightarrow> bool \<Rightarrow> int \<times> 'u zip_t \<times> mem" where
  "zip_unchange m za idx allow_duplicates =
     (if idx \<ge> length (za_entry za) then (-1, za_set_error ZIP_ER_INVAL 0 za, m)
      else
        (let renamed = ZIP_ENTRY_CHANGED (za_entry za ! idx) ZIP_DIRENT_FILENAME
         in case (if \<not> allow_duplicates \<and> (renamed \<or> ze_deleted (za_entry za ! idx))
                  then (case unchange_names m za idx renamed of
                          (None, za1, m1) \<Rightarrow> (False, za1, m1)
                        | (Some (orig_name, changed_name), za1, m1) \<Rightarrow> unchange_index m1 za1 idx orig_name changed_name)
                  else (True, za, m)) of
              (False, za1, m1) \<Rightarrow> (-1, za1, m1)
            | (True, za1, m1) \<Rightarrow> (0, upd_entry idx (\<lambda>e. zip_unchange_data (e\<lparr>ze_changes := None\<rparr>)) za1, m1)))"

definition zip_delete :: "mem \<Rightarrow> 'u zip_t \<Rightarrow> nat \<Rightarrow> int \<times> 'u zip_t \<times> mem" where
  "zip_delete m za idx =
     (if idx \<ge> length (za_entry za) then (-1, za_set_error ZIP_ER_INVAL 0 za, m)
      else if ZIP_IS_RDONLY za then (-1, za_set_error ZIP_ER_RDONLY 0 za, m)
      else (case zip_get_name m za idx 0 True of
              (None, za1, m1) \<Rightarrow> (-1, za1, m1)
            | (Some name, za1, m1) \<Rightarrow>
                (case zip_hash_delete m1 (za_names za1) (Some name) (Some (za_error za1)) of
                   (False, h, e, m2) \<Rightarrow> (-1, za_put e (za1\<lparr>za_names := h\<rparr>), m2)
                 | (True, h, e, m2) \<Rightarrow>
                     (case zip_unchange m2 (za_put e (za1\<lparr>za_names := h\<rparr>)) idx True of
                        (r, za3, m3) \<Rightarrow>
                          if r \<noteq> 0 then (-1, za3, m3)
                          else (0, upd_entry idx (\<lambda>e. e\<lparr>ze_deleted := True\<rparr>) za3, m3)))))"

definition zip_unchange_archive :: "'u zip_t \<Rightarrow> int \<times> 'u zip_t" where
  "zip_unchange_archive za =
     (let za1 = (if za_comment_changed za then za\<lparr>za_comment_changes := None, za_comment_changed := False\<rparr> else za)
      in (0, za1\<lparr>za_ch_flags := za_flags za1\<rparr>))"

fun unchange_loop :: "mem \<Rightarrow> 'u zip_t \<Rightarrow> int \<Rightarrow> nat list \<Rightarrow> int \<times> 'u zip_t \<times> mem" where
  "unchange_loop m za ret [] = (ret, za, m)"
| "unchange_loop m za ret (i # is) =
     (case zip_unchange m za i True of (r, za1, m1) \<Rightarrow> unchange_loop m1 za1 (ret OR r) is)"

definition zip_unchange_all :: "mem \<Rightarrow> 'u zip_t \<Rightarrow> int \<times> 'u zip_t \<times> mem" where
  "zip_unchange_all m za =
     (case zip_hash_revert m (za_names za) (Some (za_error za)) of
        (False, h, e, m1) \<Rightarrow> (-1, za_put e (za\<lparr>za_names := h\<rparr>), m1)
      | (True, h, e, m1) \<Rightarrow>
          (case unchange_loop m1 (za_put e (za\<lparr>za_names := h\<rparr>)) 0 [0..<length (za_entry za)] of
             (ret, za1, m2) \<Rightarrow> (case zip_unchange_archive za1 of (r, za2) \<Rightarrow> (ret OR r, za2, m2))))"

text \<open>\<open>None\<close> is the read at index -1 of an empty string, the one tested for a final slash.\<close>

definition last_is_slash :: "bytes \<Rightarrow> bool option" where
  "last_is_slash name = (if cstr name = [] then None else Some (last (cstr name) = 47))"

definition zip_file_rename ::
  "mem \<Rightarrow> 'u zip_t \<Rightarrow> nat \<Rightarrow> bytes option \<Rightarrow> u32 \<Rightarrow> (int \<times> 'u zip_t \<times> mem) option" where
  "zip_file_rename m za idx name flags =
     (if idx \<ge> length (za_entry za) \<or> (case name of None \<Rightarrow> False | Some n \<Rightarrow> length (cstr n) > ZIP_UINT16_MAX)
      then Some (-1, za_set_error ZIP_ER_INVAL 0 za, m)
      else if ZIP_IS_RDONLY za then Some (-1, za_set_error ZIP_ER_RDONLY 0 za, m)
      else (case zip_get_name m za idx 0 True of
              (None, za1, m1) \<Rightarrow> Some (-1, za1, m1)
            | (Some old_name, za1, m1) \<Rightarrow>
                (case (case name of None \<Rightarrow> Some False | Some n \<Rightarrow> last_is_slash n) of
                   None \<Rightarrow> None
                 | Some new_is_dir \<Rightarrow>
                     (case last_is_slash old_name of
                        None \<Rightarrow> None
                      | Some old_is_dir \<Rightarrow>
                          if new_is_dir \<noteq> old_is_dir then Some (-1, za_set_error ZIP_ER_INVAL 0 za1, m1)
                          else Some (zip_set_name m1 za1 idx name flags)))))"

definition zip_rename :: "mem \<Rightarrow> 'u zip_t \<Rightarrow> nat \<Rightarrow> bytes option \<Rightarrow> (int \<times> 'u zip_t \<times> mem) option" where
  "zip_rename m za idx name = zip_file_rename m za idx name 0"

text \<open>
  The worker of the next functions: the position to use (-1 on failure), with the archive extended
  for \<open>ZIP_UINT64_MAX\<close>; then the name and the source are set.
\<close>

definition replace_position ::
  "mem \<Rightarrow> 'u zip_t \<Rightarrow> nat \<Rightarrow> bytes option \<Rightarrow> u32 \<Rightarrow> int \<times> 'u zip_t \<times> mem" where
  "replace_position m za idx name flags =
     (if idx = ZIP_UINT64_MAX then
        (case (if flag_set flags ZIP_FL_OVERWRITE then zip_name_locate m za name flags False else (-1, za, m)) of
           (i, za1, m1) \<Rightarrow> if i = -1 then zip_add_entry m1 za1 else (i, za1, m1))
      else (int idx, za, m))"

definition replace_source :: "mem \<Rightarrow> 'u zip_t \<Rightarrow> nat \<Rightarrow> 'u zip_source option \<Rightarrow> int \<times> 'u zip_t \<times> mem" where
  "replace_source m za0 idx source =
     (let za = upd_entry idx zip_unchange_data za0;
          e = za_entry za ! idx
      in case (if ze_orig e \<noteq> None \<and> \<not> ZIP_ENTRY_CHANGED e ZIP_DIRENT_COMP_METHOD
               then (case (case ze_changes e of Some c \<Rightarrow> (Some c, m) | None \<Rightarrow> zip_dirent_clone m (ze_orig e)) of
                       (None, m1) \<Rightarrow> (None, m1)
                     | (Some c, m1) \<Rightarrow>
                         (Some (upd_entry idx (\<lambda>e. e\<lparr>ze_changes := Some (c\<lparr>de_comp_method := ZIP_CM_REPLACED_DEFAULT,
                                  de_changed := de_changed c OR ZIP_DIRENT_COMP_METHOD\<rparr>)\<rparr>) za), m1))
               else (Some za, m)) of
           (None, m1) \<Rightarrow> (-1, za_set_error ZIP_ER_MEMORY 0 za, m1)
         | (Some za1, m1) \<Rightarrow> (int idx, upd_entry idx (\<lambda>e. e\<lparr>ze_source := source\<rparr>) za1, m1))"

definition file_replace ::
  "mem \<Rightarrow> 'u zip_t \<Rightarrow> nat \<Rightarrow> bytes option \<Rightarrow> 'u zip_source option \<Rightarrow> u32 \<Rightarrow> int \<times> 'u zip_t \<times> mem" where
  "file_replace m za idx0 name source flags =
     (if ZIP_IS_RDONLY za then (-1, za_set_error ZIP_ER_RDONLY 0 za, m)
      else (case replace_position m za idx0 name flags of
              (i, za1, m1) \<Rightarrow>
                if i < 0 then (-1, za1, m1)
                else
                  (let idx = nat i
                   in case (if name = None then (0, za1, m1) else zip_set_name m1 za1 idx name flags) of
                        (r, za2, m2) \<Rightarrow>
                          if r \<noteq> 0 then
                            (-1, if length (za_entry za2) \<noteq> length (za_entry za)
                                 then za2\<lparr>za_entry := take (length (za_entry za)) (za_entry za2)\<rparr> else za2, m2)
                          else replace_source m2 za2 idx source)))"

definition zip_file_replace :: "mem \<Rightarrow> 'u zip_t \<Rightarrow> nat \<Rightarrow> 'u zip_source option \<Rightarrow> u32 \<Rightarrow> int \<times> 'u zip_t \<times> mem" where
  "zip_file_replace m za idx source flags =
     (if idx \<ge> length (za_entry za) \<or> source = None then (-1, za_set_error ZIP_ER_INVAL 0 za, m)
      else (case file_replace m za idx None source flags of
              (r, za1, m1) \<Rightarrow> (if r = -1 then -1 else 0, za1, m1)))"

definition zip_replace :: "mem \<Rightarrow> 'u zip_t \<Rightarrow> nat \<Rightarrow> 'u zip_source option \<Rightarrow> int \<times> 'u zip_t \<times> mem" where
  "zip_replace m za idx source = zip_file_replace m za idx source 0"

definition zip_file_add ::
  "mem \<Rightarrow> 'u zip_t \<Rightarrow> bytes option \<Rightarrow> 'u zip_source option \<Rightarrow> u32 \<Rightarrow> int \<times> 'u zip_t \<times> mem" where
  "zip_file_add m za name source flags =
     (if name = None \<or> source = None then (-1, za_set_error ZIP_ER_INVAL 0 za, m)
      else file_replace m za ZIP_UINT64_MAX name source flags)"

definition zip_add :: "mem \<Rightarrow> 'u zip_t \<Rightarrow> bytes option \<Rightarrow> 'u zip_source option \<Rightarrow> int \<times> 'u zip_t \<times> mem" where
  "zip_add m za name source = zip_file_add m za name source 0"

section \<open>The name a string shows\<close>

text \<open>The C string \<open>_zip_string_get\<close> answers for these bytes, without its final NUL.\<close>

definition show_bytes :: "bytes \<Rightarrow> bytes" where
  "show_bytes bs = cstr (if guess_loop ZIP_ENCODING_ASCII bs = ZIP_ENCODING_CP437 then utf8_of_cp437 bs else bs)"

definition str_text :: "zip_string option \<Rightarrow> bytes" where
  "str_text str = (case str of None \<Rightarrow> [] | Some s \<Rightarrow> show_bytes (take (zs_length s) (zs_raw s)))"

text \<open>What \<open>_zip_string_new\<close> makes and reading keeps: what is cached agrees with the bytes.\<close>

definition string_wf :: "zip_string \<Rightarrow> bool" where
  "string_wf s \<longleftrightarrow> 0 < zs_length s \<and> zs_raw s = take (zs_length s) (zs_raw s) @ [0]
     \<and> (zs_encoding s = ZIP_ENCODING_UNKNOWN
        \<or> (zs_encoding s = ZIP_ENCODING_CP437 \<longleftrightarrow> guess_loop ZIP_ENCODING_ASCII (take (zs_length s) (zs_raw s)) = ZIP_ENCODING_CP437))
     \<and> (\<forall>c. zs_converted s = Some c \<longrightarrow> c = utf8_of_cp437 (take (zs_length s) (zs_raw s)) @ [0])"

definition str_wf :: "zip_string option \<Rightarrow> bool" where
  "str_wf str \<longleftrightarrow> (case str of None \<Rightarrow> True | Some s \<Rightarrow> string_wf s)"

text \<open>Two strings that differ only in what was cached.\<close>

definition same_text :: "zip_string option \<Rightarrow> zip_string option \<Rightarrow> bool" where
  "same_text str str1 \<longleftrightarrow>
     (case (str, str1) of (None, None) \<Rightarrow> True
      | (Some s, Some s1) \<Rightarrow> zs_raw s1 = zs_raw s \<and> zs_length s1 = zs_length s \<and> string_wf s1 = string_wf s | _ \<Rightarrow> False)"

lemma same_text_refl [simp]: "same_text str str"
  by (cases str) (simp_all add: same_text_def)

lemma same_text_trans: "same_text a b \<Longrightarrow> same_text b c \<Longrightarrow> same_text a c"
  by (auto simp: same_text_def split: option.splits)

lemma same_textD:
  assumes "same_text a b"
  shows "str_text b = str_text a" and "str_wf b = str_wf a" and "zip_string_equal b c = zip_string_equal a c"
  using assms by (auto simp: same_text_def str_text_def str_wf_def zip_string_equal_def split: option.splits)

lemma cstr_append_NUL [simp]: "cstr (xs @ [0]) = cstr xs" "cstr [0] = []"
  by (induction xs) (simp_all add: cstr_def)

lemma cstr_cstr [simp]: "cstr (cstr xs) = cstr xs" "cstr [] = []"
  by (simp_all add: cstr_def)

lemma cstr_str_text [simp]: "cstr (str_text str) = str_text str"
  by (simp add: str_text_def show_bytes_def split: option.split)

lemma str_text_simps [simp]: "str_text None = []" "str_wf None"
  by (simp_all add: str_text_def str_wf_def)

lemma guess_loop_not_unknown [simp]: "guess_loop ZIP_ENCODING_ASCII bs \<noteq> ZIP_ENCODING_UNKNOWN"
  using guess_loop_values [of ZIP_ENCODING_ASCII bs] by auto

lemma equal_text: "zip_string_equal a b \<Longrightarrow> str_text a = str_text b"
  by (auto simp: zip_string_equal_def str_text_def split: option.splits)

text \<open>While memory lasts, reading a well-formed string cannot fail.\<close>

lemma zip_string_get_text:
  assumes wf: "str_wf str" and fl: "\<not> flag_set flags ZIP_FL_ENC_RAW" "\<not> flag_set flags ZIP_FL_ENC_STRICT"
  shows "\<exists>n l str1. zip_string_get [] str flags error = (Some (n, l), str1, error, []) \<and> cstr n = str_text str \<and> same_text str str1"
proof (cases str)
  case None
  then show ?thesis by (simp add: zip_string_get_def)
next
  case (Some s0)
  let ?bs = "take (zs_length s0) (zs_raw s0)"
  define s where "s = (if zs_encoding s0 = ZIP_ENCODING_UNKNOWN
    then s0\<lparr>zs_encoding := guess_loop ZIP_ENCODING_ASCII ?bs\<rparr> else s0)"
  have w: "string_wf s0" using wf Some by (simp add: str_wf_def)
  then have s: "string_wf s" "zs_raw s = zs_raw s0" "zs_length s = zs_length s0" "0 < zs_length s0" "zs_raw s0 = ?bs @ [0]"
    "zs_encoding s = ZIP_ENCODING_CP437 \<longleftrightarrow> guess_loop ZIP_ENCODING_ASCII ?bs = ZIP_ENCODING_CP437"
    by (auto simp: s_def string_wf_def)
  have st: "same_text (Some s0) (Some s)" using s w by (simp add: same_text_def)
  have e: "(if zs_encoding s0 = ZIP_ENCODING_UNKNOWN
      then the (snd (zip_guess_encoding (Some s0) ZIP_ENCODING_UNKNOWN)) else s0) = s"
    by (simp add: s_def zip_guess_encoding_def Let_def)
  show ?thesis
  proof (cases "zs_encoding s = ZIP_ENCODING_CP437")
    case False
    have "cstr (zs_raw s0) = cstr ?bs" by (subst s(5)) simp
    then show ?thesis using s(2,3,6) st fl False
      unfolding Some zip_string_get_def option.case e Let_def by (simp add: str_text_def show_bytes_def)
  next
    case cp437: True
    let ?u = "utf8_of_cp437 ?bs"
    have t: "str_text (Some s0) = cstr ?u" using s(6) cp437 by (simp add: str_text_def show_bytes_def)
    show ?thesis
    proof (cases "zs_converted s")
      case None
      let ?s1 = "s\<lparr>zs_converted := Some (?u @ [0]), zs_converted_length := length ?u\<rparr>"
      have "cp437_to_utf8 [] (zs_raw s0) (zs_length s0) error = (Some (Some (?u @ [0], length ?u)), error, [])"
        using s(4) by (intro cp437_to_utf8_eq) simp_all
      moreover have "same_text (Some s0) (Some ?s1)" using s(1-3) w by (simp add: same_text_def string_wf_def)
      ultimately show ?thesis using s(2,3) st fl cp437 None t
        unfolding Some zip_string_get_def option.case e Let_def by simp
    next
      case c: (Some c)
      then have "c = ?u @ [0]" using s(1-3) by (simp add: string_wf_def)
      then show ?thesis using s(2,3) st fl cp437 c t
        unfolding Some zip_string_get_def option.case e Let_def by simp
    qed
  qed
qed

text \<open>The string made of a caller's text is well formed and shows the text, whatever encoding the caller names.\<close>

lemma zip_string_new_text:
  assumes "zip_string_new [] raw len flags error = (Some s, e, m)" and "len \<le> length raw"
  shows "string_wf s" and "str_text (Some s) = show_bytes (take len raw)" and "e = error" and "m = []"
proof -
  let ?bs = "take len raw" and ?s = "\<lparr>zs_raw = take len raw @ [0], zs_length = len, zs_encoding = ZIP_ENCODING_UNKNOWN,
      zs_converted = None, zs_converted_length = 0\<rparr>"
  have len: "0 < len" and m: "m = []" "e = error"
    using assms(1) by (auto simp: zip_string_new_def Let_def split: if_splits prod.splits)
  let ?g = "guess_loop ZIP_ENCODING_ASCII ?bs"
  have g: "?g \<in> {ZIP_ENCODING_ASCII, ZIP_ENCODING_UTF8_GUESSED, ZIP_ENCODING_CP437}"
    using guess_loop_values [of ZIP_ENCODING_ASCII ?bs] by simp
  have "\<exists>enc. s = ?s\<lparr>zs_encoding := enc\<rparr> \<and> (enc = ZIP_ENCODING_UNKNOWN \<or> (enc = ZIP_ENCODING_CP437 \<longleftrightarrow> ?g = ZIP_ENCODING_CP437))"
    using assms(1) len g
    by (auto simp: zip_string_new_def zip_guess_encoding_def Let_def min_absorb2 [OF assms(2)] split: if_splits prod.splits)
  then show "string_wf s" "str_text (Some s) = show_bytes (take len raw)"
    using len assms(2) by (auto simp: string_wf_def str_text_def)
  show "e = error" "m = []" by (rule m)+
qed

section \<open>The directory an archive stands for\<close>

definition changed_name :: "'u zip_entry \<Rightarrow> bool" where
  "changed_name e = ZIP_ENTRY_CHANGED e ZIP_DIRENT_FILENAME"

definition orig_name :: "'u zip_entry \<Rightarrow> bytes option" where
  "orig_name e = (case ze_orig e of None \<Rightarrow> None | Some d \<Rightarrow> Some (str_text (de_filename d)))"

text \<open>The name \<open>zip_get_name\<close> answers for an entry.\<close>

definition entry_name :: "'u zip_entry \<Rightarrow> bytes option" where
  "entry_name e = (case ze_changes e of
     Some c \<Rightarrow> Some (str_text (de_filename c)) | None \<Rightarrow> if ze_deleted e then None else orig_name e)"

definition names_by :: "('u zip_entry \<Rightarrow> bytes option) \<Rightarrow> 'u zip_t \<Rightarrow> nat \<Rightarrow> bytes option" where
  "names_by f za i = (if i < length (za_entry za) then f (za_entry za ! i) else None)"

abbreviation directory :: "'u zip_t \<Rightarrow> nat \<Rightarrow> bytes option" where
  "directory \<equiv> names_by entry_name"

abbreviation orig_directory :: "'u zip_t \<Rightarrow> nat \<Rightarrow> bytes option" where
  "orig_directory \<equiv> names_by orig_name"

text \<open>
  What the operations keep of an entry: well-formed names, no changes on a deleted entry, and a name
  that is the original one unless it is marked as changed.
\<close>

definition dirent_wf :: "zip_dirent option \<Rightarrow> bool" where
  "dirent_wf d \<longleftrightarrow> (case d of None \<Rightarrow> True | Some d \<Rightarrow> str_wf (de_filename d))"

definition entry_wf :: "'u zip_entry \<Rightarrow> bool" where
  "entry_wf e \<longleftrightarrow> dirent_wf (ze_orig e) \<and> dirent_wf (ze_changes e) \<and> (ze_deleted e \<longrightarrow> ze_changes e = None)
     \<and> (ze_changes e \<noteq> None \<longrightarrow> changed_name e \<or> ze_orig e \<noteq> None \<and> entry_name e = orig_name e)"

definition names_ok :: "'u zip_t \<Rightarrow> bool" where
  "names_ok za \<longleftrightarrow> hash_inv (za_names za) \<and> indexes (cur_of (za_names za)) (directory za)
     \<and> indexes (orig_of (za_names za)) (orig_directory za) \<and> list_all entry_wf (za_entry za)"

text \<open>Steps that cache encodings and set the error, and leave everything else.\<close>

definition quiet_dirent :: "zip_dirent \<Rightarrow> zip_dirent \<Rightarrow> bool" where
  "quiet_dirent d d1 \<longleftrightarrow> (\<exists>str. d1 = d\<lparr>de_filename := str\<rparr> \<and> same_text (de_filename d) str)"

definition quiet_entry :: "'u zip_entry \<Rightarrow> 'u zip_entry \<Rightarrow> bool" where
  "quiet_entry e e1 \<longleftrightarrow> rel_option quiet_dirent (ze_orig e) (ze_orig e1) \<and> rel_option quiet_dirent (ze_changes e) (ze_changes e1)
     \<and> ze_source e1 = ze_source e \<and> ze_deleted e1 = ze_deleted e"

definition quiet :: "'u zip_t \<Rightarrow> 'u zip_t \<Rightarrow> bool" where
  "quiet za za1 \<longleftrightarrow> list_all2 quiet_entry (za_entry za) (za_entry za1) \<and> za_names za1 = za_names za
     \<and> za_ch_flags za1 = za_ch_flags za \<and> za_flags za1 = za_flags za"

lemma quiet_dirent_refl [simp]: "quiet_dirent d d"
  by (auto simp: quiet_dirent_def intro!: exI [of _ "de_filename d"])

lemma quiet_dirent_trans: "quiet_dirent a b \<Longrightarrow> quiet_dirent b c \<Longrightarrow> quiet_dirent a c"
  by (force simp: quiet_dirent_def intro: same_text_trans)

lemma quiet_entry_refl [simp]: "quiet_entry e e"
  by (simp add: quiet_entry_def option.rel_refl)

lemma rel_quiet_trans:
  "rel_option quiet_dirent x y \<Longrightarrow> rel_option quiet_dirent y z \<Longrightarrow> rel_option quiet_dirent x z"
  by (cases x; cases y; cases z) (auto intro: quiet_dirent_trans)

lemma quiet_entry_trans: "quiet_entry a b \<Longrightarrow> quiet_entry b c \<Longrightarrow> quiet_entry a c"
  unfolding quiet_entry_def by (auto intro: rel_quiet_trans)

lemma quiet_refl [simp]: "quiet za za"
  by (simp add: quiet_def list_all2_refl)

lemma quiet_trans:
  assumes "quiet a b" and "quiet b c"
  shows "quiet a c"
proof -
  have q: "list_all2 quiet_entry (za_entry a) (za_entry b)" "list_all2 quiet_entry (za_entry b) (za_entry c)"
    using assms by (simp_all add: quiet_def)
  have "list_all2 quiet_entry (za_entry a) (za_entry c)"
    using list_all2_lengthD [OF q(1)] list_all2_lengthD [OF q(2)]
      quiet_entry_trans [OF list_all2_nthD [OF q(1)] list_all2_nthD [OF q(2)]]
    by (simp add: list_all2_conv_all_nth)
  then show ?thesis using assms by (simp add: quiet_def)
qed

lemma quiet_error [simp]: "quiet za (za_put e za)" "quiet za (za_set_error x y za)"
  "quiet za1 (za_put e za) = quiet za1 za" "quiet za1 (za_set_error x y za) = quiet za1 za"
  "quiet (za_put e za) za1 = quiet za za1" "quiet (za_set_error x y za) za1 = quiet za za1"
  by (auto simp: quiet_def za_put_def za_set_error_def list_all2_refl split: option.splits)

lemma quiet_entry_simps:
  assumes "quiet_entry e e1"
  shows "orig_name e1 = orig_name e" and "entry_name e1 = entry_name e" and "entry_wf e1 = entry_wf e"
    and "ZIP_ENTRY_CHANGED e1 f = ZIP_ENTRY_CHANGED e f" and "changed_name e1 = changed_name e"
    and "ze_deleted e1 = ze_deleted e" and "ze_orig e1 = None \<longleftrightarrow> ze_orig e = None" and "ze_changes e1 = None \<longleftrightarrow> ze_changes e = None"
proof -
  have d: "str_text (de_filename y) = str_text (de_filename x)" "de_changed y = de_changed x"
    "str_wf (de_filename y) = str_wf (de_filename x)" if "quiet_dirent x y" for x y
    using that by (auto simp: quiet_dirent_def dest: same_textD)
  have r: "rel_option quiet_dirent (ze_orig e) (ze_orig e1)" "rel_option quiet_dirent (ze_changes e) (ze_changes e1)"
    using assms by (simp_all add: quiet_entry_def)
  show o: "orig_name e1 = orig_name e" using r(1) d(1) by (cases "ze_orig e"; cases "ze_orig e1") (auto simp: orig_name_def)
  show del: "ze_deleted e1 = ze_deleted e" using assms by (simp add: quiet_entry_def)
  show n: "entry_name e1 = entry_name e"
    using r(2) d(1) o del by (cases "ze_changes e"; cases "ze_changes e1") (auto simp: entry_name_def)
  show c: "ZIP_ENTRY_CHANGED e1 f = ZIP_ENTRY_CHANGED e f" for f
    using r(2) d(2) by (cases "ze_changes e"; cases "ze_changes e1") (auto simp: ZIP_ENTRY_CHANGED_def)
  show cn: "changed_name e1 = changed_name e" by (simp add: changed_name_def c)
  show on: "ze_orig e1 = None \<longleftrightarrow> ze_orig e = None" "ze_changes e1 = None \<longleftrightarrow> ze_changes e = None"
    using r by (cases "ze_orig e"; cases "ze_orig e1"; cases "ze_changes e"; cases "ze_changes e1"; simp)+
  have "dirent_wf (ze_orig e1) = dirent_wf (ze_orig e)" "dirent_wf (ze_changes e1) = dirent_wf (ze_changes e)"
    using r d(3) by (cases "ze_orig e"; cases "ze_orig e1"; cases "ze_changes e"; cases "ze_changes e1"; simp add: dirent_wf_def)+
  then show "entry_wf e1 = entry_wf e" unfolding entry_wf_def o n del cn on by simp
qed

lemma quiet_simps:
  assumes "quiet za za1"
  shows "length (za_entry za1) = length (za_entry za)" and "directory za1 = directory za"
    and "orig_directory za1 = orig_directory za" and "names_ok za1 = names_ok za" and "za_names za1 = za_names za"
    and "ZIP_IS_RDONLY za1 = ZIP_IS_RDONLY za" and "i < length (za_entry za) \<Longrightarrow> quiet_entry (za_entry za ! i) (za_entry za1 ! i)"
proof -
  have q: "list_all2 quiet_entry (za_entry za) (za_entry za1)" using assms by (simp add: quiet_def)
  show l: "length (za_entry za1) = length (za_entry za)" using list_all2_lengthD [OF q] by simp
  show e: "quiet_entry (za_entry za ! i) (za_entry za1 ! i)" if "i < length (za_entry za)" for i
    using list_all2_nthD [OF q that] .
  show n: "directory za1 = directory za" "orig_directory za1 = orig_directory za"
    using quiet_entry_simps(1,2) [OF e] l by (auto simp: names_by_def)
  show h: "za_names za1 = za_names za" and "ZIP_IS_RDONLY za1 = ZIP_IS_RDONLY za"
    using assms by (simp_all add: quiet_def ZIP_IS_RDONLY_def)
  have "list_all entry_wf (za_entry za1) = list_all entry_wf (za_entry za)"
    using quiet_entry_simps(3) [OF e] l by (auto simp: list_all_length)
  then show "names_ok za1 = names_ok za" by (simp add: names_ok_def n h)
qed

section \<open>Reading and finding names\<close>

lemma directory_cstr: "directory za i = Some s \<Longrightarrow> cstr s = s" "orig_directory za i = Some s \<Longrightarrow> cstr s = s"
  by (auto simp: names_by_def entry_name_def orig_name_def split: option.splits if_splits)

lemma cur_of_iff:
  "names_ok za \<Longrightarrow> cur_of (za_names za) t = Some i \<longleftrightarrow> directory za i = Some (cstr t)"
  using indexes_iff [of "cur_of (za_names za)" "directory za" t i] directory_cstr(1) [of za i]
  by (auto simp: names_ok_def)

lemma orig_of_iff:
  "names_ok za \<Longrightarrow> orig_of (za_names za) t = Some i \<longleftrightarrow> orig_directory za i = Some (cstr t)"
  using indexes_iff [of "orig_of (za_names za)" "orig_directory za" t i] directory_cstr(2) [of za i]
  by (auto simp: names_ok_def)

lemma upd_entry_simps [simp]:
  "length (za_entry (upd_entry idx f za)) = length (za_entry za)" "za_names (upd_entry idx f za) = za_names za"
  "za_ch_flags (upd_entry idx f za) = za_ch_flags za" "za_flags (upd_entry idx f za) = za_flags za"
  "idx < length (za_entry za) \<Longrightarrow> za_entry (upd_entry idx f za) ! i = (if i = idx then f (za_entry za ! idx) else za_entry za ! i)"
  by (auto simp: upd_entry_def nth_list_update)

lemma quiet_upd_entry:
  "idx < length (za_entry za) \<Longrightarrow> quiet_entry (za_entry za ! idx) (f (za_entry za ! idx)) \<Longrightarrow> quiet za (upd_entry idx f za)"
  by (auto simp: quiet_def list_all2_conv_all_nth upd_entry_def nth_list_update)

lemma quiet_upd_dirent:
  assumes "idx < length (za_entry za)"
    and "\<And>d. (if flag_set flags ZIP_FL_UNCHANGED \<or> ze_changes (za_entry za ! idx) = None then ze_orig (za_entry za ! idx)
              else ze_changes (za_entry za ! idx)) = Some d \<Longrightarrow> same_text (de_filename d) str"
  shows "quiet za (upd_dirent idx flags (\<lambda>d. d\<lparr>de_filename := str\<rparr>) za)"
  unfolding upd_dirent_def
proof (rule quiet_upd_entry [OF assms(1)])
  have "rel_option quiet_dirent x (map_option (\<lambda>d. d\<lparr>de_filename := str\<rparr>) x)" if "\<And>d. x = Some d \<Longrightarrow> same_text (de_filename d) str" for x
    using that by (cases x) (auto simp: quiet_dirent_def)
  then show "quiet_entry (za_entry za ! idx)
     (if flag_set flags ZIP_FL_UNCHANGED \<or> ze_changes (za_entry za ! idx) = None
      then (za_entry za ! idx)\<lparr>ze_orig := map_option (\<lambda>d. d\<lparr>de_filename := str\<rparr>) (ze_orig (za_entry za ! idx))\<rparr>
      else (za_entry za ! idx)\<lparr>ze_changes := map_option (\<lambda>d. d\<lparr>de_filename := str\<rparr>) (ze_changes (za_entry za ! idx))\<rparr>)"
    using assms(2) by (auto simp: quiet_entry_def option.rel_refl)
qed

lemma names_okD:
  assumes "names_ok za"
  shows "hash_inv (za_names za)" and "idx < length (za_entry za) \<Longrightarrow> entry_wf (za_entry za ! idx)"
    and "zip_get_dirent za idx flags = Inr de \<Longrightarrow> str_wf (de_filename de)"
proof -
  show "hash_inv (za_names za)" "idx < length (za_entry za) \<Longrightarrow> entry_wf (za_entry za ! idx)"
    using assms by (simp_all add: names_ok_def list_all_length)
  then show "zip_get_dirent za idx flags = Inr de \<Longrightarrow> str_wf (de_filename de)"
    by (auto simp: zip_get_dirent_def Let_def entry_wf_def dirent_wf_def split: if_splits option.splits)
qed

lemma zip_get_name_spec:
  assumes ok: "names_ok za" and "zip_get_name [] za idx flags own = (r, za1, m1)"
    and fl: "\<not> flag_set flags ZIP_FL_ENC_RAW" "\<not> flag_set flags ZIP_FL_ENC_STRICT"
  shows "quiet za za1" and "m1 = []"
    and "map_option cstr r = (if flag_set flags ZIP_FL_UNCHANGED then orig_directory za idx else directory za idx)"
proof -
  have *: "quiet za za1 \<and> m1 = []
    \<and> map_option cstr r = (if flag_set flags ZIP_FL_UNCHANGED then orig_directory za idx else directory za idx)"
  proof (cases "zip_get_dirent za idx flags")
    case (Inl e)
    then show ?thesis using assms(2)
      by (auto simp: zip_get_name_def zip_get_dirent_def names_by_def entry_name_def orig_name_def Let_def
               split: if_splits option.splits)
  next
    case (Inr de)
    from zip_string_get_text [OF names_okD(3) [OF ok Inr] fl, of "za_err own za"] obtain n l str1 where
      g: "zip_string_get [] (de_filename de) flags (za_err own za) = (Some (n, l), str1, za_err own za, [])"
      and s: "cstr n = str_text (de_filename de)" "same_text (de_filename de) str1" by blast
    have za1: "r = Some n" "za1 = za_put (za_err own za) (upd_dirent idx flags (\<lambda>d. d\<lparr>de_filename := str1\<rparr>) za)" "m1 = []"
      using assms(2) by (simp_all add: zip_get_name_def Inr g)
    have i: "idx < length (za_entry za)"
      and d: "(if flag_set flags ZIP_FL_UNCHANGED \<or> ze_changes (za_entry za ! idx) = None
          then ze_orig (za_entry za ! idx) else ze_changes (za_entry za ! idx)) = Some de"
      and n: "(if flag_set flags ZIP_FL_UNCHANGED then orig_directory za idx else directory za idx) = Some (str_text (de_filename de))"
      using Inr by (auto simp: zip_get_dirent_def names_by_def entry_name_def orig_name_def Let_def
               split: if_splits option.splits)
    have "quiet za za1" unfolding za1 quiet_error by (rule quiet_upd_dirent [OF i]) (use d s(2) in simp)
    then show ?thesis using n s(1) by (simp add: za1)
  qed
  then show "quiet za za1" "m1 = []"
    "map_option cstr r = (if flag_set flags ZIP_FL_UNCHANGED then orig_directory za idx else directory za idx)" by simp_all
qed

text \<open>
  The name a caller's C string stands for. Its length is cut to 16 bits on the way to
  \<open>_zip_string_new\<close>.
\<close>

definition name_text :: "bytes \<Rightarrow> bytes" where
  "name_text n = show_bytes (take (length (cstr n) mod 2 ^ 16) n)"

lemma cstr_name_text: "cstr (name_text s) = name_text s"
  by (simp add: name_text_def show_bytes_def)

lemma name_text_Nil: "cstr n = [] \<Longrightarrow> name_text n = []"
  by (simp add: name_text_def show_bytes_def)

lemma length_cstr_le: "length (cstr n) mod k \<le> length n"
  using length_takeWhile_le [of "\<lambda>c. c \<noteq> 0" n] mod_less_eq_dividend [of "length (cstr n)" k]
  unfolding cstr_def by linarith

definition position :: "'u zip_t \<Rightarrow> bytes \<Rightarrow> int" where
  "position za t = (case cur_of (za_names za) t of None \<Rightarrow> -1 | Some j \<Rightarrow> int j)"

lemma cur_of_cstr: "cur_of h (cstr n) = cur_of h n"
  using find_entry_cstr [of "cstr n" n h] by (simp add: cur_of_def)

lemma za_put_simps [simp]:
  "za_names (za_put e za) = za_names za" "za_entry (za_put e za) = za_entry za" "za_ch_flags (za_put e za) = za_ch_flags za"
  "za_names (za_set_error x y za) = za_names za" "za_entry (za_set_error x y za) = za_entry za"
  "za_ch_flags (za_set_error x y za) = za_ch_flags za"
  by (simp_all add: za_put_def za_set_error_def split: option.split)

lemma zip_name_locate_hash:
  assumes ok: "hash_inv (za_names za)" and "zip_name_locate [] za (Some n) 0 own = (i, za1, m1)"
  shows "quiet za za1" and "m1 = []"
    and "i = (if cstr n \<noteq> [] \<and> length (cstr n) mod 2 ^ 16 = 0 then -1 else position za (name_text n))"
proof -
  note look = ni.lookup_law [OF ok, of _ 0]
  let ?len = "length (cstr n) mod 65536"
  have *: "quiet za za1 \<and> m1 = [] \<and> i = (if cstr n \<noteq> [] \<and> ?len = 0 then -1 else position za (name_text n))"
  proof (cases "cstr n = []")
    case True
    then have "cur_of (za_names za) (name_text n) = cur_of (za_names za) n"
      using cur_of_cstr [of _ n] by (simp add: name_text_Nil)
    then show ?thesis using assms(2) True
      by (auto simp: zip_name_locate_def look position_def Let_def split: option.splits prod.splits)
  next
    case nonempty: False
    show ?thesis
    proof (cases "?len = 0")
      case True
      then show ?thesis using assms(2) nonempty by (auto simp: zip_name_locate_def zip_string_new_def)
    next
      case False
      then obtain s e m where nw: "zip_string_new [] n ?len 0 (za_err own za) = (Some s, e, m)"
        by (auto simp: zip_string_new_def Let_def)
      note s = zip_string_new_text [OF this length_cstr_le]
      from zip_string_get_text [of "Some s" 0 "za_err own za"] s(1) obtain t l str1 where
        g: "zip_string_get [] (Some s) 0 (za_err own za) = (Some (t, l), str1, za_err own za, [])" "cstr t = str_text (Some s)"
        by (auto simp: str_wf_def)
      have "cur_of (za_names za) t = cur_of (za_names za) (name_text n)"
        using g(2) s(2) cur_of_cstr [of "za_names za" t] by (simp add: name_text_def)
      then show ?thesis using assms(2) nonempty False nw g(1) s(3,4)
        by (auto simp: zip_name_locate_def position_def look Let_def split: option.splits prod.splits)
    qed
  qed
  then show "quiet za za1" "m1 = []"
    "i = (if cstr n \<noteq> [] \<and> length (cstr n) mod 2 ^ 16 = 0 then -1 else position za (name_text n))" by simp_all
qed

lemmas zip_name_locate_spec = zip_name_locate_hash [OF names_okD(1)]

section \<open>Setting a name\<close>

lemma indexes_cong:
  "(\<And>i. map_option cstr (f i) = map_option cstr (g i)) \<Longrightarrow> indexes c f = indexes c g"
proof -
  assume e: "\<And>i. map_option cstr (f i) = map_option cstr (g i)"
  have "(\<exists>s. f i = Some s \<and> cstr s = t) = (\<exists>s. g i = Some s \<and> cstr s = t)" for i t
    using e [of i] by (cases "f i"; cases "g i") auto
  then show ?thesis by (simp add: indexes_def)
qed

lemma string_known_text:
  "str_wf str \<Longrightarrow> str_wf (string_known flags str) \<and> str_text (string_known flags str) = str_text str"
proof (cases str)
  case (Some s)
  assume wf: "str_wf str"
  have g: "guess_loop ZIP_ENCODING_ASCII bs \<in> {ZIP_ENCODING_ASCII, ZIP_ENCODING_UTF8_GUESSED, ZIP_ENCODING_CP437}" for bs
    using guess_loop_values [of ZIP_ENCODING_ASCII bs] by simp
  show ?thesis using wf g [of "take (zs_length s) (zs_raw s)"]
    by (auto simp: Some string_known_def str_wf_def string_wf_def str_text_def zip_guess_encoding_def Let_def)
qed (simp add: string_known_def zip_guess_encoding_def)

definition opt_text :: "bytes option \<Rightarrow> bytes" where
  "opt_text name = (case name of None \<Rightarrow> [] | Some n \<Rightarrow> name_text n)"

lemma set_name_string_spec:
  assumes "set_name_string [] name flags error = (r, e, m)"
  shows "m = []" and "r = Some str \<Longrightarrow> e = error \<and> str_wf str \<and> str_text str = opt_text name
      \<and> (\<forall>n. name = Some n \<longrightarrow> cstr n = [] \<or> length (cstr n) mod 2 ^ 16 \<noteq> 0)"
proof -
  have *: "m = [] \<and> (r = Some str \<longrightarrow> e = error \<and> str_wf str \<and> str_text str = opt_text name
      \<and> (\<forall>n. name = Some n \<longrightarrow> cstr n = [] \<or> length (cstr n) mod 2 ^ 16 \<noteq> 0))" for str
  proof (cases "name = None \<or> cstr (the name) = []")
    case True
    then show ?thesis using assms by (auto simp: set_name_string_def opt_text_def name_text_Nil split: option.splits)
  next
    case False
    then obtain n where n: "name = Some n" "cstr n \<noteq> []" by auto
    obtain s e1 m1 where nw: "zip_string_new [] n (length (cstr n) mod 65536) flags error = (s, e1, m1)" by (metis prod_cases3)
    show ?thesis
    proof (cases s)
      case None
      have "m1 = []" using nw None by (auto simp: zip_string_new_def Let_def split: if_splits prod.splits)
      then show ?thesis using assms n nw None by (simp add: set_name_string_def)
    next
      case (Some s1)
      note t = zip_string_new_text [OF nw [unfolded Some] length_cstr_le]
      have "str_wf (string_known flags (Some s1)) \<and> str_text (string_known flags (Some s1)) = str_text (Some s1)"
        by (rule string_known_text) (simp add: str_wf_def t(1))
      moreover have "length (cstr n) mod 65536 \<noteq> 0"
        using nw Some by (auto simp: zip_string_new_def split: if_splits)
      ultimately show ?thesis using assms n nw Some t by (auto simp: set_name_string_def opt_text_def name_text_def)
    qed
  qed
  show "m = []" using * by blast
  show "r = Some str \<Longrightarrow> e = error \<and> str_wf str \<and> str_text str = opt_text name
      \<and> (\<forall>n. name = Some n \<longrightarrow> cstr n = [] \<or> length (cstr n) mod 2 ^ 16 \<noteq> 0)" using * by blast
qed

definition name_in_force :: "'u zip_entry \<Rightarrow> zip_string option" where
  "name_in_force e = (case ze_changes e of Some c \<Rightarrow> de_filename c
     | None \<Rightarrow> (case ze_orig e of Some d \<Rightarrow> de_filename d | None \<Rightarrow> None))"

lemma set_name_old_spec:
  assumes wf: "dirent_wf (ze_orig (za_entry za ! idx))" "dirent_wf (ze_changes (za_entry za ! idx))"
    and i: "idx < length (za_entry za)" and del: "\<not> ze_deleted (za_entry za ! idx)"
  shows "\<exists>old za1. set_name_old [] za idx = (Some old, za1, []) \<and> quiet za za1
    \<and> (case old of None \<Rightarrow> name_in_force (za_entry za ! idx) = None
       | Some n \<Rightarrow> name_in_force (za_entry za ! idx) \<noteq> None \<and> directory za idx = Some (cstr n))"
proof -
  let ?e = "za_entry za ! idx"
  define fn where "fn = name_in_force ?e"
  note in_force = fn_def
  note fn_def = fn_def [unfolded name_in_force_def]
  have dir: "directory za idx = Some (str_text fn) \<or> fn = None \<and> directory za idx = None"
    using i del by (auto simp: fn_def names_by_def entry_name_def orig_name_def split: option.splits)
  show ?thesis
  proof (cases fn)
    case None
    then show ?thesis using dir unfolding set_name_old_def Let_def fn_def name_in_force_def by auto
  next
    case (Some s)
    have "str_wf fn" using wf unfolding fn_def by (auto simp: dirent_wf_def split: option.splits)
    from zip_string_get_text [OF this, of 0 "Some (za_error za)"] obtain n l str1 where
      g: "zip_string_get [] (Some s) 0 (Some (za_error za)) = (Some (n, l), str1, Some (za_error za), [])"
        "cstr n = str_text fn" "same_text fn str1" using Some by auto
    have "quiet za (upd_dirent idx 0 (\<lambda>d. d\<lparr>de_filename := str1\<rparr>) za)"
      by (rule quiet_upd_dirent [OF i]) (use g(3) in \<open>auto simp: fn_def split: option.splits if_splits\<close>)
    then show ?thesis using g dir
      unfolding set_name_old_def Let_def fn_def [symmetric] in_force [symmetric] by (auto simp: Some)
  qed
qed

lemma quiet_entry_names: "quiet_entry e e1 \<Longrightarrow> dirent_wf (ze_orig e1) = dirent_wf (ze_orig e) \<and> dirent_wf (ze_changes e1) = dirent_wf (ze_changes e)"
proof -
  assume q: "quiet_entry e e1"
  have d: "str_wf (de_filename y) = str_wf (de_filename x)" if "quiet_dirent x y" for x y
    using that by (auto simp: quiet_dirent_def dest: same_textD)
  have "dirent_wf y = dirent_wf x" if "rel_option quiet_dirent x y" for x y
    using that d by (cases x; cases y) (auto simp: dirent_wf_def)
  then show ?thesis using q unfolding quiet_entry_def by blast
qed

lemma quiet_in_force: "quiet_entry e e1 \<Longrightarrow> name_in_force e1 = None \<longleftrightarrow> name_in_force e = None"
  by (cases "ze_changes e"; cases "ze_changes e1"; cases "ze_orig e"; cases "ze_orig e1")
    (auto simp: quiet_entry_def name_in_force_def quiet_dirent_def same_text_def split: option.splits)

lemma commit_same:
  assumes "entry_wf e" and "\<not> ze_deleted e" and "orig_name e = Some t" and "entry_name e \<noteq> Some t"
  shows "entry_wf (set_name_commit True str e)" and "entry_name (set_name_commit True str e) = Some t"
    and "orig_name (set_name_commit True str e) = orig_name e"
proof -
  obtain c where c: "ze_changes e = Some c" using assms(2-4) by (auto simp: entry_name_def split: option.splits)
  obtain d where d: "ze_orig e = Some d" "str_text (de_filename d) = t"
    using assms(3) by (auto simp: orig_name_def split: option.splits)
  have fn: "flag_set (de_changed c) ZIP_DIRENT_FILENAME"
    using assms(1,3,4) c by (auto simp: entry_wf_def changed_name_def ZIP_ENTRY_CHANGED_def)
  have wf: "str_wf (de_filename d)" using assms(1) d by (simp add: entry_wf_def dirent_wf_def)
  show "entry_name (set_name_commit True str e) = Some t"
    using c d fn assms(2) by (simp add: set_name_commit_def Let_def entry_name_def orig_name_def)
  show "orig_name (set_name_commit True str e) = orig_name e"
    using c d fn by (simp add: set_name_commit_def Let_def orig_name_def)
  show "entry_wf (set_name_commit True str e)"
    using c d fn assms(2) wf
    by (simp add: set_name_commit_def Let_def entry_wf_def dirent_wf_def entry_name_def orig_name_def)
qed

lemma commit_new:
  assumes "dirent_wf (ze_orig e)" and "ze_changes e \<noteq> None" and "\<not> ze_deleted e" and "str_wf str"
  shows "entry_wf (set_name_commit False str e)" and "entry_name (set_name_commit False str e) = Some (str_text str)"
    and "orig_name (set_name_commit False str e) = orig_name e"
  using assms
  by (auto simp: set_name_commit_def entry_wf_def dirent_wf_def entry_name_def orig_name_def changed_name_def
      ZIP_ENTRY_CHANGED_def flag_set_or flag_set_def [of 2 2])

text \<open>
  What setting a name of the entry at \<open>idx\<close> leaves of the other entries, and of this one when it fails.
\<close>

definition frame :: "nat \<Rightarrow> 'u zip_t \<Rightarrow> 'u zip_t \<Rightarrow> bool" where
  "frame idx za za1 \<longleftrightarrow> length (za_entry za1) = length (za_entry za) \<and> za_ch_flags za1 = za_ch_flags za \<and> za_flags za1 = za_flags za
     \<and> (\<forall>i < length (za_entry za). i \<noteq> idx \<longrightarrow> quiet_entry (za_entry za ! i) (za_entry za1 ! i))"

lemma frame_quiet: "quiet za za1 \<Longrightarrow> frame idx za za1"
  using quiet_simps(1,7) [of za za1] by (auto simp: frame_def quiet_def)

lemma frame_trans: "frame idx a b \<Longrightarrow> frame idx b c \<Longrightarrow> frame idx a c"
  by (auto simp: frame_def intro: quiet_entry_trans)

lemma frame_upd_entry: "idx < length (za_entry za) \<Longrightarrow> frame idx za (upd_entry idx f za)"
  by (simp add: frame_def)

lemma frame_simps [simp]:
  "frame idx za1 (za_put e za) = frame idx za1 za" "frame idx za1 (za_set_error x y za) = frame idx za1 za"
  "frame idx za1 (za\<lparr>za_names := h\<rparr>) = frame idx za1 za"
  "frame idx (za_put e za) za1 = frame idx za za1"
  by (simp_all add: frame_def za_put_def za_set_error_def split: option.split)

lemma frame_names:
  assumes "frame idx za za1" and "idx < length (za_entry za)"
  shows "directory za1 = (directory za)(idx := entry_name (za_entry za1 ! idx))"
    and "orig_directory za1 = (orig_directory za)(idx := orig_name (za_entry za1 ! idx))"
    and "list_all entry_wf (za_entry za) \<Longrightarrow> entry_wf (za_entry za1 ! idx) \<Longrightarrow> list_all entry_wf (za_entry za1)"
proof -
  have q: "quiet_entry (za_entry za ! i) (za_entry za1 ! i)" if "i < length (za_entry za)" "i \<noteq> idx" for i
    using assms(1) that by (simp add: frame_def)
  have l: "length (za_entry za1) = length (za_entry za)" using assms(1) by (simp add: frame_def)
  show "directory za1 = (directory za)(idx := entry_name (za_entry za1 ! idx))"
    "orig_directory za1 = (orig_directory za)(idx := orig_name (za_entry za1 ! idx))"
    using quiet_entry_simps(1,2) [OF q] l assms(2) by (auto simp: names_by_def)
  show "list_all entry_wf (za_entry za1)" if "list_all entry_wf (za_entry za)" "entry_wf (za_entry za1 ! idx)"
    using quiet_entry_simps(3) [OF q] l that by (auto simp: list_all_length)
qed

text \<open>The outcome of setting a name, from an archive whose table agrees with its entries.\<close>

lemma set_name_apply_spec:
  assumes inv: "hash_inv (za_names za)" and ix: "indexes (cur_of (za_names za)) dir"
    and i: "idx < length (za_entry za)" and big: "idx \<le> ZIP_INT64_MAX"
    and wf: "dirent_wf (ze_orig (za_entry za ! idx))" "dirent_wf (ze_changes (za_entry za ! idx))" "\<not> ze_deleted (za_entry za ! idx)"
    and str: "str_wf str" "same \<longrightarrow> orig_name (za_entry za ! idx) = Some (str_text str)"
    and dir: "dir idx = (if name_in_force (za_entry za ! idx) = None then None else directory za idx)"
    and r: "set_name_apply [] za idx str same = (r, za1, m1)"
  shows "m1 = []" and "frame idx za za1" and "hash_inv (za_names za1)" and "orig_of (za_names za1) = orig_of (za_names za)"
    and "r \<noteq> 0 \<Longrightarrow> quiet_entry (za_entry za ! idx) (za_entry za1 ! idx) \<and> cur_of (za_names za1) = cur_of (za_names za)"
    and "r = 0 \<Longrightarrow> cur_of (za_names za) (str_text str) = None
      \<and> indexes (cur_of (za_names za1)) (dir(idx := Some (str_text str)))
      \<and> (\<exists>e str1. quiet_entry (za_entry za ! idx) e \<and> za_entry za1 ! idx = set_name_commit same str1 e
           \<and> str_wf str1 \<and> (\<not> same \<longrightarrow> str_text str1 = str_text str))"
    and "cur_of (za_names za) (str_text str) = None \<Longrightarrow> r = 0"
proof -
  let ?src = "if same then (case ze_orig (za_entry za ! idx) of Some d \<Rightarrow> de_filename d | None \<Rightarrow> None) else str"
  have src: "str_wf ?src" "str_text ?src = str_text str"
    using wf(1) str by (auto simp: dirent_wf_def orig_name_def split: option.splits)
  from zip_string_get_text [OF src(1), of 0 "Some (za_error za)"] obtain n l str1 where
    g: "zip_string_get [] ?src 0 (Some (za_error za)) = (Some (n, l), str1, Some (za_error za), [])"
      "cstr n = str_text str" "same_text ?src str1" unfolding src(2) by auto
  define za2 where "za2 = za_put (Some (za_error za)) (if same then upd_dirent idx ZIP_FL_UNCHANGED (\<lambda>d. d\<lparr>de_filename := str1\<rparr>) za else za)"
  have q2: "quiet za za2"
    unfolding za2_def quiet_error by (cases same) (use g(3) in \<open>auto intro!: quiet_upd_dirent [OF i]\<close>)
  note q2i = quiet_simps(7) [OF q2 i]
  have i2: "idx < length (za_entry za2)" using i quiet_simps(1) [OF q2] by simp
  have wf2: "dirent_wf (ze_orig (za_entry za2 ! idx))" "dirent_wf (ze_changes (za_entry za2 ! idx))" "\<not> ze_deleted (za_entry za2 ! idx)"
    using quiet_entry_names [OF q2i] quiet_entry_simps(6) [OF q2i] wf by simp_all
  from set_name_old_spec [OF wf2(1,2) i2 wf2(3)] obtain old za3 where
    o: "set_name_old [] za2 idx = (Some old, za3, [])" "quiet za2 za3"
      "case old of None \<Rightarrow> name_in_force (za_entry za ! idx) = None
       | Some n \<Rightarrow> name_in_force (za_entry za ! idx) \<noteq> None \<and> directory za idx = Some (cstr n)"
    unfolding quiet_simps(2) [OF q2] quiet_in_force [OF q2i] by blast
  have q3: "quiet za za3" by (rule quiet_trans [OF q2 o(2)])
  have n3: "za_names za3 = za_names za" by (rule quiet_simps(5) [OF q3])
  obtain ok h err2 m3 where a: "zip_hash_add [] (za_names za) (Some n) idx 0 (Some (za_error za3)) = (ok, h, err2, m3)"
    by (metis prod_cases4)
  note al = ni.add_result_law [OF inv a]
  have a3: "zip_hash_add [] (za_names za) (Some n) idx 0 (Some (za_error za3)) = (ok, h, err2, [])" using a al by simp
  note unf = set_name_apply_def g(1) option.case prod.case za2_def [symmetric] o(1) n3 a3
  have *: "m1 = [] \<and> frame idx za za1 \<and> hash_inv (za_names za1) \<and> orig_of (za_names za1) = orig_of (za_names za)
    \<and> (r \<noteq> 0 \<longrightarrow> quiet_entry (za_entry za ! idx) (za_entry za1 ! idx) \<and> cur_of (za_names za1) = cur_of (za_names za))
    \<and> (r = 0 \<longrightarrow> cur_of (za_names za) (str_text str) = None
      \<and> indexes (cur_of (za_names za1)) (dir(idx := Some (str_text str)))
      \<and> (\<exists>e str1. quiet_entry (za_entry za ! idx) e \<and> za_entry za1 ! idx = set_name_commit same str1 e
           \<and> str_wf str1 \<and> (\<not> same \<longrightarrow> str_text str1 = str_text str)))
    \<and> (cur_of (za_names za) (str_text str) = None \<longrightarrow> r = 0)"
  proof (cases ok)
    case False
    have "cur_of (za_names za) (str_text str) = cur_of (za_names za) n"
      using cur_of_cstr [of "za_names za" n] g(2) by simp
    with False show ?thesis using r al q3 big frame_quiet [OF q3, of idx] quiet_simps(7) [OF q3 i] unfolding unf by auto
  next
    case True
    have aT: "zip_hash_add [] (za_names za) (Some n) idx 0 (Some (za_error za3)) = (True, h, err2, m3)" using a True by simp
    have free: "cur_of (za_names za) n = None" using al True by simp
    have h: "hash_inv h" "orig_of h = orig_of (za_names za)"
      using ni.add_ok_law [OF inv aT] by (auto simp: fun_eq_iff)
    have cong: "indexes c (dir(idx := Some n)) = indexes c (dir(idx := Some (str_text str)))" for c
      using g(2) by (intro indexes_cong) auto
    have "\<exists>h1 m4. (case old of None \<Rightarrow> (h, []) | Some old \<Rightarrow> (case zip_hash_delete [] h (Some old) None of (_, h1, _, m4) \<Rightarrow> (h1, m4))) = (h1, m4)
      \<and> m4 = [] \<and> hash_inv h1 \<and> orig_of h1 = orig_of (za_names za) \<and> indexes (cur_of h1) (dir(idx := Some n))"
    proof (cases old)
      case None
      then have "dir idx = None" using dir o(3) by auto
      from ni.add_indexes [OF inv ix this free aT] show ?thesis using None h by auto
    next
      case (Some oldn)
      obtain ok2 h1 e4 m4 where d: "zip_hash_delete [] h (Some oldn) None = (ok2, h1, e4, m4)" by (metis prod_cases4)
      have dir_old: "dir idx = Some (cstr oldn)" using dir o(3) Some by simp
      have ix': "indexes (cur_of (za_names za)) (dir(idx := Some oldn))"
        using ix by (subst indexes_cong [of _ dir]) (auto simp: dir_old)
      have "hash_inv h1 \<and> indexes (cur_of h1) (dir(idx := Some n))"
        using ni.rename_indexes [OF inv ix' _ aT free d] by simp
      moreover have "orig_of h1 = orig_of h" "m4 = []" using ni.delete_law [OF h(1) d] ni.delete_result_law [OF h(1) d] by simp_all
      ultimately show ?thesis using Some d h by simp
    qed
    then obtain h1 where h1: "(case old of None \<Rightarrow> (h, []) | Some old \<Rightarrow> (case zip_hash_delete [] h (Some old) None of (_, h1, _, m4) \<Rightarrow> (h1, m4)))
        = (h1, [])" "hash_inv h1" "orig_of h1 = orig_of (za_names za)" "indexes (cur_of h1) (dir(idx := Some n))" by blast
    have "za_names za1 = h1" "r = 0" "m1 = []"
      and z: "za1 = upd_entry idx (set_name_commit same str1) (za_put err2 (za3\<lparr>za_names := h1\<rparr>))"
      using r True h1(1) unfolding unf by (auto simp: za_put_simps)
    moreover have "frame idx za za1"
      unfolding z
    proof (rule frame_trans [OF _ frame_upd_entry])
      show "frame idx za (za_put err2 (za3\<lparr>za_names := h1\<rparr>))" using frame_quiet [OF q3] by simp
    qed (use quiet_simps(1) [OF q3] i in simp)
    moreover have "za_entry za1 ! idx = set_name_commit same str1 (za_entry za3 ! idx)"
      unfolding z using i quiet_simps(1) [OF q3] by simp
    moreover have "str_wf str1" "\<not> same \<longrightarrow> str_text str1 = str_text str"
      using same_textD [OF g(3)] src(1) by auto
    ultimately show ?thesis
      using h1(2-4) free g(2) cur_of_cstr [of "za_names za" n] quiet_simps(7) [OF q3 i] by (auto simp: cong)
  qed
  show "m1 = []" "frame idx za za1" "hash_inv (za_names za1)" "orig_of (za_names za1) = orig_of (za_names za)" using * by simp_all
  show "r \<noteq> 0 \<Longrightarrow> quiet_entry (za_entry za ! idx) (za_entry za1 ! idx) \<and> cur_of (za_names za1) = cur_of (za_names za)" using * by simp
  show "r = 0 \<Longrightarrow> cur_of (za_names za) (str_text str) = None
      \<and> indexes (cur_of (za_names za1)) (dir(idx := Some (str_text str)))
      \<and> (\<exists>e str1. quiet_entry (za_entry za ! idx) e \<and> za_entry za1 ! idx = set_name_commit same str1 e
           \<and> str_wf str1 \<and> (\<not> same \<longrightarrow> str_text str1 = str_text str))" using * by simp
  show "cur_of (za_names za) (str_text str) = None \<Longrightarrow> r = 0" using * by simp
qed

lemma names_okI:
  assumes "names_ok za" and "frame idx za za1" and "idx < length (za_entry za)"
    and "hash_inv (za_names za1)" and "orig_of (za_names za1) = orig_of (za_names za)"
    and "indexes (cur_of (za_names za1)) ((directory za)(idx := entry_name (za_entry za1 ! idx)))"
    and "orig_name (za_entry za1 ! idx) = orig_name (za_entry za ! idx)" and "entry_wf (za_entry za1 ! idx)"
  shows "names_ok za1" and "directory za1 = (directory za)(idx := entry_name (za_entry za1 ! idx))"
    and "orig_directory za1 = orig_directory za"
proof -
  note f = frame_names [OF assms(2,3)]
  show "directory za1 = (directory za)(idx := entry_name (za_entry za1 ! idx))" by (rule f)
  have "orig_directory za idx = orig_name (za_entry za ! idx)" using assms(3) by (simp add: names_by_def)
  then show o: "orig_directory za1 = orig_directory za" using f(2) assms(7) by (metis fun_upd_triv)
  show "names_ok za1" using assms(1,4-6,8) f(1,3) o by (simp add: names_ok_def)
qed

definition nameable :: "'u zip_entry \<Rightarrow> bool" where
  "nameable e \<longleftrightarrow> \<not> ze_deleted e \<and> (name_in_force e = None \<longrightarrow> ze_orig e = None \<and> ze_changes e = None)"

lemma nameable_quiet: "quiet_entry e e1 \<Longrightarrow> nameable e1 = nameable e"
  using quiet_entry_simps(6-8) [of e e1] quiet_in_force [of e e1] by (auto simp: nameable_def)

text \<open>From the clone on.\<close>

lemma set_name_tail:
  assumes ok: "names_ok za" and i: "idx < length (za_entry za)" "idx \<le> ZIP_INT64_MAX" and able: "nameable (za_entry za ! idx)"
    and str: "str_wf str"
    and same: "same = (case ze_orig (za_entry za ! idx) of Some d \<Rightarrow> zip_string_equal (de_filename d) str | None \<Rightarrow> False)"
    and r: "(if \<not> same \<and> ze_changes (za_entry za ! idx) = None
        then (case zip_dirent_clone [] (ze_orig (za_entry za ! idx)) of
                (None, m3) \<Rightarrow> (-1, za_set_error ZIP_ER_MEMORY 0 za, m3)
              | (Some c, m3) \<Rightarrow> set_name_apply m3 (upd_entry idx (\<lambda>e. e\<lparr>ze_changes := Some c\<rparr>) za) idx str same)
        else set_name_apply [] za idx str same) = (r, za1, m1)"
  shows "m1 = []" and "frame idx za za1" and "hash_inv (za_names za1)" and "orig_of (za_names za1) = orig_of (za_names za)"
    and "r = 0 \<Longrightarrow> names_ok za1 \<and> directory za1 = (directory za)(idx := Some (str_text str))
      \<and> orig_directory za1 = orig_directory za \<and> (\<forall>j. directory za j \<noteq> Some (str_text str))"
    and "r \<noteq> 0 \<Longrightarrow> cur_of (za_names za1) = cur_of (za_names za) \<and> orig_name (za_entry za1 ! idx) = orig_name (za_entry za ! idx)
      \<and> (directory za idx \<noteq> None \<longrightarrow> names_ok za1 \<and> directory za1 = directory za)"
    and "(\<And>j. directory za j \<noteq> Some (str_text str)) \<Longrightarrow> r = 0"
proof -
  let ?e = "za_entry za ! idx" and ?t = "str_text str"
  have wf: "entry_wf ?e" "hash_inv (za_names za)" using names_okD [OF ok] i by simp_all
  define clone where "clone = (\<not> same \<and> ze_changes ?e = None)"
  define c where "c = (case ze_orig ?e of Some d \<Rightarrow> d | None \<Rightarrow> zip_dirent_init)\<lparr>de_changed := 0, de_cloned := True\<rparr>"
  define e2 where "e2 = (if clone then ?e\<lparr>ze_changes := Some c\<rparr> else ?e)"
  define za2 where "za2 = (if clone then upd_entry idx (\<lambda>e. e\<lparr>ze_changes := Some c\<rparr>) za else za)"
  have z2: "za_entry za2 ! idx = e2" "za_names za2 = za_names za" "length (za_entry za2) = length (za_entry za)" "frame idx za za2"
    using i frame_quiet [of za za idx] by (simp_all add: za2_def e2_def frame_upd_entry)
  have r2: "set_name_apply [] za2 idx str same = (r, za1, m1)"
    using r by (cases clone) (auto simp: za2_def clone_def c_def zip_dirent_clone_def)
  have del: "\<not> ze_deleted e2" "orig_name e2 = orig_name ?e" "ze_orig e2 = ze_orig ?e"
    using able by (simp_all add: e2_def nameable_def orig_name_def)
  have wf2: "dirent_wf (ze_orig e2)" "dirent_wf (ze_changes e2)"
    using wf(1) by (auto simp: e2_def c_def entry_wf_def dirent_wf_def zip_dirent_init_def split: option.splits)
  have force2: "name_in_force e2 = name_in_force ?e"
    by (auto simp: e2_def name_in_force_def clone_def c_def zip_dirent_init_def split: option.splits)
  have dir: "directory za idx = (if name_in_force e2 = None then None else directory za2 idx)"
  proof -
    have d: "directory za idx = entry_name ?e" "directory za2 idx = entry_name e2" using i by (simp_all add: names_by_def z2)
    show ?thesis
    proof (cases "ze_orig ?e = None \<and> ze_changes ?e = None")
      case True
      then show ?thesis using able unfolding force2 d by (simp add: name_in_force_def entry_name_def orig_name_def)
    next
      case False
      then have "name_in_force ?e \<noteq> None" using able by (auto simp: nameable_def)
      moreover have "entry_name e2 = entry_name ?e"
        using False able unfolding e2_def clone_def c_def nameable_def
        by (cases "ze_changes ?e"; cases "ze_orig ?e") (auto simp: entry_name_def orig_name_def)
      ultimately show ?thesis unfolding force2 d by auto
    qed
  qed
  have orig: "same \<longrightarrow> orig_name e2 = Some ?t"
    using same unfolding del(2) by (auto simp: orig_name_def split: option.splits dest: equal_text)
  have ix: "indexes (cur_of (za_names za2)) (directory za)" using ok by (simp add: names_ok_def z2)
  note s = set_name_apply_spec [where za = za2 and idx = idx and dir = "directory za", unfolded z2(1-3),
    OF wf(2) ix [unfolded z2(2)] i wf2 del(1) str orig dir r2]
  show "m1 = []" "hash_inv (za_names za1)" "orig_of (za_names za1) = orig_of (za_names za)" by (rule s(1,3,4))+
  show "r = 0" if "\<And>j. directory za j \<noteq> Some ?t"
    using s(7) that cur_of_iff [OF ok, of ?t] by (cases "cur_of (za_names za) ?t") auto
  show fr: "frame idx za za1" by (rule frame_trans [OF z2(4) s(2)])
  show "names_ok za1 \<and> directory za1 = (directory za)(idx := Some ?t)
      \<and> orig_directory za1 = orig_directory za \<and> (\<forall>j. directory za j \<noteq> Some ?t)" if "r = 0"
  proof -
    from s(6) [OF that] obtain e str1 where
      free: "cur_of (za_names za) ?t = None" and ix1: "indexes (cur_of (za_names za1)) ((directory za)(idx := Some ?t))"
      and e: "quiet_entry e2 e" "za_entry za1 ! idx = set_name_commit same str1 e" "str_wf str1" "\<not> same \<longrightarrow> str_text str1 = ?t" by blast
    have none: "directory za j \<noteq> Some ?t" for j using cur_of_iff [OF ok, of ?t j] free by simp
    note q = quiet_entry_simps [OF e(1)]
    have fin: "entry_wf (za_entry za1 ! idx) \<and> entry_name (za_entry za1 ! idx) = Some ?t
      \<and> orig_name (za_entry za1 ! idx) = orig_name e"
    proof (cases same)
      case True
      then have e2: "e2 = ?e" by (simp add: e2_def clone_def)
      have "entry_name ?e \<noteq> Some ?t" using none [of idx] i by (simp add: names_by_def)
      then show ?thesis using commit_same [of e ?t str1] q wf(1) del(1) orig True unfolding e(2) e2 by simp
    next
      case False
      have "ze_changes e2 \<noteq> None" using False by (simp add: e2_def clone_def)
      then show ?thesis
        using commit_new [of e str1] q del(1) wf2 quiet_entry_names [OF e(1)] e(3,4) False unfolding e(2) by simp
    qed
    have o: "orig_name (za_entry za1 ! idx) = orig_name ?e" using fin q(1) del(2) by simp
    show ?thesis
      using names_okI [OF ok fr i(1) s(3,4) _ o] fin ix1 none by simp
  qed
  show "cur_of (za_names za1) = cur_of (za_names za) \<and> orig_name (za_entry za1 ! idx) = orig_name ?e
      \<and> (directory za idx \<noteq> None \<longrightarrow> names_ok za1 \<and> directory za1 = directory za)" if "r \<noteq> 0"
  proof -
    note f = s(5) [OF that]
    note q = quiet_entry_simps [OF f [THEN conjunct1]]
    have o: "orig_name (za_entry za1 ! idx) = orig_name ?e" using q(1) del(2) by simp
    moreover have "names_ok za1 \<and> directory za1 = directory za" if v: "directory za idx \<noteq> None"
    proof -
      have n2: "entry_name e2 = directory za idx"
        using dir v i by (auto simp: names_by_def z2 split: if_splits)
      then have n: "entry_name (za_entry za1 ! idx) = directory za idx" using q(2) by simp
      have "entry_wf e2"
        using wf(1) wf2 del v i n2
        by (auto simp: e2_def entry_wf_def names_by_def entry_name_def orig_name_def clone_def split: option.splits if_splits)
      then have w: "entry_wf (za_entry za1 ! idx)" using q(3) by simp
      have "indexes (cur_of (za_names za1)) ((directory za)(idx := entry_name (za_entry za1 ! idx)))"
        using ok f by (simp add: names_ok_def n)
      from names_okI [OF ok fr i(1) s(3,4) this o w] show ?thesis by (simp add: n)
    qed
    ultimately show ?thesis using f by blast
  qed
qed

lemma zip_name_locate_None: "zip_name_locate m za None flags False = (-1, za, m)"
  by (simp add: zip_name_locate_def za_err_def za_put_def zip_error_set_def)

lemma opt_text_cstr [simp]: "cstr (opt_text name) = opt_text name"
  by (simp add: opt_text_def name_text_def show_bytes_def split: option.split)

lemma directory_less: "directory za i = Some s \<Longrightarrow> i < length (za_entry za)"
  by (simp add: names_by_def split: if_splits)

lemma position_cases:
  assumes "names_ok za"
  shows "position za t = -1 \<and> (\<forall>j. directory za j \<noteq> Some (cstr t))
    \<or> (\<exists>j. position za t = int j \<and> j < length (za_entry za) \<and> directory za j = Some (cstr t))"
  using cur_of_iff [OF assms, of t]
  by (auto simp: position_def directory_less split: option.splits)

lemma directory_inject: "names_ok za \<Longrightarrow> directory za i = Some s \<Longrightarrow> directory za j = Some s \<Longrightarrow> i = j"
  using cur_of_iff [of za s i] cur_of_iff [of za s j] directory_cstr(1) [of za] by fastforce

lemma zip_set_name_spec:
  assumes ok: "names_ok za" and r: "zip_set_name [] za idx name flags = (r, za1, m1)"
    and able: "idx < length (za_entry za) \<Longrightarrow> nameable (za_entry za ! idx) \<and> idx \<le> ZIP_INT64_MAX"
  shows "m1 = []" and "frame idx za za1" and "hash_inv (za_names za1)" and "orig_of (za_names za1) = orig_of (za_names za)"
    and "r = 0 \<Longrightarrow> idx < length (za_entry za) \<and> names_ok za1 \<and> directory za1 = (directory za)(idx := Some (opt_text name))
      \<and> orig_directory za1 = orig_directory za \<and> (\<forall>j. j \<noteq> idx \<longrightarrow> directory za j \<noteq> Some (opt_text name))"
    and "r \<noteq> 0 \<Longrightarrow> cur_of (za_names za1) = cur_of (za_names za)
      \<and> (idx < length (za_entry za) \<longrightarrow> orig_name (za_entry za1 ! idx) = orig_name (za_entry za ! idx))
      \<and> (idx < length (za_entry za) \<and> directory za idx = None \<or> names_ok za1 \<and> directory za1 = directory za)"
    and "\<not> ZIP_IS_RDONLY za \<and> idx < length (za_entry za) \<and> fst (set_name_string [] name flags (Some (za_error za))) \<noteq> None
      \<and> (\<forall>j. directory za j \<noteq> Some (opt_text name)) \<Longrightarrow> r = 0"
proof -
  let ?post = "m1 = [] \<and> frame idx za za1 \<and> hash_inv (za_names za1) \<and> orig_of (za_names za1) = orig_of (za_names za)
    \<and> (r = 0 \<longrightarrow> idx < length (za_entry za) \<and> names_ok za1 \<and> directory za1 = (directory za)(idx := Some (opt_text name))
      \<and> orig_directory za1 = orig_directory za \<and> (\<forall>j. j \<noteq> idx \<longrightarrow> directory za j \<noteq> Some (opt_text name)))
    \<and> (r \<noteq> 0 \<longrightarrow> cur_of (za_names za1) = cur_of (za_names za)
      \<and> (idx < length (za_entry za) \<longrightarrow> orig_name (za_entry za1 ! idx) = orig_name (za_entry za ! idx))
      \<and> (idx < length (za_entry za) \<and> directory za idx = None \<or> names_ok za1 \<and> directory za1 = directory za))
    \<and> (\<not> ZIP_IS_RDONLY za \<and> idx < length (za_entry za) \<and> fst (set_name_string [] name flags (Some (za_error za))) \<noteq> None
      \<and> (\<forall>j. directory za j \<noteq> Some (opt_text name)) \<longrightarrow> r = 0)"
  have quiet: "?post" if "quiet za za1" "m1 = []" "r \<noteq> 0"
    and "\<not> (\<not> ZIP_IS_RDONLY za \<and> idx < length (za_entry za) \<and> fst (set_name_string [] name flags (Some (za_error za))) \<noteq> None
      \<and> (\<forall>j. directory za j \<noteq> Some (opt_text name)))"
    using that(4) that(1-3) quiet_simps [OF that(1)] frame_quiet [OF that(1)] names_okD(1) [OF ok] ok
      quiet_entry_simps(1) [of "za_entry za ! idx" "za_entry za1 ! idx"] by auto
  have ?post
  proof (cases "idx < length (za_entry za) \<and> \<not> ZIP_IS_RDONLY za")
    case False
    then show ?thesis using r by (intro quiet) (auto simp: zip_set_name_def split: if_splits)
  next
    case i: True
    note able = able [OF i [THEN conjunct1]]
    obtain rs e m2 where st: "set_name_string [] name flags (Some (za_error za)) = (rs, e, m2)" by (metis prod_cases3)
    note sp = set_name_string_spec [OF st]
    show ?thesis
    proof (cases rs)
      case None
      then show ?thesis using r i st sp(1) by (intro quiet) (auto simp: zip_set_name_def)
    next
      case (Some str)
      note str = sp(2) [OF Some]
      define za0 where "za0 = za_put e za"
      have q0: "quiet za za0" by (simp add: za0_def)
      have ok0: "names_ok za0" using quiet_simps(4) [OF q0] ok by simp
      obtain i1 za2 m3 where loc: "zip_name_locate [] za0 name 0 False = (i1, za2, m3)" by (metis prod_cases3)
      have L: "quiet za za2 \<and> m3 = [] \<and> i1 = (if name = None then -1 else position za (opt_text name))"
      proof (cases name)
        case None
        then show ?thesis using loc q0 by (simp add: zip_name_locate_None)
      next
        case (Some n)
        note l = zip_name_locate_spec [OF ok0 loc [unfolded Some]]
        have "position za0 = position za" using quiet_simps(5) [OF q0] by (simp add: position_def fun_eq_iff)
        then show ?thesis using l quiet_trans [OF q0 l(1)] str Some by (auto simp: opt_text_def)
      qed
      note ok2 = quiet_simps [OF L [THEN conjunct1]]
      have unf: "zip_set_name [] za idx name flags =
         (if i1 \<ge> 0 \<and> nat i1 \<noteq> idx then (-1, za_set_error ZIP_ER_EXISTS 0 za2, [])
          else if i1 \<ge> 0 then (0, za2, [])
          else (let e = za_entry za2 ! idx;
                    same = (case ze_orig e of Some d \<Rightarrow> zip_string_equal (de_filename d) str | None \<Rightarrow> False)
                in if \<not> same \<and> ze_changes e = None
                   then (case zip_dirent_clone [] (ze_orig e) of
                           (None, m3) \<Rightarrow> (-1, za_set_error ZIP_ER_MEMORY 0 za2, m3)
                         | (Some c, m3) \<Rightarrow> set_name_apply m3 (upd_entry idx (\<lambda>e. e\<lparr>ze_changes := Some c\<rparr>) za2) idx str same)
                   else set_name_apply [] za2 idx str same))"
        using i Some sp(1) st loc L unfolding zip_set_name_def by (simp add: za0_def [symmetric])
      show ?thesis
      proof (cases "i1 \<ge> 0")
        case True
        with L position_cases [OF ok, of "opt_text name"] obtain j where
          j: "i1 = int j" "directory za j = Some (opt_text name)" by (auto split: if_splits)
        show ?thesis
        proof (cases "j = idx")
          case False
          then show ?thesis using r j L by (intro quiet) (auto simp: unf)
        next
          case True
          then have z: "r = 0" "za1 = za2" "m1 = []" using r j(1) by (auto simp: unf)
          have "(directory za)(idx := Some (opt_text name)) = directory za" using True j(2) by auto
          moreover have "directory za k \<noteq> Some (opt_text name)" if "k \<noteq> idx" for k
            using directory_inject [OF ok _ j(2), of k] that True by auto
          ultimately show ?thesis
            using z i L ok2 ok frame_quiet [of za za2 idx] names_okD(1) [OF ok] by auto
        qed
      next
        case False
        have i2: "idx < length (za_entry za2)" "nameable (za_entry za2 ! idx)"
          using i ok2(1,7) able nameable_quiet by auto
        have sw: "str_wf str" and tx: "str_text str = opt_text name" using str by simp_all
        have r': "(if \<not> (case ze_orig (za_entry za2 ! idx) of Some d \<Rightarrow> zip_string_equal (de_filename d) str | None \<Rightarrow> False)
            \<and> ze_changes (za_entry za2 ! idx) = None
          then (case zip_dirent_clone [] (ze_orig (za_entry za2 ! idx)) of
                  (None, m3) \<Rightarrow> (-1, za_set_error ZIP_ER_MEMORY 0 za2, m3)
                | (Some c, m3) \<Rightarrow> set_name_apply m3 (upd_entry idx (\<lambda>e. e\<lparr>ze_changes := Some c\<rparr>) za2) idx str
                    (case ze_orig (za_entry za2 ! idx) of Some d \<Rightarrow> zip_string_equal (de_filename d) str | None \<Rightarrow> False))
          else set_name_apply [] za2 idx str
                    (case ze_orig (za_entry za2 ! idx) of Some d \<Rightarrow> zip_string_equal (de_filename d) str | None \<Rightarrow> False)) = (r, za1, m1)"
          using r False by (simp add: unf Let_def)
        note t = set_name_tail [OF ok2(4) [THEN iffD2, OF ok] i2(1) able [THEN conjunct2] i2(2) sw refl r']
        have q: "quiet_entry (za_entry za ! idx) (za_entry za2 ! idx)" using ok2(7) i by simp
        have "frame idx za za1" by (rule frame_trans [OF frame_quiet t(2)]) (use L in simp)
        moreover have "r = 0" if "\<forall>j. directory za j \<noteq> Some (opt_text name)" by (rule t(7)) (use that ok2 tx in simp)
        ultimately show ?thesis using t(1,3-6) tx i ok2 quiet_entry_simps(1) [OF q] by auto
      qed
    qed
  qed
  then show "m1 = []" "frame idx za za1" "hash_inv (za_names za1)" "orig_of (za_names za1) = orig_of (za_names za)"
    and "r = 0 \<Longrightarrow> idx < length (za_entry za) \<and> names_ok za1 \<and> directory za1 = (directory za)(idx := Some (opt_text name))
      \<and> orig_directory za1 = orig_directory za \<and> (\<forall>j. j \<noteq> idx \<longrightarrow> directory za j \<noteq> Some (opt_text name))"
    and "r \<noteq> 0 \<Longrightarrow> cur_of (za_names za1) = cur_of (za_names za)
      \<and> (idx < length (za_entry za) \<longrightarrow> orig_name (za_entry za1 ! idx) = orig_name (za_entry za ! idx))
      \<and> (idx < length (za_entry za) \<and> directory za idx = None \<or> names_ok za1 \<and> directory za1 = directory za)" 
    and "\<not> ZIP_IS_RDONLY za \<and> idx < length (za_entry za) \<and> fst (set_name_string [] name flags (Some (za_error za))) \<noteq> None
      \<and> (\<forall>j. directory za j \<noteq> Some (opt_text name)) \<Longrightarrow> r = 0" by blast+
qed

section \<open>Deleting and restoring\<close>

lemma unchange_data_None [simp]:
  "zip_unchange_data (e\<lparr>ze_changes := None\<rparr>) = e\<lparr>ze_changes := None, ze_source := None, ze_deleted := False\<rparr>"
  by (simp add: zip_unchange_data_def Let_def)

lemma bare_entry [simp]:
  "entry_name (e\<lparr>ze_changes := None, ze_source := src, ze_deleted := del\<rparr>) = (if del then None else orig_name e)"
  "orig_name (e\<lparr>ze_changes := None, ze_source := src, ze_deleted := del\<rparr>) = orig_name e"
  "entry_wf e \<Longrightarrow> entry_wf (e\<lparr>ze_changes := None, ze_source := src, ze_deleted := del\<rparr>)"
  by (auto simp: entry_name_def orig_name_def entry_wf_def dirent_wf_def)

lemma visible_entry:
  assumes "names_ok za" and "directory za idx \<noteq> None"
  shows "idx < length (za_entry za)" and "\<not> ze_deleted (za_entry za ! idx)"
proof -
  show i: "idx < length (za_entry za)" using assms(2) by (simp add: names_by_def split: if_splits)
  show "\<not> ze_deleted (za_entry za ! idx)"
    using names_okD(2) [OF assms(1) i] assms(2) i by (auto simp: entry_wf_def names_by_def entry_name_def split: option.splits)
qed

text \<open>Replacing the table by one that answers alike.\<close>

lemma names_by_names [simp]: "names_by f (za\<lparr>za_names := h\<rparr>) = names_by f za"
  by (simp add: names_by_def fun_eq_iff)

lemma names_ok_same:
  assumes "names_ok za" and "hash_inv h" and "cur_of h = cur_of (za_names za)" and "orig_of h = orig_of (za_names za)"
  shows "names_ok (za\<lparr>za_names := h\<rparr>)"
  using assms by (simp add: names_ok_def)

lemma names_ok_put [simp]:
  "names_ok (za_put e za) = names_ok za" "directory (za_put e za) = directory za" "orig_directory (za_put e za) = orig_directory za"
  "names_ok (za_set_error x y za) = names_ok za" "directory (za_set_error x y za) = directory za"
  "orig_directory (za_set_error x y za) = orig_directory za"
  using quiet_simps(2-4) [OF quiet_error(1) [of za e]] quiet_simps(2-4) [OF quiet_error(2) [of za x y]] by simp_all

text \<open>Putting a table and an entry in place together.\<close>

lemma names_ok_upd:
  assumes ok: "names_ok za" and i: "idx < length (za_entry za)"
    and h: "hash_inv h" "orig_of h = orig_of (za_names za)" "indexes (cur_of h) ((directory za)(idx := entry_name (f (za_entry za ! idx))))"
    and e: "orig_name (f (za_entry za ! idx)) = orig_name (za_entry za ! idx)" "entry_wf (f (za_entry za ! idx))"
  shows "names_ok (upd_entry idx f (za\<lparr>za_names := h\<rparr>))"
    and "directory (upd_entry idx f (za\<lparr>za_names := h\<rparr>)) = (directory za)(idx := entry_name (f (za_entry za ! idx)))"
    and "orig_directory (upd_entry idx f (za\<lparr>za_names := h\<rparr>)) = orig_directory za"
proof -
  let ?z = "upd_entry idx f (za\<lparr>za_names := h\<rparr>)"
  have f: "frame idx za ?z" using frame_trans [OF _ frame_upd_entry, of idx za "za\<lparr>za_names := h\<rparr>"] i frame_quiet [of za za] by simp
  have z: "za_entry ?z ! idx = f (za_entry za ! idx)" "za_names ?z = h" using i by simp_all
  note n = names_okI [OF ok f i, unfolded z, OF h(1,2,3) e]
  show "names_ok ?z" "directory ?z = (directory za)(idx := entry_name (f (za_entry za ! idx)))"
    "orig_directory ?z = orig_directory za" by (rule n)+
qed

lemma zip_delete_spec:
  assumes ok: "names_ok za" and r: "zip_delete [] za idx = (r, za1, m1)"
  shows "m1 = []" and "names_ok za1" and "orig_directory za1 = orig_directory za"
    and "r = 0 \<longleftrightarrow> \<not> ZIP_IS_RDONLY za \<and> directory za idx \<noteq> None"
    and "directory za1 = (if r = 0 then (directory za)(idx := None) else directory za)"
    and "length (za_entry za1) = length (za_entry za)" and "ZIP_IS_RDONLY za1 = ZIP_IS_RDONLY za"
proof -
  have "m1 = [] \<and> names_ok za1 \<and> orig_directory za1 = orig_directory za \<and> (r = 0 \<longleftrightarrow> \<not> ZIP_IS_RDONLY za \<and> directory za idx \<noteq> None)
    \<and> directory za1 = (if r = 0 then (directory za)(idx := None) else directory za)
    \<and> length (za_entry za1) = length (za_entry za) \<and> ZIP_IS_RDONLY za1 = ZIP_IS_RDONLY za"
  proof (cases "idx < length (za_entry za) \<and> \<not> ZIP_IS_RDONLY za")
    case False
    then show ?thesis using r ok by (auto simp: zip_delete_def names_by_def ZIP_IS_RDONLY_def split: if_splits)
  next
    case i: True
    obtain nm za2 m2 where g: "zip_get_name [] za idx 0 True = (nm, za2, m2)" by (metis prod_cases3)
    have g1: "quiet za za2" "m2 = []" "map_option cstr nm = directory za idx"
      using zip_get_name_spec [OF ok g] by simp_all
    note q = quiet_simps [OF g1(1)]
    have ok2: "names_ok za2" using q(4) ok by simp
    show ?thesis
    proof (cases nm)
      case None
      then show ?thesis using r i g g1 q ok by (auto simp: zip_delete_def)
    next
      case (Some n)
      then have d: "directory za2 idx = Some (cstr n)" using g1(3) q(2) by simp
      have i2: "idx < length (za_entry za2)" using i q(1) by simp
      obtain ok3 h e m3 where dl: "zip_hash_delete [] (za_names za2) (Some n) (Some (za_error za2)) = (ok3, h, e, m3)"
        by (metis prod_cases4)
      note inv = names_okD(1) [OF ok2]
      have "cur_of (za_names za2) n = Some idx" using cur_of_iff [OF ok2] d by simp
      then have t: "ok3" "m3 = []" "e = Some (za_error za2)" using ni.delete_result_law [OF inv dl] by simp_all
      have h: "orig_of h = orig_of (za_names za2)" using ni.delete_law [OF inv dl] by simp
      have ix2: "indexes (cur_of (za_names za2)) (directory za2)" using ok2 by (simp add: names_ok_def)
      have ix: "hash_inv h" "indexes (cur_of h) ((directory za2)(idx := None))"
        using ni.delete_indexes [OF inv ix2 d cstr_cstr(1) dl] by simp_all
      let ?f = "\<lambda>e. e\<lparr>ze_changes := None, ze_source := None, ze_deleted := True\<rparr>"
      have z: "r = 0" "m1 = []" "za1 = za_put e (upd_entry idx ?f (za2\<lparr>za_names := h\<rparr>))"
        using r i g g1(2) Some dl t i2
        by (auto simp: zip_delete_def zip_unchange_def upd_entry_def za_put_def)
      note u = names_ok_upd [OF ok2 i2 ix(1) h, where f = ?f]
      show ?thesis using u ix(2) z(1,2) names_okD(2) [OF ok2 i2] q i d
        unfolding z(3) by (auto simp: ZIP_IS_RDONLY_def)
    qed
  qed
  then show "m1 = []" "names_ok za1" "orig_directory za1 = orig_directory za"
    "r = 0 \<longleftrightarrow> \<not> ZIP_IS_RDONLY za \<and> directory za idx \<noteq> None"
    "directory za1 = (if r = 0 then (directory za)(idx := None) else directory za)"
    "length (za_entry za1) = length (za_entry za)" "ZIP_IS_RDONLY za1 = ZIP_IS_RDONLY za" by simp_all
qed

lemma za_put_more [simp]:
  "names_by f (za_put e za) = names_by f za" "za_flags (za_put e za) = za_flags za"
  by (simp_all add: names_by_def fun_eq_iff) (simp add: za_put_def split: option.split)

lemma wf_unrenamed:
  assumes "entry_wf e" and "\<not> changed_name e" and "\<not> ze_deleted e"
  shows "entry_name e = orig_name e"
  using assms by (auto simp: entry_wf_def entry_name_def split: option.splits)

lemma unchange_names_spec:
  assumes ok: "names_ok za" and i: "idx < length (za_entry za)" and r: "unchange_names [] za idx renamed = (r, za1, m1)"
    and "renamed = changed_name (za_entry za ! idx)"
  shows "quiet za za1" and "m1 = []"
    and "r = Some (orig, chg) \<Longrightarrow> map_option cstr orig = orig_directory za idx
      \<and> (if renamed then map_option cstr chg = directory za idx \<and> chg \<noteq> None else chg = None)"
proof -
  let ?post = "quiet za za1 \<and> m1 = [] \<and> (r = Some (orig, chg) \<longrightarrow> map_option cstr orig = orig_directory za idx
      \<and> (if renamed then map_option cstr chg = directory za idx \<and> chg \<noteq> None else chg = None))"
  define first where "first = (if ze_orig (za_entry za ! idx) = None then (Some None, za, [])
            else (case zip_get_name [] za idx ZIP_FL_UNCHANGED True of
                    (None, za1, m1) \<Rightarrow> (None, za1, m1)
                  | (Some on, za1, m1) \<Rightarrow>
                      (case zip_name_locate m1 za1 (Some on) 0 False of
                         (i, za2, m2) \<Rightarrow>
                           if i \<ge> 0 \<and> nat i \<noteq> idx then (None, za_set_error ZIP_ER_EXISTS 0 za2, m2)
                           else (Some (Some on), za2, m2))))"
  obtain f za2 m2 where f: "first = (f, za2, m2)" by (metis prod_cases3)
  have F: "quiet za za2 \<and> m2 = [] \<and> (\<forall>orig. f = Some orig \<longrightarrow> map_option cstr orig = orig_directory za idx)"
  proof (cases "ze_orig (za_entry za ! idx) = None")
    case True
    then have "orig_directory za idx = None" by (simp add: names_by_def orig_name_def)
    then show ?thesis using f True by (auto simp: first_def)
  next
    case False
    obtain nm za3 m3 where g: "zip_get_name [] za idx ZIP_FL_UNCHANGED True = (nm, za3, m3)" by (metis prod_cases3)
    have g1: "quiet za za3" "m3 = []" "map_option cstr nm = orig_directory za idx"
      using zip_get_name_spec [OF ok g] by (simp_all add: flag_set_def)
    have ok3: "names_ok za3" using quiet_simps(4) [OF g1(1)] ok by simp
    show ?thesis
    proof (cases nm)
      case None
      then show ?thesis using f False g g1 by (auto simp: first_def)
    next
      case (Some n)
      obtain j za4 m4 where l: "zip_name_locate [] za3 (Some n) 0 False = (j, za4, m4)" by (metis prod_cases3)
      note q = quiet_trans [OF g1(1) zip_name_locate_spec(1) [OF ok3 l]]
      show ?thesis using f False g g1 Some l q zip_name_locate_spec(2) [OF ok3 l] by (auto simp: first_def split: if_splits)
    qed
  qed
  have ok2: "names_ok za2" using quiet_simps(4) [OF F [THEN conjunct1]] ok by simp
  obtain nm za3 m3 where g: "zip_get_name [] za2 idx 0 True = (nm, za3, m3)" by (metis prod_cases3)
  have g1: "quiet za za3" "m3 = []" "map_option cstr nm = directory za idx"
    using zip_get_name_spec [OF ok2 g] quiet_trans F quiet_simps(2) by (force, force, force)
  have ?post
    using r F f g g1 unfolding unchange_names_def first_def [symmetric]
    by (auto split: option.splits if_splits)
  then show "quiet za za1" "m1 = []" "r = Some (orig, chg) \<Longrightarrow> map_option cstr orig = orig_directory za idx
      \<and> (if renamed then map_option cstr chg = directory za idx \<and> chg \<noteq> None else chg = None)" by blast+
qed

text \<open>The table after the names of the entry are put back: \<open>Some\<close> of the original one, or none.\<close>

lemma unchange_index_spec:
  assumes ok: "names_ok za" and i: "idx \<le> ZIP_INT64_MAX"
    and chg: "case chg of None \<Rightarrow> directory za idx = None | Some n \<Rightarrow> directory za idx = Some (cstr n)"
    and r: "unchange_index [] za idx orig chg = (done, za1, m1)"
  shows "m1 = []" and "\<not> done \<Longrightarrow> names_ok za1 \<and> names_by f za1 = names_by f za"
    and "done \<Longrightarrow> hash_inv (za_names za1) \<and> orig_of (za_names za1) = orig_of (za_names za)
      \<and> indexes (cur_of (za_names za1)) ((directory za)(idx := map_option cstr orig))"
    and "za_entry za1 = za_entry za" and "za_ch_flags za1 = za_ch_flags za" and "za_flags za1 = za_flags za"
proof -
  have inv: "hash_inv (za_names za)" and ix: "indexes (cur_of (za_names za)) (directory za)"
    using ok by (simp_all add: names_ok_def)
  let ?post = "m1 = [] \<and> (\<not> done \<longrightarrow> names_ok za1 \<and> names_by f za1 = names_by f za)
    \<and> (done \<longrightarrow> hash_inv (za_names za1) \<and> orig_of (za_names za1) = orig_of (za_names za)
      \<and> indexes (cur_of (za_names za1)) ((directory za)(idx := map_option cstr orig)))
    \<and> za_entry za1 = za_entry za \<and> za_ch_flags za1 = za_ch_flags za \<and> za_flags za1 = za_flags za"
  have ?post
  proof (cases orig)
    case no_orig: None
    show ?thesis
    proof (cases chg)
      case None
      then have "(directory za)(idx := None) = directory za" using chg by auto
      then show ?thesis using r no_orig None inv ix by (auto simp: unchange_index_def)
    next
      case (Some s)
      then have d: "directory za idx = Some (cstr s)" using chg by simp
      obtain ok3 h e m3 where dl: "zip_hash_delete [] (za_names za) (Some s) (Some (za_error za)) = (ok3, h, e, m3)"
        by (metis prod_cases4)
      have "cur_of (za_names za) s = Some idx" using cur_of_iff [OF ok] d by simp
      then have "ok3" "m3 = []" using ni.delete_result_law [OF inv dl] by simp_all
      then show ?thesis using r no_orig Some dl ni.delete_law [OF inv dl] ni.delete_indexes [OF inv ix d cstr_cstr(1) dl]
        by (auto simp: unchange_index_def)
    qed
  next
    case (Some n)
    obtain ok3 h e m3 where a: "zip_hash_add [] (za_names za) (Some n) idx 0 (Some (za_error za)) = (ok3, h, e, m3)"
      by (metis prod_cases4)
    note al = ni.add_result_law [OF inv a]
    have a': "zip_hash_add [] (za_names za) (Some n) idx 0 (Some (za_error za)) = (ok3, h, e, [])" using a al by simp
    show ?thesis
    proof (cases ok3)
      case False
      then have "names_ok (za\<lparr>za_names := h\<rparr>)" using al names_ok_same [OF ok] by simp
      then show ?thesis using r Some a' False
        by (auto simp: unchange_index_def)
    next
      case True
      have aT: "zip_hash_add [] (za_names za) (Some n) idx 0 (Some (za_error za)) = (True, h, e, m3)" using a True by simp
      have free: "cur_of (za_names za) n = None" using al True by simp
      have h: "hash_inv h" "orig_of h = orig_of (za_names za)" "cur_of h k = (if cstr k = cstr n then Some idx else cur_of (za_names za) k)" for k
        using ni.add_ok_law [OF inv aT] by (auto simp: fun_eq_iff)
      have cong: "indexes c ((directory za)(idx := Some (cstr n))) = indexes c ((directory za)(idx := Some n))" for c
        by (rule indexes_cong) simp
      show ?thesis
      proof (cases chg)
        case None
        then have "directory za idx = None" using chg by simp
        from ni.add_indexes [OF inv ix this free aT] show ?thesis using r Some a' True None h
          by (auto simp: unchange_index_def cong)
      next
        case s: (Some s)
        then have d: "directory za idx = Some (cstr s)" using chg by simp
        define za2 where "za2 = za_put e (za\<lparr>za_names := h\<rparr>)"
        have e: "e = Some (za_error za)" using ni.add_ok_law [OF inv aT] by simp
        have z2: "za_names za2 = h" "za_error za2 = za_error za" "za_entry za2 = za_entry za" "za_ch_flags za2 = za_ch_flags za"
          "za_flags za2 = za_flags za" by (simp_all add: za2_def e za_put_def)
        obtain ok4 h1 e1 m4 where dl: "zip_hash_delete [] h (Some s) (Some (za_error za)) = (ok4, h1, e1, m4)"
          by (metis prod_cases4)
        have "cur_of (za_names za) s = Some idx" using cur_of_iff [OF ok] d by simp
        then have "cur_of h s \<noteq> None" by (simp add: h(3))
        then have t: "ok4" "m4 = []" using ni.delete_result_law [OF h(1) dl] by simp_all
        have ix1: "indexes (cur_of (za_names za)) ((directory za)(idx := Some s))"
          using ix by (subst indexes_cong [of _ "directory za"]) (auto simp: d)
        note rn = ni.rename_indexes [OF inv ix1 _ aT free dl]
        show ?thesis using r Some a' True s t dl ni.delete_law [OF h(1) dl] rn h(2) z2
          unfolding unchange_index_def za2_def [symmetric]
          by (auto simp: za2_def [symmetric] cong)
      qed
    qed
  qed
  then show "m1 = []" "\<not> done \<Longrightarrow> names_ok za1 \<and> names_by f za1 = names_by f za"
    "done \<Longrightarrow> hash_inv (za_names za1) \<and> orig_of (za_names za1) = orig_of (za_names za)
      \<and> indexes (cur_of (za_names za1)) ((directory za)(idx := map_option cstr orig))"
    "za_entry za1 = za_entry za" "za_ch_flags za1 = za_ch_flags za" "za_flags za1 = za_flags za" by blast+
qed

lemma names_ok_cong:
  assumes "za_entry a = za_entry b" and "za_names a = za_names b"
  shows "names_ok a = names_ok b" and "names_by f a = names_by f b"
proof -
  show n: "names_by f a = names_by f b" for f by (simp add: names_by_def assms fun_eq_iff)
  show "names_ok a = names_ok b" by (simp add: names_ok_def n assms)
qed

lemma unchanged_directory:
  assumes ok: "names_ok za" and i: "idx < length (za_entry za)"
    and "\<not> (changed_name (za_entry za ! idx) \<or> ze_deleted (za_entry za ! idx))"
  shows "(directory za)(idx := orig_name (za_entry za ! idx)) = directory za"
proof -
  have "entry_name (za_entry za ! idx) = orig_name (za_entry za ! idx)"
    using wf_unrenamed [OF names_okD(2) [OF ok i]] assms(3) by simp
  then show ?thesis using i by (auto simp: names_by_def)
qed

lemma zip_unchange_spec:
  assumes ok: "names_ok za" and big: "length (za_entry za) \<le> ZIP_INT64_MAX" and r: "zip_unchange [] za idx False = (r, za1, m1)"
  shows "m1 = []" and "names_ok za1" and "orig_directory za1 = orig_directory za"
    and "directory za1 = (if r = 0 then (directory za)(idx := orig_directory za idx) else directory za)"
    and "length (za_entry za1) = length (za_entry za)" and "ZIP_IS_RDONLY za1 = ZIP_IS_RDONLY za"
proof -
  let ?post = "m1 = [] \<and> names_ok za1 \<and> orig_directory za1 = orig_directory za
    \<and> directory za1 = (if r = 0 then (directory za)(idx := orig_directory za idx) else directory za)
    \<and> length (za_entry za1) = length (za_entry za) \<and> ZIP_IS_RDONLY za1 = ZIP_IS_RDONLY za"
  have ?post
  proof (cases "idx < length (za_entry za)")
    case False
    then show ?thesis using r ok by (simp add: zip_unchange_def, auto simp: ZIP_IS_RDONLY_def)
  next
    case i: True
    let ?e = "za_entry za ! idx"
    let ?f = "\<lambda>e. zip_unchange_data (e\<lparr>ze_changes := None\<rparr>)"
    have o: "orig_directory za idx = orig_name ?e" using i by (simp add: names_by_def)
    define renamed where "renamed = changed_name ?e"
    have fin: ?post if z: "r = 0" "m1 = []" "za1 = upd_entry idx ?f za2" and e2: "quiet_entry ?e (za_entry za2 ! idx)"
      and za2: "length (za_entry za2) = length (za_entry za)" "names_ok za0" "quiet za za0" "za_entry za2 = za_entry za0"
        "za_ch_flags za2 = za_ch_flags za"
      and h: "hash_inv (za_names za2)" "orig_of (za_names za2) = orig_of (za_names za0)"
        "indexes (cur_of (za_names za2)) ((directory za)(idx := orig_name ?e))" for za0 za2
    proof -
      note q = quiet_simps [OF za2(3)]
      have i0: "idx < length (za_entry za0)" using i q(1) by simp
      have e0: "za_entry za2 ! idx = za_entry za0 ! idx" using za2(4) by simp
      have on: "orig_name (za_entry za0 ! idx) = orig_name ?e" using quiet_entry_simps(1) [OF e2] e0 by simp
      have ix: "indexes (cur_of (za_names za2)) ((directory za0)(idx := entry_name (?f (za_entry za0 ! idx))))"
        using h(3) q(2) on by simp
      note u = names_ok_upd [where f = ?f, OF za2(2) i0 h(1,2) ix]
      have "za_entry (upd_entry idx ?f za2) = za_entry (upd_entry idx ?f (za0\<lparr>za_names := za_names za2\<rparr>))"
        using za2(4) by (simp add: upd_entry_def)
      moreover have "za_names (upd_entry idx ?f za2) = za_names (upd_entry idx ?f (za0\<lparr>za_names := za_names za2\<rparr>))" by simp
      ultimately have c: "names_ok (upd_entry idx ?f za2) = names_ok (upd_entry idx ?f (za0\<lparr>za_names := za_names za2\<rparr>))"
        "names_by g (upd_entry idx ?f za2) = names_by g (upd_entry idx ?f (za0\<lparr>za_names := za_names za2\<rparr>))" for g
        by (rule names_ok_cong)+
      have "names_ok (upd_entry idx ?f za2)" "directory (upd_entry idx ?f za2) = (directory za0)(idx := orig_name ?e)"
        "orig_directory (upd_entry idx ?f za2) = orig_directory za0"
        using u on names_okD(2) [OF za2(2) i0] unfolding c by simp_all
      then show ?post using z(1,2) q za2(1,5) o unfolding z(3) by (simp add: ZIP_IS_RDONLY_def)
    qed
    show ?thesis
    proof (cases "renamed \<or> ze_deleted ?e")
      case False
      note d = unchanged_directory [OF ok i False [unfolded renamed_def]]
      show ?thesis
        by (rule fin [of za za]) (use r i False ok d in \<open>auto simp: zip_unchange_def Let_def renamed_def changed_name_def names_ok_def\<close>)
    next
      case True
      obtain nm za2 m2 where un: "unchange_names [] za idx renamed = (nm, za2, m2)" by (metis prod_cases3)
      have U: "quiet za za2" "m2 = []" using unchange_names_spec(1,2) [OF ok i un] by (simp_all add: renamed_def)
      note q2 = quiet_simps [OF U(1)]
      have ok2: "names_ok za2" using q2(4) ok by simp
      show ?thesis
      proof (cases nm)
        case None
        then have "r = -1" "za1 = za2" "m1 = []"
          using r i True un U by (auto simp: zip_unchange_def Let_def renamed_def changed_name_def)
        then show ?thesis using q2 ok by simp
      next
        case (Some p)
        then obtain orig chg where p: "nm = Some (orig, chg)" by (cases p) auto
        have P: "map_option cstr orig = orig_directory za idx"
          "if renamed then map_option cstr chg = directory za idx \<and> chg \<noteq> None else chg = None"
          using unchange_names_spec(3) [OF ok i un _ p] by (simp_all add: renamed_def)
        have "case chg of None \<Rightarrow> directory za2 idx = None | Some n \<Rightarrow> directory za2 idx = Some (cstr n)"
        proof (cases renamed)
          case True
          then show ?thesis using P(2) q2(2) by (cases chg) auto
        next
          case False
          then have "ze_changes ?e = None" "ze_deleted ?e" "\<not> renamed"
            using True names_okD(2) [OF ok i] by (auto simp: entry_wf_def)
          then have "directory za idx = None" using i by (simp add: names_by_def entry_name_def)
          then show ?thesis using P(2) False q2(2) by simp
        qed
        note ui = unchange_index_spec [OF ok2 _ this]
        obtain dn za3 m3 where ix: "unchange_index [] za2 idx orig chg = (dn, za3, m3)" by (metis prod_cases3)
        have ib: "idx \<le> ZIP_INT64_MAX" using i big by simp
        note ui = ui [OF ib ix]
        show ?thesis
        proof (cases dn)
          case False
          then have "r = -1" "za1 = za3" "m1 = []"
            using r i True un U p ix ui(1) by (auto simp: zip_unchange_def Let_def renamed_def changed_name_def)
          then show ?thesis using ui(2) [OF False] ui(4,5) q2 by (simp add: ZIP_IS_RDONLY_def)
        next
          case dn: True
          have z: "r = 0" "m1 = []" "za1 = upd_entry idx ?f za3"
            using r i True un U p ix ui(1) dn by (auto simp: zip_unchange_def Let_def renamed_def changed_name_def)
          show ?thesis
            by (rule fin [OF z, of za2]) (use ui(3) [OF dn] ui(4,5) q2 ok2 U P(1) o i in \<open>auto simp: quiet_def\<close>)
        qed
      qed
    qed
  qed
  then show "m1 = []" "names_ok za1" "orig_directory za1 = orig_directory za"
    "directory za1 = (if r = 0 then (directory za)(idx := orig_directory za idx) else directory za)"
    "length (za_entry za1) = length (za_entry za)" "ZIP_IS_RDONLY za1 = ZIP_IS_RDONLY za" by simp_all
qed

abbreviation reset_entry :: "'u zip_entry \<Rightarrow> 'u zip_entry" where
  "reset_entry e \<equiv> e\<lparr>ze_changes := None, ze_source := None, ze_deleted := False\<rparr>"

lemma unchange_loop_spec:
  assumes "\<forall>i \<in> set is. i < length (za_entry za)"
  shows "\<exists>za1. unchange_loop [] za 0 is = (0, za1, []) \<and> za_names za1 = za_names za \<and> za_ch_flags za1 = za_ch_flags za
    \<and> length (za_entry za1) = length (za_entry za)
    \<and> (\<forall>i < length (za_entry za). za_entry za1 ! i = (if i \<in> set is then reset_entry (za_entry za ! i) else za_entry za ! i))"
  using assms
proof (induction "is" arbitrary: za)
  case (Cons i js)
  let ?z = "upd_entry i reset_entry za"
  have u: "zip_unchange [] za i True = (0, ?z, [])" using Cons.prems by (simp add: zip_unchange_def)
  from Cons.IH [of ?z] Cons.prems obtain za1 where "unchange_loop [] ?z 0 js = (0, za1, [])" "za_names za1 = za_names za"
    "za_ch_flags za1 = za_ch_flags za" "length (za_entry za1) = length (za_entry za)"
    "\<forall>k < length (za_entry za). za_entry za1 ! k = (if k \<in> set js then reset_entry (za_entry ?z ! k) else za_entry ?z ! k)"
    by auto
  then show ?case using u Cons.prems by (auto)
qed simp

lemma zip_unchange_all_spec:
  assumes ok: "names_ok za" and r: "zip_unchange_all [] za = (r, za1, m1)"
  shows "r = 0" and "m1 = []" and "names_ok za1" and "directory za1 = orig_directory za" and "orig_directory za1 = orig_directory za"
    and "length (za_entry za1) = length (za_entry za)"
proof -
  obtain ok2 h e m2 where v: "zip_hash_revert [] (za_names za) (Some (za_error za)) = (ok2, h, e, m2)" by (metis prod_cases4)
  have inv: "hash_inv (za_names za)" and oix: "indexes (orig_of (za_names za)) (orig_directory za)"
    using ok by (simp_all add: names_ok_def)
  have t: "ok2" "m2 = []" using ni.revert_law [OF inv v] by simp_all
  note h = ni.revert_indexes [OF inv oix v]
  let ?z = "za_put e (za\<lparr>za_names := h\<rparr>)"
  from unchange_loop_spec [of "[0..<length (za_entry za)]" ?z] obtain za2 where
    l: "unchange_loop [] ?z 0 [0..<length (za_entry za)] = (0, za2, [])" "za_names za2 = h"
      "length (za_entry za2) = length (za_entry za)"
      "\<forall>i < length (za_entry za). za_entry za2 ! i = reset_entry (za_entry za ! i)" by auto
  have z: "r = 0" "m1 = []" "za1 = snd (zip_unchange_archive za2)"
    using r v t l(1) by (auto simp: zip_unchange_all_def zip_unchange_archive_def Let_def)
  have a: "za_entry za1 = za_entry za2" "za_names za1 = za_names za2"
    unfolding z(3) by (simp_all add: zip_unchange_archive_def)
  note c = names_ok_cong [OF a]
  have d: "directory za2 = orig_directory za" "orig_directory za2 = orig_directory za"
    using l(3,4) by (auto simp: names_by_def)
  have "list_all entry_wf (za_entry za2)"
    using l(3,4) names_okD(2) [OF ok] by (simp add: list_all_length)
  then have "names_ok za2" using h l(2) d by (simp add: names_ok_def)
  then show "r = 0" "m1 = []" "names_ok za1" "directory za1 = orig_directory za" "orig_directory za1 = orig_directory za"
    "length (za_entry za1) = length (za_entry za)" using z d l(3) a c by simp_all
qed

section \<open>Searching\<close>

lemma same_name_cstr [simp]: "same_name flags a (cstr b) = same_name flags a b"
  by (simp add: same_name_def)

lemma base_name_cstr [simp]: "base_name (cstr b) = base_name b"
  by (simp add: base_name_def)

text \<open>The name an entry is compared by.\<close>

definition search_match :: "u32 \<Rightarrow> bytes \<Rightarrow> bytes option \<Rightarrow> bool" where
  "search_match flags fname nm \<longleftrightarrow> (case nm of None \<Rightarrow> False
     | Some s \<Rightarrow> same_name flags fname (if flag_set flags ZIP_FL_NODIR then base_name s else s))"

text \<open>
  The same without the code's comparison: letters that differ in case at most, and the part of a path
  after its last slash.
\<close>

definition same_letter :: "u8 \<Rightarrow> u8 \<Rightarrow> bool" where
  "same_letter a b \<longleftrightarrow> a = b \<or> 65 \<le> a \<and> a \<le> 90 \<and> b = a + 32 \<or> 65 \<le> b \<and> b \<le> 90 \<and> a = b + 32"

definition last_part :: "bytes \<Rightarrow> bytes \<Rightarrow> bool" where
  "last_part s b \<longleftrightarrow> 47 \<notin> set b \<and> (s = b \<or> (\<exists>p. s = p @ 47 # b))"

definition name_matches :: "u32 \<Rightarrow> bytes \<Rightarrow> bytes option \<Rightarrow> bool" where
  "name_matches flags t nm \<longleftrightarrow> (\<exists>s b. nm = Some s
     \<and> (if flag_set flags ZIP_FL_NODIR then last_part s b else b = s)
     \<and> (if flag_set flags ZIP_FL_NOCASE then list_all2 same_letter t b else b = t))"

lemma same_letters: "list_all2 same_letter xs ys \<longleftrightarrow> map tolower xs = map tolower ys"
proof -
  have "\<not> c + 32 \<le> 90" if "65 \<le> c" "c \<le> 90" for c :: u8
    using that by (simp add: word_le_nat_alt unat_word_ariths)
  then have "same_letter a b \<longleftrightarrow> tolower a = tolower b" for a b
    by (auto simp: same_letter_def tolower_def)
  then have eq: "same_letter = (\<lambda>a b. tolower a = tolower b)" by (intro ext)
  show ?thesis unfolding eq by (induction xs ys rule: list_induct2') simp_all
qed

lemma last_part_base: "cstr s = s \<Longrightarrow> last_part s b \<longleftrightarrow> b = base_name s"
proof
  assume s: "cstr s = s" and "last_part s b"
  then have "rev s = rev b \<or> (\<exists>p. rev s = rev b @ 47 # p)" and b: "47 \<notin> set b"
    by (auto simp: last_part_def)
  moreover have "takeWhile (\<lambda>c. c \<noteq> 47) (rev b @ ys) = rev b @ takeWhile (\<lambda>c. c \<noteq> 47) ys" for ys
    using b by (intro takeWhile_append2) auto
  from this [of "[]"] this [of "47 # p" for p]
  have "takeWhile (\<lambda>c. c \<noteq> 47) (rev b) = rev b" "takeWhile (\<lambda>c. c \<noteq> 47) (rev b @ 47 # p) = rev b" for p by simp_all
  ultimately have "takeWhile (\<lambda>c. c \<noteq> 47) (rev s) = rev b" by auto
  then show "b = base_name s" by (simp add: base_name_def s)
next
  assume s: "cstr s = s" and b: "b = base_name s"
  let ?P = "\<lambda>c :: u8. c \<noteq> 47"
  have "47 \<notin> set b" unfolding b base_name_def by (auto dest: set_takeWhileD)
  moreover have e: "s = rev (dropWhile ?P (rev s)) @ b"
    unfolding b base_name_def s by (metis rev_append rev_rev_ident takeWhile_dropWhile_id)
  moreover have "dropWhile ?P (rev s) = [] \<or> (\<exists>p. dropWhile ?P (rev s) = 47 # p)"
    by (metis (mono_tags, lifting) hd_dropWhile list.collapse)
  ultimately show "last_part s b" unfolding last_part_def by (metis append.assoc append_Cons append_Nil rev.simps)
qed

lemma search_match_names:
  assumes "cstr t = t" and "\<And>s. nm = Some s \<Longrightarrow> cstr s = s"
  shows "search_match flags t nm \<longleftrightarrow> name_matches flags t nm"
proof (cases nm)
  case (Some s)
  note s = assms(2) [OF Some]
  have "cstr (base_name s) = base_name s"
  proof -
    have "0 \<notin> set (cstr s)" by (auto simp: cstr_def dest: set_takeWhileD)
    then have "0 \<notin> set s" by (simp only: s not_False_eq_True)
    then have "0 \<notin> set (base_name s)" unfolding base_name_def s by (auto dest: set_takeWhileD)
    then show ?thesis by (auto simp: cstr_def)
  qed
  then show ?thesis using Some s assms(1) last_part_base [OF s]
    by (auto simp: search_match_def name_matches_def same_name_def same_letters)
qed (simp add: search_match_def name_matches_def)

lemma locate_loop_spec:
  assumes "names_ok za" and "\<not> flag_set flags ZIP_FL_ENC_RAW" "\<not> flag_set flags ZIP_FL_ENC_STRICT"
    and "locate_loop [] za fname flags own is = (r, za1, m1)"
  shows "quiet za za1 \<and> m1 = [] \<and> r = (case find (\<lambda>i. search_match flags fname
      (if flag_set flags ZIP_FL_UNCHANGED then orig_directory za i else directory za i)) is of None \<Rightarrow> -1 | Some i \<Rightarrow> int i)"
  using assms(1,4)
proof (induction "is" arbitrary: za)
  case Nil
  then show ?case by auto
next
  case (Cons i js)
  obtain nm za2 m2 where g: "zip_get_name [] za i flags own = (nm, za2, m2)" by (metis prod_cases3)
  note gs = zip_get_name_spec [OF Cons.prems(1) g assms(2,3)]
  note q = quiet_simps [OF gs(1)]
  let ?dir = "\<lambda>i. if flag_set flags ZIP_FL_UNCHANGED then orig_directory za i else directory za i"
  have ok2: "names_ok za2" using q(4) Cons.prems(1) by simp
  have match: "search_match flags fname (?dir i) = (case nm of None \<Rightarrow> False
      | Some fn \<Rightarrow> same_name flags fname (if flag_set flags ZIP_FL_NODIR then base_name fn else fn))"
    unfolding gs(3) [symmetric] by (cases nm) (simp_all add: search_match_def)
  have rest: ?case if "locate_loop [] za2 fname flags own js = (r, za1, m1)" "\<not> search_match flags fname (?dir i)"
    using Cons.IH [OF ok2 that(1)] that(2) q(2,3) quiet_trans [OF gs(1)] by simp
  show ?case
  proof (cases nm)
    case None
    then show ?thesis using Cons.prems(2) g gs(2) match by (intro rest) simp_all
  next
    case (Some fn)
    show ?thesis
    proof (cases "search_match flags fname (?dir i)")
      case True
      then show ?thesis using Cons.prems(2) g gs match Some by auto
    next
      case False
      then show ?thesis using Cons.prems(2) g gs(2) match Some by (intro rest) simp_all
    qed
  qed
qed

text \<open>With flags that read the present names, a search finds a present entry or none.\<close>

definition plain_search :: "u32 \<Rightarrow> bool" where
  "plain_search flags \<longleftrightarrow> \<not> flag_set flags ZIP_FL_ENC_RAW \<and> \<not> flag_set flags ZIP_FL_ENC_STRICT \<and> \<not> flag_set flags ZIP_FL_UNCHANGED"

lemma zip_name_locate_found:
  assumes ok: "names_ok za" and fl: "plain_search flags" and r: "zip_name_locate [] za name flags own = (i, za1, m1)"
  shows "quiet za za1" and "m1 = []" and "i = -1 \<or> (\<exists>j. i = int j \<and> directory za j \<noteq> None)"
proof -
  let ?post = "quiet za za1 \<and> m1 = [] \<and> (i = -1 \<or> (\<exists>j. i = int j \<and> directory za j \<noteq> None))"
  have tail: ?post
    if q: "quiet za za0" and t: "(if flag_set flags (ZIP_FL_NOCASE OR ZIP_FL_NODIR OR ZIP_FL_ENC_RAW OR ZIP_FL_ENC_STRICT)
          then locate_loop [] za0 fn flags own [0..<length (za_entry za0)]
          else (case zip_hash_lookup (za_names za0) (Some fn) flags (za_err own za0) of
                  (i, e2) \<Rightarrow> (i, za_put e2 za0, []))) = (i, za1, m1)" for za0 fn
  proof -
    have ok0: "names_ok za0" using quiet_simps(4) [OF q] ok by simp
    show ?post
    proof (cases "flag_set flags (ZIP_FL_NOCASE OR ZIP_FL_NODIR OR ZIP_FL_ENC_RAW OR ZIP_FL_ENC_STRICT)")
      case True
      then have "locate_loop [] za0 fn flags own [0..<length (za_entry za0)] = (i, za1, m1)" using t by simp
      from locate_loop_spec [OF ok0 _ _ this] fl have
        l: "quiet za0 za1" "m1 = []" "i = (case find (\<lambda>i. search_match flags fn (directory za0 i)) [0..<length (za_entry za0)] of
            None \<Rightarrow> -1 | Some i \<Rightarrow> int i)" by (simp_all add: plain_search_def)
      then show ?post using quiet_trans [OF q] quiet_simps(2) [OF q]
        by (auto simp: search_match_def find_Some_iff split: option.splits)
    next
      case False
      obtain i2 e2 where l: "zip_hash_lookup (za_names za0) (Some fn) flags (za_err own za0) = (i2, e2)" by (metis surj_pair)
      then have "i = i2" "za1 = za_put e2 za0" "m1 = []" using t False by simp_all
      moreover have "i2 = -1 \<or> (\<exists>j. i2 = int j \<and> directory za0 j \<noteq> None)"
        using l ni.lookup_law [OF names_okD(1) [OF ok0], of fn flags "za_err own za0"] fl cur_of_iff [OF ok0, of fn]
        by (auto simp: plain_search_def split: option.splits)
      ultimately show ?post using q quiet_simps(2) [OF q] by simp
    qed
  qed
  have ?post
  proof (cases name)
    case None
    then show ?thesis using r by (auto simp: zip_name_locate_def)
  next
    case (Some fname)
    show ?thesis
    proof (cases "\<not> flag_set flags (ZIP_FL_ENC_UTF_8 OR ZIP_FL_ENC_RAW) \<and> cstr fname \<noteq> []")
      case False
      then show ?thesis using r Some by (intro tail [of "za_put (za_err own za) za" fname]) (auto simp: zip_name_locate_def Let_def)
    next
      case True
      obtain s e m where nw: "zip_string_new [] fname (length (cstr fname) mod 65536) flags (za_err own za) = (s, e, m)" by (metis prod_cases3)
      show ?thesis
      proof (cases s)
        case None
        then have "m = []" using nw by (auto simp: zip_string_new_def Let_def split: if_splits prod.splits)
        then show ?thesis using r Some True nw None by (auto simp: zip_name_locate_def)
      next
        case s: (Some s1)
        note w = zip_string_new_text [OF nw [unfolded s] length_cstr_le]
        from zip_string_get_text [of "Some s1" 0 "za_err own za"] w(1) obtain t l str1 where
          g: "zip_string_get [] (Some s1) 0 (za_err own za) = (Some (t, l), str1, za_err own za, [])"
          by (auto simp: str_wf_def)
        show ?thesis using r Some True nw s w(3,4) g
          by (intro tail [of "za_put (za_err own za) za" t]) (simp_all add: zip_name_locate_def Let_def)
      qed
    qed
  qed
  then show "quiet za za1" "m1 = []" "i = -1 \<or> (\<exists>j. i = int j \<and> directory za j \<noteq> None)" by simp_all
qed

section \<open>Adding and replacing\<close>

lemma zip_add_entry_spec:
  assumes ok: "names_ok za" and r: "zip_add_entry [] za = (i, za1, m1)"
  shows "m1 = []" and "names_ok za1" and "directory za1 = directory za" and "orig_directory za1 = orig_directory za"
    and "ZIP_IS_RDONLY za1 = ZIP_IS_RDONLY za"
    and "i = -1 \<and> za_entry za1 = za_entry za \<or> i = int (length (za_entry za)) \<and> za_entry za1 = za_entry za @ [zip_entry_init]"
    and "za_names za1 = za_names za"
proof -
  let ?alloc = "za_nentry_alloc za" and ?used = "\<lambda>za. (int (length (za_entry za)), za\<lparr>za_entry := za_entry za @ [zip_entry_init]\<rparr>, [])"
  define twice where "twice = 2 * ?alloc mod 2 ^ 64"
  define nalloc where "nalloc = (?alloc + (if twice < 16 then 16 else if twice > 1024 then 1024 else twice)) mod 2 ^ 64"
  define over where "over = (sizeof_entry * ?alloc mod 2 ^ 64 > sizeof_entry * nalloc mod 2 ^ 64)"
  have eq: "zip_add_entry [] za = (if length (za_entry za) + 1 \<ge> ?alloc
      then if over then (-1, za_set_error ZIP_ER_MEMORY 0 za, []) else ?used (za\<lparr>za_nentry_alloc := nalloc\<rparr>)
      else ?used za)"
    unfolding zip_add_entry_def Let_def twice_def [symmetric] nalloc_def [symmetric] over_def [symmetric]
      malloc.simps option.case prod.case by simp
  have e: "za_names za1 = za_names za" "za_ch_flags za1 = za_ch_flags za" "m1 = []"
    "i = -1 \<and> za_entry za1 = za_entry za \<or> i = int (length (za_entry za)) \<and> za_entry za1 = za_entry za @ [zip_entry_init]"
    using r unfolding eq by (auto simp: za_set_error_def split: if_splits)
  have n: "entry_name zip_entry_init = None" "orig_name zip_entry_init = None" "entry_wf zip_entry_init"
    by (simp_all add: zip_entry_init_def entry_name_def orig_name_def entry_wf_def dirent_wf_def)
  have d: "names_by f za1 = names_by f za" if "f zip_entry_init = None" for f
    using e(4) that by (auto simp: names_by_def fun_eq_iff nth_append less_Suc_eq)
  show dd: "directory za1 = directory za" "orig_directory za1 = orig_directory za" by (intro d n)+
  show "names_ok za1" using ok e(1,4) n(3) dd by (auto simp: names_ok_def)
  show "ZIP_IS_RDONLY za1 = ZIP_IS_RDONLY za" using e(2) by (simp add: ZIP_IS_RDONLY_def)
  show "m1 = []" "za_names za1 = za_names za" by (rule e)+
  show "i = -1 \<and> za_entry za1 = za_entry za \<or> i = int (length (za_entry za)) \<and> za_entry za1 = za_entry za @ [zip_entry_init]"
    by (rule e)
qed

lemma unchange_data_wf:
  assumes wf: "entry_wf e" and del: "\<not> ze_deleted e"
  shows "entry_wf (zip_unchange_data e)" and "entry_name (zip_unchange_data e) = entry_name e"
    and "orig_name (zip_unchange_data e) = orig_name e" and "\<not> ze_deleted (zip_unchange_data e)"
proof -
  have bit: "flag_set (x AND NOT ZIP_DIRENT_COMP_METHOD) ZIP_DIRENT_FILENAME = flag_set x ZIP_DIRENT_FILENAME" for x :: u32
  proof -
    have "(x AND NOT 1) AND 2 = x AND (NOT 1 AND 2)" by (rule and.assoc)
    also have "(NOT 1 AND 2 :: u32) = 2" by simp
    finally show ?thesis by (simp add: flag_set_def)
  qed
  have zero: "\<not> flag_set x ZIP_DIRENT_FILENAME" if "x AND NOT ZIP_DIRENT_COMP_METHOD = 0" for x :: u32
    using bit [of x] that by simp
  have e: "entry_name e = (case ze_changes e of Some c \<Rightarrow> Some (str_text (de_filename c)) | None \<Rightarrow> orig_name e)"
    using del by (simp add: entry_name_def split: option.split)
  show "\<not> ze_deleted (zip_unchange_data e)" "orig_name (zip_unchange_data e) = orig_name e"
    by (simp_all add: zip_unchange_data_def Let_def orig_name_def split: option.split)
  show "entry_name (zip_unchange_data e) = entry_name e" "entry_wf (zip_unchange_data e)"
    using wf del zero bit
    by (cases "ze_changes e"; force simp: zip_unchange_data_def Let_def entry_name_def orig_name_def entry_wf_def dirent_wf_def
        changed_name_def ZIP_ENTRY_CHANGED_def)+
qed

lemma replace_source_spec:
  assumes ok: "names_ok za" and i: "idx < length (za_entry za)" and del: "\<not> ze_deleted (za_entry za ! idx)"
    and r: "replace_source [] za idx src = (r, za1, m1)"
  shows "r = int idx" and "m1 = []" and "names_ok za1" and "directory za1 = directory za" and "orig_directory za1 = orig_directory za"
    and "length (za_entry za1) = length (za_entry za)" and "ZIP_IS_RDONLY za1 = ZIP_IS_RDONLY za"
    and "ze_source (za_entry za1 ! idx) = src"
proof -
  let ?e = "zip_unchange_data (za_entry za ! idx)"
  note u = unchange_data_wf [OF names_okD(2) [OF ok i] del]
  define e1 where "e1 = (if ze_orig ?e \<noteq> None \<and> \<not> ZIP_ENTRY_CHANGED ?e ZIP_DIRENT_COMP_METHOD
    then ?e\<lparr>ze_changes := Some ((case ze_changes ?e of Some c \<Rightarrow> c | None \<Rightarrow> (the (ze_orig ?e))\<lparr>de_changed := 0, de_cloned := True\<rparr>)
      \<lparr>de_comp_method := ZIP_CM_REPLACED_DEFAULT, de_changed := (case ze_changes ?e of Some c \<Rightarrow> de_changed c | None \<Rightarrow> 0) OR ZIP_DIRENT_COMP_METHOD\<rparr>)\<rparr>
    else ?e)\<lparr>ze_source := src\<rparr>"
  have z: "r = int idx" "m1 = []" "za1 = upd_entry idx (\<lambda>_. e1) za"
    using r i by (auto simp: replace_source_def Let_def e1_def zip_dirent_clone_def upd_entry_def split: if_splits option.splits)
  have bit: "flag_set (x OR ZIP_DIRENT_COMP_METHOD) ZIP_DIRENT_FILENAME = flag_set x ZIP_DIRENT_FILENAME" for x :: u32
    by (simp add: flag_set_or) (simp add: flag_set_def)
  have w: "entry_wf e1 \<and> entry_name e1 = entry_name ?e \<and> orig_name e1 = orig_name ?e"
    using u(1,4) unfolding e1_def
    by (cases "ze_changes ?e"; cases "ze_orig ?e")
      (auto simp: entry_wf_def dirent_wf_def entry_name_def orig_name_def changed_name_def ZIP_ENTRY_CHANGED_def bit)
  have "(directory za)(idx := entry_name e1) = directory za" using w u(2) i by (auto simp: names_by_def)
  then have ix: "indexes (cur_of (za_names za)) ((directory za)(idx := entry_name e1))" using ok by (simp add: names_ok_def)
  have n: "names_ok za1" "directory za1 = (directory za)(idx := entry_name e1)" "orig_directory za1 = orig_directory za"
    using names_ok_upd [OF ok i names_okD(1) [OF ok] refl, of "\<lambda>_. e1", OF ix] w u(3) unfolding z(3) by simp_all
  then show "names_ok za1" "directory za1 = directory za" "orig_directory za1 = orig_directory za"
    using \<open>(directory za)(idx := entry_name e1) = directory za\<close> by simp_all
  show "r = int idx" "m1 = []" by (rule z)+
  show "length (za_entry za1) = length (za_entry za)" "ZIP_IS_RDONLY za1 = ZIP_IS_RDONLY za"
    unfolding z(3) by (simp_all add: ZIP_IS_RDONLY_def)
  show "ze_source (za_entry za1 ! idx) = src" using i unfolding z(3) by (simp add: e1_def)
qed

lemma str_text_some: "str_text str \<noteq> [] \<Longrightarrow> \<exists>s. str = Some s"
  by (cases str) simp_all

lemma named_entry:
  assumes "names_ok za" and "directory za idx = Some s" and "s \<noteq> []"
  shows "nameable (za_entry za ! idx)"
proof -
  have v: "idx < length (za_entry za)" "\<not> ze_deleted (za_entry za ! idx)" using visible_entry [OF assms(1)] assms(2) by auto
  have "name_in_force (za_entry za ! idx) \<noteq> None"
    using assms(2,3) v by (auto simp: names_by_def entry_name_def orig_name_def name_in_force_def split: option.splits dest: str_text_some)
  then show ?thesis using v by (auto simp: nameable_def)
qed

lemma truncate_names:
  assumes ok: "names_ok za" and fr: "frame idx za2 za3" and z2: "\<forall>k < length (za_entry za). quiet_entry (za_entry za ! k) (za_entry za2 ! k)"
      "length (za_entry za2) = Suc (length (za_entry za))" "idx = length (za_entry za)"
    and h: "hash_inv (za_names za3)" "cur_of (za_names za3) = cur_of (za_names za)" "orig_of (za_names za3) = orig_of (za_names za)"
  shows "names_ok (za3\<lparr>za_entry := take (length (za_entry za)) (za_entry za3)\<rparr>)"
    and "directory (za3\<lparr>za_entry := take (length (za_entry za)) (za_entry za3)\<rparr>) = directory za"
    and "orig_directory (za3\<lparr>za_entry := take (length (za_entry za)) (za_entry za3)\<rparr>) = orig_directory za"
    and "length (take (length (za_entry za)) (za_entry za3)) = length (za_entry za)"
proof -
  let ?z = "za3\<lparr>za_entry := take (length (za_entry za)) (za_entry za3)\<rparr>"
  have l: "length (za_entry za3) = Suc (length (za_entry za))" using fr z2 by (simp add: frame_def)
  have q: "quiet_entry (za_entry za ! i) (za_entry za3 ! i)" if "i < length (za_entry za)" for i
    using fr z2 that quiet_entry_trans unfolding frame_def by (metis less_Suc_eq nat_neq_iff)
  have d: "names_by f ?z = names_by f za" if "\<And>e e1. quiet_entry e e1 \<Longrightarrow> f e1 = f e" for f
    using that [OF q] l by (auto simp: names_by_def fun_eq_iff)
  show dd: "directory ?z = directory za" "orig_directory ?z = orig_directory za"
    by (intro d quiet_entry_simps; assumption)+
  show "length (take (length (za_entry za)) (za_entry za3)) = length (za_entry za)" using l by simp
  have "list_all entry_wf (za_entry ?z)"
    using quiet_entry_simps(3) [OF q] names_okD(2) [OF ok] l by (auto simp: list_all_length)
  then show "names_ok ?z" using ok h dd by (auto simp: names_ok_def)
qed

text \<open>No entry has the empty name.\<close>

definition named :: "'u zip_t \<Rightarrow> bool" where
  "named za \<longleftrightarrow> (\<forall>i. directory za i \<noteq> Some [])"

lemma replace_position_spec:
  assumes ok: "names_ok za" and fl: "plain_search flags" and r: "replace_position [] za ZIP_UINT64_MAX name flags = (i, za1, m1)"
  shows "m1 = []" and "names_ok za1" and "directory za1 = directory za" and "orig_directory za1 = orig_directory za"
    and "ZIP_IS_RDONLY za1 = ZIP_IS_RDONLY za" and "cur_of (za_names za1) = cur_of (za_names za)" and "orig_of (za_names za1) = orig_of (za_names za)"
    and "i = -1 \<and> length (za_entry za1) = length (za_entry za)
      \<or> (\<exists>j. i = int j \<and> flag_set flags ZIP_FL_OVERWRITE \<and> directory za j \<noteq> None \<and> length (za_entry za1) = length (za_entry za))
      \<or> i = int (length (za_entry za)) \<and> length (za_entry za1) = Suc (length (za_entry za)) \<and> za_entry za1 ! length (za_entry za) = zip_entry_init
         \<and> (\<forall>k < length (za_entry za). quiet_entry (za_entry za ! k) (za_entry za1 ! k))"
proof -
  define loc where "loc = (if flag_set flags ZIP_FL_OVERWRITE then zip_name_locate [] za name flags False else (-1, za, []))"
  obtain i0 za0 m0 where l: "loc = (i0, za0, m0)" by (metis prod_cases3)
  have L: "quiet za za0" "m0 = []" "i0 = -1 \<or> (\<exists>j. i0 = int j \<and> directory za j \<noteq> None \<and> flag_set flags ZIP_FL_OVERWRITE)"
    using l zip_name_locate_found [OF ok fl, of name False i0 za0 m0] by (auto simp: loc_def split: if_splits)
  note q = quiet_simps [OF L(1)]
  have r2: "(if i0 = -1 then zip_add_entry [] za0 else (i0, za0, [])) = (i, za1, m1)"
    using r l L(2) by (simp add: replace_position_def loc_def)
  have "m1 = [] \<and> names_ok za1 \<and> directory za1 = directory za \<and> orig_directory za1 = orig_directory za
    \<and> ZIP_IS_RDONLY za1 = ZIP_IS_RDONLY za \<and> za_names za1 = za_names za
    \<and> (i = -1 \<and> length (za_entry za1) = length (za_entry za)
      \<or> (\<exists>j. i = int j \<and> flag_set flags ZIP_FL_OVERWRITE \<and> directory za j \<noteq> None \<and> length (za_entry za1) = length (za_entry za))
      \<or> i = int (length (za_entry za)) \<and> length (za_entry za1) = Suc (length (za_entry za)) \<and> za_entry za1 ! length (za_entry za) = zip_entry_init
         \<and> (\<forall>k < length (za_entry za). quiet_entry (za_entry za ! k) (za_entry za1 ! k)))"
  proof (cases "i0 = -1")
    case True
    then have a: "zip_add_entry [] za0 = (i, za1, m1)" using r2 by simp
    have ok0: "names_ok za0" using q(4) ok by simp
    note s = zip_add_entry_spec [OF ok0 a]
    from s(6) show ?thesis using s(1-5,7) q by (auto simp: nth_append)
  next
    case False
    then show ?thesis using r2 L(3) q ok by auto
  qed
  then show "m1 = []" "names_ok za1" "directory za1 = directory za" "orig_directory za1 = orig_directory za"
    "ZIP_IS_RDONLY za1 = ZIP_IS_RDONLY za" "cur_of (za_names za1) = cur_of (za_names za)" "orig_of (za_names za1) = orig_of (za_names za)"
    "i = -1 \<and> length (za_entry za1) = length (za_entry za)
      \<or> (\<exists>j. i = int j \<and> flag_set flags ZIP_FL_OVERWRITE \<and> directory za j \<noteq> None \<and> length (za_entry za1) = length (za_entry za))
      \<or> i = int (length (za_entry za)) \<and> length (za_entry za1) = Suc (length (za_entry za)) \<and> za_entry za1 ! length (za_entry za) = zip_entry_init
         \<and> (\<forall>k < length (za_entry za). quiet_entry (za_entry za ! k) (za_entry za1 ! k))" by auto
qed

lemma zip_file_add_spec:
  assumes ok: "names_ok za" and fl: "plain_search flags" and nm: "named za" and big: "length (za_entry za) \<le> ZIP_INT64_MAX"
    and r: "zip_file_add [] za (Some n) (Some src) flags = (r, za1, m1)"
  shows "m1 = []" and "names_ok za1" and "orig_directory za1 = orig_directory za"
    and "r < 0 \<Longrightarrow> directory za1 = directory za \<and> length (za_entry za1) = length (za_entry za)"
    and "0 \<le> r \<Longrightarrow> directory za1 = (directory za)(nat r := Some (name_text n))
      \<and> (nat r = length (za_entry za) \<and> length (za_entry za1) = Suc (length (za_entry za))
         \<or> flag_set flags ZIP_FL_OVERWRITE \<and> directory za (nat r) \<noteq> None \<and> length (za_entry za1) = length (za_entry za))
      \<and> ze_source (za_entry za1 ! nat r) = Some src \<and> (\<forall>j. j \<noteq> nat r \<longrightarrow> directory za j \<noteq> Some (name_text n))"
proof -
  let ?post = "m1 = [] \<and> names_ok za1 \<and> orig_directory za1 = orig_directory za
    \<and> (r < 0 \<longrightarrow> directory za1 = directory za \<and> length (za_entry za1) = length (za_entry za))
    \<and> (0 \<le> r \<longrightarrow> directory za1 = (directory za)(nat r := Some (name_text n))
      \<and> (nat r = length (za_entry za) \<and> length (za_entry za1) = Suc (length (za_entry za))
         \<or> flag_set flags ZIP_FL_OVERWRITE \<and> directory za (nat r) \<noteq> None \<and> length (za_entry za1) = length (za_entry za))
      \<and> ze_source (za_entry za1 ! nat r) = Some src \<and> (\<forall>j. j \<noteq> nat r \<longrightarrow> directory za j \<noteq> Some (name_text n)))"
  have r2: "file_replace [] za ZIP_UINT64_MAX (Some n) (Some src) flags = (r, za1, m1)" using r by (simp add: zip_file_add_def)
  have ?post
  proof (cases "ZIP_IS_RDONLY za")
    case True
    then show ?thesis using r2 ok by (auto simp: file_replace_def)
  next
    case wr: False
    obtain i za2 m2 where p: "replace_position [] za ZIP_UINT64_MAX (Some n) flags = (i, za2, m2)" by (metis prod_cases3)
    note ps = replace_position_spec [OF ok fl p]
    show ?thesis
    proof (cases "i < 0")
      case True
      then show ?thesis using r2 wr p ps ok by (auto simp: file_replace_def)
    next
      case False
      define idx where "idx = nat i"
      have i: "i = int idx" using False by (simp add: idx_def)
      consider (found) "flag_set flags ZIP_FL_OVERWRITE" "directory za idx \<noteq> None" "length (za_entry za2) = length (za_entry za)"
        | (new) "idx = length (za_entry za)" "length (za_entry za2) = Suc (length (za_entry za))" "za_entry za2 ! idx = zip_entry_init"
          "\<forall>k < length (za_entry za). quiet_entry (za_entry za ! k) (za_entry za2 ! k)"
        using ps(8) i by auto
      then have place: "(idx = length (za_entry za) \<and> length (za_entry za2) = Suc (length (za_entry za)) \<and> directory za idx = None
          \<and> (\<forall>k < length (za_entry za). quiet_entry (za_entry za ! k) (za_entry za2 ! k))
          \<or> flag_set flags ZIP_FL_OVERWRITE \<and> directory za idx \<noteq> None \<and> length (za_entry za2) = length (za_entry za))
          \<and> nameable (za_entry za2 ! idx) \<and> idx \<le> ZIP_INT64_MAX"
      proof cases
        case found
        then obtain s where s: "directory za idx = Some s" "s \<noteq> []" using nm by (auto simp: named_def)
        have "nameable (za_entry za2 ! idx)" by (rule named_entry [OF ps(2)]) (use s ps(3) in auto)
        then show ?thesis using found directory_less [OF s(1)] big by simp
      next
        case new
        then show ?thesis using big by (simp add: nameable_def zip_entry_init_def names_by_def)
      qed
      then have where_: "(idx = length (za_entry za) \<and> length (za_entry za2) = Suc (length (za_entry za)) \<and> directory za idx = None
          \<and> (\<forall>k < length (za_entry za). quiet_entry (za_entry za ! k) (za_entry za2 ! k))
          \<or> flag_set flags ZIP_FL_OVERWRITE \<and> directory za idx \<noteq> None \<and> length (za_entry za2) = length (za_entry za))" and able: "nameable (za_entry za2 ! idx)" and small: "idx \<le> ZIP_INT64_MAX" by blast+
      obtain r3 za3 m3 where st: "zip_set_name [] za2 idx (Some n) flags = (r3, za3, m3)" by (metis prod_cases3)
      note ss = zip_set_name_spec [OF ps(2) st, OF conjI [OF able small]]
      show ?thesis
      proof (cases "r3 = 0")
        case True
        note s5 = ss(5) [OF True]
        have vis: "directory za3 idx \<noteq> None" using s5 by simp
        note v = visible_entry [OF _ vis]
        have l3: "length (za_entry za3) = length (za_entry za2)" using ss(2) by (simp add: frame_def)
        obtain r4 za4 m4 where rs: "replace_source [] za3 idx (Some src) = (r4, za4, m4)" by (metis prod_cases3)
        note sp = replace_source_spec [OF _ v(1) v(2) rs]
        have "r = int idx" "za1 = za4" "m1 = []"
          using r2 wr p i st True rs ss(1) ps(1) sp(1,2) s5 by (auto simp: file_replace_def)
        then show ?thesis using sp s5 ps(3,4) where_ l3 by (auto simp: opt_text_def)
      next
        case False
        note s6 = ss(6) [OF False]
        have res: "r = -1" "m1 = []" "za1 = (if length (za_entry za3) \<noteq> length (za_entry za)
            then za3\<lparr>za_entry := take (length (za_entry za)) (za_entry za3)\<rparr> else za3)"
          using r2 wr p i st False ss(1) ps(1) by (auto simp: file_replace_def)
        have l3: "length (za_entry za3) = length (za_entry za2)" using ss(2) by (simp add: frame_def)
        have i3: "idx < length (za_entry za2)" using where_ directory_less [of za idx] by auto
        show ?thesis
        proof (cases "directory za idx = None")
          case new: True
          then have w: "idx = length (za_entry za)" "length (za_entry za2) = Suc (length (za_entry za))"
            "\<forall>k < length (za_entry za). quiet_entry (za_entry za ! k) (za_entry za2 ! k)" using where_ by auto
          have "cur_of (za_names za3) = cur_of (za_names za)" "orig_of (za_names za3) = orig_of (za_names za)"
            using s6 ss(4) ps(6,7) by simp_all
          note tr = truncate_names [OF ok ss(2) w(3,2,1) ss(3) this]
          show ?thesis using tr res l3 w by simp
        next
          case old: False
          then have w: "length (za_entry za2) = length (za_entry za)" using where_ by auto
          have "orig_directory za2 idx = orig_name (za_entry za2 ! idx)" using i3 by (simp add: names_by_def)
          then have "orig_directory za3 = orig_directory za2"
            using frame_names(2) [OF ss(2) i3] s6 i3 by (metis fun_upd_triv)
          then show ?thesis using s6 old ps(3,4) res l3 w by simp
        qed
      qed
    qed
  qed
  then show "m1 = []" "names_ok za1" "orig_directory za1 = orig_directory za"
    "r < 0 \<Longrightarrow> directory za1 = directory za \<and> length (za_entry za1) = length (za_entry za)"
    "0 \<le> r \<Longrightarrow> directory za1 = (directory za)(nat r := Some (name_text n))
      \<and> (nat r = length (za_entry za) \<and> length (za_entry za1) = Suc (length (za_entry za))
         \<or> flag_set flags ZIP_FL_OVERWRITE \<and> directory za (nat r) \<noteq> None \<and> length (za_entry za1) = length (za_entry za))
      \<and> ze_source (za_entry za1 ! nat r) = Some src \<and> (\<forall>j. j \<noteq> nat r \<longrightarrow> directory za j \<noteq> Some (name_text n))" by auto
qed

lemma zip_file_replace_spec:
  assumes ok: "names_ok za" and vis: "directory za idx \<noteq> None" and big: "length (za_entry za) \<le> ZIP_INT64_MAX"
    and r: "zip_file_replace [] za idx (Some src) flags = (r, za1, m1)"
  shows "m1 = []" and "names_ok za1" and "directory za1 = directory za" and "orig_directory za1 = orig_directory za"
    and "r = 0 \<longleftrightarrow> \<not> ZIP_IS_RDONLY za" and "r = 0 \<Longrightarrow> ze_source (za_entry za1 ! idx) = Some src"
    and "length (za_entry za1) = length (za_entry za)"
proof -
  note v = visible_entry [OF ok vis]
  have ix: "idx \<noteq> ZIP_UINT64_MAX" using v(1) big by simp
  obtain r2 za2 m2 where s: "replace_source [] za idx (Some src) = (r2, za2, m2)" by (metis prod_cases3)
  note sp = replace_source_spec [OF ok v s]
  have eq: "zip_file_replace [] za idx (Some src) flags
      = (if ZIP_IS_RDONLY za then (-1, za_set_error ZIP_ER_RDONLY 0 za, []) else (0, za2, []))"
    using v(1) ix s sp(1,2) by (auto simp: zip_file_replace_def file_replace_def replace_position_def)
  show "m1 = []" "names_ok za1" "directory za1 = directory za" "orig_directory za1 = orig_directory za"
    "r = 0 \<longleftrightarrow> \<not> ZIP_IS_RDONLY za" "r = 0 \<Longrightarrow> ze_source (za_entry za1 ! idx) = Some src"
    "length (za_entry za1) = length (za_entry za)"
    using r ok sp unfolding eq by (auto split: if_splits)
qed

lemma zip_file_rename_spec:
  assumes ok: "names_ok za" and big: "length (za_entry za) \<le> ZIP_INT64_MAX"
    and r: "zip_file_rename [] za idx name flags = Some (r, za1, m1)"
  shows "m1 = []" and "names_ok za1" and "orig_directory za1 = orig_directory za"
    and "r = 0 \<Longrightarrow> directory za idx \<noteq> None \<and> directory za1 = (directory za)(idx := Some (opt_text name))
      \<and> (\<forall>j. j \<noteq> idx \<longrightarrow> directory za j \<noteq> Some (opt_text name))"
    and "r \<noteq> 0 \<Longrightarrow> directory za1 = directory za" and "length (za_entry za1) = length (za_entry za)"
proof -
  let ?post = "m1 = [] \<and> names_ok za1 \<and> orig_directory za1 = orig_directory za
    \<and> (r = 0 \<longrightarrow> directory za idx \<noteq> None \<and> directory za1 = (directory za)(idx := Some (opt_text name))
      \<and> (\<forall>j. j \<noteq> idx \<longrightarrow> directory za j \<noteq> Some (opt_text name)))
    \<and> (r \<noteq> 0 \<longrightarrow> directory za1 = directory za) \<and> length (za_entry za1) = length (za_entry za)"
  have quiet: ?post if "quiet za za1" "m1 = []" "r \<noteq> 0" using that quiet_simps [OF that(1)] ok by simp
  obtain nm za2 m2 where g: "zip_get_name [] za idx 0 True = (nm, za2, m2)" by (metis prod_cases3)
  have g1: "quiet za za2" "m2 = []" "map_option cstr nm = directory za idx" using zip_get_name_spec [OF ok g] by simp_all
  note q = quiet_simps [OF g1(1)]
  define long where "long = (case name of None \<Rightarrow> False | Some n \<Rightarrow> length (cstr n) > ZIP_UINT16_MAX)"
  have ?post
  proof (cases "idx \<ge> length (za_entry za) \<or> long \<or> ZIP_IS_RDONLY za \<or> nm = None")
    case True
    then show ?thesis using r g g1 unfolding zip_file_rename_def long_def [symmetric] by (intro quiet) (auto split: if_splits)
  next
    case False
    then obtain n where n: "nm = Some n" and i: "idx < length (za_entry za)" by auto
    have d: "directory za2 idx = Some (cstr n)" using g1(3) n q(2) by simp
    have ok2: "names_ok za2" using q(4) ok by simp
    show ?thesis
    proof (cases "last_is_slash n")
      case None
      then show ?thesis using r g False n unfolding zip_file_rename_def long_def [symmetric] by (auto split: option.splits)
    next
      case (Some old_is_dir)
      then have "cstr n \<noteq> []" by (simp add: last_is_slash_def split: if_splits)
      note able = named_entry [OF ok2 d this]
      from r Some g g1(1,2) False n consider (bad) "quiet za za1" "m1 = []" "r \<noteq> 0"
        | (set) "zip_set_name [] za2 idx name flags = (r, za1, m1)"
        unfolding zip_file_rename_def long_def [symmetric] by (auto split: option.splits if_splits)
      then show ?thesis
      proof cases
        case bad
        then show ?thesis by (rule quiet)
      next
        case set
        have small: "idx \<le> ZIP_INT64_MAX" using i big by simp
        note s = zip_set_name_spec [OF ok2 set, OF conjI [OF able small]]
        have l: "length (za_entry za1) = length (za_entry za2)" using s(2) by (simp add: frame_def)
        have i2: "idx < length (za_entry za2)" using i q(1) by simp
        have "orig_directory za1 = orig_directory za2" if "r \<noteq> 0"
          using frame_names(2) [OF s(2) i2] s(6) [OF that] i2 by (metis fun_upd_triv names_by_def)
        then show ?thesis using s q l d i2 by (cases "r = 0") auto
      qed
    qed
  qed
  then show "m1 = []" "names_ok za1" "orig_directory za1 = orig_directory za"
    "r = 0 \<Longrightarrow> directory za idx \<noteq> None \<and> directory za1 = (directory za)(idx := Some (opt_text name))
      \<and> (\<forall>j. j \<noteq> idx \<longrightarrow> directory za j \<noteq> Some (opt_text name))"
    "r \<noteq> 0 \<Longrightarrow> directory za1 = directory za" "length (za_entry za1) = length (za_entry za)" by simp_all
qed

section \<open>Calls on an archive\<close>

text \<open>
  One call on an archive, while memory lasts, with names that are not empty. Replacing the data of a deleted entry
  is left out: it makes the entry visible again without its name in the table (see below).
\<close>

inductive archive_step :: "'u zip_t \<Rightarrow> 'u zip_t \<Rightarrow> bool" where
  locate: "zip_name_locate [] za name flags True = (r, za1, m) \<Longrightarrow> plain_search flags \<Longrightarrow> archive_step za za1"
| add: "zip_file_add [] za (Some n) (Some src) flags = (r, za1, m) \<Longrightarrow> plain_search flags \<Longrightarrow> name_text n \<noteq> [] \<Longrightarrow>
    length (za_entry za) < ZIP_INT64_MAX \<Longrightarrow> archive_step za za1"
| replace: "zip_file_replace [] za idx (Some src) flags = (r, za1, m) \<Longrightarrow> directory za idx \<noteq> None \<Longrightarrow> archive_step za za1"
| rename: "zip_file_rename [] za idx name flags = Some (r, za1, m) \<Longrightarrow> opt_text name \<noteq> [] \<Longrightarrow> archive_step za za1"
| delete: "zip_delete [] za idx = (r, za1, m) \<Longrightarrow> archive_step za za1"
| unchange: "zip_unchange [] za idx False = (r, za1, m) \<Longrightarrow> archive_step za za1"
| unchange_all: "zip_unchange_all [] za = (r, za1, m) \<Longrightarrow> archive_step za za1"

definition archive_inv :: "'u zip_t \<Rightarrow> bool" where
  "archive_inv za \<longleftrightarrow> names_ok za \<and> named za \<and> (\<forall>i. orig_directory za i \<noteq> Some []) \<and> length (za_entry za) \<le> ZIP_INT64_MAX"

inductive_cases archive_stepE: "archive_step za za1"

lemma step_refines:
  assumes "archive_step za za1" and inv: "archive_inv za"
  shows "archive_inv za1 \<and> orig_directory za1 = orig_directory za"
proof -
  have ok: "names_ok za" and nm: "named za" and on: "\<forall>i. orig_directory za i \<noteq> Some []" and big: "length (za_entry za) \<le> ZIP_INT64_MAX"
    using inv by (simp_all add: archive_inv_def)
  have fin: ?thesis if "names_ok za1" "orig_directory za1 = orig_directory za"
    "\<And>i. directory za1 i \<noteq> Some []" "length (za_entry za1) \<le> ZIP_INT64_MAX"
    using that on by (simp add: archive_inv_def named_def)
  have nm': "directory za i \<noteq> Some []" for i using nm by (simp add: named_def)
  from assms(1) show ?thesis
  proof cases
    case (locate name flags r m)
    note q = quiet_simps [OF zip_name_locate_found(1) [OF ok locate(2,1)]]
    show ?thesis by (rule fin) (use q ok nm' big in simp_all)
  next
    case (add n src flags r m)
    have le: "length (za_entry za) \<le> ZIP_INT64_MAX" using add(4) by simp
    note s = zip_file_add_spec [OF ok add(2) nm le add(1)]
    show ?thesis
    proof (cases "r < 0")
      case True
      then show ?thesis using s nm' big by (intro fin) simp_all
    next
      case False
      then have s5: "directory za1 = (directory za)(nat r := Some (name_text n))" "\<And>j. j \<noteq> nat r \<Longrightarrow> directory za j \<noteq> Some (name_text n)"
        "length (za_entry za1) \<le> Suc (length (za_entry za))" using s(5) by auto
      show ?thesis
        by (rule fin) (use s5 s(2,3) nm' add(3,4) in auto)
    qed
  next
    case (replace idx src flags r m)
    note s = zip_file_replace_spec [OF ok replace(2) big replace(1)]
    show ?thesis by (rule fin) (use s nm' big in simp_all)
  next
    case (rename idx name flags r m)
    note s = zip_file_rename_spec [OF ok big rename(1)]
    show ?thesis
    proof (cases "r = 0")
      case True
      note s4 = s(4) [OF True]
      show ?thesis using s s4 nm' big rename(2) by (intro fin) simp_all
    next
      case False
      then show ?thesis using s nm' big by (intro fin) simp_all
    qed
  next
    case (delete idx r m)
    note s = zip_delete_spec [OF ok delete]
    show ?thesis
      by (rule fin) (use s nm' big in \<open>auto split: if_splits\<close>)
  next
    case (unchange idx r m)
    note s = zip_unchange_spec [OF ok big unchange]
    show ?thesis
      by (rule fin) (use s nm' on big in \<open>auto split: if_splits\<close>)
  next
    case (unchange_all r m)
    note s = zip_unchange_all_spec [OF ok unchange_all]
    show ?thesis by (rule fin) (use s on big in simp_all)
  qed
qed

section \<open>Properties\<close>

text \<open>The archive with no entries.\<close>

lemma sample_archive_inv: "archive_inv sample_archive" and sample_archive_dir: "directory sample_archive i = None"
  "orig_directory sample_archive i = None"
  and sample_archive_small: "za_entry sample_archive = []" "\<not> ZIP_IS_RDONLY sample_archive" "za_nentry_alloc sample_archive = 0"
proof -
  have e: "za_entry sample_archive = []" "za_names sample_archive = the (fst (zip_hash_new [] None))"
    by (simp_all add: sample_archive_def)
  have "zip_hash_new [] None = (Some (the (fst (zip_hash_new [] None))), None, [])"
    by (simp add: zip_hash_new_def split: prod.split)
  from zip_hash_new_spec [OF this] have h: "hash_inv (za_names sample_archive)"
    "cur_of (za_names sample_archive) n = None" "orig_of (za_names sample_archive) n = None" for n
    by (simp_all add: e)
  show d: "directory sample_archive i = None" "orig_directory sample_archive i = None" by (simp_all add: names_by_def e)
  have "indexes (cur_of (za_names sample_archive)) (directory sample_archive)"
    "indexes (orig_of (za_names sample_archive)) (orig_directory sample_archive)"
    by (simp_all add: indexes_def names_by_def e(1) h)
  then show "archive_inv sample_archive" using h(1) e(1)
    by (simp add: archive_inv_def names_ok_def named_def names_by_def)
  show "za_entry sample_archive = []" "\<not> ZIP_IS_RDONLY sample_archive" "za_nentry_alloc sample_archive = 0"
    by (simp_all add: sample_archive_def ZIP_IS_RDONLY_def)
qed

lemma steps_refine:
  assumes "archive_step\<^sup>*\<^sup>* za za1" and "archive_inv za"
  shows "archive_inv za1 \<and> orig_directory za1 = orig_directory za"
  using assms
proof (induction rule: rtranclp_induct)
  case (step y z)
  then show ?case using step_refines [of y z] by simp
qed simp

text \<open>A fresh name is always accepted.\<close>

lemma set_name_string_guess:
  assumes "cstr n = [] \<or> length (cstr n) mod 2 ^ 16 \<noteq> 0"
  shows "fst (set_name_string [] (Some n) 0 error) \<noteq> None"
  using assms by (auto simp: set_name_string_def zip_string_new_def Let_def split: prod.splits option.splits)

lemma zip_add_entry_grows:
  assumes "za_nentry_alloc za < 2 ^ 50"
  shows "fst (zip_add_entry [] za) = int (length (za_entry za))"
proof -
  let ?a = "za_nentry_alloc za"
  have "2 * ?a mod 2 ^ 64 = 2 * ?a" using assms by simp
  moreover have "(?a + x) mod 2 ^ 64 = ?a + x" if "x \<le> 1024" for x using assms that by simp
  moreover have "sizeof_entry * y mod 2 ^ 64 = sizeof_entry * y" if "y \<le> ?a + 1024" for y using assms that by simp
  ultimately show ?thesis by (simp add: zip_add_entry_def Let_def)
qed

lemma zip_file_add_fresh:
  assumes ok: "names_ok za" and wr: "\<not> ZIP_IS_RDONLY za"
    and big: "length (za_entry za) \<le> ZIP_INT64_MAX" "za_nentry_alloc za < 2 ^ 50"
    and nm: "cstr n = [] \<or> length (cstr n) mod 2 ^ 16 \<noteq> 0" and fresh: "\<forall>j. directory za j \<noteq> Some (name_text n)"
  shows "fst (zip_file_add [] za (Some n) (Some src) 0) = int (length (za_entry za))"
proof -
  let ?k = "length (za_entry za)"
  obtain i za1 m1 where a: "zip_add_entry [] za = (i, za1, m1)" by (metis prod_cases3)
  note s = zip_add_entry_spec [OF ok a]
  have i: "i = int ?k" "za_entry za1 = za_entry za @ [zip_entry_init]" using zip_add_entry_grows [OF big(2)] s(6) a by auto
  obtain r za2 m2 where b: "zip_set_name m1 za1 ?k (Some n) 0 = (r, za2, m2)" by (metis prod_cases3)
  have init: "nameable (zip_entry_init :: 'a zip_entry)" by (simp add: nameable_def name_in_force_def zip_entry_init_def)
  have t: "opt_text (Some n) = name_text n" by (simp add: opt_text_def)
  note z = zip_set_name_spec [OF s(2) b [unfolded s(1)], of]
  have able: "?k < length (za_entry za1) \<Longrightarrow> nameable (za_entry za1 ! ?k) \<and> ?k \<le> ZIP_INT64_MAX"
    using i(2) init big(1) by simp
  have r: "r = 0" using z(7) [OF able] wr s(3,5) i(2) set_name_string_guess [OF nm] fresh t by simp
  from z(5) [OF able this] have ok2: "names_ok za2" and d2: "directory za2 ?k = Some (name_text n)" using t by simp_all
  then have v: "?k < length (za_entry za2)" "\<not> ze_deleted (za_entry za2 ! ?k)" using visible_entry [of za2 ?k] by simp_all
  obtain r3 za3 m3 where c: "replace_source m2 za2 ?k (Some src) = (r3, za3, m3)" by (metis prod_cases3)
  have "m2 = []" using z(1) [OF able] by simp
  with replace_source_spec(1) [OF ok2 v c [unfolded this]] have "r3 = int ?k" by simp
  moreover have "file_replace [] za ZIP_UINT64_MAX (Some n) (Some src) 0 = (r3, za3, m3)"
    using wr a b c i(1) r by (simp add: file_replace_def replace_position_def Let_def)
  ultimately show ?thesis by (simp add: zip_file_add_def)
qed

text \<open>An archive with one entry, named \<open>a\<close>, as reading it from a file leaves it.\<close>

definition sample_one :: "read_ctx zip_t" where
  "sample_one = sample_archive\<lparr>
     za_entry := [zip_entry_init\<lparr>ze_orig := Some (zip_dirent_init\<lparr>de_filename := Some
       \<lparr>zs_raw = [97, 0], zs_length = 1, zs_encoding = ZIP_ENCODING_ASCII, zs_converted = None, zs_converted_length = 0\<rparr>\<rparr>)\<rparr>],
     za_names := fst (snd (zip_hash_add [] (za_names sample_archive) (Some [97]) 0 ZIP_FL_UNCHANGED None))\<rparr>"

lemma sample_one_ok: "names_ok sample_one" and sample_one_dir: "directory sample_one = [0 \<mapsto> [97]]" "orig_directory sample_one = [0 \<mapsto> [97]]"
  and sample_one_small: "length (za_entry sample_one) = 1" "\<not> ZIP_IS_RDONLY sample_one" "\<not> ze_deleted (za_entry sample_one ! 0)"
proof -
  let ?h = "za_names sample_archive"
  have h0: "hash_inv ?h" "cur_of ?h n = None" "orig_of ?h n = None" for n
    using sample_archive_inv sample_archive_dir cur_of_iff [of sample_archive n] orig_of_iff [of sample_archive n]
    by (auto simp: archive_inv_def names_ok_def)
  obtain ok h e m where a: "zip_hash_add [] ?h (Some [97]) 0 ZIP_FL_UNCHANGED None = (ok, h, e, m)" by (metis prod_cases4)
  have ok: "ok = True" using ni.add_result_law [OF h0(1) a] h0 by simp
  note lw = ni.add_ok_law [OF h0(1) a [unfolded ok]]
  have names: "za_names sample_one = h" by (simp add: sample_one_def a)
  have tx: "str_text (Some \<lparr>zs_raw = [97, 0], zs_length = 1, zs_encoding = ZIP_ENCODING_ASCII, zs_converted = None,
      zs_converted_length = 0\<rparr>) = [97]"
    by code_simp
  show d: "directory sample_one = [0 \<mapsto> [97]]" "orig_directory sample_one = [0 \<mapsto> [97]]"
    using tx by (auto simp: sample_one_def names_by_def entry_name_def orig_name_def zip_entry_init_def fun_eq_iff)
  show "length (za_entry sample_one) = 1" "\<not> ZIP_IS_RDONLY sample_one" "\<not> ze_deleted (za_entry sample_one ! 0)"
    by (simp_all add: sample_one_def sample_archive_def ZIP_IS_RDONLY_def zip_entry_init_def)
  have c: "cstr [97] = [97]" by code_simp
  have wf: "string_wf \<lparr>zs_raw = [97, 0], zs_length = 1, zs_encoding = ZIP_ENCODING_ASCII, zs_converted = None,
      zs_converted_length = 0\<rparr>"
    by (simp add: string_wf_def) code_simp
  have "flag_set ZIP_FL_UNCHANGED ZIP_FL_UNCHANGED" by code_simp
  then show "names_ok sample_one" using lw h0 wf unfolding names_ok_def names indexes_def d
    by (auto simp: c sample_one_def entry_wf_def dirent_wf_def str_wf_def zip_entry_init_def)
qed

lemma locate_answer:
  assumes ok: "names_ok za" and len: "0 < length (cstr n)" "length (cstr n) < 65536"
  shows "fst (zip_name_locate [] za (Some n) 0 own) = int j \<longleftrightarrow> directory za j = Some (name_text n)"
proof -
  obtain i za1 m1 where l: "zip_name_locate [] za (Some n) 0 own = (i, za1, m1)" by (metis prod_cases3)
  have i: "i = position za (name_text n)" using zip_name_locate_spec(3) [OF ok l] len by auto
  have c: "cstr (name_text n) = name_text n" by (simp add: name_text_def show_bytes_def)
  from position_cases [OF ok, of "name_text n"] show ?thesis
  proof (elim disjE exE conjE)
    fix k assume k: "position za (name_text n) = int k" "directory za k = Some (cstr (name_text n))"
    then show ?thesis using l i c directory_inject [OF ok k(2), of j] by auto
  qed (use l i c in simp)
qed

lemma name_text_a: "name_text [97] = [97]" "0 < length (cstr [97 :: u8])" "length (cstr [97 :: u8]) < 65536"
proof -
  have c: "cstr [97 :: u8] = [97]" by code_simp
  have "show_bytes [97] = [97]" by code_simp
  then show "name_text [97] = [97]" by (simp add: name_text_def c)
  show "0 < length (cstr [97 :: u8])" "length (cstr [97 :: u8]) < 65536" by (simp_all add: c)
qed

lemma sample_add_steps: "archive_step\<^sup>*\<^sup>* sample_archive (fst (snd (zip_file_add [] sample_archive (Some [97]) (Some sample_writer) 0)))"
proof -
  obtain r za1 m1 where a: "zip_file_add [] sample_archive (Some [97]) (Some sample_writer) 0 = (r, za1, m1)" by (metis prod_cases3)
  have "archive_step sample_archive za1"
    by (rule archive_step.add [OF a]) (simp_all add: plain_search_def sample_archive_small name_text_a)
  then show ?thesis by (simp add: a)
qed

text \<open>
  C4. Invariant: after any sequence of searches, additions, renamings, deletions, restorations and replacements of
  the data of entries that are present, no two entries have the same name, and
  \<open>_zip_name_locate\<close> answers a position exactly when the entry there has the name asked for. Replacing the data of a
  deleted entry breaks this, as shown below.
\<close>

theorem archive_names_unique:
  assumes "archive_inv za" and "archive_step\<^sup>*\<^sup>* za za1" and "0 < length (cstr n)" and "length (cstr n) < 65536"
  shows "(\<forall>i j t. directory za1 i = Some t \<and> directory za1 j = Some t \<longrightarrow> i = j)
    \<and> (\<forall>j own. fst (zip_name_locate [] za1 (Some n) 0 own) = int j \<longleftrightarrow> directory za1 j = Some (name_text n))"
proof -
  have ok: "names_ok za1" using steps_refine [OF assms(2,1)] by (simp add: archive_inv_def)
  show ?thesis using directory_inject [OF ok] locate_answer [OF ok assms(3,4)] by blast
qed

theorem archive_names_unique_witness:
  "\<exists>za1 :: read_ctx zip_t. (fst (zip_name_locate [] za1 (Some [97]) 0 True) = 0 \<longleftrightarrow> directory za1 0 = Some (name_text [97]))
     \<and> za1 = fst (snd (zip_file_add [] sample_archive (Some [97]) (Some sample_writer) 0))"
proof -
  show ?thesis using archive_names_unique [OF sample_archive_inv sample_add_steps name_text_a(2,3), THEN conjunct2, rule_format, of True 0]
    by simp
qed

text \<open>
  C11. Liveness: while memory lasts, \<open>zip_file_add\<close> with a name no entry has succeeds: it appends one
  entry with this name and source, and leaves the other names alone.
\<close>

theorem zip_file_add_succeeds:
  assumes inv: "archive_inv za" and wr: "\<not> ZIP_IS_RDONLY za" and alloc: "za_nentry_alloc za < 2 ^ 50"
    and nm: "0 < length (cstr n)" "length (cstr n) < 65536" and fresh: "\<forall>j. directory za j \<noteq> Some (name_text n)"
  shows "\<exists>za1. zip_file_add [] za (Some n) (Some src) 0 = (int (length (za_entry za)), za1, [])
    \<and> directory za1 = (directory za)(length (za_entry za) := Some (name_text n))
    \<and> ze_source (za_entry za1 ! length (za_entry za)) = Some src"
proof -
  have ok: "names_ok za" and nm': "named za" and big: "length (za_entry za) \<le> ZIP_INT64_MAX" using inv by (simp_all add: archive_inv_def)
  have fl: "plain_search 0" by (simp add: plain_search_def)
  obtain r za1 m1 where a: "zip_file_add [] za (Some n) (Some src) 0 = (r, za1, m1)" by (metis prod_cases3)
  have "r = int (length (za_entry za))" using zip_file_add_fresh [OF ok wr big alloc _ fresh, of src] nm a by simp
  then show ?thesis using zip_file_add_spec(1,5) [OF ok fl nm' big a] a by auto
qed

theorem zip_file_add_succeeds_witness:
  "\<exists>za1. zip_file_add [] sample_archive (Some [97]) (Some sample_writer) 0 = (0, za1, []) \<and> directory za1 0 = Some [97]"
proof -
  have "za_nentry_alloc sample_archive < 2 ^ 50" "\<forall>j. directory sample_archive j \<noteq> Some (name_text [97])"
    by (simp_all add: sample_archive_small sample_archive_dir)
  from zip_file_add_succeeds [OF sample_archive_inv sample_archive_small(2) this(1) name_text_a(2,3) this(2), of sample_writer]
  show ?thesis by (auto simp: sample_archive_small name_text_a)
qed

text \<open>
  C12. After any sequence of the calls of \<open>archive_step\<close>, \<open>zip_unchange_all\<close> puts every name back as it was when the archive
  was opened, and cannot fail while memory lasts.
\<close>

theorem zip_unchange_all_restores:
  assumes "archive_inv za" and "archive_step\<^sup>*\<^sup>* za za1"
  shows "\<exists>za2. zip_unchange_all [] za1 = (0, za2, []) \<and> archive_inv za2 \<and> directory za2 = orig_directory za"
proof -
  have s: "archive_inv za1" "orig_directory za1 = orig_directory za" using steps_refine [OF assms(2,1)] by simp_all
  from s(1) have ok: "names_ok za1" and on: "\<forall>i. orig_directory za1 i \<noteq> Some []" and big: "length (za_entry za1) \<le> ZIP_INT64_MAX"
    by (simp_all add: archive_inv_def)
  obtain r za2 m where u: "zip_unchange_all [] za1 = (r, za2, m)" by (metis prod_cases3)
  note v = zip_unchange_all_spec [OF ok u]
  have "archive_inv za2" using v on big by (simp add: archive_inv_def named_def)
  then show ?thesis using u v s by simp
qed

theorem zip_unchange_all_restores_witness:
  "\<exists>za2. zip_unchange_all [] (fst (snd (zip_file_add [] sample_archive (Some [97]) (Some sample_writer) 0))) = (0, za2, [])
     \<and> directory za2 0 = None"
  using zip_unchange_all_restores [OF sample_archive_inv sample_add_steps] by (auto simp: sample_archive_dir)

text \<open>
  C22. A search that ignores case or directories answers the first entry that matches, in the order of
  the archive, and -1 when none does. Ignoring case, letters match when they are the same or the two
  cases of one ASCII letter; ignoring directories, only the part of the entry's name after its last
  slash counts, the whole name when it has none.
\<close>

theorem zip_name_locate_first:
  assumes ok: "names_ok za" and n: "0 < length (cstr n)" "length (cstr n) < 65536"
    and fl: "flags \<in> {ZIP_FL_NOCASE, ZIP_FL_NODIR, ZIP_FL_NOCASE OR ZIP_FL_NODIR}"
  shows "fst (zip_name_locate [] za (Some n) flags own)
    = (case find (\<lambda>i. name_matches flags (name_text n) (directory za i)) [0..<length (za_entry za)] of
         None \<Rightarrow> -1 | Some i \<Rightarrow> int i)"
proof -
  let ?len = "length (cstr n) mod 65536"
  have f: "\<not> flag_set flags (ZIP_FL_ENC_UTF_8 OR ZIP_FL_ENC_RAW)" "flag_set flags (ZIP_FL_NOCASE OR ZIP_FL_NODIR OR ZIP_FL_ENC_RAW OR ZIP_FL_ENC_STRICT)"
    "\<not> flag_set flags ZIP_FL_ENC_RAW" "\<not> flag_set flags ZIP_FL_ENC_STRICT" "\<not> flag_set flags ZIP_FL_UNCHANGED"
    "flags AND ZIP_FL_ENCODING_ALL = ZIP_FL_ENC_GUESS"
    using fl by (auto simp: flag_set_def)
  have "fst (zip_string_new [] n ?len flags (za_err own za)) \<noteq> None"
    using n f(6) by (simp add: zip_string_new_def Let_def)
  then obtain s e m where nw: "zip_string_new [] n ?len flags (za_err own za) = (Some s, e, m)" by (metis prod_cases3 fst_conv not_None_eq)
  note s = zip_string_new_text [OF this length_cstr_le]
  from zip_string_get_text [of "Some s" 0 "za_err own za"] s(1) obtain t l str1 where
    g: "zip_string_get [] (Some s) 0 (za_err own za) = (Some (t, l), str1, za_err own za, [])" "cstr t = str_text (Some s)"
    by (auto simp: str_wf_def)
  define za0 where "za0 = za_put (za_err own za) za"
  have q: "quiet za za0" by (simp add: za0_def)
  obtain r za1 m1 where lp: "locate_loop [] za0 t flags own [0..<length (za_entry za)] = (r, za1, m1)" by (metis prod_cases3)
  have sm: "search_match flags t = search_match flags (name_text n)"
    using g(2) s(2) by (simp add: search_match_def fun_eq_iff same_name_def name_text_def show_bytes_def split: option.split)
  have names: "search_match flags (name_text n) (directory za i) = name_matches flags (name_text n) (directory za i)" for i
    by (rule search_match_names [OF cstr_name_text directory_cstr(1)])
  have "zip_name_locate [] za (Some n) flags own = (r, za1, m1)"
    using n f nw g(1) s(3,4) lp unfolding zip_name_locate_def by (simp add: Let_def za0_def)
  then show ?thesis using locate_loop_spec [OF _ f(3,4) lp] quiet_simps [OF q] ok f(5) sm names by simp
qed

theorem zip_name_locate_first_witness:
  "fst (zip_name_locate [] sample_one (Some [65]) (ZIP_FL_NOCASE OR ZIP_FL_NODIR) True) = 0"
proof -
  have c: "cstr [65 :: u8] = [65]" by code_simp
  have "show_bytes [65] = [65]" by code_simp
  then have t: "name_text [65] = [65]" by (simp add: name_text_def c)
  have "last_part [97] [97]" "list_all2 same_letter [65] [97]" by (simp_all add: last_part_def same_letter_def)
  then have "name_matches (ZIP_FL_NOCASE OR ZIP_FL_NODIR) [65] (Some [97])" by (auto simp: name_matches_def flag_set_def)
  then show ?thesis using zip_name_locate_first [OF sample_one_ok, of "[65]" "ZIP_FL_NOCASE OR ZIP_FL_NODIR" True]
    by (simp add: c t sample_one_small sample_one_dir)
qed

text \<open>
  C32. Error: \<open>zip_file_rename\<close> with an empty new name on an entry that can be seen reads the byte
  before the caller's string (\<open>name[strlen(name) - 1]\<close>); so does any rename of an entry whose name is
  empty.
\<close>

theorem zip_file_rename_reads_before_string:
  assumes ok: "names_ok za" and wr: "\<not> ZIP_IS_RDONLY za" and vis: "directory za idx = Some old"
    and nm: "length (cstr n) \<le> ZIP_UINT16_MAX" and empty: "cstr n = [] \<or> old = []"
  shows "zip_file_rename [] za idx (Some n) flags = None"
proof -
  obtain r za1 m1 where g: "zip_get_name [] za idx 0 True = (r, za1, m1)" by (metis prod_cases3)
  have "map_option cstr r = Some old" using zip_get_name_spec(3) [OF ok g] vis by simp
  then obtain o1 where r: "r = Some o1" "cstr o1 = old" by (cases r) auto
  have "idx < length (za_entry za)" using directory_less [OF vis] .
  then show ?thesis using wr g r nm empty by (auto simp: zip_file_rename_def last_is_slash_def split: option.split)
qed

theorem zip_file_rename_reads_before_string_witness:
  "zip_file_rename [] sample_one 0 (Some []) 0 = None"
  by (rule zip_file_rename_reads_before_string [OF sample_one_ok sample_one_small(2), of 0 "[97]"])
    (simp_all add: sample_one_dir)

text \<open>
  C33. Error: the length of the name searched for is cut to 16 bits: a text of 65536 + k bytes finds the
  entry whose name is its first k bytes.
\<close>

theorem zip_name_locate_cuts_length:
  assumes ok: "names_ok za" and len: "length (cstr n) = 65536 + k" "0 < k" "k < 65536"
  shows "fst (zip_name_locate [] za (Some n) 0 own) = int j \<longleftrightarrow> directory za j = Some (show_bytes (take k n))"
proof -
  obtain i za1 m1 where l: "zip_name_locate [] za (Some n) 0 own = (i, za1, m1)" by (metis prod_cases3)
  have t: "name_text n = show_bytes (take k n)" using len by (simp add: name_text_def)
  have "cstr n \<noteq> []" using len by auto
  then have i: "i = position za (show_bytes (take k n))" using zip_name_locate_spec(3) [OF ok l] len t by simp
  have c: "cstr (show_bytes (take k n)) = show_bytes (take k n)" by (simp add: show_bytes_def)
  from position_cases [OF ok, of "show_bytes (take k n)"] show ?thesis
  proof (elim disjE exE conjE)
    fix p assume p: "position za (show_bytes (take k n)) = int p" "directory za p = Some (cstr (show_bytes (take k n)))"
    then show ?thesis using l i c directory_inject [OF ok p(2), of j] by auto
  qed (use l i c in simp)
qed

theorem zip_name_locate_cuts_length_witness:
  "fst (zip_name_locate [] sample_one (Some (replicate 65537 97)) 0 True) = 0"
proof -
  have "cstr (replicate k (97 :: u8)) = replicate k 97" for k by (induction k) (simp_all add: cstr_def)
  then have l: "length (cstr (replicate 65537 (97 :: u8))) = 65536 + 1" by (simp only: length_replicate)
  have "replicate 65537 (97 :: u8) = 97 # replicate 65536 97" using replicate_Suc [of 65536 "97 :: u8"] by (simp only: Suc_numeral) simp
  then have t: "take 1 (replicate 65537 (97 :: u8)) = [97]" by (simp only: take_Cons') simp
  have "show_bytes [97] = [97]" by code_simp
  then show ?thesis
    using zip_name_locate_cuts_length [OF sample_one_ok l, of True 0] by (simp only: t) (simp add: sample_one_dir)
qed

text \<open>
  C34. Error: replacing the data of a deleted entry makes the entry visible again under its original
  name, but the name is not put back into the table: the entry is listed and cannot be found, and its
  name can be given to another entry.
\<close>

theorem zip_file_replace_deleted_not_found:
  assumes ok: "names_ok za" and wr: "\<not> ZIP_IS_RDONLY za" and big: "length (za_entry za) \<le> ZIP_INT64_MAX"
    and d: "directory za idx = Some (name_text n)"
    and o: "orig_directory za idx = Some (name_text n)" and len: "0 < length (cstr n)" "length (cstr n) < 65536"
  shows "\<exists>za1 za2. zip_delete [] za idx = (0, za1, []) \<and> zip_file_replace [] za1 idx (Some src) 0 = (0, za2, [])
    \<and> directory za2 idx = Some (name_text n) \<and> fst (zip_name_locate [] za2 (Some n) 0 own) = -1"
proof -
  obtain r za1 m1 where del: "zip_delete [] za idx = (r, za1, m1)" by (metis prod_cases3)
  note s = zip_delete_spec [OF ok del]
  have r: "r = 0" using s(4) wr d by simp
  then have d1: "directory za1 = (directory za)(idx := None)" using s(5) by simp
  have i: "idx < length (za_entry za1)" using directory_less [OF d] s(6) by simp
  let ?e = "za_entry za1 ! idx"
  have "entry_name ?e = None" using fun_cong [OF d1, of idx] i by (simp add: names_by_def)
  moreover have on: "orig_name ?e = Some (name_text n)" using fun_cong [OF s(3), of idx] o i by (simp add: names_by_def)
  ultimately have e: "ze_changes ?e = None" "ze_orig ?e \<noteq> None" "orig_name ?e = Some (name_text n)"
    by (auto simp: entry_name_def orig_name_def split: option.splits)
  then obtain oe where oe: "ze_orig ?e = Some oe" by blast
  define c where "c = oe\<lparr>de_cloned := True, de_comp_method := ZIP_CM_REPLACED_DEFAULT, de_changed := ZIP_DIRENT_COMP_METHOD\<rparr>"
  define za2 where "za2 = upd_entry idx (\<lambda>e. e\<lparr>ze_deleted := False, ze_changes := Some c, ze_source := Some src\<rparr>) za1"
  have "replace_source [] za1 idx (Some src) = (int idx, za2, [])"
    using e(1) oe i by (simp add: replace_source_def zip_unchange_data_def Let_def ZIP_ENTRY_CHANGED_def zip_dirent_clone_def
        upd_entry_def za2_def c_def)
  then have rep: "zip_file_replace [] za1 idx (Some src) 0 = (0, za2, [])"
    using wr s(6,7) i big by (simp add: zip_file_replace_def file_replace_def replace_position_def)
  have d2: "directory za2 idx = Some (name_text n)"
    using e(3) oe i by (simp add: za2_def names_by_def entry_name_def orig_name_def c_def upd_entry_def)
  have nf: "position za1 (name_text n) = -1"
    using position_cases [OF s(2), of "name_text n"] directory_inject [OF ok _ d] d1
    by (auto simp: name_text_def show_bytes_def split: if_splits)
  have h: "za_names za2 = za_names za1" by (simp add: za2_def upd_entry_def)
  obtain i3 za3 m3 where l: "zip_name_locate [] za2 (Some n) 0 own = (i3, za3, m3)" by (metis prod_cases3)
  have "i3 = -1" using zip_name_locate_hash(3) [OF _ l] names_okD(1) [OF s(2)] nf by (simp add: h position_def)
  then show ?thesis using del r s(1) rep d2 l by auto
qed

theorem zip_file_replace_deleted_not_found_witness:
  "\<exists>za1 za2. zip_delete [] sample_one 0 = (0, za1, []) \<and> zip_file_replace [] za1 0 (Some sample_writer) 0 = (0, za2, [])
     \<and> directory za2 0 = Some [97] \<and> fst (zip_name_locate [] za2 (Some [97]) 0 True) = -1"
  using zip_file_replace_deleted_not_found [OF sample_one_ok sample_one_small(2) _, of 0 "[97]" sample_writer True] name_text_a
  by (simp add: sample_one_dir sample_one_small)

end
