(* ===== verification/Zip_Directory.thy ===== *)
theory Zip_Directory
  imports Zip_Names
begin

text \<open>
  The names of an archive as an abstract directory: the calls of Zip_Names as data, with their answers, a directory
  that says what each call answers and does, and the refinement between the two.
\<close>

section \<open>Calls and their answers\<close>

text \<open>The calls that concern names, with the strings as the caller passes them.\<close>

datatype 'u archive_call =
    Locate bytes
  | Add bytes "'u zip_source"
  | Replace nat "'u zip_source"
  | Rename nat bytes
  | Delete nat
  | Unchange nat
  | Unchange_all

fun run_call :: "'u zip_t \<Rightarrow> 'u archive_call \<Rightarrow> (int \<times> 'u zip_t) option" where
  "run_call za (Locate s) = (case zip_name_locate [] za (Some s) 0 True of (r, za1, m) \<Rightarrow> Some (r, za1))"
| "run_call za (Add s src) = (case zip_file_add [] za (Some s) (Some src) 0 of (r, za1, m) \<Rightarrow> Some (r, za1))"
| "run_call za (Replace i src) = (case zip_file_replace [] za i (Some src) 0 of (r, za1, m) \<Rightarrow> Some (r, za1))"
| "run_call za (Rename i s) = map_option (\<lambda>(r, za1, m). (r, za1)) (zip_file_rename [] za i (Some s) 0)"
| "run_call za (Delete i) = (case zip_delete [] za i of (r, za1, m) \<Rightarrow> Some (r, za1))"
| "run_call za (Unchange i) = (case zip_unchange [] za i False of (r, za1, m) \<Rightarrow> Some (r, za1))"
| "run_call za Unchange_all = (case zip_unchange_all [] za of (r, za1, m) \<Rightarrow> Some (r, za1))"

text \<open>
  When the calls behave: the archive is not read-only, names are not empty and have less than 65536 bytes (longer
  ones are cut), the array of entries can still grow, and data is not replaced in a deleted entry.
\<close>

definition short_name :: "bytes \<Rightarrow> bool" where
  "short_name s \<longleftrightarrow> 0 < length (cstr s) \<and> length (cstr s) < 65536 \<and> name_text s \<noteq> []"

fun call_ok :: "'u zip_t \<Rightarrow> 'u archive_call \<Rightarrow> bool" where
  "call_ok za (Locate s) = short_name s"
| "call_ok za (Add s src) = (\<not> ZIP_IS_RDONLY za \<and> short_name s \<and> length (za_entry za) < ZIP_INT64_MAX \<and> za_nentry_alloc za < 2 ^ 50)"
| "call_ok za (Replace i src) = (\<not> ZIP_IS_RDONLY za \<and> (i < length (za_entry za) \<longrightarrow> directory za i \<noteq> None))"
| "call_ok za (Rename i s) = (\<not> ZIP_IS_RDONLY za \<and> short_name s)"
| "call_ok za (Delete i) = (\<not> ZIP_IS_RDONLY za)"
| "call_ok za (Unchange i) = True"
| "call_ok za Unchange_all = True"

fun run_calls :: "'u zip_t \<Rightarrow> 'u archive_call list \<Rightarrow> (int list \<times> 'u zip_t) option" where
  "run_calls za [] = Some ([], za)"
| "run_calls za (c # cs) =
     (case run_call za c of
        None \<Rightarrow> None
      | Some (r, za1) \<Rightarrow> (case run_calls za1 cs of None \<Rightarrow> None | Some (rs, za2) \<Rightarrow> Some (r # rs, za2)))"

fun calls_ok :: "'u zip_t \<Rightarrow> 'u archive_call list \<Rightarrow> bool" where
  "calls_ok za [] = True"
| "calls_ok za (c # cs) = (call_ok za c \<and> (case run_call za c of None \<Rightarrow> True | Some (r, za1) \<Rightarrow> calls_ok za1 cs))"

section \<open>The directory\<close>

text \<open>
  The specification: how many positions there are, and the name at each that has one. \<open>orig\<close> are the names in the
  archive as it was opened. Each call has its answer and its effect; what it does not do it leaves alone.
\<close>

type_synonym dir = "nat \<times> (nat \<Rightarrow> bytes option)"

definition taken :: "(nat \<Rightarrow> bytes option) \<Rightarrow> bytes \<Rightarrow> bool" where
  "taken d t \<longleftrightarrow> (\<exists>j. d j = Some t)"

text \<open>A file can be renamed to the name of a file, a directory (its name ends in a slash) to that of a directory.\<close>

definition can_rename :: "(nat \<Rightarrow> bytes option) \<Rightarrow> nat \<Rightarrow> bytes \<Rightarrow> bool" where
  "can_rename d i s \<longleftrightarrow>
     (case d i of None \<Rightarrow> False | Some old \<Rightarrow> (last (cstr s) = 47) = (last old = 47)) \<and> (\<forall>j. j \<noteq> i \<longrightarrow> d j \<noteq> Some (name_text s))"

fun dir_call :: "(nat \<Rightarrow> bytes option) \<Rightarrow> dir \<Rightarrow> 'u archive_call \<Rightarrow> int \<Rightarrow> dir \<Rightarrow> bool" where
  "dir_call orig (n, d) (Locate s) r D \<longleftrightarrow>
     D = (n, d) \<and> (if taken d (name_text s) then \<exists>j. r = int j \<and> d j = Some (name_text s) else r = -1)"
| "dir_call orig (n, d) (Add s src) r D \<longleftrightarrow>
     (if taken d (name_text s) then r = -1 \<and> D = (n, d) else r = int n \<and> D = (Suc n, d(n := Some (name_text s))))"
| "dir_call orig (n, d) (Replace i src) r D \<longleftrightarrow> r = (if i < n then 0 else -1) \<and> D = (n, d)"
| "dir_call orig (n, d) (Rename i s) r D \<longleftrightarrow>
     (if can_rename d i s then r = 0 \<and> D = (n, d(i := Some (name_text s))) else r = -1 \<and> D = (n, d))"
| "dir_call orig (n, d) (Delete i) r D \<longleftrightarrow> (if d i \<noteq> None then r = 0 \<and> D = (n, d(i := None)) else r = -1 \<and> D = (n, d))"
| "dir_call orig (n, d) (Unchange i) r D \<longleftrightarrow>
     r = 0 \<and> i < n \<and> D = (n, d(i := orig i)) \<and> (\<forall>j t. j \<noteq> i \<and> orig i = Some t \<longrightarrow> d j \<noteq> Some t)
     \<or> r = -1 \<and> D = (n, d) \<and> (n \<le> i \<or> (\<exists>t. orig i = Some t \<and> (taken d t \<or> taken d (name_text t))))"
| "dir_call orig (n, d) Unchange_all r D \<longleftrightarrow> r = 0 \<and> D = (n, orig)"

fun dir_calls :: "(nat \<Rightarrow> bytes option) \<Rightarrow> dir \<Rightarrow> 'u archive_call list \<Rightarrow> int list \<Rightarrow> dir \<Rightarrow> bool" where
  "dir_calls orig D [] rs D1 \<longleftrightarrow> rs = [] \<and> D1 = D"
| "dir_calls orig D (c # cs) [] D1 \<longleftrightarrow> False"
| "dir_calls orig D (c # cs) (r # rs) D1 \<longleftrightarrow> (\<exists>D0. dir_call orig D c r D0 \<and> dir_calls orig D0 cs rs D1)"

definition dir_of :: "'u zip_t \<Rightarrow> dir" where
  "dir_of za = (length (za_entry za), directory za)"

section \<open>Each call has the answer of the directory\<close>

lemma name_text_cstr: "name_text (cstr s) = name_text s"
proof -
  have "take k (cstr s) = take k s" if "k \<le> length (cstr s)" for k
    using that unfolding cstr_def by (metis min.absorb1 take_take takeWhile_eq_take)
  then show ?thesis by (simp add: name_text_def cstr_cstr)
qed

lemma locate_position:
  assumes ok: "names_ok za" and s: "0 < length (cstr s)" "length (cstr s) < 65536" and l: "zip_name_locate [] za (Some s) 0 own = (i, za1, m)"
  shows "if taken (directory za) (name_text s) then \<exists>j. i = int j \<and> directory za j = Some (name_text s) else i = -1"
proof -
  have i: "i = position za (name_text s)" using zip_name_locate_spec(3) [OF ok l] s by auto
  from position_cases [OF ok, of "name_text s"] show ?thesis by (auto simp: i taken_def cstr_name_text)
qed

lemma zip_set_name_same:
  assumes ok: "names_ok za" and wr: "\<not> ZIP_IS_RDONLY za" and s: "0 < length (cstr s)" "length (cstr s) < 65536"
    and d: "directory za idx = Some (name_text s)"
  shows "fst (zip_set_name [] za idx (Some s) 0) = 0"
proof -
  obtain str e m where n: "set_name_string [] (Some s) 0 (Some (za_error za)) = (str, e, m)" by (metis prod_cases3)
  have "str \<noteq> None" using set_name_string_guess [of s "Some (za_error za)"] s n by auto
  then obtain t where t: "str = Some t" by blast
  have e: "m = []" "za_put e za = za" using set_name_string_spec [OF n] t by (auto simp: za_put_def)
  obtain i za1 m1 where l: "zip_name_locate [] za (Some s) 0 False = (i, za1, m1)" by (metis prod_cases3)
  have "i = int idx" using locate_answer [OF ok s, of False idx] l d by simp
  moreover have "idx < length (za_entry za)" by (rule directory_less [OF d])
  ultimately show ?thesis using wr n t e l by (simp add: zip_set_name_def)
qed

lemma set_name_apply_answers: "set_name_apply m za idx str same = (r, za1, m1) \<Longrightarrow> r = 0 \<or> r = -1"
  by (auto simp: set_name_apply_def Let_def split: if_splits option.splits prod.splits bool.splits)

lemma zip_set_name_answers: "zip_set_name m za idx name flags = (r, za1, m1) \<Longrightarrow> r = 0 \<or> r = -1"
  by (auto simp: zip_set_name_def Let_def dest: set_name_apply_answers split: if_splits option.splits prod.splits)

lemma rename_answer:
  assumes inv: "archive_inv za" and wr: "\<not> ZIP_IS_RDONLY za" and s: "short_name s"
  shows "map_option fst (run_call za (Rename i s)) = Some (if can_rename (directory za) i s then 0 else -1)"
proof (cases "i < length (za_entry za)")
  case False
  then have "directory za i = None" by (simp add: names_by_def)
  then show ?thesis using False by (simp add: zip_file_rename_def can_rename_def)
next
  case i: True
  have ok: "names_ok za" and nm: "named za" and big: "length (za_entry za) \<le> ZIP_INT64_MAX"
    using inv by (simp_all add: archive_inv_def)
  have len: "0 < length (cstr s)" "length (cstr s) < 65536" using s by (simp_all add: short_name_def)
  obtain old za2 m2 where g: "zip_get_name [] za i 0 True = (old, za2, m2)" by (metis prod_cases3)
  have q: "quiet za za2" "m2 = []" "map_option cstr old = directory za i" using zip_get_name_spec [OF ok g] by simp_all
  note q2 = quiet_simps [OF q(1)]
  have ok2: "names_ok za2" using q2(4) ok by simp
  show ?thesis
  proof (cases old)
    case None
    then show ?thesis using i wr len g q by (simp add: zip_file_rename_def can_rename_def)
  next
    case (Some o1)
    then have d: "directory za i = Some (cstr o1)" using q(3) by simp
    then have ne: "cstr o1 \<noteq> []" using nm by (auto simp: named_def)
    have sl: "last_is_slash s = Some (last (cstr s) = 47)" "last_is_slash o1 = Some (last (cstr o1) = 47)"
      using len ne by (auto simp: last_is_slash_def)
    have long: "\<not> ZIP_UINT16_MAX < length (cstr s)" using len by simp
    show ?thesis
    proof (cases "(last (cstr s) = 47) = (last (cstr o1) = 47)")
      case False
      then show ?thesis using i wr long g Some sl d by (auto simp: zip_file_rename_def can_rename_def)
    next
      case True
      obtain r za1 m1 where z: "zip_set_name [] za2 i (Some s) 0 = (r, za1, m1)" by (metis prod_cases3)
      have run: "run_call za (Rename i s) = Some (r, za1)"
        using i wr long g Some sl True q(2) z by (simp add: zip_file_rename_def)
      have d2: "directory za2 = directory za" "ZIP_IS_RDONLY za2 = ZIP_IS_RDONLY za" "length (za_entry za2) = length (za_entry za)"
        using q2 q(1) by (simp_all add: quiet_def ZIP_IS_RDONLY_def)
      have able: "nameable (za_entry za2 ! i) \<and> i \<le> ZIP_INT64_MAX"
        using named_entry [OF ok2 _ ne, of i] d d2(1) i big by auto
      note st = zip_set_name_spec [OF ok2 z able]
      have t: "opt_text (Some s) = name_text s" by (simp add: opt_text_def)
      have c: "can_rename (directory za) i s \<longleftrightarrow> (\<forall>j. j \<noteq> i \<longrightarrow> directory za j \<noteq> Some (name_text s))"
        using d True by (simp add: can_rename_def)
      have a: "r = 0 \<or> r = -1" by (rule zip_set_name_answers [OF z])
      show ?thesis
      proof (cases "can_rename (directory za) i s")
        case can: True
        have "r = 0"
        proof (cases "directory za i = Some (name_text s)")
          case True
          then show ?thesis using zip_set_name_same [OF ok2 _ len, of i] z d2 wr by simp
        next
          case False
          then have "\<forall>j. directory za2 j \<noteq> Some (opt_text (Some s))" using can c d2 t by metis
          then show ?thesis using st(7) wr d2 i set_name_string_guess [of s] len by simp
        qed
        then show ?thesis using can by (simp add: run del: run_call.simps)
      next
        case False
        then have "r \<noteq> 0" using st(5) c d2 t by auto
        then show ?thesis using a False by (simp add: run del: run_call.simps)
      qed
    qed
  qed
qed

lemma zip_unchange_succeeds:
  assumes ok: "names_ok za" and big: "length (za_entry za) \<le> ZIP_INT64_MAX" and i: "idx < length (za_entry za)"
    and free: "\<And>t. orig_directory za idx = Some t \<Longrightarrow> \<not> taken (directory za) t \<and> \<not> taken (directory za) (name_text t)"
    and r: "zip_unchange [] za idx False = (r, za1, m1)"
  shows "r = 0"
proof (cases "changed_name (za_entry za ! idx) \<or> ze_deleted (za_entry za ! idx)")
  case False
  then show ?thesis using r i by (auto simp: zip_unchange_def changed_name_def Let_def)
next
  case act: True
  let ?e = "za_entry za ! idx"
  define first where "first = (if ze_orig ?e = None then (Some None, za, [])
            else (case zip_get_name [] za idx ZIP_FL_UNCHANGED True of
                    (None, za1, m1) \<Rightarrow> (None, za1, m1)
                  | (Some on, za1, m1) \<Rightarrow>
                      (case zip_name_locate m1 za1 (Some on) 0 False of
                         (i, za2, m2) \<Rightarrow>
                           if i \<ge> 0 \<and> nat i \<noteq> idx then (None, za_set_error ZIP_ER_EXISTS 0 za2, m2)
                           else (Some (Some on), za2, m2))))"
  obtain orig za2 where f: "first = (Some orig, za2, [])" and q2: "quiet za za2"
  proof (cases "ze_orig ?e = None")
    case True
    then show thesis using that by (simp add: first_def)
  next
    case False
    obtain nm za3 m3 where g: "zip_get_name [] za idx ZIP_FL_UNCHANGED True = (nm, za3, m3)" by (metis prod_cases3)
    have g1: "quiet za za3" "m3 = []" "map_option cstr nm = orig_directory za idx"
      using zip_get_name_spec [OF ok g] by (simp_all add: flag_set_def)
    have ok3: "names_ok za3" using quiet_simps(4) [OF g1(1)] ok by simp
    have "orig_directory za idx \<noteq> None" using False i by (simp add: names_by_def orig_name_def split: option.split)
    then obtain n where n: "nm = Some n" "orig_directory za idx = Some (cstr n)" using g1(3) by (cases nm) auto
    obtain j za4 m4 where l: "zip_name_locate [] za3 (Some n) 0 False = (j, za4, m4)" by (metis prod_cases3)
    note loc = zip_name_locate_spec [OF ok3 l]
    have "\<not> taken (directory za3) (name_text n)"
      using free [OF n(2)] quiet_simps(2) [OF g1(1)] by (simp add: name_text_cstr)
    then have "j = -1" using loc(3) position_cases [OF ok3, of "name_text n"] by (auto simp: taken_def cstr_name_text)
    then show thesis using that g g1 n l loc False quiet_trans [OF g1(1) loc(1)] by (simp add: first_def)
  qed
  have ok2: "names_ok za2" using quiet_simps(4) [OF q2] ok by simp
  obtain chg za3 where un: "unchange_names [] za idx (changed_name ?e) = (Some (orig, chg), za3, [])"
  proof (cases "changed_name ?e")
    case False
    then show thesis using that f unfolding unchange_names_def first_def [symmetric] by simp
  next
    case True
    obtain nm za4 m4 where g: "zip_get_name [] za2 idx 0 True = (nm, za4, m4)" by (metis prod_cases3)
    have "map_option cstr nm = directory za idx" "m4 = []"
      using zip_get_name_spec [OF ok2 g] quiet_simps(2) [OF q2] by simp_all
    moreover have "directory za idx \<noteq> None"
      using True i by (auto simp: names_by_def entry_name_def changed_name_def ZIP_ENTRY_CHANGED_def split: option.splits)
    ultimately obtain c where "nm = Some c" "m4 = []" by (cases nm) auto
    then show thesis using that f g True unfolding unchange_names_def first_def [symmetric] by simp
  qed
  note u = unchange_names_spec [OF ok i un refl]
  have q3: "quiet za za3" by (rule u(1))
  have ok3: "names_ok za3" using quiet_simps(4) [OF q3] ok by simp
  note P = u(3) [OF refl]
  obtain dn za4 m4 where ix: "unchange_index [] za3 idx orig chg = (dn, za4, m4)" by (metis prod_cases3)
  have inv: "hash_inv (za_names za3)" by (rule names_okD(1) [OF ok3])
  have chg: "\<exists>k. cur_of (za_names za3) c = Some k" if "chg = Some c" for c
    using P that cur_of_iff [OF ok3, of c idx] quiet_simps(2) [OF q3] by (auto split: if_splits)
  have dn
  proof (cases orig)
    case None
    then show ?thesis using ix chg ni.delete_result_law [OF inv]
      by (cases chg) (fastforce simp: unchange_index_def split: prod.splits bool.splits)+
  next
    case (Some n)
    obtain ok4 h e m5 where a: "zip_hash_add [] (za_names za3) (Some n) idx 0 (Some (za_error za3)) = (ok4, h, e, m5)"
      by (metis prod_cases4)
    have "\<not> taken (directory za3) (cstr n)" using P Some free [of "cstr n"] quiet_simps(2) [OF q3] by simp
    then have "cur_of (za_names za3) n = None" using cur_of_iff [OF ok3, of n] by (auto simp: taken_def)
    then have ok4: "ok4" "m5 = []" using ni.add_result_law [OF inv a] i big by (auto simp: flag_set_def)
    have aT: "zip_hash_add [] (za_names za3) (Some n) idx 0 (Some (za_error za3)) = (True, h, e, [])" using a ok4 by simp
    note h = ni.add_ok_law [OF inv aT]
    show ?thesis
    proof (cases chg)
      case None
      then show ?thesis using ix Some aT by (simp add: unchange_index_def)
    next
      case c: (Some c)
      define za5 where "za5 = za_put e (za3\<lparr>za_names := h\<rparr>)"
      obtain ok6 h1 e1 m6 where dl: "zip_hash_delete [] h (Some c) (Some (za_error za5)) = (ok6, h1, e1, m6)" by (metis prod_cases4)
      have "cur_of h c \<noteq> None" using chg [OF c] h by auto
      then have "ok6" using ni.delete_result_law [OF _ dl] h by simp
      then show ?thesis using ix Some c aT dl za5_def by (simp add: unchange_index_def za5_def)
    qed
  qed
  then show ?thesis using r i act un ix by (simp add: zip_unchange_def changed_name_def Let_def)
qed
lemma zip_file_add_answers: "zip_file_add [] za (Some n) (Some src) 0 = (r, za1, m1) \<Longrightarrow> r < 0 \<Longrightarrow> r = -1"
  by (auto simp: zip_file_add_def file_replace_def replace_source_def Let_def split: if_splits option.splits prod.splits)

lemma call_step:
  assumes inv: "archive_inv za" and ok: "call_ok za c"
  shows "\<exists>r za1. run_call za c = Some (r, za1) \<and> archive_inv za1 \<and> orig_directory za1 = orig_directory za
    \<and> dir_call (orig_directory za) (dir_of za) c r (dir_of za1)"
proof -
  have nk: "names_ok za" and nm: "named za" and on: "\<forall>i. orig_directory za i \<noteq> Some []" and big: "length (za_entry za) \<le> ZIP_INT64_MAX"
    using inv by (simp_all add: archive_inv_def)
  have fl: "plain_search 0" by (simp add: plain_search_def)
  show ?thesis
  proof (cases c)
    case (Locate s)
    obtain r za1 m where l: "zip_name_locate [] za (Some s) 0 True = (r, za1, m)" by (metis prod_cases3)
    have s: "0 < length (cstr s)" "length (cstr s) < 65536" using ok by (simp_all add: Locate short_name_def)
    have "archive_step za za1" by (rule archive_step.locate [OF l fl])
    note st = step_refines [OF this inv]
    note q = quiet_simps [OF zip_name_locate_spec(1) [OF nk l]]
    show ?thesis using st l q locate_position [OF nk s l] by (auto simp: Locate dir_of_def)
  next
    case (Add s src)
    obtain r za1 m where a: "zip_file_add [] za (Some s) (Some src) 0 = (r, za1, m)" by (metis prod_cases3)
    have s: "0 < length (cstr s)" "length (cstr s) < 65536" "name_text s \<noteq> []" and wr: "\<not> ZIP_IS_RDONLY za"
      and len: "length (za_entry za) < ZIP_INT64_MAX" "za_nentry_alloc za < 2 ^ 50"
      using ok by (simp_all add: Add short_name_def)
    have "archive_step za za1" by (rule archive_step.add [OF a fl s(3) len(1)])
    note st = step_refines [OF this inv]
    note sp = zip_file_add_spec [OF nk fl nm big a]
    show ?thesis
    proof (cases "taken (directory za) (name_text s)")
      case True
      then obtain j where j: "directory za j = Some (name_text s)" by (auto simp: taken_def)
      have "r < 0"
      proof (rule ccontr)
        assume "\<not> r < 0"
        then have "nat r = length (za_entry za)" "\<forall>j. j \<noteq> nat r \<longrightarrow> directory za j \<noteq> Some (name_text s)" using sp(5) by (auto simp: flag_set_def)
        then show False using j directory_less [OF j] by auto
      qed
      then show ?thesis using st a sp(4) zip_file_add_answers [OF a] True by (simp add: Add dir_of_def)
    next
      case False
      then have "r = int (length (za_entry za))"
        using zip_file_add_fresh [OF nk wr big len(2), where n = s and src = src] s a by (simp add: taken_def)
      then show ?thesis using st a sp(5) False by (auto simp: Add dir_of_def flag_set_def)
    qed
  next
    case (Replace i src)
    obtain r za1 m where a: "zip_file_replace [] za i (Some src) 0 = (r, za1, m)" by (metis prod_cases3)
    show ?thesis
    proof (cases "i < length (za_entry za)")
      case False
      then have "r = -1" "za1 = za_set_error ZIP_ER_INVAL 0 za" using a by (auto simp: zip_file_replace_def)
      then show ?thesis using a False inv quiet_simps [OF quiet_error(2) [of za ZIP_ER_INVAL 0]]
        by (simp add: Replace dir_of_def archive_inv_def named_def)
    next
      case True
      then have vis: "directory za i \<noteq> None" and wr: "\<not> ZIP_IS_RDONLY za" using ok by (simp_all add: Replace)
      have "archive_step za za1" by (rule archive_step.replace [OF a vis])
      note st = step_refines [OF this inv]
      show ?thesis using st a zip_file_replace_spec [OF nk vis big a] wr True by (simp add: Replace dir_of_def)
    qed
  next
    case (Rename i s)
    have s: "short_name s" and wr: "\<not> ZIP_IS_RDONLY za" using ok by (simp_all add: Rename)
    note an = rename_answer [OF inv wr s, of i]
    then obtain r za1 m where a: "zip_file_rename [] za i (Some s) 0 = Some (r, za1, m)" by auto
    have t: "opt_text (Some s) = name_text s" by (simp add: opt_text_def)
    have "archive_step za za1" by (rule archive_step.rename [OF a]) (use s t in \<open>simp add: short_name_def\<close>)
    note st = step_refines [OF this inv]
    note sp = zip_file_rename_spec [OF nk big a]
    show ?thesis using st an a sp t by (auto simp: Rename dir_of_def split: if_splits)
  next
    case (Delete i)
    obtain r za1 m where a: "zip_delete [] za i = (r, za1, m)" by (metis prod_cases3)
    have "archive_step za za1" by (rule archive_step.delete [OF a])
    note st = step_refines [OF this inv]
    have "r = 0 \<or> r = -1" using a by (auto simp: zip_delete_def split: if_splits option.splits prod.splits bool.splits)
    then show ?thesis using st a zip_delete_spec [OF nk a] ok by (auto simp: Delete dir_of_def)
  next
    case (Unchange i)
    obtain r za1 m where a: "zip_unchange [] za i False = (r, za1, m)" by (metis prod_cases3)
    have "archive_step za za1" by (rule archive_step.unchange [OF a])
    note st = step_refines [OF this inv]
    note sp = zip_unchange_spec [OF nk big a]
    have an: "r = 0 \<or> r = -1" "length (za_entry za) \<le> i \<Longrightarrow> r = -1"
      using a by (auto simp: zip_unchange_def Let_def split: if_splits option.splits prod.splits bool.splits)
    show ?thesis
    proof (cases "r = 0")
      case True
      then have i: "i < length (za_entry za)" using an by force
      have ok1: "names_ok za1" by (rule sp(2))
      have "directory za j \<noteq> Some t" if "j \<noteq> i" "orig_directory za i = Some t" for j t
        using directory_inject [OF ok1, of j t] that sp(4) True by auto
      then show ?thesis using st a sp True i by (auto simp: Unchange dir_of_def)
    next
      case False
      then have "length (za_entry za) \<le> i \<or> (\<exists>t. orig_directory za i = Some t \<and> (taken (directory za) t \<or> taken (directory za) (name_text t)))"
        using zip_unchange_succeeds [OF nk big _ _ a] by (meson not_le)
      then show ?thesis using st a sp False an(1) by (simp add: Unchange dir_of_def)
    qed
  next
    case Unchange_all
    obtain r za1 m where a: "zip_unchange_all [] za = (r, za1, m)" by (metis prod_cases3)
    have "archive_step za za1" by (rule archive_step.unchange_all [OF a])
    note st = step_refines [OF this inv]
    show ?thesis using st a zip_unchange_all_spec [OF nk a] by (simp add: Unchange_all dir_of_def)
  qed
qed

lemma calls_refine:
  "archive_inv za \<Longrightarrow> calls_ok za cs \<Longrightarrow>
     \<exists>rs za1. run_calls za cs = Some (rs, za1) \<and> archive_inv za1 \<and> orig_directory za1 = orig_directory za
       \<and> dir_calls (orig_directory za) (dir_of za) cs rs (dir_of za1)"
proof (induction cs arbitrary: za)
  case (Cons c cs)
  obtain r za0 where r: "run_call za c = Some (r, za0)" and i: "archive_inv za0" and o: "orig_directory za0 = orig_directory za"
    and d: "dir_call (orig_directory za) (dir_of za) c r (dir_of za0)"
    using call_step [OF Cons.prems(1), of c] Cons.prems(2) by auto
  have "calls_ok za0 cs" using Cons.prems(2) r by simp
  from Cons.IH [OF i this] obtain rs za1 where "run_calls za0 cs = Some (rs, za1)" "archive_inv za1"
    "orig_directory za1 = orig_directory za" "dir_calls (orig_directory za) (dir_of za0) cs rs (dir_of za1)"
    unfolding o by blast
  then show ?case using r d by (auto simp: dir_of_def)
qed simp

section \<open>Properties\<close>


definition sample_calls :: "read_ctx archive_call list" where
  "sample_calls = [Add [97] sample_writer, Locate [97]]"

lemma sample_calls_ok: "calls_ok sample_archive sample_calls"
proof -
  have s: "short_name [97]" using name_text_a by (simp add: short_name_def)
  have a: "call_ok sample_archive (Add [97] sample_writer)" using s sample_archive_small by simp
  then show ?thesis using s by (simp add: sample_calls_def del: run_call.simps split: option.split)
qed


end
