(* ===== verification/Zip_Entries.thy ===== *)
theory Zip_Entries
  imports Zip_Names
begin

text \<open>
  What an archive and its entries carry besides names and data: flags, comments, attributes, times,
  compression and encryption settings, extra fields, the answer to a stat call and the position of an
  entry's data (lib/zip_new.c, zip_get_num_entries.c, zip_get_num_files.c, zip_get_archive_flag.c,
  zip_set_archive_flag.c, zip_set_archive_comment.c, zip_get_archive_comment.c, zip_file_set_comment.c,
  zip_file_get_comment.c, zip_set_file_comment.c, zip_get_file_comment.c, zip_file_set_mtime.c,
  zip_file_set_external_attributes.c, zip_file_get_external_attributes.c, zip_set_file_compression.c,
  zip_file_set_encryption.c, zip_get_encryption_implementation.c, zip_set_default_password.c,
  zip_stat.c, zip_stat_index.c, zip_file_get_offset.c, zip_dir_add.c, zip_add_dir.c,
  zip_extra_field_api.c and \<open>_zip_changed\<close> of zip_close.c). What the build found (CMake options) is the
  record \<open>build\<close>. An entry's changes share the strings of the original entry until they are set: an
  access to a string freed through the other pointer is the result \<open>None\<close>.
\<close>

section \<open>What the build supports\<close>

record build =
  have_crypto :: bool
  have_libbz2 :: bool
  have_liblzma :: bool
  have_libzstd :: bool

text \<open>The rows of the table, each with a pair of algorithms.\<close>

definition implementations :: "build \<Rightarrow> u16 list" where
  "implementations B = [8] @ (if have_libbz2 B then [12] else []) @ (if have_liblzma B then [14, 95] else [])
     @ (if have_libzstd B then [93] else [])"

text \<open>An algorithm is named by its row and its direction.\<close>

definition zip_get_compression_algorithm :: "build \<Rightarrow> int \<Rightarrow> bool \<Rightarrow> (u16 \<times> bool) option" where
  "zip_get_compression_algorithm B meth compress =
     (case find (\<lambda>i. i = ZIP_CM_ACTUAL meth) (implementations B) of None \<Rightarrow> None | Some i \<Rightarrow> Some (i, compress))"

definition zip_compression_method_supported :: "build \<Rightarrow> int \<Rightarrow> bool \<Rightarrow> bool" where
  "zip_compression_method_supported B meth compress \<longleftrightarrow>
     meth = ZIP_CM_STORE \<or> zip_get_compression_algorithm B meth compress \<noteq> None"

datatype zip_encryption_implementation =
    zip_source_pkware_decode | zip_source_pkware_encode | zip_source_winzip_aes_decode | zip_source_winzip_aes_encode

definition zip_get_encryption_implementation :: "build \<Rightarrow> u16 \<Rightarrow> bool \<Rightarrow> zip_encryption_implementation option" where
  "zip_get_encryption_implementation B em encode =
     (if em = ZIP_EM_TRAD_PKWARE then Some (if encode then zip_source_pkware_encode else zip_source_pkware_decode)
      else if have_crypto B \<and> (em = ZIP_EM_AES_128 \<or> em = ZIP_EM_AES_192 \<or> em = ZIP_EM_AES_256)
      then Some (if encode then zip_source_winzip_aes_encode else zip_source_winzip_aes_decode)
      else None)"

definition zip_encryption_method_supported :: "build \<Rightarrow> u16 \<Rightarrow> bool \<Rightarrow> bool" where
  "zip_encryption_method_supported B meth encode \<longleftrightarrow>
     meth = ZIP_EM_NONE \<or> zip_get_encryption_implementation B meth encode \<noteq> None"

section \<open>The archive\<close>

definition zip_new :: "mem \<Rightarrow> 'u zip_source \<Rightarrow> zip_error option \<Rightarrow> 'u zip_t option \<times> zip_error option \<times> mem" where
  "zip_new m nosrc error =
     (case malloc m of
        (None, m1) \<Rightarrow> (None, zip_error_set error ZIP_ER_MEMORY 0, m1)
      | (Some _, m1) \<Rightarrow>
          (case zip_hash_new m1 error of
             (None, e, m2) \<Rightarrow> (None, e, m2)
           | (Some h, e, m2) \<Rightarrow>
               (Some \<lparr>za_src = nosrc, za_open_flags = 0, za_error = zip_error_init, za_flags = 0, za_ch_flags = 0,
                  za_default_password = None, za_comment_orig = None, za_comment_changes = None, za_comment_changed = False,
                  za_nentry_alloc = 0, za_entry = [], za_names = h\<rparr>, e, m2)))"

text \<open>The entries before the last one with an original entry.\<close>

fun orig_entries :: "'u zip_entry list \<Rightarrow> nat \<Rightarrow> nat" where
  "orig_entries es 0 = 0"
| "orig_entries es (Suc n) = (if ze_orig (es ! n) = None then orig_entries es n else Suc n)"

definition zip_get_num_entries :: "'u zip_t option \<Rightarrow> u32 \<Rightarrow> int" where
  "zip_get_num_entries za flags =
     (case za of
        None \<Rightarrow> -1
      | Some a \<Rightarrow> int (if flag_set flags ZIP_FL_UNCHANGED then orig_entries (za_entry a) (length (za_entry a))
                       else length (za_entry a)))"

definition zip_get_num_files :: "'u zip_t option \<Rightarrow> int \<times> 'u zip_t option" where
  "zip_get_num_files za =
     (case za of
        None \<Rightarrow> (-1, None)
      | Some a \<Rightarrow> if length (za_entry a) > 2147483647 then (-1, Some (za_set_error ZIP_ER_OPNOTSUPP 0 a))
                  else (int (length (za_entry a)), Some a))"

text \<open>Whether anything changed, and how many entries are not deleted.\<close>

definition zip_changed :: "'u zip_t \<Rightarrow> bool \<times> nat" where
  "zip_changed za =
     (za_comment_changed za \<or> za_ch_flags za \<noteq> za_flags za \<or> list_ex ZIP_ENTRY_HAS_CHANGES (za_entry za),
      length (filter (\<lambda>e. \<not> ze_deleted e) (za_entry za)))"

definition zip_get_archive_flag :: "'u zip_t \<Rightarrow> u32 \<Rightarrow> u32 \<Rightarrow> int" where
  "zip_get_archive_flag za flag flags =
     (let fl = (if flag_set flags ZIP_FL_UNCHANGED then za_flags za else za_ch_flags za) in if flag_set fl flag then 1 else 0)"

definition zip_set_archive_flag :: "'u zip_t \<Rightarrow> u32 \<Rightarrow> int \<Rightarrow> int \<times> 'u zip_t" where
  "zip_set_archive_flag za flag value =
     (let new_flags = (if value \<noteq> 0 then za_ch_flags za OR flag else za_ch_flags za AND NOT flag)
      in if new_flags = za_ch_flags za then (0, za)
         else if ZIP_IS_RDONLY za then (-1, za_set_error ZIP_ER_RDONLY 0 za)
         else if flag_set flag ZIP_AFL_RDONLY \<and> value \<noteq> 0 \<and> za_ch_flags za AND ZIP_AFL_RDONLY = 0 \<and> fst (zip_changed za)
         then (-1, za_set_error ZIP_ER_CHANGED 0 za)
         else (0, za\<lparr>za_ch_flags := new_flags\<rparr>))"

definition zip_set_archive_comment :: "mem \<Rightarrow> 'u zip_t \<Rightarrow> bytes option \<Rightarrow> nat \<Rightarrow> int \<times> 'u zip_t \<times> mem" where
  "zip_set_archive_comment m za comment len =
     (if ZIP_IS_RDONLY za then (-1, za_set_error ZIP_ER_RDONLY 0 za, m)
      else if len > 0 \<and> comment = None then (-1, za_set_error ZIP_ER_INVAL 0 za, m)
      else
        (case (if len > 0 then
                 (case zip_string_new m (the comment) len ZIP_FL_ENC_GUESS (Some (za_error za)) of
                    (None, e, m1) \<Rightarrow> (None, za_put e za, m1)
                  | (Some s, e, m1) \<Rightarrow>
                      (case zip_guess_encoding (Some s) ZIP_ENCODING_UNKNOWN of
                         (enc, s1) \<Rightarrow> if enc = ZIP_ENCODING_CP437 then (None, za_set_error ZIP_ER_INVAL 0 (za_put e za), m1)
                                      else (Some s1, za_put e za, m1)))
               else (Some None, za, m)) of
           (None, za1, m1) \<Rightarrow> (-1, za1, m1)
         | (Some str, za1, m1) \<Rightarrow>
             (if za_comment_orig za1 \<noteq> None \<and> zip_string_equal (za_comment_orig za1) str
                 \<or> za_comment_orig za1 = None \<and> str = None
              then (0, za1\<lparr>za_comment_changes := None, za_comment_changed := False\<rparr>, m1)
              else (0, za1\<lparr>za_comment_changes := str, za_comment_changed := True\<rparr>, m1))))"

text \<open>The text and its length.\<close>

definition zip_get_archive_comment :: "mem \<Rightarrow> 'u zip_t \<Rightarrow> u32 \<Rightarrow> (bytes \<times> nat) option \<times> 'u zip_t \<times> mem" where
  "zip_get_archive_comment m za flags =
     (if flag_set flags ZIP_FL_UNCHANGED \<or> za_comment_changes za = None
      then (case zip_string_get m (za_comment_orig za) flags (Some (za_error za)) of
              (r, str, e, m1) \<Rightarrow> (r, za_put e (za\<lparr>za_comment_orig := str\<rparr>), m1))
      else (case zip_string_get m (za_comment_changes za) flags (Some (za_error za)) of
              (r, str, e, m1) \<Rightarrow> (r, za_put e (za\<lparr>za_comment_changes := str\<rparr>), m1)))"

definition zip_set_default_password :: "mem \<Rightarrow> 'u zip_t option \<Rightarrow> bytes option \<Rightarrow> int \<times> 'u zip_t option \<times> mem" where
  "zip_set_default_password m za passwd =
     (case za of
        None \<Rightarrow> (-1, None, m)
      | Some a \<Rightarrow>
          (case passwd of
             Some p \<Rightarrow>
               if cstr p = [] then (0, Some (a\<lparr>za_default_password := None\<rparr>), m)
               else (case malloc m of
                       (None, m1) \<Rightarrow> (-1, Some (za_set_error ZIP_ER_MEMORY 0 (a\<lparr>za_default_password := None\<rparr>)), m1)
                     | (Some _, m1) \<Rightarrow> (0, Some (a\<lparr>za_default_password := Some (cstr p)\<rparr>), m1))
           | None \<Rightarrow> (0, Some (a\<lparr>za_default_password := None\<rparr>), m)))"

section \<open>The settings of an entry\<close>

text \<open>
  The entry's changes, cloned from the original when there are none: \<open>f\<close> is what the caller then
  does to them.
\<close>

definition with_changes ::
  "mem \<Rightarrow> 'u zip_t \<Rightarrow> nat \<Rightarrow> (zip_dirent \<Rightarrow> zip_dirent) \<Rightarrow> int \<times> 'u zip_t \<times> mem" where
  "with_changes m za idx f =
     (let e = za_entry za ! idx
      in case (case ze_changes e of Some c \<Rightarrow> (Some c, m) | None \<Rightarrow> zip_dirent_clone m (ze_orig e)) of
           (None, m1) \<Rightarrow> (-1, za_set_error ZIP_ER_MEMORY 0 za, m1)
         | (Some c, m1) \<Rightarrow> (0, upd_entry idx (\<lambda>e. e\<lparr>ze_changes := Some (f c)\<rparr>) za, m1))"

text \<open>Changes without a change left are freed.\<close>

definition drop_unchanged :: "'u zip_entry \<Rightarrow> 'u zip_entry" where
  "drop_unchanged e = (case ze_changes e of
     Some c \<Rightarrow> if de_changed c = 0 then e\<lparr>ze_changes := None\<rparr> else e | None \<Rightarrow> e)"

text \<open>
  \<open>_zip_string_free(e->changes->comment)\<close> frees the comment of the original entry when it is still
  shared. The comparison below reads it, unless the new comment is NULL: \<open>_zip_string_equal\<close> then answers
  at once. A read of freed memory is \<open>None\<close>; the dangling pointer the original entry is left with is not tracked
  beyond the call.
\<close>

definition comment_shared :: "'u zip_entry \<Rightarrow> bool" where
  "comment_shared e \<longleftrightarrow> (case (ze_orig e, ze_changes e) of
     (Some d, Some c) \<Rightarrow> de_comment d \<noteq> None \<and> de_comment c \<noteq> None \<and> \<not> flag_set (de_changed c) ZIP_DIRENT_COMMENT
   | _ \<Rightarrow> False)"

definition set_comment_string ::
  "mem \<Rightarrow> bytes option \<Rightarrow> nat \<Rightarrow> u32 \<Rightarrow> zip_error option \<Rightarrow> zip_string option option \<times> zip_error option \<times> mem" where
  "set_comment_string m comment len flags error =
     (if len > 0 then
        (case zip_string_new m (the comment) len flags error of
           (None, e, m1) \<Rightarrow> (None, e, m1)
         | (Some s, e, m1) \<Rightarrow> (Some (string_known flags (Some s)), e, m1))
      else (Some None, error, m))"

definition set_comment_apply :: "mem \<Rightarrow> 'u zip_t \<Rightarrow> nat \<Rightarrow> zip_string option \<Rightarrow> int \<times> 'u zip_t \<times> mem" where
  "set_comment_apply m za0 idx str =
     (let za = upd_entry idx (\<lambda>e. e\<lparr>ze_changes := map_option
                 (\<lambda>c. c\<lparr>de_comment := None, de_changed := de_changed c AND NOT ZIP_DIRENT_COMMENT\<rparr>) (ze_changes e)\<rparr>) za0;
          e = za_entry za ! idx;
          changed = (case ze_orig e of
                       Some d \<Rightarrow> if de_comment d \<noteq> None then \<not> zip_string_equal (de_comment d) str else str \<noteq> None
                     | None \<Rightarrow> str \<noteq> None)
      in if changed
         then with_changes m za idx (\<lambda>c. c\<lparr>de_comment := str, de_changed := de_changed c OR ZIP_DIRENT_COMMENT\<rparr>)
         else (0, upd_entry idx drop_unchanged za, m))"

definition zip_file_set_comment ::
  "mem \<Rightarrow> 'u zip_t \<Rightarrow> nat \<Rightarrow> bytes option \<Rightarrow> nat \<Rightarrow> u32 \<Rightarrow> (int \<times> 'u zip_t \<times> mem) option" where
  "zip_file_set_comment m za idx comment len flags =
     (case zip_get_dirent za idx 0 of
        Inl c \<Rightarrow> Some (-1, za_set_error c 0 za, m)
      | Inr _ \<Rightarrow>
          if ZIP_IS_RDONLY za then Some (-1, za_set_error ZIP_ER_RDONLY 0 za, m)
          else if len > 0 \<and> comment = None then Some (-1, za_set_error ZIP_ER_INVAL 0 za, m)
          else
            (case set_comment_string m comment len flags (Some (za_error za)) of
               (None, e, m1) \<Rightarrow> Some (-1, za_put e za, m1)
             | (Some str, e, m1) \<Rightarrow>
                 if comment_shared (za_entry za ! idx) \<and> str \<noteq> None then None
                 else Some (set_comment_apply m1 (za_put e za) idx str)))"

definition zip_file_get_comment :: "mem \<Rightarrow> 'u zip_t \<Rightarrow> nat \<Rightarrow> u32 \<Rightarrow> (bytes \<times> nat) option \<times> 'u zip_t \<times> mem" where
  "zip_file_get_comment m za idx flags =
     (case zip_get_dirent za idx flags of
        Inl c \<Rightarrow> (None, za_set_error c 0 za, m)
      | Inr de \<Rightarrow>
          (case zip_string_get m (de_comment de) flags (Some (za_error za)) of
             (r, str, e, m1) \<Rightarrow> (r, za_put e (upd_dirent idx flags (\<lambda>d. d\<lparr>de_comment := str\<rparr>) za), m1)))"

definition zip_set_file_comment ::
  "mem \<Rightarrow> 'u zip_t \<Rightarrow> nat \<Rightarrow> bytes option \<Rightarrow> int \<Rightarrow> (int \<times> 'u zip_t \<times> mem) option" where
  "zip_set_file_comment m za idx comment len =
     (if len < 0 \<or> len > int ZIP_UINT16_MAX then Some (-1, za_set_error ZIP_ER_INVAL 0 za, m)
      else zip_file_set_comment m za idx comment (nat len) 0)"

text \<open>The length is stored through an \<open>int *\<close>.\<close>

definition zip_get_file_comment :: "mem \<Rightarrow> 'u zip_t \<Rightarrow> nat \<Rightarrow> u32 \<Rightarrow> (bytes \<times> int) option \<times> 'u zip_t \<times> mem" where
  "zip_get_file_comment m za idx flags =
     (case zip_file_get_comment m za idx flags of
        (r, za1, m1) \<Rightarrow> (map_option (\<lambda>(s, n). (s, sint (word_of_nat n :: u32))) r, za1, m1))"

definition zip_file_set_mtime :: "mem \<Rightarrow> 'u zip_t \<Rightarrow> nat \<Rightarrow> int \<Rightarrow> int \<times> 'u zip_t \<times> mem" where
  "zip_file_set_mtime m za idx mtime =
     (case zip_get_dirent za idx 0 of
        Inl c \<Rightarrow> (-1, za_set_error c 0 za, m)
      | Inr _ \<Rightarrow>
          if ZIP_IS_RDONLY za then (-1, za_set_error ZIP_ER_RDONLY 0 za, m)
          else
            (let e = za_entry za ! idx
             in if (case ze_orig e of Some d \<Rightarrow> de_encryption_method d = ZIP_EM_TRAD_PKWARE | None \<Rightarrow> False)
                   \<and> \<not> ZIP_ENTRY_CHANGED e ZIP_DIRENT_ENCRYPTION_METHOD \<and> \<not> ZIP_ENTRY_DATA_CHANGED e
                then (-1, za_set_error ZIP_ER_OPNOTSUPP 0 za, m)
                else with_changes m za idx (\<lambda>c. c\<lparr>de_last_mod := mtime, de_changed := de_changed c OR ZIP_DIRENT_LAST_MOD\<rparr>)))"

definition zip_file_set_dostime :: "libs \<Rightarrow> mem \<Rightarrow> 'u zip_t \<Rightarrow> nat \<Rightarrow> u16 \<Rightarrow> u16 \<Rightarrow> int \<times> 'u zip_t \<times> mem" where
  "zip_file_set_dostime L m za idx dtime ddate = zip_file_set_mtime m za idx (zip_d2u_time L dtime ddate)"

abbreviation ZIP_OPSYS_DEFAULT :: u8 where "ZIP_OPSYS_DEFAULT \<equiv> 3"

text \<open>\<open>version_madeby\<close> with this system in its high byte.\<close>

definition made_by :: "u8 \<Rightarrow> u16 \<Rightarrow> u16" where
  "made_by opsys v = push_bit 8 (ucast opsys) OR (v AND 0xff)"

definition zip_file_set_external_attributes ::
  "mem \<Rightarrow> 'u zip_t \<Rightarrow> nat \<Rightarrow> u8 \<Rightarrow> u32 \<Rightarrow> int \<times> 'u zip_t \<times> mem" where
  "zip_file_set_external_attributes m za idx opsys attributes =
     (case zip_get_dirent za idx 0 of
        Inl c \<Rightarrow> (-1, za_set_error c 0 za, m)
      | Inr _ \<Rightarrow>
          if ZIP_IS_RDONLY za then (-1, za_set_error ZIP_ER_RDONLY 0 za, m)
          else
            (let e = za_entry za ! idx;
                 unchanged_opsys = (case ze_orig e of Some d \<Rightarrow> ucast (drop_bit 8 (de_version_madeby d)) | None \<Rightarrow> ZIP_OPSYS_DEFAULT);
                 unchanged_attributes = (case ze_orig e of Some d \<Rightarrow> de_ext_attrib d | None \<Rightarrow> ZIP_EXT_ATTRIB_DEFAULT)
             in if opsys \<noteq> unchanged_opsys \<or> attributes \<noteq> unchanged_attributes
                then with_changes m za idx (\<lambda>c. c\<lparr>de_version_madeby := made_by opsys (de_version_madeby c), de_ext_attrib := attributes,
                                                   de_changed := de_changed c OR ZIP_DIRENT_ATTRIBUTES\<rparr>)
                else
                  (0, upd_entry idx (\<lambda>e. case ze_changes e of
                         None \<Rightarrow> e
                       | Some c \<Rightarrow>
                           (let c1 = c\<lparr>de_changed := de_changed c AND NOT ZIP_DIRENT_ATTRIBUTES\<rparr>
                            in if de_changed c1 = 0 then e\<lparr>ze_changes := None\<rparr>
                               else e\<lparr>ze_changes := Some (c1\<lparr>de_version_madeby := made_by unchanged_opsys (de_version_madeby c1),
                                                               de_ext_attrib := unchanged_attributes\<rparr>)\<rparr>)) za, m)))"

text \<open>The operating system and the attributes; the archive for its error object.\<close>

definition zip_file_get_external_attributes :: "'u zip_t \<Rightarrow> nat \<Rightarrow> u32 \<Rightarrow> int \<times> (u8 \<times> u32) option \<times> 'u zip_t" where
  "zip_file_get_external_attributes za idx flags =
     (case zip_get_dirent za idx flags of
        Inl c \<Rightarrow> (-1, None, za_set_error c 0 za)
      | Inr de \<Rightarrow> (0, Some (ucast (drop_bit 8 (de_version_madeby de) AND 0xff), de_ext_attrib de), za))"

definition zip_set_file_compression ::
  "build \<Rightarrow> mem \<Rightarrow> 'u zip_t \<Rightarrow> nat \<Rightarrow> int \<Rightarrow> u32 \<Rightarrow> int \<times> 'u zip_t \<times> mem" where
  "zip_set_file_compression B m za idx meth flags =
     (if idx \<ge> length (za_entry za) then (-1, za_set_error ZIP_ER_INVAL 0 za, m)
      else if ZIP_IS_RDONLY za then (-1, za_set_error ZIP_ER_RDONLY 0 za, m)
      else if \<not> zip_compression_method_supported B meth True then (-1, za_set_error ZIP_ER_COMPNOTSUPP 0 za, m)
      else
        (let e = za_entry za ! idx;
             old_method = (case ze_orig e of None \<Rightarrow> ZIP_CM_DEFAULT | Some d \<Rightarrow> de_comp_method d)
         in if meth = old_method
            then (0, upd_entry idx (\<lambda>e. drop_unchanged (e\<lparr>ze_changes := map_option
                       (\<lambda>c. c\<lparr>de_changed := de_changed c AND NOT ZIP_DIRENT_COMP_METHOD, de_compression_level := 0\<rparr>)
                       (ze_changes e)\<rparr>)) za, m)
            else with_changes m za idx (\<lambda>c. c\<lparr>de_comp_method := meth, de_compression_level := ucast flags,
                                               de_changed := de_changed c OR ZIP_DIRENT_COMP_METHOD\<rparr>)))"

definition reset_password :: "'u zip_entry \<Rightarrow> zip_dirent \<Rightarrow> zip_dirent" where
  "reset_password e c =
     (if flag_set (de_changed c) ZIP_DIRENT_PASSWORD
      then c\<lparr>de_password := (case ze_orig e of None \<Rightarrow> None | Some d \<Rightarrow> de_password d)\<rparr> else c)"

definition zip_file_set_encryption ::
  "build \<Rightarrow> mem \<Rightarrow> 'u zip_t \<Rightarrow> nat \<Rightarrow> u16 \<Rightarrow> bytes option \<Rightarrow> int \<times> 'u zip_t \<times> mem" where
  "zip_file_set_encryption B m za idx meth password =
     (if idx \<ge> length (za_entry za) then (-1, za_set_error ZIP_ER_INVAL 0 za, m)
      else if ZIP_IS_RDONLY za then (-1, za_set_error ZIP_ER_RDONLY 0 za, m)
      else if meth \<noteq> ZIP_EM_NONE \<and> zip_get_encryption_implementation B meth True = None
      then (-1, za_set_error ZIP_ER_ENCRNOTSUPP 0 za, m)
      else
        (let e = za_entry za ! idx;
             old_method = (case ze_orig e of None \<Rightarrow> ZIP_EM_NONE | Some d \<Rightarrow> de_encryption_method d)
         in if meth = old_method \<and> password = None
            then (0, upd_entry idx (\<lambda>e. drop_unchanged (e\<lparr>ze_changes := map_option
                       (\<lambda>c. (reset_password e c)\<lparr>de_changed := de_changed c
                              AND NOT (ZIP_DIRENT_ENCRYPTION_METHOD OR ZIP_DIRENT_PASSWORD)\<rparr>) (ze_changes e)\<rparr>)) za, m)
            else
              (case (if password = None then (Some None, m)
                     else (case malloc m of (None, m1) \<Rightarrow> (None, m1) | (Some _, m1) \<Rightarrow> (Some (map_option cstr password), m1))) of
                 (None, m1) \<Rightarrow> (-1, za_set_error ZIP_ER_MEMORY 0 za, m1)
               | (Some our_password, m1) \<Rightarrow>
                   with_changes m1 za idx (\<lambda>c.
                     (let c1 = c\<lparr>de_encryption_method := meth, de_changed := de_changed c OR ZIP_DIRENT_ENCRYPTION_METHOD\<rparr>
                      in if our_password \<noteq> None
                         then c1\<lparr>de_password := our_password, de_changed := de_changed c1 OR ZIP_DIRENT_PASSWORD\<rparr>
                         else (reset_password e c1)\<lparr>de_changed := de_changed c1 AND NOT ZIP_DIRENT_PASSWORD\<rparr>)))))"

section \<open>Stat and positions\<close>

text \<open>The status, the block filled in, the archive.\<close>

definition zip_stat_index ::
  "'u callbacks \<Rightarrow> mem \<Rightarrow> 'u zip_t \<Rightarrow> nat \<Rightarrow> u32 \<Rightarrow> zip_stat \<Rightarrow> int \<times> zip_stat \<times> 'u zip_t \<times> mem" where
  "zip_stat_index C m za index flags st =
     (case zip_get_dirent za index flags of
        Inl c \<Rightarrow> (-1, st, za_set_error c 0 za, m)
      | Inr de \<Rightarrow>
          (case zip_get_name m za index flags True of
             (None, za1, m1) \<Rightarrow> (-1, st, za1, m1)
           | (Some name, za1, m1) \<Rightarrow>
               (let e = za_entry za1 ! index;
                    named = (\<lambda>st. st\<lparr>st_index := word_of_nat index, st_name := Some name,
                                    st_valid := st_valid st OR (ZIP_STAT_INDEX OR ZIP_STAT_NAME)\<rparr>)
                in case (if flag_set flags ZIP_FL_UNCHANGED then None else ze_source e) of
                     Some src \<Rightarrow>
                       (case zip_source_stat C src (Some st) of
                          (r, st1, src1) \<Rightarrow>
                            (let za2 = upd_entry index (\<lambda>e. e\<lparr>ze_source := Some src1\<rparr>) za1
                             in if r < 0 then (-1, the st1, za_set_error ZIP_ER_CHANGED 0 za2, m1)
                                else if ZIP_ENTRY_CHANGED e ZIP_DIRENT_LAST_MOD
                                then (0, named ((the st1)\<lparr>st_mtime := de_last_mod de, st_valid := st_valid (the st1) OR ZIP_STAT_MTIME\<rparr>), za2, m1)
                                else (0, named (the st1), za2, m1)))
                   | None \<Rightarrow>
                       (0, named ((zip_stat_init st)\<lparr>st_crc := de_crc de, st_size := de_uncomp_size de, st_mtime := de_last_mod de,
                              st_comp_size := de_comp_size de, st_comp_method := word_of_int (de_comp_method de),
                              st_encryption_method := de_encryption_method de,
                              st_valid := (if de_crc_valid de then ZIP_STAT_CRC else 0) OR ZIP_STAT_SIZE OR ZIP_STAT_MTIME
                                OR ZIP_STAT_COMP_SIZE OR ZIP_STAT_COMP_METHOD OR ZIP_STAT_ENCRYPTION_METHOD\<rparr>), za1, m1))))"

definition zip_stat_name ::
  "'u callbacks \<Rightarrow> mem \<Rightarrow> 'u zip_t \<Rightarrow> bytes option \<Rightarrow> u32 \<Rightarrow> zip_stat \<Rightarrow> int \<times> zip_stat \<times> 'u zip_t \<times> mem" where
  "zip_stat_name C m za fname flags st =
     (case zip_name_locate m za fname flags True of
        (idx, za1, m1) \<Rightarrow> if idx < 0 then (-1, st, za1, m1) else zip_stat_index C m1 za1 (nat idx) flags st)"

text \<open>The offset (0 on failure), the source, the error.\<close>

definition zip_file_get_offset ::
  "'u callbacks \<Rightarrow> mem \<Rightarrow> 'u zip_t \<Rightarrow> nat \<Rightarrow> zip_error option \<Rightarrow> u64 \<times> 'u zip_source \<times> zip_error option \<times> mem" where
  "zip_file_get_offset C m za idx error =
     (case ze_orig (za_entry za ! idx) of
        None \<Rightarrow> (0, za_src za, zip_error_set error ZIP_ER_INTERNAL 0, m)
      | Some orig \<Rightarrow>
          (case zip_source_seek C (za_src za) (sint (de_offset orig)) SEEK_SET of
             (r, src1) \<Rightarrow>
               if r < 0 then (0, src1, zip_error_set_from_source error src1, m)
               else (case zip_dirent_size C m src1 (ucast ZIP_FL_LOCAL) error of
                       (sz, src2, e, m1) \<Rightarrow>
                         if sz < 0 then (0, src2, e, m1)
                         else if unat (de_offset orig + word_of_int sz) > ZIP_INT64_MAX
                         then (0, src2, zip_error_set e ZIP_ER_SEEK EFBIG, m1)
                         else (de_offset orig + word_of_int sz, src2, e, m1))))"

abbreviation DATADES_MAGIC :: bytes where "DATADES_MAGIC \<equiv> [80, 75, 7, 8]"

text \<open>\<open>junk\<close> is what the uninitialised four-byte buffer on the stack held.\<close>

definition zip_file_get_end ::
  "'u callbacks \<Rightarrow> mem \<Rightarrow> bytes \<Rightarrow> 'u zip_t \<Rightarrow> nat \<Rightarrow> zip_error option \<Rightarrow> u64 \<times> 'u zip_source \<times> zip_error option \<times> mem" where
  "zip_file_get_end C m junk za idx error =
     (case zip_file_get_offset C m za idx error of
        (offset, src1, e, m1) \<Rightarrow>
          if offset = 0 then (0, src1, e, m1)
          else
            (let entry = the (ze_orig (za_entry za ! idx));
                 end1 = offset + de_comp_size entry
             in if end1 < offset \<or> unat end1 > ZIP_INT64_MAX then (0, src1, zip_error_set e ZIP_ER_SEEK EFBIG, m1)
                else if \<not> flag_set (de_bitflags entry) ZIP_GPBF_DATA_DESCRIPTOR then (end1, src1, e, m1)
                else
                  (case zip_source_seek C src1 (sint end1) SEEK_SET of
                     (r, src2) \<Rightarrow>
                       if r < 0 then (0, src2, zip_error_set_from_source e src2, m1)
                       else (case zip_source_read C src2 (Some junk) 4 of
                               (n, b, src3) \<Rightarrow>
                                 if n \<noteq> 4 then (0, src3, zip_error_set_from_source e src3, m1)
                                 else
                                   (let end2 = (if take 4 (the b) = DATADES_MAGIC then end1 + 4 else end1) + 12;
                                        end3 = (if zip_dirent_needs_zip64 entry 0 then end2 + 8 else end2)
                                    in if unat end3 > ZIP_INT64_MAX then (0, src3, zip_error_set e ZIP_ER_SEEK EFBIG, m1)
                                       else (end3, src3, e, m1))))))"

section \<open>Adding a directory\<close>

definition ZIP_EXT_ATTRIB_DEFAULT_DIR :: u32 where
  "ZIP_EXT_ATTRIB_DEFAULT_DIR = push_bit 16 0x41ff"

text \<open>
  \<open>now\<close> is \<open>time(NULL)\<close>; \<open>ms\<close> are the answers of the allocator to the empty in-memory source, \<open>m\<close> those
  to the rest. The outer \<open>None\<close> is the read before an empty name.
\<close>

definition zip_dir_add ::
  "int \<Rightarrow> mem \<Rightarrow> mem \<Rightarrow> read_ctx zip_t \<Rightarrow> bytes option \<Rightarrow> u32 \<Rightarrow> (int \<times> read_ctx zip_t \<times> mem) option" where
  "zip_dir_add now ms m za name flags =
     (if ZIP_IS_RDONLY za then Some (-1, za_set_error ZIP_ER_RDONLY 0 za, m)
      else
        (case name of
           None \<Rightarrow> Some (-1, za_set_error ZIP_ER_INVAL 0 za, m)
         | Some n \<Rightarrow>
             (case last_is_slash n of
                None \<Rightarrow> None
              | Some slash \<Rightarrow>
                  (case (if slash then (Some n, m)
                         else (case malloc m of (None, m1) \<Rightarrow> (None, m1) | (Some _, m1) \<Rightarrow> (Some (cstr n @ [47]), m1))) of
                     (None, m1) \<Rightarrow> Some (-1, za_set_error ZIP_ER_MEMORY 0 za, m1)
                   | (Some s, m1) \<Rightarrow>
                       (case zip_source_buffer_create now ms None 0 False (Some (za_error za)) of
                          None \<Rightarrow> None
                        | Some (None, e) \<Rightarrow> Some (-1, za_put e za, m1)
                        | Some (Some source, e) \<Rightarrow>
                            (case file_replace m1 (za_put e za) ZIP_UINT64_MAX (Some s) (Some source) flags of
                               (idx, za1, m2) \<Rightarrow>
                                 if idx < 0 then Some (idx, za1, m2)
                                 else
                                   (case zip_file_set_external_attributes m2 za1 (nat idx) ZIP_OPSYS_DEFAULT ZIP_EXT_ATTRIB_DEFAULT_DIR of
                                      (r, za2, m3) \<Rightarrow>
                                        if r < 0 then (case zip_delete m3 za2 (nat idx) of (_, za3, m4) \<Rightarrow> Some (-1, za3, m4))
                                        else Some (idx, za2, m3))))))))"

definition zip_add_dir :: "int \<Rightarrow> mem \<Rightarrow> mem \<Rightarrow> read_ctx zip_t \<Rightarrow> bytes option \<Rightarrow> (int \<times> read_ctx zip_t \<times> mem) option" where
  "zip_add_dir now ms m za name = zip_dir_add now ms m za name 0"

section \<open>Extra fields of an entry\<close>

definition set_orig_fields :: "zip_extra_field list \<Rightarrow> zip_dirent \<Rightarrow> zip_dirent" where
  "set_orig_fields efs c = c\<lparr>de_extra_fields := efs\<rparr>"

definition prepare_for_change :: "'u callbacks \<Rightarrow> int \<Rightarrow> mem \<Rightarrow> 'u zip_t \<Rightarrow> nat \<Rightarrow> int \<times> 'u zip_t \<times> mem" where
  "prepare_for_change C errno m za idx =
     (if idx \<ge> length (za_entry za) then (-1, za_set_error ZIP_ER_INVAL 0 za, m)
      else if ZIP_ENTRY_CHANGED (za_entry za ! idx) ZIP_DIRENT_EXTRA_FIELD then (0, za, m)
      else
        (case (if ze_orig (za_entry za ! idx) = None then (0, za, m) else zip_read_local_ef C errno m za idx) of
           (r, za1, m1) \<Rightarrow>
             if r < 0 then (-1, za1, m1)
             else
               (case with_changes m1 za1 idx id of
                  (r2, za2, m2) \<Rightarrow>
                    if r2 < 0 then (-1, za2, m2)
                    else
                      (let upd = (\<lambda>f. upd_entry idx (\<lambda>e. e\<lparr>ze_changes := map_option f (ze_changes e)\<rparr>));
                           flag = (\<lambda>c. c\<lparr>de_changed := de_changed c OR ZIP_DIRENT_EXTRA_FIELD\<rparr>);
                           efs = (case ze_orig (za_entry za2 ! idx) of None \<Rightarrow> [] | Some d \<Rightarrow> de_extra_fields d)
                       in if efs = [] then (0, upd flag za2, m2)
                          else (case zip_ef_clone m2 efs (Some (za_error za2)) of
                                  (ds, e, m3) \<Rightarrow>
                                    (let za3 = za_put e (upd (set_orig_fields ds) za2)
                                     in if ds = [] then (-1, za3, m3) else (0, upd flag za3, m3)))))))"

definition changes_fields :: "'u zip_t \<Rightarrow> nat \<Rightarrow> zip_extra_field list" where
  "changes_fields za idx = (case ze_changes (za_entry za ! idx) of None \<Rightarrow> [] | Some c \<Rightarrow> de_extra_fields c)"

definition put_changes_fields :: "nat \<Rightarrow> zip_extra_field list \<Rightarrow> 'u zip_t \<Rightarrow> 'u zip_t" where
  "put_changes_fields idx efs = upd_entry idx (\<lambda>e. e\<lparr>ze_changes := map_option (set_orig_fields efs) (ze_changes e)\<rparr>)"

definition zip_file_extra_field_delete_by_id ::
  "'u callbacks \<Rightarrow> int \<Rightarrow> mem \<Rightarrow> 'u zip_t \<Rightarrow> nat \<Rightarrow> nat \<Rightarrow> nat \<Rightarrow> u32 \<Rightarrow> int \<times> 'u zip_t \<times> mem" where
  "zip_file_extra_field_delete_by_id C errno m za idx i ef_idx flags =
     (if flags AND ZIP_EF_BOTH = 0 then (-1, za_set_error ZIP_ER_INVAL 0 za, m)
      else if flags AND ZIP_EF_BOTH = ZIP_EF_BOTH \<and> ef_idx \<noteq> ZIP_EXTRA_FIELD_ALL then (-1, za_set_error ZIP_ER_INVAL 0 za, m)
      else
        (case zip_get_dirent za idx 0 of
           Inl c \<Rightarrow> (-1, za_set_error c 0 za, m)
         | Inr _ \<Rightarrow>
             if ZIP_IS_RDONLY za then (-1, za_set_error ZIP_ER_RDONLY 0 za, m)
             else (case prepare_for_change C errno m za idx of
                     (r, za1, m1) \<Rightarrow>
                       if r < 0 then (-1, za1, m1)
                       else (0, put_changes_fields idx (zip_ef_delete_by_id (changes_fields za1 idx) i ef_idx flags) za1, m1))))"

definition zip_file_extra_field_delete ::
  "'u callbacks \<Rightarrow> int \<Rightarrow> mem \<Rightarrow> 'u zip_t \<Rightarrow> nat \<Rightarrow> nat \<Rightarrow> u32 \<Rightarrow> int \<times> 'u zip_t \<times> mem" where
  "zip_file_extra_field_delete C errno m za idx ef_idx flags =
     zip_file_extra_field_delete_by_id C errno m za idx ZIP_EXTRA_FIELD_ALL ef_idx flags"

text \<open>The entry to read fields from, with the local ones read in when they are asked for.\<close>

definition fields_for_reading ::
  "'u callbacks \<Rightarrow> int \<Rightarrow> mem \<Rightarrow> 'u zip_t \<Rightarrow> nat \<Rightarrow> u32 \<Rightarrow> zip_extra_field list option \<times> 'u zip_t \<times> mem" where
  "fields_for_reading C errno m za idx flags =
     (if flags AND ZIP_EF_BOTH = 0 then (None, za_set_error ZIP_ER_INVAL 0 za, m)
      else
        (case zip_get_dirent za idx flags of
           Inl e \<Rightarrow> (None, za_set_error e 0 za, m)
         | Inr _ \<Rightarrow>
             (case (if flag_set flags ZIP_FL_LOCAL then zip_read_local_ef C errno m za idx else (0, za, m)) of
                (r, za1, m1) \<Rightarrow>
                  if r < 0 then (None, za1, m1)
                  else (case zip_get_dirent za1 idx flags of Inl c \<Rightarrow> (None, za_set_error c 0 za1, m1) | Inr de \<Rightarrow> (Some (de_extra_fields de), za1, m1)))))"

text \<open>The data, the id and the size of the field numbered \<open>ef_idx\<close> among those of the wanted headers.\<close>

fun ef_nth_loop :: "zip_extra_field list \<Rightarrow> nat \<Rightarrow> u32 \<Rightarrow> nat \<Rightarrow> (bytes \<times> u16 \<times> nat) option" where
  "ef_nth_loop [] ef_idx flags i = None"
| "ef_nth_loop (ef # efs) ef_idx flags i =
     (if ef_in flags ef then
        (if i < ef_idx then ef_nth_loop efs ef_idx flags (i + 1)
         else Some (if ef_size ef > 0 then ef_data ef else [0], ef_id ef, ef_size ef))
      else ef_nth_loop efs ef_idx flags i)"

definition zip_file_extra_field_get ::
  "'u callbacks \<Rightarrow> int \<Rightarrow> mem \<Rightarrow> 'u zip_t \<Rightarrow> nat \<Rightarrow> nat \<Rightarrow> u32 \<Rightarrow> (bytes \<times> u16 \<times> nat) option \<times> 'u zip_t \<times> mem" where
  "zip_file_extra_field_get C errno m za idx ef_idx flags =
     (case fields_for_reading C errno m za idx flags of
        (None, za1, m1) \<Rightarrow> (None, za1, m1)
      | (Some efs, za1, m1) \<Rightarrow>
          (case ef_nth_loop efs ef_idx flags 0 of
             None \<Rightarrow> (None, za_set_error ZIP_ER_NOENT 0 za1, m1)
           | Some r \<Rightarrow> (Some r, za1, m1)))"

definition zip_file_extra_field_get_by_id ::
  "'u callbacks \<Rightarrow> int \<Rightarrow> mem \<Rightarrow> 'u zip_t \<Rightarrow> nat \<Rightarrow> u16 \<Rightarrow> nat \<Rightarrow> u32 \<Rightarrow> (bytes \<times> nat) option \<times> 'u zip_t \<times> mem" where
  "zip_file_extra_field_get_by_id C errno m za idx i ef_idx flags =
     (case fields_for_reading C errno m za idx flags of
        (None, za1, m1) \<Rightarrow> (None, za1, m1)
      | (Some efs, za1, m1) \<Rightarrow>
          (case zip_ef_get_by_id efs i ef_idx flags (Some (za_error za1)) of (r, e) \<Rightarrow> (r, za_put e za1, m1)))"

text \<open>A 16-bit counter, answered as a signed 16-bit number.\<close>

definition count16 :: "nat \<Rightarrow> int" where
  "count16 n = sint (word_of_nat n :: u16)"

definition zip_file_extra_fields_count ::
  "'u callbacks \<Rightarrow> int \<Rightarrow> mem \<Rightarrow> 'u zip_t \<Rightarrow> nat \<Rightarrow> u32 \<Rightarrow> int \<times> 'u zip_t \<times> mem" where
  "zip_file_extra_fields_count C errno m za idx flags =
     (case fields_for_reading C errno m za idx flags of
        (None, za1, m1) \<Rightarrow> (-1, za1, m1)
      | (Some efs, za1, m1) \<Rightarrow> (count16 (length (filter (ef_in flags) efs)), za1, m1))"

definition zip_file_extra_fields_count_by_id ::
  "'u callbacks \<Rightarrow> int \<Rightarrow> mem \<Rightarrow> 'u zip_t \<Rightarrow> nat \<Rightarrow> u16 \<Rightarrow> u32 \<Rightarrow> int \<times> 'u zip_t \<times> mem" where
  "zip_file_extra_fields_count_by_id C errno m za idx i flags =
     (case fields_for_reading C errno m za idx flags of
        (None, za1, m1) \<Rightarrow> (-1, za1, m1)
      | (Some efs, za1, m1) \<Rightarrow> (count16 (length (filter (\<lambda>ef. ef_id ef = i \<and> ef_in flags ef) efs)), za1, m1))"

text \<open>The position of the field numbered \<open>ef_idx\<close> of this id, and how many were seen before it.\<close>

fun ef_find_loop :: "zip_extra_field list \<Rightarrow> u16 \<Rightarrow> nat \<Rightarrow> u32 \<Rightarrow> nat \<Rightarrow> nat \<Rightarrow> nat option \<times> nat" where
  "ef_find_loop [] ef i flags k pos = (None, k)"
| "ef_find_loop (f # fs) ef i flags k pos =
     (if ef_id f = ef \<and> ef_in flags f then
        (if k = i then (Some pos, k) else ef_find_loop fs ef i flags (k + 1) (pos + 1))
      else ef_find_loop fs ef i flags k (pos + 1))"

definition ef_insert :: "zip_extra_field list \<Rightarrow> nat option \<Rightarrow> zip_extra_field \<Rightarrow> u32 \<Rightarrow> zip_extra_field list" where
  "ef_insert efs found new flags =
     (case found of
        Some p \<Rightarrow>
          if ef_flags (efs ! p) AND ZIP_EF_BOTH = flags AND ZIP_EF_BOTH then efs[p := new]
          else take p efs @ [ef_clear flags (efs ! p), new] @ drop (Suc p) efs
      | None \<Rightarrow> efs @ [new])"

definition zip_file_extra_field_set ::
  "'u callbacks \<Rightarrow> int \<Rightarrow> mem \<Rightarrow> 'u zip_t \<Rightarrow> nat \<Rightarrow> u16 \<Rightarrow> nat \<Rightarrow> bytes \<Rightarrow> nat \<Rightarrow> u32 \<Rightarrow> int \<times> 'u zip_t \<times> mem" where
  "zip_file_extra_field_set C errno m za idx ef ef_idx data len flags =
     (if flags AND ZIP_EF_BOTH = 0 then (-1, za_set_error ZIP_ER_INVAL 0 za, m)
      else
        (case zip_get_dirent za idx 0 of
           Inl c \<Rightarrow> (-1, za_set_error c 0 za, m)
         | Inr _ \<Rightarrow>
             if ZIP_IS_RDONLY za then (-1, za_set_error ZIP_ER_RDONLY 0 za, m)
             else if ZIP_EF_IS_INTERNAL ef then (-1, za_set_error ZIP_ER_INVAL 0 za, m)
             else
               (case prepare_for_change C errno m za idx of
                  (r, za1, m1) \<Rightarrow>
                    if r < 0 then (-1, za1, m1)
                    else
                      (let efs = changes_fields za1 idx;
                           (found, i) = ef_find_loop efs ef ef_idx flags 0 0;
                           ls = (if flag_set flags ZIP_FL_LOCAL then zip_ef_size efs ZIP_FL_LOCAL else 0);
                           cs = (if flag_set flags ZIP_FL_CENTRAL then zip_ef_size efs ZIP_FL_CENTRAL else 0);
                           new_len = int (max ls cs) - (case found of Some p \<Rightarrow> int (ef_size (efs ! p) + 4) | None \<Rightarrow> 0)
                                     + int (len + 4)
                       in if i < ef_idx \<and> ef_idx \<noteq> ZIP_EXTRA_FIELD_NEW then (-1, za_set_error ZIP_ER_INVAL 0 za1, m1)
                          else if new_len > int ZIP_UINT16_MAX then (-1, za_set_error ZIP_ER_INVAL 0 za1, m1)
                          else (case zip_ef_new m1 ef len data flags of
                                  (None, m2) \<Rightarrow> (-1, za_set_error ZIP_ER_MEMORY 0 za1, m2)
                                | (Some new, m2) \<Rightarrow> (0, put_changes_fields idx (ef_insert efs found new flags) za1, m2))))))"

section \<open>Properties\<close>

text \<open>The changes an entry has, or would be given.\<close>

definition current_changes :: "'u zip_entry \<Rightarrow> zip_dirent" where
  "current_changes e = (case ze_changes e of Some c \<Rightarrow> c
     | None \<Rightarrow> (case ze_orig e of Some d \<Rightarrow> d | None \<Rightarrow> zip_dirent_init)\<lparr>de_changed := 0, de_cloned := True\<rparr>)"

lemma with_changes_ok [simp]:
  "with_changes [] za idx f = (0, upd_entry idx (\<lambda>e. e\<lparr>ze_changes := Some (f (current_changes (za_entry za ! idx)))\<rparr>) za, [])"
  by (simp add: with_changes_def current_changes_def zip_dirent_clone_def Let_def split: option.split)

lemma with_changes_cases:
  obtains (fail) m1 where "with_changes m za idx f = (-1, za_set_error ZIP_ER_MEMORY 0 za, m1)"
  | (ok) m1 where "with_changes m za idx f = (0, upd_entry idx (\<lambda>e. e\<lparr>ze_changes := Some (f (current_changes (za_entry za ! idx)))\<rparr>) za, m1)"
proof (cases "ze_changes (za_entry za ! idx)")
  case None
  obtain a m1 where "malloc m = (a, m1)" by fastforce
  then show ?thesis using None that
    by (cases a) (simp_all add: with_changes_def current_changes_def zip_dirent_clone_def Let_def)
next
  case (Some c)
  then show ?thesis using that(2) by (simp add: with_changes_def current_changes_def Let_def)
qed

lemma get_dirent_changes [simp]:
  "idx < length (za_entry za) \<Longrightarrow> ze_changes (za_entry za ! idx) = Some c \<Longrightarrow> \<not> flag_set flags ZIP_FL_UNCHANGED
    \<Longrightarrow> zip_get_dirent za idx flags = Inr c"
  by (simp add: zip_get_dirent_def Let_def)

lemma get_dirent_orig:
  "idx < length (za_entry za) \<Longrightarrow> ze_changes (za_entry za ! idx) = None \<Longrightarrow> ze_orig (za_entry za ! idx) = Some d
    \<Longrightarrow> \<not> ze_deleted (za_entry za ! idx) \<Longrightarrow> zip_get_dirent za idx flags = Inr d"
  by (simp add: zip_get_dirent_def Let_def)

lemma RDONLY_upd [simp]: "ZIP_IS_RDONLY (upd_entry idx f za) = ZIP_IS_RDONLY za"
  by (simp add: ZIP_IS_RDONLY_def upd_entry_def)

text \<open>
  C35. Error: setting an entry's compression to another format and back, with any other change in
  between, leaves the other format in the header that zip_close writes, while the entry no longer counts
  as recompressed: its old data is copied below a header that names the wrong format.
\<close>

theorem reset_compression_keeps_format:
  assumes i: "idx < length (za_entry za)" and wr: "\<not> ZIP_IS_RDONLY za"
    and e: "ze_orig (za_entry za ! idx) = Some d" "ze_changes (za_entry za ! idx) = None" "\<not> ze_deleted (za_entry za ! idx)"
      "ze_source (za_entry za ! idx) = None" "de_encryption_method d \<noteq> ZIP_EM_TRAD_PKWARE"
    and x: "x \<noteq> de_comp_method d" "zip_compression_method_supported B x True"
      "zip_compression_method_supported B (de_comp_method d) True"
  shows "\<exists>za1 za2 za3 c. zip_set_file_compression B [] za idx x l1 = (0, za1, [])
    \<and> zip_file_set_mtime [] za1 idx t = (0, za2, [])
    \<and> zip_set_file_compression B [] za2 idx (de_comp_method d) l2 = (0, za3, [])
    \<and> ze_changes (za_entry za3 ! idx) = Some c \<and> de_comp_method c = x
    \<and> \<not> ZIP_ENTRY_CHANGED (za_entry za3 ! idx) ZIP_DIRENT_COMP_METHOD \<and> \<not> ZIP_ENTRY_DATA_CHANGED (za_entry za3 ! idx)"
proof -
  define c1 where "c1 = (current_changes (za_entry za ! idx))\<lparr>de_comp_method := x, de_compression_level := ucast l1, de_changed := 1\<rparr>"
  define za1 where "za1 = upd_entry idx (\<lambda>e. e\<lparr>ze_changes := Some c1\<rparr>) za"
  define za2 where "za2 = upd_entry idx (\<lambda>e. e\<lparr>ze_changes := Some (c1\<lparr>de_last_mod := t, de_changed := 0x21\<rparr>)\<rparr>) za1"
  define c3 where "c3 = c1\<lparr>de_last_mod := t, de_changed := 0x20, de_compression_level := 0\<rparr>"
  define za3 where "za3 = upd_entry idx (\<lambda>e. e\<lparr>ze_changes := Some c3\<rparr>) za2"
  have "zip_set_file_compression B [] za idx x l1 = (0, za1, [])"
    using i wr e x by (simp add: zip_set_file_compression_def Let_def za1_def c1_def current_changes_def)
  moreover have "zip_file_set_mtime [] za1 idx t = (0, za2, [])"
    using i wr e by (simp add: zip_file_set_mtime_def Let_def za1_def za2_def c1_def upd_entry_def current_changes_def
        ZIP_ENTRY_CHANGED_def ZIP_IS_RDONLY_def)
  moreover have "zip_set_file_compression B [] za2 idx (de_comp_method d) l2 = (0, za3, [])"
    using i wr e x by (simp add: zip_set_file_compression_def Let_def za1_def za2_def za3_def c3_def upd_entry_def drop_unchanged_def
        ZIP_IS_RDONLY_def)
  ultimately show ?thesis
    using i e by (intro exI [of _ za1] exI [of _ za2] exI [of _ za3] exI [of _ c3])
      (simp add: za3_def za2_def za1_def c3_def c1_def upd_entry_def ZIP_ENTRY_CHANGED_def ZIP_ENTRY_DATA_CHANGED_def flag_set_def)
qed

definition sample_packed :: "read_ctx zip_t" where
  "sample_packed = upd_entry 0 (\<lambda>e. e\<lparr>ze_orig := map_option (\<lambda>d. d\<lparr>de_comp_method := ZIP_CM_DEFLATE,
     de_comment := Some \<lparr>zs_raw = [104, 105, 0], zs_length = 2, zs_encoding = ZIP_ENCODING_ASCII, zs_converted = None,
       zs_converted_length = 0\<rparr>\<rparr>) (ze_orig e)\<rparr>) sample_one"

definition sample_packed_dirent :: zip_dirent where
  "sample_packed_dirent = the (ze_orig (za_entry sample_packed ! 0))"

lemma sample_packed_entry:
  "0 < length (za_entry sample_packed)" "\<not> ZIP_IS_RDONLY sample_packed"
  "ze_orig (za_entry sample_packed ! 0) = Some sample_packed_dirent" "ze_changes (za_entry sample_packed ! 0) = None"
  "\<not> ze_deleted (za_entry sample_packed ! 0)" "ze_source (za_entry sample_packed ! 0) = None"
  "de_encryption_method sample_packed_dirent = ZIP_EM_NONE" "de_comp_method sample_packed_dirent = ZIP_CM_DEFLATE"
  "de_comment sample_packed_dirent = Some \<lparr>zs_raw = [104, 105, 0], zs_length = 2, zs_encoding = ZIP_ENCODING_ASCII,
     zs_converted = None, zs_converted_length = 0\<rparr>"
  by (simp_all add: sample_packed_dirent_def sample_packed_def sample_one_def upd_entry_def zip_entry_init_def zip_dirent_init_def
      sample_archive_def ZIP_IS_RDONLY_def)

definition sample_build :: build where
  "sample_build = \<lparr>have_crypto = False, have_libbz2 = False, have_liblzma = False, have_libzstd = False\<rparr>"

theorem reset_compression_keeps_format_witness:
  "\<exists>za1 za2 za3 c. zip_set_file_compression sample_build [] sample_packed 0 ZIP_CM_STORE 0 = (0, za1, [])
    \<and> zip_file_set_mtime [] za1 0 7 = (0, za2, []) \<and> zip_set_file_compression sample_build [] za2 0 ZIP_CM_DEFLATE 0 = (0, za3, [])
    \<and> ze_changes (za_entry za3 ! 0) = Some c \<and> de_comp_method c = ZIP_CM_STORE"
proof -
  have "zip_compression_method_supported sample_build ZIP_CM_STORE True" "zip_compression_method_supported sample_build ZIP_CM_DEFLATE True"
    by code_simp+
  with reset_compression_keeps_format [OF sample_packed_entry(1-6), of ZIP_CM_STORE sample_build 0 7 0] sample_packed_entry(7,8)
  show ?thesis by auto
qed

lemma guess_keeps: "zip_guess_encoding (Some s) x = (y, t) \<Longrightarrow> \<exists>z. t = Some z"
  by (auto simp: zip_guess_encoding_def Let_def split: if_splits)

text \<open>
  C36. Error: on an entry with a comment and any other change (here its time), setting another, non-empty comment
  reads the original comment after freeing it: the changes still share the pointer, the code frees it and then
  compares with it. Removing the comment (length 0) does not read it.
\<close>

theorem zip_file_set_comment_reads_freed:
  assumes i: "idx < length (za_entry za)" and wr: "\<not> ZIP_IS_RDONLY za"
    and e: "ze_orig (za_entry za ! idx) = Some d" "ze_changes (za_entry za ! idx) = None" "\<not> ze_deleted (za_entry za ! idx)"
      "de_encryption_method d \<noteq> ZIP_EM_TRAD_PKWARE" "de_comment d \<noteq> None" and len: "0 < len"
  shows "\<exists>za1. zip_file_set_mtime [] za idx t = (0, za1, []) \<and> zip_file_set_comment [] za1 idx (Some comment) len 0 = None
    \<and> zip_file_set_comment [] za1 idx None 0 0 \<noteq> None"
proof -
  let ?c = "d\<lparr>de_cloned := True, de_last_mod := t, de_changed := ZIP_DIRENT_LAST_MOD\<rparr>"
  let ?za1 = "upd_entry idx (\<lambda>e. e\<lparr>ze_changes := Some ?c\<rparr>) za"
  have "zip_file_set_mtime [] za idx t = (0, ?za1, [])"
    using i wr e by (simp add: zip_file_set_mtime_def get_dirent_orig current_changes_def Let_def)
  moreover have "comment_shared (za_entry ?za1 ! idx)"
    using i e by (simp add: upd_entry_def comment_shared_def flag_set_def)
  moreover obtain s where "set_comment_string [] (Some comment) len 0 (Some (za_error ?za1)) = (Some (Some s), Some (za_error ?za1), [])"
  proof -
    have "\<exists>s. set_comment_string [] (Some comment) len 0 (Some (za_error ?za1)) = (Some (Some s), Some (za_error ?za1), [])"
      using len by (auto simp: set_comment_string_def zip_string_new_def string_known_def Let_def dest: guess_keeps split: prod.split)
    then show thesis using that by blast
  qed
  moreover have "zip_get_dirent ?za1 idx 0 = Inr ?c" using i by (simp add: zip_get_dirent_def upd_entry_def Let_def flag_set_def)
  ultimately have "zip_file_set_mtime [] za idx t = (0, ?za1, []) \<and> zip_file_set_comment [] ?za1 idx (Some comment) len 0 = None
    \<and> zip_file_set_comment [] ?za1 idx None 0 0 \<noteq> None"
    using wr by (simp add: zip_file_set_comment_def del: not_None_eq) (simp add: set_comment_string_def del: not_None_eq)
  then show ?thesis by blast
qed

theorem zip_file_set_comment_reads_freed_witness:
  "\<exists>za1. zip_file_set_mtime [] sample_packed 0 7 = (0, za1, []) \<and> zip_file_set_comment [] za1 0 (Some [120]) 1 0 = None
    \<and> zip_file_set_comment [] za1 0 None 0 0 \<noteq> None"
  by (rule zip_file_set_comment_reads_freed [OF sample_packed_entry(1-5)]) (simp_all add: sample_packed_entry)

section \<open>Read-only archives\<close>

text \<open>
  The calls that change what is written, with every argument and every answer of the allocator, and the calls that
  set something else: the flags of the archive and the default password, which no file holds. Restoring
  (\<open>zip_unchange_all\<close>, \<open>zip_unchange_archive\<close>) is not among them: it puts the flags back too.
\<close>

inductive write_call :: "read_ctx zip_t \<Rightarrow> int \<Rightarrow> read_ctx zip_t \<Rightarrow> bool" where
  "zip_file_add m za name src flags = (r, za1, m1) \<Longrightarrow> write_call za r za1"
| "zip_dir_add now ms m za name flags = Some (r, za1, m1) \<Longrightarrow> write_call za r za1"
| "zip_file_replace m za idx src flags = (r, za1, m1) \<Longrightarrow> write_call za r za1"
| "zip_file_rename m za idx name flags = Some (r, za1, m1) \<Longrightarrow> write_call za r za1"
| "zip_delete m za idx = (r, za1, m1) \<Longrightarrow> write_call za r za1"
| "zip_set_archive_comment m za comment len = (r, za1, m1) \<Longrightarrow> write_call za r za1"
| "zip_file_set_comment m za idx comment len flags = Some (r, za1, m1) \<Longrightarrow> write_call za r za1"
| "zip_file_set_mtime m za idx t = (r, za1, m1) \<Longrightarrow> write_call za r za1"
| "zip_file_set_external_attributes m za idx opsys attributes = (r, za1, m1) \<Longrightarrow> write_call za r za1"
| "zip_set_file_compression B m za idx x flags = (r, za1, m1) \<Longrightarrow> write_call za r za1"
| "zip_file_set_encryption B m za idx y password = (r, za1, m1) \<Longrightarrow> write_call za r za1"
| "zip_file_extra_field_delete_by_id C errno m za idx i k flags = (r, za1, m1) \<Longrightarrow> write_call za r za1"
| "zip_file_extra_field_set C errno m za idx i k data len flags = (r, za1, m1) \<Longrightarrow> write_call za r za1"
| "zip_set_file_comment m za idx comment slen = Some (r, za1, m1) \<Longrightarrow> write_call za r za1"
| "zip_file_set_dostime L m za idx dtime ddate = (r, za1, m1) \<Longrightarrow> write_call za r za1"
| "zip_file_extra_field_delete C errno m za idx k flags = (r, za1, m1) \<Longrightarrow> write_call za r za1"

inductive setting_call :: "read_ctx zip_t \<Rightarrow> read_ctx zip_t \<Rightarrow> bool" where
  "zip_set_archive_flag za flag value = (r, za1) \<Longrightarrow> setting_call za za1"
| "zip_set_default_password m (Some za) passwd = (r, Some za1, m1) \<Longrightarrow> setting_call za za1"

lemma set_error_only [simp]: "\<exists>e. za_set_error x y za = za\<lparr>za_error := e\<rparr>" "\<exists>e. za = za\<lparr>za_error := e\<rparr>"
proof -
  show "\<exists>e. za_set_error x y za = za\<lparr>za_error := e\<rparr>" unfolding za_set_error_def by blast
  show "\<exists>e. za = za\<lparr>za_error := e\<rparr>" by (rule exI [of _ "za_error za"]) simp
qed

lemma write_call_rdonly:
  assumes "write_call za r za1" and ro: "ZIP_IS_RDONLY za"
  shows "r < 0 \<and> (\<exists>e. za1 = za\<lparr>za_error := e\<rparr>)"
  using assms(1) ro
  by cases (auto simp: zip_file_add_def file_replace_def zip_dir_add_def zip_file_replace_def zip_file_rename_def zip_delete_def
      zip_set_archive_comment_def zip_file_set_comment_def zip_file_set_mtime_def zip_file_set_external_attributes_def
      zip_set_file_compression_def zip_file_set_encryption_def zip_file_extra_field_delete_by_id_def zip_file_extra_field_set_def
      zip_set_file_comment_def zip_file_set_dostime_def zip_file_extra_field_delete_def
      split: if_splits sum.splits)

lemma setting_call_rdonly:
  assumes "setting_call za za1" and ro: "ZIP_IS_RDONLY za"
  shows "\<exists>e p. za1 = za\<lparr>za_error := e, za_default_password := p\<rparr>"
  using assms(1)
proof cases
  case (1 flag val r)
  then have "za1 = za \<or> za1 = za_set_error ZIP_ER_RDONLY 0 za" using ro by (auto simp: zip_set_archive_flag_def Let_def split: if_splits)
  then show ?thesis
  proof
    assume "za1 = za"
    then have "za1 = za\<lparr>za_error := za_error za, za_default_password := za_default_password za\<rparr>" by simp
    then show ?thesis by blast
  next
    assume "za1 = za_set_error ZIP_ER_RDONLY 0 za"
    then have "za1 = za\<lparr>za_error := za_error za1, za_default_password := za_default_password za\<rparr>" by (simp add: za_set_error_def)
    then show ?thesis by blast
  qed
next
  case (2 m passwd r m1)
  then have "za1 = za\<lparr>za_error := za_error za1, za_default_password := za_default_password za1\<rparr>"
    by (auto simp: zip_set_default_password_def za_set_error_def split: option.splits if_splits prod.splits)
  then show ?thesis by blast
qed

text \<open>
  C18. Safety: once \<open>zip_set_archive_flag\<close> has made an archive read-only, which it does only when nothing
  is changed (or it already was read-only), every call that changes what is written fails, and no sequence of
  such calls, of changes of the archive's flags and of the default password changes anything but the error object and that
  password. Read-only is lifted only by restoring: \<open>zip_unchange_archive\<close>, which has no guard, puts the flags of the archive as
  opened back.
\<close>

theorem read_only_archive_unchanged:
  assumes set: "zip_set_archive_flag za0 ZIP_AFL_RDONLY 1 = (0, za)"
    and calls: "(\<lambda>a b. (\<exists>r. write_call a r b) \<or> setting_call a b)\<^sup>*\<^sup>* za za1"
  shows "(\<exists>e p. za1 = za0\<lparr>za_ch_flags := za_ch_flags za0 OR ZIP_AFL_RDONLY, za_error := e, za_default_password := p\<rparr>)
    \<and> (ZIP_IS_RDONLY za0 \<or> \<not> fst (zip_changed za0)) \<and> (\<forall>r za2. write_call za1 r za2 \<longrightarrow> r < 0)
    \<and> za_ch_flags (snd (zip_unchange_archive za1)) = za_flags za0"
proof -
  have f: "flag_set (x OR ZIP_AFL_RDONLY) ZIP_AFL_RDONLY" for x by (simp add: flag_set_or) (simp add: flag_set_def)
  have g: "x OR ZIP_AFL_RDONLY = x \<Longrightarrow> flag_set x ZIP_AFL_RDONLY" for x using f [of x] by simp
  have za: "za = za0\<lparr>za_ch_flags := za_ch_flags za0 OR ZIP_AFL_RDONLY\<rparr>" and ch: "ZIP_IS_RDONLY za0 \<or> \<not> fst (zip_changed za0)"
    using set g [of "za_ch_flags za0"] f [of 0] by (auto simp: zip_set_archive_flag_def Let_def ZIP_IS_RDONLY_def flag_set_def [of _ ZIP_AFL_RDONLY] split: if_splits)
  have ro: "ZIP_IS_RDONLY (za\<lparr>za_error := e, za_default_password := p\<rparr>)" for e p by (simp add: ZIP_IS_RDONLY_def za f)
  from calls have "\<exists>e p. za1 = za\<lparr>za_error := e, za_default_password := p\<rparr>"
  proof (induction rule: rtranclp_induct)
    case base
    have "za = za\<lparr>za_error := za_error za, za_default_password := za_default_password za\<rparr>" by simp
    then show ?case by blast
  next
    case (step y z)
    then obtain e p where y: "y = za\<lparr>za_error := e, za_default_password := p\<rparr>" by blast
    have roy: "ZIP_IS_RDONLY y" unfolding y by (rule ro)
    from step(2) consider (w) r where "write_call y r z" | (s) "setting_call y z" by blast
    then show ?case
    proof cases
      case w
      then obtain e' where "z = y\<lparr>za_error := e'\<rparr>" using write_call_rdonly [OF _ roy] by blast
      then have "z = za\<lparr>za_error := e', za_default_password := p\<rparr>" by (simp add: y)
      then show ?thesis by blast
    next
      case s
      then obtain e' p' where "z = y\<lparr>za_error := e', za_default_password := p'\<rparr>" using setting_call_rdonly [OF _ roy] by blast
      then have "z = za\<lparr>za_error := e', za_default_password := p'\<rparr>" by (simp add: y)
      then show ?thesis by blast
    qed
  qed
  then obtain e p where e: "za1 = za\<lparr>za_error := e, za_default_password := p\<rparr>" by blast
  have "r < 0" if "write_call za1 r za2" for r za2 using write_call_rdonly [OF that] ro by (simp add: e)
  moreover have "za_ch_flags (snd (zip_unchange_archive za1)) = za_flags za0"
    by (simp add: zip_unchange_archive_def Let_def e za)
  moreover have "za1 = za0\<lparr>za_ch_flags := za_ch_flags za0 OR ZIP_AFL_RDONLY, za_error := e, za_default_password := p\<rparr>"
    by (simp add: e za)
  ultimately show ?thesis using ch by blast
qed

theorem read_only_archive_unchanged_witness:
  "\<exists>za1. zip_delete [] (snd (zip_set_archive_flag sample_packed ZIP_AFL_RDONLY 1)) 0 = (-1, za1, []) \<and> za_entry za1 = za_entry sample_packed"
proof -
  let ?za = "snd (zip_set_archive_flag sample_packed ZIP_AFL_RDONLY 1)"
  have "\<not> fst (zip_changed sample_packed)" "za_ch_flags sample_packed = 0"
    by (simp_all add: zip_changed_def sample_packed_def sample_one_def sample_archive_def upd_entry_def zip_entry_init_def
        ZIP_ENTRY_HAS_CHANGES_def ZIP_ENTRY_DATA_CHANGED_def ZIP_ENTRY_CHANGED_def)
  then have "fst (zip_set_archive_flag sample_packed ZIP_AFL_RDONLY 1) = 0"
    using sample_packed_entry(2) by (simp add: zip_set_archive_flag_def Let_def)
  then have z: "zip_set_archive_flag sample_packed ZIP_AFL_RDONLY 1 = (0, ?za)" by (metis prod.collapse)
  have e: "ZIP_IS_RDONLY ?za" "za_entry ?za = za_entry sample_packed"
    using read_only_archive_unchanged [OF z rtranclp.rtrancl_refl] by (auto simp: ZIP_IS_RDONLY_def flag_set_or, simp add: flag_set_def)
  then have "zip_delete [] ?za 0 = (-1, za_set_error ZIP_ER_RDONLY 0 ?za, [])"
    using sample_packed_entry(1) by (simp add: zip_delete_def)
  then show ?thesis using e(2) by (intro exI [of _ "za_set_error ZIP_ER_RDONLY 0 ?za"]) (simp only: za_put_simps simp_thms)
qed

section \<open>Restoring everything leaves nothing to write\<close>

text \<open>
  C23. After \<open>zip_unchange_all\<close> the archive counts as unchanged, so closing it writes nothing, and every
  entry counts as present.
\<close>

theorem zip_unchange_all_nothing_changed:
  assumes "names_ok za"
  shows "\<exists>za1. zip_unchange_all [] za = (0, za1, []) \<and> zip_changed za1 = (False, length (za_entry za))"
proof -
  obtain ok2 h e m2 where v: "zip_hash_revert [] (za_names za) (Some (za_error za)) = (ok2, h, e, m2)" by (metis prod_cases4)
  have t: "ok2" "m2 = []" using ni.revert_law [OF names_okD(1) [OF assms] v] by simp_all
  let ?z = "za_put e (za\<lparr>za_names := h\<rparr>)"
  from unchange_loop_spec [of "[0..<length (za_entry za)]" ?z] obtain za2 where
    l: "unchange_loop [] ?z 0 [0..<length (za_entry za)] = (0, za2, [])" "length (za_entry za2) = length (za_entry za)"
      "\<forall>i < length (za_entry za). za_entry za2 ! i = reset_entry (za_entry za ! i)" by auto
  obtain r za1 where a: "zip_unchange_archive za2 = (r, za1)" by fastforce
  then have z: "r = 0" "za_comment_changed za1 = False" "za_ch_flags za1 = za_flags za1" "za_entry za1 = za_entry za2"
    by (auto simp: zip_unchange_archive_def Let_def split: if_splits)
  have n: "\<not> ZIP_ENTRY_HAS_CHANGES x \<and> \<not> ze_deleted x" if x: "x \<in> set (za_entry za1)" for x
    using x l(2,3) z(4) by (auto simp: in_set_conv_nth ZIP_ENTRY_HAS_CHANGES_def ZIP_ENTRY_DATA_CHANGED_def ZIP_ENTRY_CHANGED_def)
  then have "filter (\<lambda>e. \<not> ze_deleted e) (za_entry za1) = za_entry za1" by (simp add: filter_id_conv)
  then have "zip_changed za1 = (False, length (za_entry za))"
    using n z l(2) by (simp add: zip_changed_def list_ex_iff)
  moreover have "zip_unchange_all [] za = (0, za1, [])" using v t l(1) a z(1) by (simp add: zip_unchange_all_def)
  ultimately show ?thesis by blast
qed

theorem zip_unchange_all_nothing_changed_witness:
  "\<exists>za1. zip_unchange_all [] sample_one = (0, za1, []) \<and> zip_changed za1 = (False, 1)"
  using zip_unchange_all_nothing_changed [OF sample_one_ok] by (simp add: sample_one_small)

section \<open>Setting an extra field\<close>

text \<open>The matching fields before a position do not depend on what stands from there on.\<close>

lemma ef_find_loop_spec:
  "ef_find_loop efs ef i flags k pos = (Some p, j) \<Longrightarrow> k \<le> i \<Longrightarrow>
     \<exists>pre f post. efs = pre @ f # post \<and> p = pos + length pre \<and> j = i \<and> ef_id f = ef \<and> ef_in flags f
       \<and> (\<forall>rest. ef_get_loop (pre @ rest) ef i flags k = ef_get_loop rest ef i flags i)"
proof (induction efs arbitrary: k pos)
  case (Cons f fs)
  show ?case
  proof (cases "ef_id f = ef \<and> ef_in flags f \<and> k = i")
    case True
    then have "p = pos" "j = i" using Cons.prems(1) by auto
    then show ?thesis using True by (intro exI [of _ "[]"] exI [of _ f] exI [of _ fs]) simp
  next
    case False
    let ?k = "if ef_id f = ef \<and> ef_in flags f then k + 1 else k"
    have "ef_find_loop fs ef i flags ?k (pos + 1) = (Some p, j)" "?k \<le> i"
      using False Cons.prems by (auto split: if_splits)
    from Cons.IH [OF this] obtain pre g post where
      g: "fs = pre @ g # post" "p = pos + 1 + length pre" "j = i" "ef_id g = ef" "ef_in flags g"
        "\<forall>rest. ef_get_loop (pre @ rest) ef i flags ?k = ef_get_loop rest ef i flags i" by blast
    then show ?thesis using False Cons.prems(2)
      by (intro exI [of _ "f # pre"] exI [of _ g] exI [of _ post]) auto
  qed
qed simp

lemma ef_find_loop_ge: "ef_find_loop efs ef i flags k pos = (r, j) \<Longrightarrow> k \<le> j"
  by (induction efs arbitrary: k pos) (fastforce split: if_splits)+

lemma ef_find_loop_none:
  "ef_find_loop efs ef i flags k pos = (None, j) \<Longrightarrow> k \<le> i \<Longrightarrow>
     j \<le> i \<and> (\<forall>rest. ef_get_loop (efs @ rest) ef j flags k = ef_get_loop rest ef j flags j)"
proof (induction efs arbitrary: k pos)
  case (Cons f fs)
  show ?case
  proof (cases "ef_id f = ef \<and> ef_in flags f")
    case True
    then have n: "ef_find_loop fs ef i flags (k + 1) (pos + 1) = (None, j)" "k + 1 \<le> i"
      using Cons.prems by (auto split: if_splits)
    show ?thesis using Cons.IH [OF n] ef_find_loop_ge [OF n(1)] True by simp
  next
    case False
    then show ?thesis using Cons by auto
  qed
qed simp

lemma zip_read_local_ef_length:
  "zip_read_local_ef C errno m za idx = (r, za1, m1) \<Longrightarrow> length (za_entry za1) = length (za_entry za)"
  by (auto simp: zip_read_local_ef_def Let_def upd_entry_def za_set_error_def split: if_splits option.splits prod.splits)

lemma prepare_for_change_ok:
  assumes "prepare_for_change C errno m za idx = (r, za1, m1)" and "\<not> r < 0"
  shows "idx < length (za_entry za1)" and "ze_changes (za_entry za1 ! idx) \<noteq> None"
proof -
  have "idx < length (za_entry za1) \<and> ze_changes (za_entry za1 ! idx) \<noteq> None"
  proof (cases "idx < length (za_entry za) \<and> \<not> ZIP_ENTRY_CHANGED (za_entry za ! idx) ZIP_DIRENT_EXTRA_FIELD")
    case False
    then show ?thesis using assms by (auto simp: prepare_for_change_def ZIP_ENTRY_CHANGED_def split: if_splits option.splits)
  next
    case True
    obtain r0 za0 m0 where l: "(if ze_orig (za_entry za ! idx) = None then (0, za, m) else zip_read_local_ef C errno m za idx) = (r0, za0, m0)"
      by (metis prod_cases3)
    then have "length (za_entry za0) = length (za_entry za)"
      by (auto split: if_splits dest: zip_read_local_ef_length)
    then have i: "idx < length (za_entry za0)" using True by simp
    show ?thesis
      by (rule with_changes_cases [of m0 za0 idx id])
        (use assms i in \<open>auto simp: prepare_for_change_def True [THEN conjunct1] True [THEN conjunct2] l Let_def upd_entry_def za_put_def
          not_le split: if_splits option.splits prod.splits\<close>)
  qed
  then show "idx < length (za_entry za1)" and "ze_changes (za_entry za1 ! idx) \<noteq> None" by simp_all
qed

lemma put_changes_fields [simp]:
  "idx < length (za_entry za) \<Longrightarrow> ze_changes (za_entry za ! idx) \<noteq> None \<Longrightarrow> changes_fields (put_changes_fields idx efs za) idx = efs"
  by (auto simp: changes_fields_def put_changes_fields_def upd_entry_def set_orig_fields_def)

text \<open>
  C8. Round trip: after \<open>zip_file_extra_field_set\<close> the field of this id and index in the entry's changes
  has the data that was set.
\<close>

theorem extra_field_set_get:
  assumes r: "zip_file_extra_field_set C errno m za idx ef ef_idx data len flags = (0, za1, m1)"
    and len: "length data = len" and new: "ef_idx \<noteq> ZIP_EXTRA_FIELD_NEW"
  shows "ef_get_loop (changes_fields za1 idx) ef ef_idx flags 0 = Some (if len > 0 then data else [0], len)"
proof -
  have fl: "flags AND ZIP_EF_BOTH \<noteq> 0" using r by (auto simp: zip_file_extra_field_set_def split: if_splits)
  obtain r0 za0 m0 where p: "prepare_for_change C errno m za idx = (r0, za0, m0)" by (metis prod_cases3)
  define efs where "efs = changes_fields za0 idx"
  obtain found i where f: "ef_find_loop efs ef ef_idx flags 0 0 = (found, i)" by fastforce
  obtain new1 m2 where n: "zip_ef_new m0 ef len data flags = (new1, m2)" by fastforce
  obtain nf where nf: "new1 = Some nf" "\<not> r0 < 0" "\<not> i < ef_idx" "za1 = put_changes_fields idx (ef_insert efs found nf flags) za0"
    using r new fl by (auto simp: zip_file_extra_field_set_def p f n efs_def [symmetric] Let_def split: if_splits sum.splits option.splits)
  have nf1: "ef_flags nf = flags" "ef_id nf = ef" "ef_size nf = len" "len > 0 \<Longrightarrow> ef_data nf = data"
    using n nf(1) len by (auto simp: zip_ef_new_def zip_memdup_def split: if_splits option.splits prod.splits)
  have inn: "ef_in flags nf" using fl nf1(1) by (simp add: ef_in_def flag_set_def)
  have c: "changes_fields za1 idx = ef_insert efs found nf flags"
    using prepare_for_change_ok [OF p nf(2)] by (simp add: nf(4))
  have get: "ef_get_loop (nf # rest) ef ef_idx flags ef_idx = Some (if len > 0 then data else [0], len)" for rest
    using inn nf1 by simp
  show ?thesis
  proof (cases found)
    case None
    from ef_find_loop_none [OF f [unfolded None]] nf(3) have i: "i = ef_idx"
      "\<forall>rest. ef_get_loop (efs @ rest) ef i flags 0 = ef_get_loop rest ef i flags i" by auto
    then show ?thesis using get [of "[]"] by (simp only: c None ef_insert_def option.case)
  next
    case (Some q)
    from ef_find_loop_spec [OF f [unfolded Some]] obtain pre g post where
      g: "efs = pre @ g # post" "q = length pre" "ef_id g = ef"
        "\<forall>rest. ef_get_loop (pre @ rest) ef ef_idx flags 0 = ef_get_loop rest ef ef_idx flags ef_idx" by auto
    have "\<not> ef_in flags (ef_clear flags g)" using ef_clear_no_match [of "ef_id g" flags g] by (simp add: ef_match_def)
    then show ?thesis using get g(4) by (simp add: c Some ef_insert_def g(1,2))
  qed
qed

theorem extra_field_set_get_witness:
  "\<exists>za1 m1. zip_file_extra_field_set buffer_callbacks 0 []
       (upd_entry 0 (\<lambda>e. e\<lparr>ze_orig := None, ze_changes := Some zip_dirent_init\<rparr>) sample_packed) 0 0x7777 0 [1, 2, 3] 3 ZIP_EF_BOTH = (0, za1, m1)
     \<and> ef_get_loop (changes_fields za1 0) 0x7777 0 ZIP_EF_BOTH 0 = Some ([1, 2, 3], 3)"
proof -
  let ?za = "upd_entry 0 (\<lambda>e. e\<lparr>ze_orig := None, ze_changes := Some zip_dirent_init\<rparr>) sample_packed"
  have e: "0 < length (za_entry ?za)" "ze_changes (za_entry ?za ! 0) = Some zip_dirent_init" "ze_orig (za_entry ?za ! 0) = None"
    using sample_packed_entry(1) by (simp_all add: upd_entry_def)
  have d: "de_changed zip_dirent_init = 0" "de_extra_fields zip_dirent_init = []" by (simp_all add: zip_dirent_init_def)
  let ?zb = "upd_entry 0 (\<lambda>e. e\<lparr>ze_changes := Some (zip_dirent_init\<lparr>de_changed := ZIP_DIRENT_EXTRA_FIELD\<rparr>)\<rparr>) ?za"
  have p: "prepare_for_change buffer_callbacks 0 [] ?za 0 = (0, ?zb, [])"
    using e d by (simp add: prepare_for_change_def ZIP_ENTRY_CHANGED_def current_changes_def Let_def upd_entry_def)
  have "changes_fields ?zb 0 = []" using e(1) d by (simp add: changes_fields_def upd_entry_def)
  then have "fst (zip_file_extra_field_set buffer_callbacks 0 [] ?za 0 0x7777 0 [1, 2, 3] 3 ZIP_EF_BOTH) = 0"
    using e sample_packed_entry(2) p
    by (simp add: zip_file_extra_field_set_def ZIP_EF_IS_INTERNAL_def zip_ef_new_def zip_memdup_def zip_ef_size_def Let_def)
  then obtain za1 m1 where "zip_file_extra_field_set buffer_callbacks 0 [] ?za 0 0x7777 0 [1, 2, 3] 3 ZIP_EF_BOTH = (0, za1, m1)"
    by (metis prod.collapse)
  with extra_field_set_get [OF this] show ?thesis by simp
qed

section \<open>Comments\<close>

text \<open>
  A comment set back to the original one while other changes remain is lost: the changes, which are
  what zip_close writes, keep no comment.
\<close>

lemma comment_reset_lost:
  assumes i: "idx < length (za_entry za)"
    and e: "ze_orig (za_entry za ! idx) = Some d" "ze_changes (za_entry za ! idx) = Some c"
    and x: "zip_string_equal (de_comment d) str" "de_comment d \<noteq> None" "de_changed c AND NOT ZIP_DIRENT_COMMENT \<noteq> 0"
  shows "\<exists>za1 c1. set_comment_apply m za idx str = (0, za1, m) \<and> ze_changes (za_entry za1 ! idx) = Some c1 \<and> de_comment c1 = None"
  using assms by (simp add: set_comment_apply_def drop_unchanged_def upd_entry_def Let_def)

text \<open>A comment set on an entry without changes is read back.\<close>

lemma set_then_get_comment:
  assumes i: "idx < length (za_entry za)" and e: "ze_changes (za_entry za ! idx) = None" "\<not> ze_deleted (za_entry za ! idx)"
    and str: "str_wf str" "str \<noteq> None" "\<forall>d. ze_orig (za_entry za ! idx) = Some d \<longrightarrow> \<not> zip_string_equal (de_comment d) str"
  shows "\<exists>za1 s n. set_comment_apply [] za idx str = (0, za1, []) \<and> fst (zip_file_get_comment [] za1 idx 0) = Some (s, n)
    \<and> cstr s = str_text str"
proof -
  have "(case ze_orig (za_entry za ! idx) of
           Some d \<Rightarrow> if de_comment d \<noteq> None then \<not> zip_string_equal (de_comment d) str else str \<noteq> None
         | None \<Rightarrow> str \<noteq> None)"
    using str(2,3) by (auto split: option.split)
  then obtain za1 c where z: "set_comment_apply [] za idx str = (0, za1, [])" "za_entry za1 ! idx = (za_entry za ! idx)\<lparr>ze_changes := Some c\<rparr>"
    "de_comment c = str" "idx < length (za_entry za1)"
    using i e by (simp add: set_comment_apply_def Let_def upd_entry_def current_changes_def)
  from zip_string_get_text [OF str(1), of 0 "Some (za_error za1)"] obtain s n str1 where
    "zip_string_get [] str 0 (Some (za_error za1)) = (Some (s, n), str1, Some (za_error za1), [])" "cstr s = str_text str" by auto
  then show ?thesis using z by (simp add: zip_file_get_comment_def)
qed

end
