(* ===== verification/Zip_Open.thy ===== *)
theory Zip_Open
  imports Zip_Entries Zip_Directory
begin

text \<open>
  Opening an archive (lib/zip_open.c): finding the end of the central directory in the last bytes of
  the file, reading the directory, choosing among candidates, checking it against the local headers,
  and building the table of names. Positions in the file are 64-bit words, so every overflow test is the
  code's own. A pointer into the block read is its index. \<open>zip_source_file_create\<close> (stdio) is a parameter.
  \<open>zip_discard\<close> on a failed open only releases memory; the reference it drops is the one taken just before.
\<close>

section \<open>Flags and sizes\<close>

abbreviation ZIP_CREATE :: u32 where "ZIP_CREATE \<equiv> 1"
abbreviation ZIP_EXCL :: u32 where "ZIP_EXCL \<equiv> 2"
abbreviation ZIP_CHECKCONS :: u32 where "ZIP_CHECKCONS \<equiv> 4"
abbreviation ZIP_TRUNCATE :: u32 where "ZIP_TRUNCATE \<equiv> 8"
abbreviation ZIP_RDONLY :: u32 where "ZIP_RDONLY \<equiv> 16"
abbreviation CDBUFSIZE :: u64 where "CDBUFSIZE \<equiv> 65578"
abbreviation ENOENT :: int where "ENOENT \<equiv> 2"
abbreviation EOPNOTSUPP :: int where "EOPNOTSUPP \<equiv> 95"

definition ZIP_SOURCE_SUPPORTS_SEEKABLE :: u64 where
  "ZIP_SOURCE_SUPPORTS_SEEKABLE = ZIP_SOURCE_SUPPORTS_READABLE OR ZIP_SOURCE_MAKE_COMMAND_BITMASK ZIP_SOURCE_SEEK
     OR ZIP_SOURCE_MAKE_COMMAND_BITMASK ZIP_SOURCE_TELL OR ZIP_SOURCE_MAKE_COMMAND_BITMASK ZIP_SOURCE_SUPPORTS"

definition ZIP_SOURCE_SUPPORTS_WRITABLE :: u64 where
  "ZIP_SOURCE_SUPPORTS_WRITABLE = ZIP_SOURCE_SUPPORTS_SEEKABLE OR ZIP_SOURCE_MAKE_COMMAND_BITMASK ZIP_SOURCE_BEGIN_WRITE
     OR ZIP_SOURCE_MAKE_COMMAND_BITMASK ZIP_SOURCE_COMMIT_WRITE OR ZIP_SOURCE_MAKE_COMMAND_BITMASK ZIP_SOURCE_ROLLBACK_WRITE
     OR ZIP_SOURCE_MAKE_COMMAND_BITMASK ZIP_SOURCE_WRITE OR ZIP_SOURCE_MAKE_COMMAND_BITMASK ZIP_SOURCE_SEEK_WRITE
     OR ZIP_SOURCE_MAKE_COMMAND_BITMASK ZIP_SOURCE_TELL_WRITE OR ZIP_SOURCE_MAKE_COMMAND_BITMASK ZIP_SOURCE_REMOVE"

section \<open>The end of the central directory\<close>

text \<open>The first match in the \<open>biglen\<close> bytes from \<open>p\<close> on: memchr for the first byte, memcmp for the others.\<close>

definition zip_memmem :: "bytes \<Rightarrow> nat \<Rightarrow> nat \<Rightarrow> bytes \<Rightarrow> nat option" where
  "zip_memmem block p biglen little =
     (if biglen < length little \<or> little = [] then None
      else find (\<lambda>i. block ! i = hd little \<and> take (length little - 1) (drop (i + 1) block) = tl little)
                [p..<p + (biglen - length little) + 1])"

definition zip_read_eocd ::
  "mem \<Rightarrow> zip_buffer \<Rightarrow> u64 \<Rightarrow> u32 \<Rightarrow> zip_error option \<Rightarrow> 'u zip_cdir option \<times> zip_buffer \<times> zip_error option \<times> mem" where
  "zip_read_eocd m b base flags error =
     (if zip_buffer_left b < 22 then (None, b, zip_error_set error ZIP_ER_INCONS ZIP_ER_DETAIL_EOCD_LENGTH_INVALID, m)
      else
        (let eocd_offset = buf_offset b;
             (_, b1) = zip_buffer_get b 4;
             (disks, b2) = zip_buffer_get_32 b1
         in if disks \<noteq> 0 then (None, b2, zip_error_set error ZIP_ER_MULTIDISK 0, m)
            else
              (let (i, b3) = zip_buffer_get_16 b2;
                   (nentry, b4) = zip_buffer_get_16 b3
               in if nentry \<noteq> i then (None, b4, zip_error_set error ZIP_ER_NOZIP 0, m)
                  else
                    (let (size32, b5) = zip_buffer_get_32 b4;
                         (offset32, b6) = zip_buffer_get_32 b5;
                         sz = ucast size32;
                         offset = ucast offset32
                     in if offset + sz < offset then (None, b6, zip_error_set error ZIP_ER_SEEK EFBIG, m)
                        else if offset + sz > base + eocd_offset
                        then (None, b6, zip_error_set error ZIP_ER_INCONS ZIP_ER_DETAIL_CDIR_OVERLAPS_EOCD, m)
                        else if flag_set flags ZIP_CHECKCONS \<and> offset + sz \<noteq> base + eocd_offset
                        then (None, b6, zip_error_set error ZIP_ER_INCONS ZIP_ER_DETAIL_CDIR_LENGTH_INVALID, m)
                        else (case zip_cdir_new m (unat nentry) error of
                                (None, e, m1) \<Rightarrow> (None, b6, e, m1)
                              | (Some cd, e, m1) \<Rightarrow>
                                  (Some (cd\<lparr>cd_is_zip64 := False, cd_size := sz, cd_offset := offset\<rparr>), b6, e, m1))))))"

text \<open>
  The cursor on the end record: in the block when the record lies there, else over a fresh block; the
  answer says which of the two it is.
\<close>

definition eocd64_cursor ::
  "'u callbacks \<Rightarrow> mem \<Rightarrow> 'u zip_source \<Rightarrow> zip_buffer \<Rightarrow> u64 \<Rightarrow> u64 \<Rightarrow> zip_error option
     \<Rightarrow> (zip_buffer \<times> bool) option \<times> 'u zip_source \<times> zip_error option \<times> mem" where
  "eocd64_cursor C m src b base eocd_offset error =
     (if eocd_offset \<ge> base \<and> eocd_offset + 56 \<le> base + buf_size b
      then (Some (snd (zip_buffer_set_offset b (eocd_offset - base)), False), src, error, m)
      else
        (case zip_source_seek C src (sint eocd_offset) SEEK_SET of
           (r, src1) \<Rightarrow>
             if r < 0 then (None, src1, zip_error_set_from_source error src1, m)
             else (case zip_buffer_new_from_source C m src1 EOCD64LEN (Some (replicate EOCD64LEN 0)) error of
                     (None, src2, e, m1) \<Rightarrow> (None, src2, e, m1)
                   | (Some b1, src2, e, m1) \<Rightarrow> (Some (b1, True), src2, e, m1))))"

text \<open>
  The fields of the record, from its magic number on: an error, or the number of entries, the size and
  the offset of the directory. \<open>gap\<close> is the end of the room the record has.
\<close>

definition eocd64_fields ::
  "zip_buffer \<Rightarrow> u64 \<Rightarrow> u64 \<Rightarrow> u32 \<Rightarrow> u32 \<Rightarrow> u32 \<Rightarrow> (int \<times> int + u64 \<times> u64 \<times> u64) \<times> zip_buffer" where
  "eocd64_fields b eocd_offset gap num_disks0 eocd_disk0 flags =
     (let (p, b1) = zip_buffer_get b 4 in
      if take 4 (drop (the p) (buf_data b1)) \<noteq> EOCD64_MAGIC then (Inl (ZIP_ER_INCONS, ZIP_ER_DETAIL_EOCD64_WRONG_MAGIC), b1)
      else
        (let (sz, b2) = zip_buffer_get_64 b1 in
         if flag_set flags ZIP_CHECKCONS \<and> sz + eocd_offset + 12 \<noteq> gap
         then (Inl (ZIP_ER_INCONS, ZIP_ER_DETAIL_EOCD64_OVERLAPS_EOCD), b2)
         else
           (let (_, b3) = zip_buffer_get b2 4;
                (num_disks64, b4) = zip_buffer_get_32 b3;
                (eocd_disk64, b5) = zip_buffer_get_32 b4;
                num_disks = (if num_disks0 = 0xffff then num_disks64 else num_disks0);
                eocd_disk = (if eocd_disk0 = 0xffff then eocd_disk64 else eocd_disk0)
            in if flag_set flags ZIP_CHECKCONS \<and> (eocd_disk \<noteq> eocd_disk64 \<or> num_disks \<noteq> num_disks64)
               then (Inl (ZIP_ER_INCONS, ZIP_ER_DETAIL_EOCD64_MISMATCH), b5)
               else if num_disks \<noteq> 0 \<or> eocd_disk \<noteq> 0 then (Inl (ZIP_ER_MULTIDISK, 0), b5)
               else
                 (let (nentry, b6) = zip_buffer_get_64 b5;
                      (i, b7) = zip_buffer_get_64 b6
                  in if nentry \<noteq> i then (Inl (ZIP_ER_MULTIDISK, 0), b7)
                     else
                       (let (sz1, b8) = zip_buffer_get_64 b7;
                            (offset, b9) = zip_buffer_get_64 b8
                        in if \<not> buf_ok b9 then (Inl (ZIP_ER_INTERNAL, 0), b9)
                           else (Inr (nentry, sz1, offset), b9))))))"

text \<open>The directory, the block's cursor, the source and the error.\<close>

definition zip_read_eocd64 ::
  "'u callbacks \<Rightarrow> mem \<Rightarrow> 'u zip_source \<Rightarrow> zip_buffer \<Rightarrow> u64 \<Rightarrow> u32 \<Rightarrow> zip_error option
     \<Rightarrow> 'u zip_cdir option \<times> zip_buffer \<times> 'u zip_source \<times> zip_error option \<times> mem" where
  "zip_read_eocd64 C m src b base flags error =
     (let eocdloc_offset = buf_offset b;
          (_, b1) = zip_buffer_get b 4;
          (num_disks, b2) = zip_buffer_get_16 b1;
          (eocd_disk, b3) = zip_buffer_get_16 b2;
          (eocd_offset, b4) = zip_buffer_get_64 b3
      in if unat eocd_offset > ZIP_INT64_MAX then (None, b4, src, zip_error_set error ZIP_ER_SEEK EFBIG, m)
         else if eocd_offset + 56 > eocdloc_offset + base
         then (None, b4, src, zip_error_set error ZIP_ER_INCONS ZIP_ER_DETAIL_EOCD64_OVERLAPS_EOCD, m)
         else
           (case eocd64_cursor C m src b4 base eocd_offset error of
              (None, src1, e, m1) \<Rightarrow> (None, b4, src1, e, m1)
            | (Some (c, fresh), src1, e, m1) \<Rightarrow>
                (case eocd64_fields c eocd_offset (base + eocdloc_offset) (ucast num_disks) (ucast eocd_disk) flags of
                   (r, c1) \<Rightarrow>
                     (let b5 = (if fresh then b4 else c1) in
                      case r of
                        Inl (ze, se) \<Rightarrow> (None, b5, src1, zip_error_set e ze se, m1)
                      | Inr (nentry, sz, offset) \<Rightarrow>
                          if unat offset > ZIP_INT64_MAX \<or> offset + sz < offset
                          then (None, b5, src1, zip_error_set e ZIP_ER_SEEK EFBIG, m1)
                          else if offset + sz > base + eocd_offset
                          then (None, b5, src1, zip_error_set e ZIP_ER_INCONS ZIP_ER_DETAIL_CDIR_OVERLAPS_EOCD, m1)
                          else if flag_set flags ZIP_CHECKCONS \<and> offset + sz \<noteq> base + eocd_offset
                          then (None, b5, src1, zip_error_set e ZIP_ER_INCONS ZIP_ER_DETAIL_CDIR_OVERLAPS_EOCD, m1)
                          else if nentry > sz div 46
                          then (None, b5, src1, zip_error_set e ZIP_ER_INCONS ZIP_ER_DETAIL_CDIR_INVALID, m1)
                          else (case zip_cdir_new m1 (unat nentry) e of
                                  (None, e1, m2) \<Rightarrow> (None, b5, src1, e1, m2)
                                | (Some cd, e1, m2) \<Rightarrow>
                                    (Some (cd\<lparr>cd_is_zip64 := True, cd_size := sz, cd_offset := offset\<rparr>), b5, src1, e1, m2))))))"

section \<open>The entries of the directory\<close>

text \<open>The error after an entry could not be read.\<close>

definition entry_error :: "bool \<Rightarrow> nat \<Rightarrow> zip_error option \<Rightarrow> zip_error option" where
  "entry_error grown i error =
     (case error of
        None \<Rightarrow> None
      | Some e \<Rightarrow>
          if zip_err e = ZIP_ER_INCONS then zip_error_set error ZIP_ER_INCONS (ADD_INDEX_TO_DETAIL (sys_err e) (int i))
          else if grown \<and> zip_err e = ZIP_ER_NOZIP
          then zip_error_set error ZIP_ER_INCONS (MAKE_DETAIL_WITH_INDEX ZIP_ER_DETAIL_CDIR_ENTRY_INVALID (int i))
          else error)"

definition put_orig :: "nat \<Rightarrow> zip_dirent \<Rightarrow> 'u zip_cdir \<Rightarrow> 'u zip_cdir" where
  "put_orig i de cd = cd\<lparr>cd_entry := (cd_entry cd)[i := (cd_entry cd ! i)\<lparr>ze_orig := Some de\<rparr>]\<rparr>"

text \<open>One entry: its size and the directory with it.\<close>

definition read_entry ::
  "libs \<Rightarrow> 'u callbacks \<Rightarrow> mem \<Rightarrow> 'u zip_cdir \<Rightarrow> nat \<Rightarrow> bool \<Rightarrow> zip_buffer option \<Rightarrow> 'u zip_source \<Rightarrow> zip_error option
     \<Rightarrow> (nat \<times> 'u zip_cdir) option \<times> zip_buffer option \<times> 'u zip_source \<times> zip_error option \<times> mem" where
  "read_entry L C m cd i grown b src error =
     (case zip_dirent_new m of
        (None, m1) \<Rightarrow> (None, b, src, entry_error grown i error, m1)
      | (Some _, m1) \<Rightarrow>
          (case zip_dirent_read L C m1 src b False error of
             (None, b1, src1, e1, m2) \<Rightarrow> (None, b1, src1, entry_error grown i e1, m2)
           | (Some (sz, de), b1, src1, e1, m2) \<Rightarrow> (Some (sz, put_orig i de cd), b1, src1, e1, m2)))"

lemma read_entry_keeps:
  "read_entry L C m cd i grown b src error = (Some (sz, cd1), b1, src1, e, m1) \<Longrightarrow>
     length (cd_entry cd1) = length (cd_entry cd) \<and> cd_nentry_alloc cd1 = cd_nentry_alloc cd"
  by (auto simp: read_entry_def put_orig_def split: option.splits prod.splits)

lemma zip_cdir_grow_alloc:
  "zip_cdir_grow m cd 65536 error = (True, cd1, e, m1) \<Longrightarrow>
     cd_nentry_alloc cd1 = (cd_nentry_alloc cd + 65536) mod 2 ^ 64 \<and> cd_nentry_alloc cd1 \<le> ZIP_UINT64_MAX div sizeof_entry"
  by (auto simp: zip_cdir_grow_def Let_def split: if_splits option.splits prod.splits)

text \<open>
  The loop: entries of the directory while bytes of it are left. \<open>i\<close> never passes \<open>cd->nentry\<close>, so the
  test for equality is the one for having reached it. Each entry read brings \<open>i\<close> closer to the number of
  entries, which can only grow, by 65536 and up to a bound: so the loop ends on any input.
\<close>

function read_entries ::
  "libs \<Rightarrow> 'u callbacks \<Rightarrow> mem \<Rightarrow> 'u zip_cdir \<Rightarrow> nat \<Rightarrow> u64 \<Rightarrow> zip_buffer option \<Rightarrow> 'u zip_source \<Rightarrow> zip_error option
     \<Rightarrow> ('u zip_cdir \<times> nat \<times> u64) option \<times> zip_buffer option \<times> 'u zip_source \<times> zip_error option \<times> mem" where
  "read_entries L C m cd i left b src error =
     (if left = 0 then (Some (cd, i, left), b, src, error, m)
      else
        (case (if i < length (cd_entry cd) then Some (True, cd, error, m)
               else if cd_is_zip64 cd \<or> left < 46 then None
               else Some (zip_cdir_grow m cd 65536 error)) of
           None \<Rightarrow> (Some (cd, i, left), b, src, error, m)
         | Some (ok, cd1, e, m1) \<Rightarrow>
             if \<not> ok then (None, b, src, e, m1)
             else
               (case read_entry L C m1 cd1 i (\<not> i < length (cd_entry cd)) b src e of
                  (None, b1, src1, e1, m2) \<Rightarrow> (None, b1, src1, e1, m2)
                | (Some (sz, cd2), b1, src1, e1, m2) \<Rightarrow>
                    read_entries L C m2 cd2 (i + 1) (left - word_of_nat sz) b1 src1 e1)))"
  by pat_completeness auto

termination
  by (relation "measures [\<lambda>(L, C, m, cd, i, r). let top = ZIP_UINT64_MAX div sizeof_entry; a = cd_nentry_alloc cd
                             in if a \<le> top then top - a else top + 1,
                           \<lambda>(L, C, m, cd, i, r). length (cd_entry cd) - i]")
    (auto dest!: read_entry_keeps [OF sym] zip_cdir_grow_alloc split: if_splits simp: Let_def)

declare read_entries.simps [simp del]

text \<open>The archive comment, from the length the record gives; the inner \<open>None\<close> is no comment.\<close>

definition read_archive_comment ::
  "mem \<Rightarrow> zip_buffer \<Rightarrow> u64 \<Rightarrow> u16 \<Rightarrow> u32 \<Rightarrow> zip_error option
     \<Rightarrow> zip_string option option \<times> zip_buffer \<times> zip_error option \<times> mem" where
  "read_archive_comment m b eocd_offset comment_len open_flags error =
     (if comment_len \<noteq> 0 \<or> flag_set open_flags ZIP_CHECKCONS then
        (let b1 = snd (zip_buffer_set_offset b (eocd_offset + 22));
             tail_len = zip_buffer_left b1
         in if tail_len < ucast comment_len \<or> flag_set open_flags ZIP_CHECKCONS \<and> tail_len \<noteq> ucast comment_len
            then (None, b1, zip_error_set error ZIP_ER_INCONS ZIP_ER_DETAIL_COMMENT_LENGTH_INVALID, m)
            else if comment_len = 0 then (Some None, b1, error, m)
            else (case zip_buffer_get b1 (ucast comment_len) of
                    (p, b2) \<Rightarrow>
                      (case zip_string_new m (drop (the p) (buf_data b2)) (unat comment_len) ZIP_FL_ENC_GUESS error of
                         (None, e, m1) \<Rightarrow> (None, b2, e, m1)
                       | (Some s, e, m1) \<Rightarrow> (Some (Some s), b2, e, m1))))
      else (Some None, b, error, m))"

text \<open>Where the entries are read from: a cursor over the part of the block, or the source at their start.\<close>

definition cdir_cursor ::
  "'u callbacks \<Rightarrow> mem \<Rightarrow> 'u zip_source \<Rightarrow> zip_buffer \<Rightarrow> u64 \<Rightarrow> u64 \<Rightarrow> u64 \<Rightarrow> zip_error option
     \<Rightarrow> zip_buffer option option \<times> zip_buffer \<times> 'u zip_source \<times> zip_error option \<times> mem" where
  "cdir_cursor C m src b base offset sz error =
     (if offset \<ge> base then
        (case zip_buffer_get (snd (zip_buffer_set_offset b (offset - base))) sz of
           (None, b1) \<Rightarrow> (None, b1, src, zip_error_set error ZIP_ER_INCONS ZIP_ER_DETAIL_CDIR_LENGTH_INVALID, m)
         | (Some p, b1) \<Rightarrow>
             (case zip_buffer_new m (Some (take (unat sz) (drop p (buf_data b1)))) sz of
                (None, m1) \<Rightarrow> (None, b1, src, zip_error_set error ZIP_ER_MEMORY 0, m1)
              | (Some c, m1) \<Rightarrow> (Some (Some c), b1, src, error, m1)))
      else
        (case zip_source_seek C src (sint offset) SEEK_SET of
           (r, src1) \<Rightarrow>
             if r < 0 then (None, b, src1, zip_error_set_from_source error src1, m)
             else (case zip_source_tell C src1 of
                     (t, src2) \<Rightarrow>
                       if t \<noteq> sint offset then (None, b, src2, zip_error_set error ZIP_ER_NOZIP 0, m)
                       else (Some None, b, src2, error, m))))"

text \<open>Whether all of the directory was used up, where this is checked.\<close>

definition cdir_used_up ::
  "'u callbacks \<Rightarrow> 'u zip_source \<Rightarrow> zip_buffer option \<Rightarrow> u64 \<Rightarrow> zip_error option \<Rightarrow> bool \<times> 'u zip_source \<times> zip_error option" where
  "cdir_used_up C src c end_offset error =
     (case c of
        Some b \<Rightarrow> if zip_buffer_eof b then (True, src, error)
                  else (False, src, zip_error_set error ZIP_ER_INCONS ZIP_ER_DETAIL_CDIR_LENGTH_INVALID)
      | None \<Rightarrow>
          (case zip_source_tell C src of
             (t, src1) \<Rightarrow>
               if t < 0 then (False, src1, zip_error_set_from_source error src1)
               else if word_of_int t = end_offset then (True, src1, error)
               else (False, src1, zip_error_set error ZIP_ER_INCONS ZIP_ER_DETAIL_CDIR_LENGTH_INVALID)))"

text \<open>All entries, and the checks after the last one.\<close>

definition read_all_entries ::
  "libs \<Rightarrow> 'u callbacks \<Rightarrow> mem \<Rightarrow> u32 \<Rightarrow> 'u zip_source \<Rightarrow> zip_buffer option \<Rightarrow> 'u zip_cdir \<Rightarrow> zip_error option
     \<Rightarrow> 'u zip_cdir option \<times> 'u zip_source \<times> zip_error option \<times> mem" where
  "read_all_entries L C m open_flags src c cd error =
     (case read_entries L C m cd 0 (cd_size cd) c src error of
        (None, _, src1, e1, m1) \<Rightarrow> (None, src1, e1, m1)
      | (Some (cd1, i, left), c1, src1, e1, m1) \<Rightarrow>
          if i \<noteq> length (cd_entry cd1) \<or> left > 0
          then (None, src1, zip_error_set e1 ZIP_ER_INCONS ZIP_ER_DETAIL_CDIR_WRONG_ENTRIES_COUNT, m1)
          else if flag_set open_flags ZIP_CHECKCONS then
            (case cdir_used_up C src1 c1 (cd_offset cd1 + cd_size cd1) e1 of
               (ok, src2, e2) \<Rightarrow> (if ok then Some cd1 else None, src2, e2, m1))
          else (Some cd1, src1, e1, m1))"

text \<open>From the end record, read into \<open>cd\<close>, to the directory.\<close>

definition read_directory ::
  "libs \<Rightarrow> 'u callbacks \<Rightarrow> mem \<Rightarrow> u32 \<Rightarrow> 'u zip_source \<Rightarrow> zip_buffer \<Rightarrow> u64 \<Rightarrow> u64 \<Rightarrow> 'u zip_cdir \<Rightarrow> zip_error option
     \<Rightarrow> 'u zip_cdir option \<times> zip_buffer \<times> 'u zip_source \<times> zip_error option \<times> mem" where
  "read_directory L C m open_flags src b base eocd_offset cd error =
     (let (comment_len, b1) = zip_buffer_get_16 (snd (zip_buffer_set_offset b (eocd_offset + 20))) in
      if cd_offset cd + cd_size cd > base + eocd_offset
      then (None, b1, src, zip_error_set error ZIP_ER_INCONS ZIP_ER_DETAIL_CDIR_OVERLAPS_EOCD, m)
      else
        (case read_archive_comment m b1 eocd_offset comment_len open_flags error of
           (None, b2, e1, m1) \<Rightarrow> (None, b2, src, e1, m1)
         | (Some comment, b2, e1, m1) \<Rightarrow>
             (case cdir_cursor C m1 src b2 base (cd_offset cd) (cd_size cd) e1 of
                (None, b3, src1, e2, m2) \<Rightarrow> (None, b3, src1, e2, m2)
              | (Some c, b3, src1, e2, m2) \<Rightarrow>
                  (case read_all_entries L C m2 open_flags src1 c (cd\<lparr>cd_comment := comment\<rparr>) e2 of
                     (r, src2, e3, m3) \<Rightarrow> (r, b3, src2, e3, m3)))))"

text \<open>The end record at this offset of the block, in the form the Zip64 locator before it calls for.\<close>

definition read_end_record ::
  "'u callbacks \<Rightarrow> mem \<Rightarrow> u32 \<Rightarrow> 'u zip_source \<Rightarrow> zip_buffer \<Rightarrow> u64 \<Rightarrow> u64 \<Rightarrow> zip_error option
     \<Rightarrow> 'u zip_cdir option \<times> zip_buffer \<times> 'u zip_source \<times> zip_error option \<times> mem" where
  "read_end_record C m flags src b base eocd_offset error =
     (if eocd_offset \<ge> 20 \<and> take 4 (drop (unat (eocd_offset - 20)) (buf_data b)) = EOCD64LOC_MAGIC
      then zip_read_eocd64 C m src (snd (zip_buffer_set_offset b (eocd_offset - 20))) base flags error
      else (case zip_read_eocd m (snd (zip_buffer_set_offset b eocd_offset)) base flags error of
              (cd, b1, e, m1) \<Rightarrow> (cd, b1, src, e, m1)))"

text \<open>The directory from its end record at the cursor, the block's cursor, the source and the error.\<close>

definition zip_read_cdir ::
  "libs \<Rightarrow> 'u callbacks \<Rightarrow> mem \<Rightarrow> 'u zip_t \<Rightarrow> zip_buffer \<Rightarrow> u64 \<Rightarrow> zip_error option
     \<Rightarrow> 'u zip_cdir option \<times> zip_buffer \<times> 'u zip_source \<times> zip_error option \<times> mem" where
  "zip_read_cdir L C m za b base error =
     (let eocd_offset = buf_offset b in
      if zip_buffer_left b < 22 then (None, b, za_src za, zip_error_set error ZIP_ER_NOZIP 0, m)
      else
        (let (p, b0) = zip_buffer_get b 4 in
         if take 4 (drop (the p) (buf_data b0)) \<noteq> EOCD_MAGIC then (None, b0, za_src za, zip_error_set error ZIP_ER_NOZIP 0, m)
         else
           (case read_end_record C m (za_flags za) (za_src za) b0 base eocd_offset error of
              (None, b1, src1, e1, m1) \<Rightarrow> (None, b1, src1, e1, m1)
            | (Some cd, b1, src1, e1, m1) \<Rightarrow>
                read_directory L C m1 (za_open_flags za) src1 b1 base eocd_offset cd e1)))"

section \<open>Consistency with the local headers\<close>

definition zip_headercomp :: "zip_dirent \<Rightarrow> zip_dirent \<Rightarrow> int" where
  "zip_headercomp central local =
     (if de_version_needed central < de_version_needed local \<or> de_comp_method central \<noteq> de_comp_method local
         \<or> de_last_mod central \<noteq> de_last_mod local \<or> \<not> zip_string_equal (de_filename central) (de_filename local) then -1
      else if (de_crc central \<noteq> de_crc local \<or> de_comp_size central \<noteq> de_comp_size local \<or> de_uncomp_size central \<noteq> de_uncomp_size local)
           \<and> (\<not> flag_set (de_bitflags local) ZIP_GPBF_DATA_DESCRIPTOR \<or> de_crc local \<noteq> 0 \<or> de_comp_size local \<noteq> 0 \<or> de_uncomp_size local \<noteq> 0)
      then -1 else 0)"

text \<open>The range of positions seen (or a failure), the directory with the local fields, the source and the error.\<close>

fun checkcons_loop ::
  "libs \<Rightarrow> 'u callbacks \<Rightarrow> mem \<Rightarrow> 'u zip_source \<Rightarrow> 'u zip_cdir \<Rightarrow> nat list \<Rightarrow> u64 \<Rightarrow> u64 \<Rightarrow> zip_error option
     \<Rightarrow> (u64 \<times> u64) option \<times> 'u zip_cdir \<times> 'u zip_source \<times> zip_error option \<times> mem" where
  "checkcons_loop L C m src cd [] lo hi error = (Some (lo, hi), cd, src, error, m)"
| "checkcons_loop L C m src cd (i # is) lo hi error =
     (let orig = the (ze_orig (cd_entry cd ! i));
          lo1 = (if de_offset orig < lo then de_offset orig else lo);
          j = de_offset orig + de_comp_size orig + word_of_nat (zip_string_length (de_filename orig)) + 30;
          hi1 = (if j > hi then j else hi)
      in if lo1 > cd_offset cd then (None, cd, src, zip_error_set error ZIP_ER_NOZIP 0, m)
         else if hi1 > cd_offset cd then (None, cd, src, zip_error_set error ZIP_ER_NOZIP 0, m)
         else
           (case zip_source_seek C src (sint (de_offset orig)) SEEK_SET of
              (r, src1) \<Rightarrow>
                if r < 0 then (None, cd, src1, zip_error_set_from_source error src1, m)
                else
                  (case zip_dirent_read L C m src1 None True error of
                     (None, _, src2, e, m1) \<Rightarrow> (None, cd, src2, entry_error False i e, m1)
                   | (Some (_, temp), _, src2, e, m1) \<Rightarrow>
                       if zip_headercomp orig temp \<noteq> 0
                       then (None, cd, src2, zip_error_set e ZIP_ER_INCONS
                               (MAKE_DETAIL_WITH_INDEX ZIP_ER_DETAIL_ENTRY_HEADER_MISMATCH (int i)), m1)
                       else
                         checkcons_loop L C m1 src2
                           (put_orig i (orig\<lparr>de_extra_fields := zip_ef_merge (de_extra_fields orig) (de_extra_fields temp),
                                             de_local_extra_fields_read := True\<rparr>) cd) is lo1 hi1 e)))"

definition zip_checkcons ::
  "libs \<Rightarrow> 'u callbacks \<Rightarrow> mem \<Rightarrow> 'u zip_source \<Rightarrow> 'u zip_cdir \<Rightarrow> zip_error option
     \<Rightarrow> int \<times> 'u zip_cdir \<times> 'u zip_source \<times> zip_error option \<times> mem" where
  "zip_checkcons L C m src cd error =
     (let start = (if cd_entry cd = [] then 0 else de_offset (the (ze_orig (cd_entry cd ! 0))))
      in case checkcons_loop L C m src cd [0..<length (cd_entry cd)] start start error of
           (None, cd1, src1, e, m1) \<Rightarrow> (-1, cd1, src1, e, m1)
         | (Some (lo, hi), cd1, src1, e, m1) \<Rightarrow>
             (if unat (hi - lo) < ZIP_INT64_MAX then int (unat (hi - lo)) else int ZIP_INT64_MAX, cd1, src1, e, m1))"

section \<open>Finding the directory\<close>

text \<open>Reading only moves the cursor: the block stays as it is.\<close>

definition buf_block :: "zip_buffer \<Rightarrow> bytes \<times> u64 \<times> bool" where
  "buf_block b = (buf_data b, buf_size b, buf_free_data b)"

lemma buf_block_kept [simp]:
  "buf_block (snd (zip_buffer_get b n)) = buf_block b" "buf_block (snd (zip_buffer_set_offset b x)) = buf_block b"
  "buf_block (snd (zip_buffer_get_16 b)) = buf_block b" "buf_block (snd (zip_buffer_get_32 b)) = buf_block b"
  "buf_block (snd (zip_buffer_get_64 b)) = buf_block b"
  by (simp_all add: get_eq buf_block_def zip_buffer_set_offset_def zip_buffer_get_16_def zip_buffer_get_32_def zip_buffer_get_64_def Let_def)

lemma buffer_data_kept [simp]:
  "buf_data (snd (zip_buffer_get b n)) = buf_data b" "buf_data (snd (zip_buffer_set_offset b x)) = buf_data b"
  using buf_block_kept(1,2) [of b] by (simp_all add: buf_block_def)

lemma zip_read_eocd_block: "buf_block (fst (snd (zip_read_eocd m b base flags error))) = buf_block b"
  by (simp add: zip_read_eocd_def Let_def case_prod_beta split: option.split)

lemma eocd64_fields_block: "buf_block (snd (eocd64_fields b o1 gap x y flags)) = buf_block b"
  by (simp add: eocd64_fields_def Let_def case_prod_beta)

lemma zip_read_eocd64_block: "buf_block (fst (snd (zip_read_eocd64 C m src b base flags error))) = buf_block b"
  by (auto simp: zip_read_eocd64_def Let_def case_prod_beta eocd64_fields_block eocd64_cursor_def split: option.splits sum.splits if_splits)

lemma read_archive_comment_block: "buf_block (fst (snd (read_archive_comment m b o1 n flags error))) = buf_block b"
  by (simp add: read_archive_comment_def Let_def case_prod_beta split: option.split)

lemma cdir_cursor_block: "buf_block (fst (snd (cdir_cursor C m src b base offset sz error))) = buf_block b"
  by (auto simp: cdir_cursor_def case_prod_beta split: option.split)

lemma read_end_record_block: "buf_block (fst (snd (read_end_record C m flags src b base o1 error))) = buf_block b"
  by (simp add: read_end_record_def zip_read_eocd64_block zip_read_eocd_block case_prod_beta)

lemma read_directory_block: "buf_block (fst (snd (read_directory L C m fl src b base o1 cd error))) = buf_block b"
proof -
  obtain n b1 where n: "zip_buffer_get_16 (snd (zip_buffer_set_offset b (o1 + 20))) = (n, b1)" by fastforce
  obtain r b2 e m1 where c: "read_archive_comment m b1 o1 n fl error = (r, b2, e, m1)" by (metis prod_cases4)
  obtain r3 b3 s3 e3 m3 where d: "cdir_cursor C m1 src b2 base (cd_offset cd) (cd_size cd) e = (r3, b3, s3, e3, m3)" by (metis prod_cases5)
  have "buf_block b1 = buf_block b" using n buf_block_kept(3) [of "snd (zip_buffer_set_offset b (o1 + 20))"] by simp
  moreover have "buf_block b2 = buf_block b1" using c read_archive_comment_block [of m b1 o1 n fl error] by simp
  moreover have "buf_block b3 = buf_block b2" using d cdir_cursor_block [of C m1 src b2] by (metis fst_conv snd_conv)
  ultimately show ?thesis by (simp add: read_directory_def n c d split: option.split prod.split)
qed

lemma zip_read_cdir_block: "zip_read_cdir L C m za b base error = (r, b1, t) \<Longrightarrow> buf_block b1 = buf_block b"
proof -
  assume a: "zip_read_cdir L C m za b base error = (r, b1, t)"
  obtain p b0 where g: "zip_buffer_get b 4 = (p, b0)" by fastforce
  have b0: "buf_block b0 = buf_block b" using g buf_block_kept(1) [of b 4] by simp
  obtain r2 b2 s2 e2 m2 where e: "read_end_record C m (za_flags za) (za_src za) b0 base (buf_offset b) error = (r2, b2, s2, e2, m2)"
    by (metis prod_cases5)
  have "buf_block b2 = buf_block b0" using e read_end_record_block [of C m "za_flags za"] by (metis fst_conv snd_conv)
  moreover have "buf_block b3 = buf_block b2" if "read_directory L C m2 fl s2 b2 base o1 cd e2 = (r, b3, t)" for fl o1 cd b3
    using that read_directory_block [of L C m2 fl s2 b2 base o1 cd e2] by simp
  ultimately show ?thesis using a b0 g e by (auto simp: zip_read_cdir_def Let_def split: if_splits option.splits)
qed

lemma zip_read_cdir_data: "zip_read_cdir L C m za b base error = (r, b1, t) \<Longrightarrow> buf_data b1 = buf_data b"
  using zip_read_cdir_block [of L C m za b base error r b1 t] by (simp add: buf_block_def)

lemma find_SomeD: "find P xs = Some x \<Longrightarrow> P x \<and> x \<in> set xs"
  by (induction xs) (auto split: if_splits)

lemma zip_memmem_spec:
  assumes f: "zip_memmem block p n little = Some q" and two: "2 \<le> length little"
  shows "p \<le> q" and "q + length little \<le> p + n" and "take (length little) (drop q block) = little" and "q < length block"
proof -
  obtain a l where l: "little = a # l" "l \<noteq> []" "length little \<le> n" using f two
    by (cases little; cases "tl little") (auto simp: zip_memmem_def split: if_splits)
  then have "find (\<lambda>i. block ! i = a \<and> take (length l) (drop (i + 1) block) = l) [p..<p + (n - length little) + 1] = Some q"
    using f by (simp add: zip_memmem_def)
  from find_SomeD [OF this] have q: "q \<in> set [p..<p + (n - length little) + 1]" "block ! q = a" "take (length l) (drop (q + 1) block) = l"
    by blast+
  then show "p \<le> q" "q + length little \<le> p + n" using l by auto
  show b: "q < length block" using q(3) l(2) by (cases "q < length block") auto
  show "take (length little) (drop q block) = little" using q(2,3) b l(1) by (simp add: Cons_nth_drop_Suc [symmetric])
qed

text \<open>
  Which of two directories to keep: the one whose entries span more of the file. The range of the
  directory kept so far is computed when it is needed.
\<close>

definition choose_cdir ::
  "libs \<Rightarrow> 'u callbacks \<Rightarrow> mem \<Rightarrow> u32 \<Rightarrow> 'u zip_source \<Rightarrow> int \<Rightarrow> 'u zip_cdir option \<Rightarrow> 'u zip_cdir \<Rightarrow> zip_error option
     \<Rightarrow> int \<times> 'u zip_cdir option \<times> 'u zip_source \<times> zip_error option \<times> mem" where
  "choose_cdir L C m open_flags src best cdir new error =
     (case cdir of
        Some old \<Rightarrow>
          (case (if best \<le> 0 then zip_checkcons L C m src old error else (best, old, src, error, m)) of
             (best1, old1, src1, e1, m1) \<Rightarrow>
               (case zip_checkcons L C m1 src1 new e1 of
                  (a, new1, src2, e2, m2) \<Rightarrow>
                    if best1 < a then (a, Some new1, src2, e2, m2) else (best1, Some old1, src2, e2, m2)))
      | None \<Rightarrow>
          if flag_set open_flags ZIP_CHECKCONS
          then (case zip_checkcons L C m src new error of (a, new1, src1, e1, m1) \<Rightarrow> (a, Some new1, src1, e1, m1))
          else (0, Some new, src, error, m))"

lemma eocd_loop_progress:
  assumes "zip_memmem block p n EOCD_MAGIC = Some q"
  shows "length block - Suc q < length block - p"
  using zip_memmem_spec(1,4) [OF assms] by simp

text \<open>The loop over the matches of the magic number, from position \<open>p\<close> of the block, where the cursor is.\<close>

function eocd_loop ::
  "libs \<Rightarrow> 'u callbacks \<Rightarrow> mem \<Rightarrow> 'u zip_t \<Rightarrow> zip_buffer \<Rightarrow> u64 \<Rightarrow> int \<Rightarrow> 'u zip_cdir option \<Rightarrow> zip_error option \<Rightarrow> nat
     \<Rightarrow> int \<times> 'u zip_cdir option \<times> 'u zip_t \<times> zip_error option \<times> mem" where
  "eocd_loop L C m za b base best cdir error p =
     (case zip_memmem (buf_data b) p (unat (zip_buffer_left b - 18)) EOCD_MAGIC of
        None \<Rightarrow> (best, cdir, za, error, m)
      | Some q \<Rightarrow>
          (case zip_read_cdir L C m za (snd (zip_buffer_set_offset b (word_of_nat q))) base error of
             (cdirnew, b1, src1, e1, m1) \<Rightarrow>
               (case (case cdirnew of None \<Rightarrow> (best, cdir, src1, e1, m1)
                      | Some new \<Rightarrow> choose_cdir L C m1 (za_open_flags za) src1 best cdir new e1) of
                  (best1, cdir1, src2, e2, m2) \<Rightarrow>
                    eocd_loop L C m2 (za\<lparr>za_src := src2\<rparr>) (snd (zip_buffer_set_offset b1 (word_of_nat (q + 1)))) base
                      best1 cdir1 e2 (q + 1))))"
  by pat_completeness auto

termination
  by (relation "measure (\<lambda>(L, C, m, za, b, base, best, cdir, error, p). length (buf_data b) - p)")
    (auto dest!: zip_read_cdir_data [OF sym] dest: eocd_loop_progress)

declare eocd_loop.simps [simp del]

definition zip_find_central_dir ::
  "libs \<Rightarrow> 'u callbacks \<Rightarrow> mem \<Rightarrow> 'u zip_t \<Rightarrow> u64 \<Rightarrow> 'u zip_cdir option \<times> 'u zip_t \<times> mem" where
  "zip_find_central_dir L C m za len =
     (if len < 22 then (None, za_set_error ZIP_ER_NOZIP 0 za, m)
      else
        (let buflen = (if len < CDBUFSIZE then len else CDBUFSIZE);
             (r, src1) = zip_source_seek C (za_src za) (- int (unat buflen)) SEEK_END;
             za1 = za\<lparr>za_src := src1\<rparr>;
             serr = src_error (src_state src1)
         in if r < 0 \<and> (zip_err serr \<noteq> ZIP_ER_SEEK \<or> sys_err serr \<noteq> EFBIG)
            then (None, za_put (zip_error_copy (Some (za_error za1)) serr) za1, m)
            else
              (case zip_source_tell C src1 of
                 (buf_off, src2) \<Rightarrow>
                   if buf_off < 0 then (None, za_put (zip_error_set_from_source (Some (za_error za1)) src2) (za1\<lparr>za_src := src2\<rparr>), m)
                   else
                     (case zip_buffer_new_from_source C m src2 (unat buflen) None (Some (za_error za1)) of
                        (None, src3, e, m1) \<Rightarrow> (None, za_put e (za1\<lparr>za_src := src3\<rparr>), m1)
                      | (Some b, src3, e, m1) \<Rightarrow>
                          (let b1 = (if buflen \<ge> CDBUFSIZE then snd (zip_buffer_set_offset b 20) else b);
                               (match, b2) = zip_buffer_get b1 0
                           in case eocd_loop L C m1 (za_put e (za1\<lparr>za_src := src3\<rparr>)) b2 (word_of_int buf_off) (-1) None
                                     (zip_error_set (Some zip_error_init) ZIP_ER_NOZIP 0) (the match) of
                                (best, cdir, za2, e2, m2) \<Rightarrow>
                                  if best < 0 then (None, za_put (zip_error_copy (Some (za_error za2)) (the e2)) za2, m2)
                                  else (cdir, za2, m2))))))"

section \<open>Opening\<close>

definition zip_allocate_new ::
  "mem \<Rightarrow> 'u zip_source \<Rightarrow> u32 \<Rightarrow> zip_error option \<Rightarrow> 'u zip_t option \<times> zip_error option \<times> mem" where
  "zip_allocate_new m src flags error =
     (case zip_new m src error of
        (None, e, m1) \<Rightarrow> (None, e, m1)
      | (Some za, e, m1) \<Rightarrow>
          (let za1 = za\<lparr>za_src := src, za_open_flags := flags\<rparr>
           in (Some (if flag_set flags ZIP_RDONLY
                     then za1\<lparr>za_flags := za_flags za1 OR ZIP_AFL_RDONLY, za_ch_flags := za_ch_flags za1 OR ZIP_AFL_RDONLY\<rparr>
                     else za1), e, m1)))"

datatype exists_t = EXISTS_ERROR | EXISTS_NOT | EXISTS_OK

text \<open>The stat block starts out with the indeterminate contents of the stack.\<close>

definition zip_file_exists ::
  "'u callbacks \<Rightarrow> zip_stat \<Rightarrow> 'u zip_source \<Rightarrow> zip_error option \<Rightarrow> exists_t \<times> 'u zip_source \<times> zip_error option" where
  "zip_file_exists C st src error =
     (case zip_source_stat C src (Some (zip_stat_init st)) of
        (r, _, src1) \<Rightarrow>
          if r \<noteq> 0 then
            (let serr = src_error (src_state src1)
             in if zip_err serr = ZIP_ER_READ \<and> sys_err serr = ENOENT then (EXISTS_NOT, src1, error)
                else (EXISTS_ERROR, src1, zip_error_copy error serr))
          else (EXISTS_OK, src1, error))"

text \<open>
  The names of the entries go into the table. A name met twice is an error only when consistency is
  checked. Reading a name caches its encoding; its errors go to the caller's object.
\<close>

fun add_names ::
  "mem \<Rightarrow> 'u zip_t \<Rightarrow> u32 \<Rightarrow> nat list \<Rightarrow> zip_error option \<Rightarrow> 'u zip_t option \<times> zip_error option \<times> mem" where
  "add_names m za flags [] error = (Some za, error, m)"
| "add_names m za flags (i # is) error =
     (case zip_string_get m (de_filename (the (ze_orig (za_entry za ! i)))) 0 error of
        (r, str, e, m1) \<Rightarrow>
          (let za1 = upd_entry i (\<lambda>en. en\<lparr>ze_orig := map_option (\<lambda>d. d\<lparr>de_filename := str\<rparr>) (ze_orig en)\<rparr>) za in
           case r of
             None \<Rightarrow> (None, e, m1)
           | Some (name, _) \<Rightarrow>
               (case zip_hash_add m1 (za_names za1) (Some name) i ZIP_FL_UNCHANGED (Some (za_error za1)) of
                  (ok, h, ze, m2) \<Rightarrow>
                    (let za2 = za_put ze (za1\<lparr>za_names := h\<rparr>)
                     in if \<not> ok \<and> (zip_err (za_error za2) \<noteq> ZIP_ER_EXISTS \<or> flag_set flags ZIP_CHECKCONS)
                        then (None, zip_error_copy e (za_error za2), m2)
                        else add_names m2 za2 flags is e))))"

text \<open>The archive made of the directory found.\<close>

definition open_directory ::
  "mem \<Rightarrow> 'u zip_t \<Rightarrow> u32 \<Rightarrow> 'u zip_cdir \<Rightarrow> zip_error option \<Rightarrow> 'u zip_t option \<times> zip_error option \<times> mem" where
  "open_directory m za0 flags cd error =
     (let za = za0\<lparr>za_entry := cd_entry cd, za_nentry_alloc := cd_nentry_alloc cd, za_comment_orig := cd_comment cd\<rparr>
      in case zip_hash_reserve_capacity m (za_names za) (length (za_entry za)) (Some (za_error za)) of
           (_, h, e, m1) \<Rightarrow>
             (case add_names m1 (za_put e (za\<lparr>za_names := h\<rparr>)) flags [0..<length (za_entry za)] error of
                (None, e1, m2) \<Rightarrow> (None, e1, m2)
              | (Some za1, e1, m2) \<Rightarrow> (Some (za1\<lparr>za_ch_flags := za_flags za1\<rparr>), e1, m2)))"

text \<open>\<open>_zip_open\<close>: the archive (or NULL), the source, the error.\<close>

definition open_existing ::
  "libs \<Rightarrow> 'u callbacks \<Rightarrow> mem \<Rightarrow> zip_stat \<Rightarrow> 'u zip_source \<Rightarrow> u32 \<Rightarrow> zip_error option
     \<Rightarrow> 'u zip_t option \<times> 'u zip_source \<times> zip_error option \<times> mem" where
  "open_existing L C m st src flags error =
     (case zip_source_stat C src (Some (zip_stat_init st)) of
        (r, st1, src1) \<Rightarrow>
          if r < 0 then (None, src1, zip_error_set_from_source error src1, m)
          else if \<not> flag_set (st_valid (the st1)) ZIP_STAT_SIZE then (None, src1, zip_error_set error ZIP_ER_SEEK EOPNOTSUPP, m)
          else
            (case zip_allocate_new m src1 flags error of
               (None, e, m1) \<Rightarrow> (None, src1, e, m1)
             | (Some za, e, m1) \<Rightarrow>
                 (case (if st_size (the st1) = 0 then zip_source_accept_empty C src1 else (False, src1)) of
                    (True, src2) \<Rightarrow> (Some (za\<lparr>za_src := src2\<rparr>), src2, e, m1)
                  | (False, src2) \<Rightarrow>
                      (case zip_find_central_dir L C m1 (za\<lparr>za_src := src2\<rparr>) (st_size (the st1)) of
                         (None, za1, m2) \<Rightarrow> (None, za_src za1, zip_error_copy e (za_error za1), m2)
                       | (Some cd, za1, m2) \<Rightarrow>
                           (case open_directory m2 za1 flags cd e of
                              (r, e1, m3) \<Rightarrow> (r, za_src za1, e1, m3))))))"

text \<open>\<open>st1\<close> and \<open>st2\<close> are the stack contents of the two stat blocks; \<open>error\<close> is the caller's object.\<close>

definition zip_open_from_source ::
  "libs \<Rightarrow> 'u callbacks \<Rightarrow> mem \<Rightarrow> zip_stat \<Rightarrow> zip_stat \<Rightarrow> 'u zip_source option \<Rightarrow> int \<Rightarrow> zip_error option
     \<Rightarrow> 'u zip_t option \<times> 'u zip_source option \<times> zip_error option \<times> mem" where
  "zip_open_from_source L C m st1 st2 src0 flags0 error =
     (case src0 of
        None \<Rightarrow> (None, None, zip_error_set error ZIP_ER_INVAL 0, m)
      | Some src \<Rightarrow>
          if flags0 < 0 then (None, src0, zip_error_set error ZIP_ER_INVAL 0, m)
          else
            (let supported = zip_source_supports src;
                 flags1 = word_of_int flags0;
                 flags = (if supported AND ZIP_SOURCE_SUPPORTS_WRITABLE \<noteq> ZIP_SOURCE_SUPPORTS_WRITABLE
                          then flags1 OR ZIP_RDONLY else flags1)
             in if supported AND ZIP_SOURCE_SUPPORTS_SEEKABLE \<noteq> ZIP_SOURCE_SUPPORTS_SEEKABLE
                then (None, src0, zip_error_set error ZIP_ER_OPNOTSUPP 0, m)
                else if flags AND (ZIP_RDONLY OR ZIP_TRUNCATE) = ZIP_RDONLY OR ZIP_TRUNCATE
                then (None, src0, zip_error_set error ZIP_ER_RDONLY 0, m)
                else
                  (case zip_file_exists C st1 src error of
                     (EXISTS_ERROR, src1, e) \<Rightarrow> (None, Some src1, e, m)
                   | (EXISTS_NOT, src1, e) \<Rightarrow>
                       if \<not> flag_set flags ZIP_CREATE then (None, Some src1, zip_error_set e ZIP_ER_NOENT 0, m)
                       else (case zip_allocate_new m src1 flags e of (za, e1, m1) \<Rightarrow> (za, Some src1, e1, m1))
                   | (EXISTS_OK, src1, e) \<Rightarrow>
                       if flag_set flags ZIP_EXCL then (None, Some src1, zip_error_set e ZIP_ER_EXISTS 0, m)
                       else
                         (case zip_source_open C src1 of
                            (r, src2) \<Rightarrow>
                              if r < 0 then (None, Some src2, zip_error_set_from_source e src2, m)
                              else
                                (case (if flag_set flags ZIP_TRUNCATE
                                       then (case zip_allocate_new m src2 flags e of (za, e1, m1) \<Rightarrow> (za, src2, e1, m1))
                                       else open_existing L C m st2 src2 flags e) of
                                   (None, src3, e1, m1) \<Rightarrow> (None, Some (snd (zip_source_close C src3)), e1, m1)
                                 | (Some za, src3, e1, m1) \<Rightarrow> (Some za, Some src3, e1, m1))))))"

text \<open>The new \<open>errno\<close> (when it is set) and what is stored through \<open>zep\<close>.\<close>

definition zip_set_open_error :: "zip_error option \<Rightarrow> int \<Rightarrow> int option \<times> int" where
  "zip_set_open_error err ze =
     (case err of
        None \<Rightarrow> (None, ze)
      | Some e \<Rightarrow>
          (case zip_error_system_type e of
             ZIP_ET_SYS \<Rightarrow> (Some (sys_err e), zip_err e)
           | ZIP_ET_LIBZIP \<Rightarrow> (Some (sys_err e), zip_err e)
           | _ \<Rightarrow> (None, zip_err e)))"

text \<open>\<open>file_create\<close> is \<open>zip_source_file_create\<close> with the caller's file name.\<close>

definition zip_open ::
  "libs \<Rightarrow> 'u callbacks \<Rightarrow> mem \<Rightarrow> zip_stat \<Rightarrow> zip_stat \<Rightarrow> (zip_error option \<Rightarrow> 'u zip_source option \<times> zip_error option) \<Rightarrow> int
     \<Rightarrow> 'u zip_t option \<times> (int option \<times> int) option \<times> mem" where
  "zip_open L C m st1 st2 file_create flags =
     (case file_create (Some zip_error_init) of
        (None, e) \<Rightarrow> (None, Some (zip_set_open_error e 0), m)
      | (Some src, e) \<Rightarrow>
          (case zip_open_from_source L C m st1 st2 (Some src) flags e of
             (None, _, e1, m1) \<Rightarrow> (None, Some (zip_set_open_error e1 0), m1)
           | (Some za, _, e1, m1) \<Rightarrow> (Some za, None, m1)))"

section \<open>What a header read holds\<close>

text \<open>A callback fills the block it is given in place: a block with room for the bytes asked for keeps its length.\<close>

definition reads_in_place :: "'u callbacks \<Rightarrow> bool" where
  "reads_in_place C \<longleftrightarrow> (\<forall>s d n r bs s1. zip_source_call C s (SD_Bytes d) n ZIP_SOURCE_READ = (r, SD_Bytes bs, s1)
     \<longrightarrow> n \<le> length d \<longrightarrow> length bs = length d)"

lemma reads_in_placeD:
  "reads_in_place C \<Longrightarrow> zip_source_call C s (SD_Bytes d) n ZIP_SOURCE_READ = (r, SD_Bytes bs, s1) \<Longrightarrow>
     n \<le> length d \<Longrightarrow> length bs = length d"
  unfolding reads_in_place_def by blast

lemma source_read_loop_length:
  assumes "reads_in_place C" and "source_read_loop C s data len k = (f, n, d, s1)" and "len \<le> length data"
  shows "length d = length data"
  using assms
proof (induction C s data len k arbitrary: f n d s1 rule: source_read_loop.induct)
  case (1 C s data len k)
  show ?case
  proof (cases "k < len")
    case False
    then show ?thesis using 1(3) by (simp add: source_read_loop.simps)
  next
    case True
    obtain r e s2 where c: "zip_source_call C s (SD_Bytes (drop k data)) (len - k) ZIP_SOURCE_READ = (r, e, s2)" by (metis prod_cases3)
    have "length x = length data - k" if "e = SD_Bytes x" for x
      using reads_in_placeD [OF 1(2) c [unfolded that]] 1(4) by simp
    then have l: "length (store_block data k e) = length data"
      using True 1(4) by (cases e) (auto simp: store_block_def)
    show ?thesis
    proof (cases "r < 0 \<or> r = 0")
      case True
      then show ?thesis using 1(3) \<open>k < len\<close> c l by (subst (asm) source_read_loop.simps) (auto simp: Let_def)
    next
      case False
      then have "source_read_loop C s2 (store_block data k e) len (k + nat r) = (f, n, d, s1)"
        using 1(3) \<open>k < len\<close> c by (subst (asm) source_read_loop.simps) (simp add: Let_def)
      from 1(1) [OF \<open>k < len\<close> c [symmetric] refl refl _ _ 1(2) this] False l 1(4) show ?thesis by simp
    qed
  qed
qed

lemma zip_source_read_length:
  assumes "reads_in_place C" and "zip_source_read C s (Some b) len = (r, b1, s1)" and "len \<le> length b"
  shows "\<exists>d. b1 = Some d \<and> length d = length b"
proof -
  obtain f n d s2 where l: "source_read_loop C s b len 0 = (f, n, d, s2)" by (metis prod_cases4)
  from source_read_loop_length [OF assms(1) this assms(3)] assms(2) l show ?thesis
    by (auto simp: zip_source_read_def split: if_splits)
qed

lemma zip_read_length:
  assumes "reads_in_place C" and "zip_read C s b len error = (r, b1, s1, e)" and "len \<le> length b"
  shows "length b1 = length b"
proof -
  obtain n b2 s2 where r: "zip_source_read C s (Some b) len = (n, b2, s2)" by (metis prod_cases3)
  from zip_source_read_length [OF assms(1) this assms(3)] r assms(2) show ?thesis
    by (auto simp: zip_read_def split: if_splits)
qed

lemma buf_inv_from_source:
  assumes "reads_in_place C" and "zip_buffer_new_from_source C m src n buf error = (Some b, src1, e, m1)"
    and "n < 2 ^ 64" and "\<And>bs. buf = Some bs \<Longrightarrow> length bs = n"
  shows "buf_inv b" and "buf_offset b = 0" and "buf_size b = word_of_nat n" and "buf_ok b"
proof -
  have u: "unat (word_of_nat n :: u64) = n" using assms(3) by (simp add: unsigned_of_nat take_bit_nat_eq_self)
  obtain b0 m2 where n: "zip_buffer_new m buf (word_of_nat n) = (Some b0, m2)"
    using assms(2) by (auto simp: zip_buffer_new_from_source_def split: option.splits prod.splits)
  have l: "length (buf_data b0) = n" "buf_size b0 = word_of_nat n" "buf_offset b0 = 0" "buf_ok b0"
    using n u assms(4) by (auto simp: zip_buffer_new_def Let_def split: option.splits prod.splits)
  obtain r bs s2 e2 where r: "zip_read C src (buf_data b0) n error = (r, bs, s2, e2)" by (metis prod_cases4)
  have "length bs = n" using zip_read_length [OF assms(1) r] l(1) by simp
  then show "buf_inv b" "buf_offset b = 0" "buf_size b = word_of_nat n" "buf_ok b"
    using assms(2) n r l u by (auto simp: zip_buffer_new_from_source_def buf_inv_def split: if_splits)
qed

lemma buf_inv_new_some:
  assumes "zip_buffer_new m (Some bs) (word_of_nat n) = (Some b, m1)" and "length bs = n" and "n < 2 ^ 64"
  shows "buf_inv b"
proof -
  have u: "unat (word_of_nat n :: u64) = n" using assms(3) by (simp add: unsigned_of_nat take_bit_nat_eq_self)
  with assms show ?thesis by (auto simp: zip_buffer_new_def buf_inv_def split: option.splits prod.splits)
qed

lemma get_length:
  assumes "buf_inv b" and "zip_buffer_get b n = (Some p, b1)"
  shows "p + unat n \<le> length (buf_data b1)" and "buf_inv b1"
  using get_moves(2,4,7) [OF assms(2)] buf_inv_get [OF assms(1), of n] assms by (simp_all add: buf_inv_def)

text \<open>Strings made from bytes that are there are well formed, whatever the allocator does.\<close>

lemma zip_string_new_wf:
  assumes "zip_string_new m raw len flags error = (Some s, e, m1)" and "len \<le> length raw"
  shows "string_wf s"
proof -
  let ?g = "guess_loop ZIP_ENCODING_ASCII (take len raw)"
  have g: "?g \<in> {ZIP_ENCODING_ASCII, ZIP_ENCODING_UTF8_GUESSED, ZIP_ENCODING_CP437}"
    using guess_loop_values [of ZIP_ENCODING_ASCII "take len raw"] by simp
  let ?s = "\<lparr>zs_raw = take len raw @ [0], zs_length = len, zs_encoding = ZIP_ENCODING_UNKNOWN,
      zs_converted = None, zs_converted_length = 0\<rparr>"
  have "0 < len \<and> (\<exists>enc. s = ?s\<lparr>zs_encoding := enc\<rparr> \<and> (enc = ZIP_ENCODING_UNKNOWN \<or> (enc = ZIP_ENCODING_CP437 \<longleftrightarrow> ?g = ZIP_ENCODING_CP437)))"
    using assms(1) g
    by (auto simp: zip_string_new_def zip_guess_encoding_def Let_def min_absorb2 [OF assms(2)] split: if_splits prod.splits option.splits)
  then show ?thesis using assms(2) by (auto simp: string_wf_def)
qed

lemma utf8_claim_wf: "utf8_claim fl str = (bad, str1) \<Longrightarrow> str_wf str \<Longrightarrow> str_wf str1"
  using guess_loop_values [of ZIP_ENCODING_ASCII "take (zs_length (the str)) (zs_raw (the str))"]
  by (cases str) (auto simp: utf8_claim_def zip_guess_encoding_def Let_def str_wf_def string_wf_def split: if_splits)

text \<open>What the readers of the variable part leave: a sound cursor and well-formed values.\<close>

lemma zip_read_data_wf:
  assumes "zip_read_data C m (Some b) src len nulp error = (r, b1, src1, e, m1)" and "buf_inv b" and "len < 65536"
  shows "\<exists>c. b1 = Some c \<and> buf_inv c" and "r = Some bs \<Longrightarrow> len \<le> length bs"
proof -
  have u: "unat (word_of_nat len :: u64) = len" using assms(3) by (simp add: unsigned_of_nat take_bit_nat_eq_self)
  obtain p c where g: "zip_buffer_get b (word_of_nat len) = (p, c)" by fastforce
  have c: "buf_inv c" using buf_inv_get [OF assms(2), of "word_of_nat len"] g by simp
  have l: "q + len \<le> length (buf_data c)" if "p = Some q" for q
    using get_length(1) [OF assms(2), of "word_of_nat len" q c] g that u by simp
  show "\<exists>c. b1 = Some c \<and> buf_inv c" using assms(1,2) g c by (auto simp: zip_read_data_def Let_def split: if_splits option.splits prod.splits)
  show "r = Some bs \<Longrightarrow> len \<le> length bs"
    using assms(1) g l by (cases p) (auto simp: zip_read_data_def Let_def split: if_splits option.splits prod.splits)
qed

lemma zip_read_string_wf:
  assumes "zip_read_string C m (Some b) src len nulp error = (r, b1, src1, e, m1)" and "buf_inv b" and "len < 65536"
  shows "\<exists>c. b1 = Some c \<and> buf_inv c" and "str_wf r"
proof -
  obtain d c s2 e2 m2 where d: "zip_read_data C m (Some b) src len nulp error = (d, c, s2, e2, m2)" by (metis prod_cases5)
  note w = zip_read_data_wf [OF d assms(2,3)]
  show "\<exists>c. b1 = Some c \<and> buf_inv c" using assms(1) d w(1)
    by (auto simp: zip_read_string_def split: option.splits prod.splits)
  show "str_wf r"
  proof (cases r)
    case (Some s)
    then show ?thesis using assms(1) d w(2)
      by (auto simp: zip_read_string_def str_wf_def dest: zip_string_new_wf split: option.splits prod.splits)
  qed simp
qed

lemma unat_wide: "unat (ucast (v :: u16) :: u64) = unat v"
  by (simp add: unsigned_ucast_eq take_bit_nat_eq_self unsigned_less [THEN order.strict_trans])

lemma dirent_read_name_wf:
  assumes "dirent_read_name C m b src zde len error = (r, b1, src1, e, m1)" and "buf_inv b" and "len < 65536"
  shows "buf_inv b1" and "r = Some str \<Longrightarrow> str_wf str"
proof -
  obtain d c s2 e2 m2 where d: "zip_read_string C m (Some b) src len True error = (d, c, s2, e2, m2)" by (metis prod_cases5)
  note w = zip_read_string_wf [OF d assms(2,3)]
  show "buf_inv b1" using assms(1,2) d w(1)
    by (auto simp: dirent_read_name_def split: if_splits option.splits prod.splits)
  show "r = Some str \<Longrightarrow> str_wf str" using assms(1) d w(2)
    by (auto simp: dirent_read_name_def dest: utf8_claim_wf split: if_splits option.splits prod.splits)
qed

lemma dirent_read_comment_inv:
  assumes "dirent_read_comment C m b src zde len error = (r, b1, src1, e, m1)" and "buf_inv b" and "len < 65536"
  shows "buf_inv b1"
proof -
  obtain d c s2 e2 m2 where d: "zip_read_string C m (Some b) src len False error = (d, c, s2, e2, m2)" by (metis prod_cases5)
  from zip_read_string_wf(1) [OF d assms(2,3)] show ?thesis using assms(1,2) d
    by (auto simp: dirent_read_comment_def split: if_splits option.splits prod.splits)
qed

lemma zip_ef_new_ok:
  "zip_ef_new m i sz data flags = (Some ef, m1) \<Longrightarrow> sz \<le> length data \<Longrightarrow> sz < 65536 \<Longrightarrow> ef_ok ef"
  by (auto simp: zip_ef_new_def zip_memdup_def ef_ok_def split: if_splits option.splits prod.splits)

lemma ef_parse_loop_ok:
  "ef_parse_loop m b flags acc = (Inr efs, b1, m1) \<Longrightarrow> buf_inv b \<Longrightarrow> list_all ef_ok acc \<Longrightarrow> list_all ef_ok efs"
proof (induction m b flags acc arbitrary: rule: ef_parse_loop.induct)
  case (1 m b flags acc)
  show ?case
  proof (cases "buf_ok b \<and> zip_buffer_left b \<ge> 4")
    case False
    then show ?thesis using 1(2,4) by (subst (asm) ef_parse_loop.simps) (simp only: if_False prod.inject sum.inject)
  next
    case True
    obtain fid b2 where g1: "zip_buffer_get_16 b = (fid, b2)" by fastforce
    obtain flen b3 where g2: "zip_buffer_get_16 b2 = (flen, b3)" by fastforce
    have i2: "buf_inv b2" using get_invs(2) [OF 1(3)] g1 by simp
    have i3: "buf_inv b3" using get_invs(2) [OF i2] g2 by simp
    obtain p b4 where g3: "zip_buffer_get b3 (ucast flen) = (Some p, b4)"
      using 1(2) True g1 g2 by (subst (asm) ef_parse_loop.simps) (auto split: option.splits prod.splits)
    obtain ef m2 where n: "zip_ef_new m fid (unat flen) (drop p (buf_data b4)) flags = (Some ef, m2)"
      and r: "ef_parse_loop m2 b4 flags (acc @ [ef]) = (Inr efs, b1, m1)"
      using 1(2) True g1 g2 g3 by (subst (asm) ef_parse_loop.simps) (auto split: option.splits prod.splits)
    have u: "unat (ucast flen :: u64) = unat flen" by (rule unat_wide)
    have f: "unat flen < 65536" by (rule order.strict_trans2 [OF unsigned_less]) simp
    note g = get_length [OF i3 g3]
    have "ef_ok ef" using zip_ef_new_ok [OF n] g(1) u f by simp
    then show ?thesis using 1(1) [OF True g1 [symmetric] g2 [symmetric] g3 [symmetric] refl n [symmetric] refl r g(2)] 1(4) by simp
  qed
qed

lemma zip_ef_parse_ok:
  assumes "zip_ef_parse m data len flags error = (True, efs, e, m1)" and "len \<le> length data" and "len < 65536"
  shows "list_all ef_ok efs"
proof -
  obtain b m2 where n: "zip_buffer_new m (Some (take len data)) (word_of_nat len) = (Some b, m2)"
    using assms(1) by (auto simp: zip_ef_parse_def split: option.splits prod.splits)
  have i: "buf_inv b" by (rule buf_inv_new_some [OF n]) (use assms(2,3) in simp_all)
  obtain r b1 m3 where l: "ef_parse_loop m2 b flags [] = (r, b1, m3)" by (metis prod_cases3)
  have re: "r = Inr efs" using assms(1) n l by (auto simp: zip_ef_parse_def Let_def split: if_splits sum.splits prod.splits)
  show ?thesis using ef_parse_loop_ok [OF l [unfolded re] i] by simp
qed

lemma dirent_read_ef_wf:
  assumes "dirent_read_ef C m b src local len error = (r, b1, src1, e, m1)" and "buf_inv b" and "len < 65536"
  shows "buf_inv b1" and "r = Some efs \<Longrightarrow> list_all ef_ok efs"
proof -
  obtain d c s2 e2 m2 where d: "zip_read_data C m (Some b) src len False error = (d, c, s2, e2, m2)" by (metis prod_cases5)
  note w = zip_read_data_wf [OF d assms(2,3)]
  show "buf_inv b1" using assms(1,2) d w(1)
    by (auto simp: dirent_read_ef_def split: if_splits option.splits prod.splits)
  show "r = Some efs \<Longrightarrow> list_all ef_ok efs"
    using assms(1,3) d w(2) by (auto simp: dirent_read_ef_def dest!: zip_ef_parse_ok split: if_splits option.splits prod.splits)
qed

lemma ef_get_loop_ok:
  "ef_get_loop efs i k0 flags k = Some (ef, n) \<Longrightarrow> list_all ef_ok efs \<Longrightarrow> n < 65536 \<and> n \<le> length ef"
  by (induction efs arbitrary: k) (auto simp: ef_ok_def split: if_splits)

lemma dirent_process_ef_utf_8_wf:
  assumes r: "dirent_process_ef_utf_8 L m efs i str = (str1, m1)" and "list_all ef_ok efs" and w: "str_wf str"
  shows "str_wf str1"
proof (cases "fst (zip_ef_get_by_id efs i 0 ZIP_EF_BOTH None)")
  case None
  then show ?thesis using r w by (simp add: dirent_process_ef_utf_8_def)
next
  case (Some t)
  obtain ef n where t: "t = (ef, n)" by fastforce
  have n: "n < 65536" "n \<le> length ef"
    using Some t ef_get_loop_ok [OF _ assms(2)] by (auto simp: zip_ef_get_by_id_def split: option.splits)
  show ?thesis
  proof (cases "n < 5 \<or> ef ! 0 \<noteq> 1")
    case True
    then show ?thesis using r w Some t by (simp add: dirent_process_ef_utf_8_def)
  next
    case False
    obtain x m2 where x: "zip_buffer_new m (Some (take n ef)) (word_of_nat n) = (x, m2)" by fastforce
    show ?thesis
    proof (cases x)
      case None
      then show ?thesis using r w Some t False x by (simp add: dirent_process_ef_utf_8_def)
    next
      case b: (Some b)
      obtain v b1 where g1: "zip_buffer_get_8 b = (v, b1)" by fastforce
      obtain crc b2 where g2: "zip_buffer_get_32 b1 = (crc, b2)" by fastforce
      let ?len = "ucast (zip_buffer_left b2) :: u16"
      obtain p b3 where g3: "zip_buffer_get b2 (ucast ?len) = (p, b3)" by fastforce
      have i: "buf_inv b" by (rule buf_inv_new_some [OF x [unfolded b]]) (use n in simp_all)
      have i2: "buf_inv b2" using get_invs(1) [OF i] get_invs(3) [of b1] g1 g2 by simp
      have u: "unat (ucast ?len :: u64) = unat ?len" by (rule unat_wide)
      obtain z e3 m3 where z: "zip_string_new m2 (case p of None \<Rightarrow> [] | Some p \<Rightarrow> drop p (buf_data b3)) (unat ?len) ZIP_FL_ENC_UTF_8 None = (z, e3, m3)"
        by (metis prod_cases3)
      have s: "str1 = str \<or> (\<exists>s. z = Some s \<and> str1 = Some s)"
        using r Some t False x b g1 g2 g3 z by (auto simp: dirent_process_ef_utf_8_def Let_def split: if_splits option.splits)
      have "string_wf s" if "z = Some s" for s
      proof (rule zip_string_new_wf [OF z [unfolded that]])
        show "unat ?len \<le> length (case p of None \<Rightarrow> [] | Some p \<Rightarrow> drop p (buf_data b3))"
        proof (cases p)
          case None
          then have "\<not> room b2 (unat ?len)" using g3 u by (simp add: get_eq split: if_splits)
          moreover have "unat ?len \<le> unat (zip_buffer_left b2)" by (simp add: unsigned_ucast_eq unsigned_take_bit_eq)
          ultimately have "zip_buffer_left b2 = 0 \<or> unat ?len = 0"
            using i2 by (auto simp: room_def zip_buffer_left_eq buf_inv_def word_le_nat_alt split: if_splits)
          then show ?thesis by auto
        next
          case (Some q)
          then show ?thesis using get_length(1) [OF i2 g3 [unfolded Some]] u by simp
        qed
      qed
      then show ?thesis using s w by (auto simp: str_wf_def)
    qed
  qed
qed

lemma dirent_read_fixed_inv: "dirent_read_fixed L local b = (zde, n1, n2, n3, b1) \<Longrightarrow> buf_inv b \<Longrightarrow> buf_inv b1"
proof -
  assume r: "dirent_read_fixed L local b = (zde, n1, n2, n3, b1)" and i: "buf_inv b"
  have "buf_inv (snd (snd (snd (snd (dirent_read_fixed L local b)))))"
    unfolding dirent_read_fixed_def Let_def case_prod_beta
    by (cases local) (simp_all add: get_invs i)
  then show ?thesis using r by simp
qed

lemma dirent_read_finish_wf:
  assumes "dirent_read_finish L m local b zde error = (Some de, e, m1)" and "list_all ef_ok (de_extra_fields zde)"
    and "str_wf (de_filename zde)"
  shows "str_wf (de_filename de)"
proof -
  obtain name m2 where n: "dirent_process_ef_utf_8 L m (de_extra_fields zde) ZIP_EF_UTF_8_NAME (de_filename zde) = (name, m2)" by fastforce
  obtain com m3 where c: "dirent_process_ef_utf_8 L m2 (de_extra_fields zde) ZIP_EF_UTF_8_COMMENT (de_comment zde) = (com, m3)" by fastforce
  obtain z1 e2 m4 where z: "dirent_read_zip64 m3 local (zde\<lparr>de_filename := name, de_comment := com\<rparr>) error = (z1, e2, m4)"
    by (metis prod_cases3)
  have "de_filename (fst (zip64_values local d b0)) = de_filename d" for d b0
    by (simp add: zip64_values_def Let_def case_prod_beta)
  then have z1: "z1 = Some d \<Longrightarrow> de_filename d = name" for d
    using z by (fastforce simp: dirent_read_zip64_def Let_def case_prod_beta split: if_splits option.splits prod.splits)
  have w: "dirent_process_winzip_aes m5 d e5 = (Some d1, e6, m6) \<Longrightarrow> de_filename d1 = de_filename d" for d d1 e5 e6 m5 m6
    by (auto simp: dirent_process_winzip_aes_def Let_def case_prod_beta split: if_splits option.splits prod.splits)
  have "de_filename de = name"
    using assms(1) n c z z1 by (auto simp: dirent_read_finish_def dest: w split: if_splits option.splits prod.splits)
  then show ?thesis using dirent_process_ef_utf_8_wf [OF n assms(2,3)] by simp
qed

lemma unat_u16_less: "unat (v :: u16) < 65536"
  by (rule order.strict_trans2 [OF unsigned_less]) simp

lemma zip_dirent_read_wf:
  assumes C: "reads_in_place C" and r: "zip_dirent_read L C m src buffer local error = (Some (n, de), b', src', e', m')"
    and b: "\<And>b. buffer = Some b \<Longrightarrow> buf_inv b"
  shows "str_wf (de_filename de)" and "b' = Some c \<Longrightarrow> buf_inv c"
proof -
  let ?sz = "if local then LENTRYSIZE else CDENTRYSIZE"
  obtain b0 src1 e1 m1 where s0: "(case buffer of
                 Some b \<Rightarrow>
                   if unat (zip_buffer_left b) < ?sz then (None, src, zip_error_set error ZIP_ER_NOZIP 0, m)
                   else (Some b, src, error, m)
               | None \<Rightarrow> zip_buffer_new_from_source C m src ?sz (Some (replicate ?sz 0)) error) = (Some b0, src1, e1, m1)"
    using r by (auto simp: zip_dirent_read_def Let_def split: option.splits prod.splits if_splits)
  have i0: "buf_inv b0"
  proof (cases buffer)
    case None
    then have "zip_buffer_new_from_source C m src ?sz (Some (replicate ?sz 0)) error = (Some b0, src1, e1, m1)" using s0 by simp
    from buf_inv_from_source(1) [OF C this] show ?thesis by auto
  next
    case (Some x)
    then show ?thesis using s0 b by (auto split: if_splits)
  qed
  obtain p b1 where g: "zip_buffer_get b0 4 = (p, b1)" by fastforce
  have i1: "buf_inv b1" using buf_inv_get [OF i0, of 4] g by simp
  obtain zde fl el cl b2 where f: "dirent_read_fixed L local b1 = (zde, fl, el, cl, b2)" by (metis prod_cases5)
  note i2 = dirent_read_fixed_inv [OF f i1]
  let ?zde1 = "zde\<lparr>de_encryption_method := dirent_encryption zde, de_filename := None, de_extra_fields := [], de_comment := None\<rparr>"
  let ?var = "unat fl + unat el + unat cl"
  obtain b3 src2 e2 m2 where s1: "(if buffer \<noteq> None then
                                       (if unat (zip_buffer_left b2) < ?var
                                        then (None, src1, zip_error_set e1 ZIP_ER_INCONS ZIP_ER_DETAIL_VARIABLE_SIZE_OVERFLOW, m1)
                                        else (Some b2, src1, e1, m1))
                                     else zip_buffer_new_from_source C m1 src1 ?var None e1) = (Some b3, src2, e2, m2)"
    and ok: "take 4 (drop (the p) (buf_data b1)) = (if local then LOCAL_MAGIC else CENTRAL_MAGIC)" "buf_ok b2"
    using r unfolding zip_dirent_read_def Let_def s0 option.case prod.case g f
    by (auto split: option.splits prod.splits if_splits)
  have i3: "buf_inv b3"
  proof (cases buffer)
    case None
    then have "zip_buffer_new_from_source C m1 src1 ?var None e1 = (Some b3, src2, e2, m2)" using s1 by simp
    from buf_inv_from_source(1) [OF C this] show ?thesis
      using unat_u16_less [of fl] unat_u16_less [of el] unat_u16_less [of cl] by simp
  next
    case (Some x)
    then show ?thesis using s1 i2 by (auto split: if_splits)
  qed
  note r2 = r [unfolded zip_dirent_read_def Let_def s0 option.case prod.case g f ok(1) s1 simp_thms if_False]
  obtain nm b4 src3 e3 m3 where rn: "dirent_read_name C m2 b3 src2 ?zde1 (unat fl) e2 = (nm, b4, src3, e3, m3)" by (metis prod_cases5)
  obtain name where nm: "nm = Some name" using r2 ok(2) rn by (cases nm) auto
  note wn = dirent_read_name_wf [OF rn i3 unat_u16_less]
  obtain ef b5 src4 e4 m4 where re: "dirent_read_ef C m3 b4 src3 local (unat el) e3 = (ef, b5, src4, e4, m4)" by (metis prod_cases5)
  obtain efs where ef: "ef = Some efs" using r2 ok(2) rn nm re by (cases ef) auto
  note we = dirent_read_ef_wf [OF re wn(1) unat_u16_less]
  obtain cm b6 src5 e5 m5 where rc: "dirent_read_comment C m4 b5 src4 ?zde1 (unat cl) e4 = (cm, b6, src5, e5, m5)" by (metis prod_cases5)
  obtain com where cm: "cm = Some com" using r2 ok(2) rn nm re ef rc by (cases cm) auto
  note i6 = dirent_read_comment_inv [OF rc we(1) unat_u16_less]
  let ?zde2 = "?zde1\<lparr>de_filename := name, de_extra_fields := efs, de_comment := com, de_local_extra_fields_read := (local \<and> el \<noteq> 0)\<rparr>"
  obtain fin e6 m6 where rf: "dirent_read_finish L m5 local b6 ?zde2 e5 = (fin, e6, m6)" by (metis prod_cases3)
  have fin: "fin = Some de" "b' = map_option (\<lambda>_. b6) buffer" using r2 ok(2) rn nm re ef rc cm rf by (cases fin; auto)+
  show "str_wf (de_filename de)"
    by (rule dirent_read_finish_wf [OF rf [unfolded fin]]) (use wn(2) nm we(2) ef in simp_all)
  show "b' = Some c \<Longrightarrow> buf_inv c" using fin(2) i6 by auto
qed

section \<open>What a directory read holds\<close>

text \<open>Reading keeps the block's cursor sound.\<close>

lemma zip_read_eocd_inv: "buf_inv b \<Longrightarrow> buf_inv (fst (snd (zip_read_eocd m b base flags error)))"
  by (simp add: zip_read_eocd_def Let_def case_prod_beta buf_inv_get get_invs split: option.split)

lemma eocd64_fields_inv: "buf_inv b \<Longrightarrow> buf_inv (snd (eocd64_fields b o1 gap x y flags))"
  by (simp add: eocd64_fields_def Let_def case_prod_beta buf_inv_get get_invs)

lemma zip_read_eocd64_inv:
  assumes "buf_inv b" shows "buf_inv (fst (snd (zip_read_eocd64 C m src b base flags error)))"
  by (auto simp: zip_read_eocd64_def Let_def case_prod_beta eocd64_fields_inv eocd64_cursor_def buf_inv_get get_invs buf_inv_set_offset assms
      split: option.splits sum.splits if_splits)

lemma read_archive_comment_inv: "buf_inv b \<Longrightarrow> buf_inv (fst (snd (read_archive_comment m b o1 n flags error)))"
  by (simp add: read_archive_comment_def Let_def case_prod_beta buf_inv_get buf_inv_set_offset split: option.split)

lemma cdir_cursor_inv:
  assumes b: "buf_inv b" and r: "cdir_cursor C m src b base offset sz error = (c, b1, src1, e, m1)"
  shows "buf_inv b1" and "c = Some (Some d) \<Longrightarrow> buf_inv d"
proof -
  obtain p b2 where g: "zip_buffer_get (snd (zip_buffer_set_offset b (offset - base))) sz = (p, b2)" by fastforce
  have i: "buf_inv (snd (zip_buffer_set_offset b (offset - base)))" by (rule buf_inv_set_offset [OF b])
  have i2: "buf_inv b2" using buf_inv_get [OF i, of sz] g by simp
  show "buf_inv b1" using r b i2 g by (auto simp: cdir_cursor_def split: if_splits option.splits prod.splits)
  assume c: "c = Some (Some d)"
  then have o: "base \<le> offset" using r by (auto simp: cdir_cursor_def split: if_splits option.splits prod.splits)
  then obtain q where q: "p = Some q" using r c g by (cases p) (auto simp: cdir_cursor_def)
  obtain x m2 where x: "zip_buffer_new m (Some (take (unat sz) (drop q (buf_data b2)))) sz = (x, m2)" by fastforce
  then have "x = Some d" using r c o g q by (cases x) (auto simp: cdir_cursor_def)
  moreover have "unat sz \<le> length (buf_data b2) - q" using get_length(1) [OF i g [unfolded q]] by simp
  ultimately show "buf_inv d" using x by (auto simp: zip_buffer_new_def buf_inv_def split: option.splits prod.splits)
qed

lemma read_end_record_inv: "buf_inv b \<Longrightarrow> buf_inv (fst (snd (read_end_record C m flags src b base o1 error)))"
  by (simp add: read_end_record_def zip_read_eocd64_inv zip_read_eocd_inv case_prod_beta buf_inv_set_offset)

text \<open>An entry as read from the archive: only an original header, with a well-formed name.\<close>

definition opened :: "'u zip_entry \<Rightarrow> bool" where
  "opened en \<longleftrightarrow> (\<exists>d. ze_orig en = Some d \<and> str_wf (de_filename d)) \<and> ze_changes en = None \<and> ze_source en = None \<and> \<not> ze_deleted en"

definition opened_upto :: "nat \<Rightarrow> 'u zip_cdir \<Rightarrow> bool" where
  "opened_upto i cd \<longleftrightarrow> i \<le> length (cd_entry cd) \<and> cd_nentry_alloc cd = length (cd_entry cd)
     \<and> length (cd_entry cd) \<le> ZIP_UINT64_MAX div sizeof_entry
     \<and> (\<forall>k<length (cd_entry cd). if k < i then opened (cd_entry cd ! k) else cd_entry cd ! k = zip_entry_init)"

lemma zip_cdir_grow_opened:
  assumes r: "zip_cdir_grow m cd k error = (True, cd1, e, m1)" and o: "opened_upto i cd" and k: "k < 2 ^ 64"
  shows "opened_upto i cd1"
proof (cases "k = 0")
  case True
  then show ?thesis using r o by (simp add: zip_cdir_grow_def)
next
  case False
  let ?n = "length (cd_entry cd)"
  define N where "N = (cd_nentry_alloc cd + k) mod 2 ^ 64"
  have c: "\<not> N < k" "N \<le> ZIP_UINT64_MAX div sizeof_entry"
    "cd1 = cd\<lparr>cd_entry := cd_entry cd @ replicate (N - ?n) zip_entry_init, cd_nentry_alloc := N\<rparr>"
    using r [unfolded zip_cdir_grow_def Let_def, folded N_def] False by (auto split: if_splits option.splits prod.splits)
  have N: "N = (?n + k) mod 2 ^ 64" using o by (simp add: N_def opened_upto_def)
  have "?n < 2 ^ 64" using o by (simp add: opened_upto_def)
  then have "?n + k < 2 ^ 64" using c(1) k unfolding N by (cases "?n + k < 2 ^ 64") (simp_all add: le_mod_geq)
  then have "N = ?n + k" unfolding N by simp
  then show ?thesis using c(2,3) o by (auto simp: opened_upto_def nth_append)
qed

lemma zip_cdir_grow_longer:
  assumes "zip_cdir_grow m cd 65536 error = (True, cd1, e, m1)" and "opened_upto i cd"
  shows "length (cd_entry cd) < length (cd_entry cd1)"
proof -
  let ?n = "length (cd_entry cd)"
  have "?n + 65536 < 2 ^ 64" using assms(2) by (simp add: opened_upto_def)
  then show ?thesis using assms by (auto simp: zip_cdir_grow_def Let_def opened_upto_def split: if_splits option.splits prod.splits)
qed

lemma read_entry_opened:
  assumes C: "reads_in_place C" and r: "read_entry L C m cd i grown b src error = (Some (n, cd1), b1, src1, e, m1)"
    and b: "\<And>x. b = Some x \<Longrightarrow> buf_inv x" and o: "opened_upto i cd" "i < length (cd_entry cd)"
  shows "opened_upto (i + 1) cd1" and "b1 = Some y \<Longrightarrow> buf_inv y"
proof -
  obtain m2 d where n: "zip_dirent_new m = (Some d, m2)"
    using r by (cases "zip_dirent_new m"; cases "fst (zip_dirent_new m)") (auto simp: read_entry_def)
  obtain x b2 src2 e2 m3 where z: "zip_dirent_read L C m2 src b False error = (x, b2, src2, e2, m3)" by (metis prod_cases5)
  obtain de where x: "x = Some (n, de)" "cd1 = put_orig i de cd" "b2 = b1"
    using r n z by (cases x) (auto simp: read_entry_def)
  note w = zip_dirent_read_wf [OF C z [unfolded x(1)] b]
  show "b1 = Some y \<Longrightarrow> buf_inv y" using w(2) x(3) by simp
  have "cd_entry cd ! i = zip_entry_init" using o by (simp add: opened_upto_def)
  then have e: "opened ((cd_entry cd ! i)\<lparr>ze_orig := Some de\<rparr>)" using w(1) by (simp add: opened_def zip_entry_init_def)
  show "opened_upto (i + 1) cd1" unfolding opened_upto_def x(2) put_orig_def
    using o e by (auto simp: opened_upto_def nth_list_update less_Suc_eq)
qed

lemma read_entries_opened:
  "read_entries L C m cd i left b src error = (Some (cd1, i1, left1), b1, src1, e, m1) \<Longrightarrow> reads_in_place C
     \<Longrightarrow> (\<And>x. b = Some x \<Longrightarrow> buf_inv x) \<Longrightarrow> opened_upto i cd \<Longrightarrow> opened_upto i1 cd1"
proof (induction L C m cd i left b src error rule: read_entries.induct)
  case (1 L C m cd i left b src error)
  define g where "g = (if i < length (cd_entry cd) then Some (True, cd, error, m)
               else if cd_is_zip64 cd \<or> left < 46 then None
               else Some (zip_cdir_grow m cd 65536 error))"
  note step = 1(2) [unfolded read_entries.simps [of L C m cd i left], folded g_def]
  show ?case
  proof (cases "left = 0 \<or> g = None")
    case True
    then have "cd1 = cd \<and> i1 = i" using step by (cases "left = 0") (simp_all split: if_splits)
    then show ?thesis using 1(5) by simp
  next
    case False
    then obtain ok cd2 e2 m2 where g: "g = Some (ok, cd2, e2, m2)" by (metis option.exhaust prod_cases4)
    have ok: "ok" using step False g by (auto split: if_splits)
    have o2: "opened_upto i cd2" "i < length (cd_entry cd2)"
    proof -
      show o: "opened_upto i cd2"
        using g ok 1(5) zip_cdir_grow_opened [of m cd 65536 error cd2 e2 m2 i] by (auto simp: g_def split: if_splits)
      show "i < length (cd_entry cd2)"
      proof (cases "i < length (cd_entry cd)")
        case True
        then show ?thesis using g by (simp add: g_def)
      next
        case False
        then have "zip_cdir_grow m cd 65536 error = (True, cd2, e2, m2)" using g ok by (auto simp: g_def split: if_splits)
        then show ?thesis using zip_cdir_grow_longer [OF _ 1(5), of m] 1(5) False by (fastforce simp: opened_upto_def)
      qed
    qed
    let ?grown = "\<not> i < length (cd_entry cd)"
    obtain x b2 src2 e3 m3 where re: "read_entry L C m2 cd2 i ?grown b src e2 = (x, b2, src2, e3, m3)" by (metis prod_cases5)
    obtain n cd3 where x: "x = Some (n, cd3)" using step False g ok re by (cases x) auto
    have w: "opened_upto (i + 1) cd3" and w2: "\<And>y. b2 = Some y \<Longrightarrow> buf_inv y"
      using read_entry_opened [OF 1(3) re [unfolded x] _ o2] 1(4) by blast+
    have fin: "read_entries L C m3 cd3 (i + 1) (left - word_of_nat n) b2 src2 e3 = (Some (cd1, i1, left1), b1, src1, e, m1)"
      using step False g ok re x by simp
    show ?thesis
      by (rule 1(1) [OF _ g [unfolded g_def] refl refl refl _ re [symmetric] x refl refl refl refl fin 1(3) w2 w]) (use False ok in auto)
  qed
qed

lemma zip_cdir_new_opened:
  assumes "zip_cdir_new m n error = (Some cd, e, m1)" and "n < 2 ^ 64"
  shows "opened_upto 0 cd"
proof -
  let ?cd = "\<lparr>cd_entry = [], cd_nentry_alloc = 0, cd_size = 0, cd_offset = 0, cd_comment = None, cd_is_zip64 = False\<rparr>"
  obtain m2 where "zip_cdir_grow m2 ?cd n error = (True, cd, e, m1)"
    using assms(1) by (auto simp: zip_cdir_new_def split: option.splits prod.splits bool.splits)
  from zip_cdir_grow_opened [OF this _ assms(2), of 0] show ?thesis by (simp add: opened_upto_def)
qed

lemma cdir_new_opened: "fst (zip_cdir_new m n error) = Some cd \<Longrightarrow> n < 2 ^ 64 \<Longrightarrow> opened_upto 0 cd"
  using zip_cdir_new_opened [of m n error cd] by (metis prod.collapse)

lemma opened_upto_simps [simp]:
  "opened_upto i (cd\<lparr>cd_is_zip64 := z\<rparr>) = opened_upto i cd" "opened_upto i (cd\<lparr>cd_size := s\<rparr>) = opened_upto i cd"
  "opened_upto i (cd\<lparr>cd_offset := off\<rparr>) = opened_upto i cd" "opened_upto i (cd\<lparr>cd_comment := c\<rparr>) = opened_upto i cd"
  by (simp_all add: opened_upto_def)

lemma unat_u16_u64: "unat (v :: u16) < 2 ^ 64"
  using unat_u16_less [of v] by simp

lemma unat_u64_less: "unat (v :: u64) < 2 ^ 64"
  by (rule order.strict_trans2 [OF unsigned_less]) simp

lemma zip_read_eocd_opened: "zip_read_eocd m b base flags error = (Some cd, t) \<Longrightarrow> opened_upto 0 cd"
  by (auto simp: zip_read_eocd_def Let_def case_prod_beta split: if_splits option.splits prod.splits
      dest!: cdir_new_opened [OF _ unat_u16_u64])

lemma zip_read_eocd64_opened: "zip_read_eocd64 C m src b base flags error = (Some cd, t) \<Longrightarrow> opened_upto 0 cd"
  by (auto simp: zip_read_eocd64_def Let_def case_prod_beta split: if_splits option.splits prod.splits sum.splits
      dest!: cdir_new_opened [OF _ unat_u64_less])

lemma read_end_record_opened: "read_end_record C m flags src b base o1 error = (Some cd, t) \<Longrightarrow> opened_upto 0 cd"
  by (auto simp: read_end_record_def split: if_splits prod.splits dest: zip_read_eocd_opened zip_read_eocd64_opened)

abbreviation cdir_opened :: "'u zip_cdir \<Rightarrow> bool" where
  "cdir_opened cd \<equiv> opened_upto (length (cd_entry cd)) cd"

lemma cdir_opened_iff:
  "cdir_opened cd \<longleftrightarrow> list_all opened (cd_entry cd) \<and> cd_nentry_alloc cd = length (cd_entry cd)
     \<and> length (cd_entry cd) \<le> ZIP_UINT64_MAX div sizeof_entry"
  by (auto simp: opened_upto_def list_all_length)

lemma read_all_entries_opened:
  assumes C: "reads_in_place C" and r: "read_all_entries L C m fl src c cd error = (Some cd1, t)"
    and c: "\<And>b. c = Some b \<Longrightarrow> buf_inv b" and o: "opened_upto 0 cd"
  shows "cdir_opened cd1"
proof -
  obtain x c1 src1 e1 m1 where e: "read_entries L C m cd 0 (cd_size cd) c src error = (x, c1, src1, e1, m1)" by (metis prod_cases5)
  obtain cd2 i left where x: "x = Some (cd2, i, left)" using r e by (cases x) (auto simp: read_all_entries_def)
  have "opened_upto i cd2" by (rule read_entries_opened [OF e [unfolded x] C c o])
  moreover have "cd2 = cd1 \<and> i = length (cd_entry cd2)"
    using r e x by (auto simp: read_all_entries_def split: if_splits prod.splits)
  ultimately show ?thesis by simp
qed

lemma read_directory_opened:
  assumes C: "reads_in_place C" and b: "buf_inv b" and o: "opened_upto 0 cd"
    and r: "read_directory L C m fl src b base o1 cd error = (x, b1, t)"
  shows "buf_inv b1" and "x = Some cd1 \<Longrightarrow> cdir_opened cd1"
proof -
  obtain n b2 where n: "zip_buffer_get_16 (snd (zip_buffer_set_offset b (o1 + 20))) = (n, b2)" by fastforce
  have i2: "buf_inv b2" using get_invs(2) [OF buf_inv_set_offset [OF b], of "o1 + 20"] n by simp
  obtain y b3 e3 m3 where y: "read_archive_comment m b2 o1 n fl error = (y, b3, e3, m3)" by (metis prod_cases4)
  have i3: "buf_inv b3" using read_archive_comment_inv [OF i2, of m o1 n fl error] y by simp
  obtain z b4 src4 e4 m4 where z: "cdir_cursor C m3 src b3 base (cd_offset cd) (cd_size cd) e3 = (z, b4, src4, e4, m4)" by (metis prod_cases5)
  note i4 = cdir_cursor_inv [OF i3 z]
  show "buf_inv b1" using r n i2 y i3 z i4(1)
    by (auto simp: read_directory_def split: if_splits option.splits prod.splits)
  assume x: "x = Some cd1"
  obtain com where com: "y = Some com" using r n y x by (cases y) (auto simp: read_directory_def split: if_splits)
  obtain c where c: "z = Some c" using r n y x com z by (cases z) (auto simp: read_directory_def split: if_splits)
  obtain w where w: "read_all_entries L C m4 fl src4 c (cd\<lparr>cd_comment := com\<rparr>) e4 = (Some cd1, w)"
    using r n y x com z c by (auto simp: read_directory_def split: if_splits prod.splits)
  show "cdir_opened cd1" by (rule read_all_entries_opened [OF C w]) (use i4(2) c o in simp_all)
qed

lemma zip_read_cdir_opened:
  assumes C: "reads_in_place C" and b: "buf_inv b" and r: "zip_read_cdir L C m za b base error = (x, b1, t)"
  shows "buf_inv b1" and "x = Some cd1 \<Longrightarrow> cdir_opened cd1"
proof -
  obtain p b0 where g: "zip_buffer_get b 4 = (p, b0)" by fastforce
  have i0: "buf_inv b0" using buf_inv_get [OF b, of 4] g by simp
  obtain y b2 s2 e2 m2 where y: "read_end_record C m (za_flags za) (za_src za) b0 base (buf_offset b) error = (y, b2, s2, e2, m2)"
    by (metis prod_cases5)
  have i2: "buf_inv b2" using read_end_record_inv [OF i0, of C m "za_flags za" "za_src za" base "buf_offset b" error] y by simp
  note o = read_end_record_opened [of C m "za_flags za" "za_src za" b0 base "buf_offset b" error]
  have d: "buf_inv b1" "x = Some cd1 \<Longrightarrow> cdir_opened cd1"
    if "y = Some cd" "read_directory L C m2 (za_open_flags za) s2 b2 base (buf_offset b) cd e2 = (x, b1, t)" for cd
    using read_directory_opened [OF C i2 o that(2)] y that(1) by auto
  show "buf_inv b1" using r b g i0 y i2 d(1) by (auto simp: zip_read_cdir_def Let_def split: if_splits option.splits)
  show "x = Some cd1 \<Longrightarrow> cdir_opened cd1"
    using r g y d(2) by (auto simp: zip_read_cdir_def Let_def split: if_splits option.splits)
qed

lemma put_orig_opened:
  assumes "cdir_opened cd" and "i < length (cd_entry cd)" and "str_wf (de_filename d)"
  shows "cdir_opened (put_orig i d cd)"
  using assms by (auto simp: opened_upto_def put_orig_def opened_def nth_list_update)

lemma put_orig_length [simp]: "length (cd_entry (put_orig i d cd)) = length (cd_entry cd)"
  by (simp add: put_orig_def)

lemma checkcons_loop_opened:
  "checkcons_loop L C m src cd is lo hi error = (r, cd1, t) \<Longrightarrow> cdir_opened cd \<Longrightarrow> set is \<subseteq> {..<length (cd_entry cd)} \<Longrightarrow> cdir_opened cd1"
proof (induction "is" arbitrary: m src cd lo hi error)
  case (Cons i "is")
  have w: "str_wf (de_filename (the (ze_orig (cd_entry cd ! i))))" using Cons(3,4) by (auto simp: opened_upto_def opened_def)
  have p: "cdir_opened (put_orig i (the (ze_orig (cd_entry cd ! i))\<lparr>de_extra_fields := f, de_local_extra_fields_read := True\<rparr>) cd)" for f
    by (rule put_orig_opened [OF Cons(3)]) (use Cons(4) w in simp_all)
  have "cd1 = cd \<or> (\<exists>m' src' f lo' hi' e'. checkcons_loop L C m' src' (put_orig i (the (ze_orig (cd_entry cd ! i))
      \<lparr>de_extra_fields := f, de_local_extra_fields_read := True\<rparr>) cd) is lo' hi' e' = (r, cd1, t))"
    using Cons(2) unfolding checkcons_loop.simps Let_def by (simp split: if_splits option.splits prod.splits) blast+
  then show ?case
  proof (elim disjE exE)
    fix m' src' f lo' hi' e'
    assume l: "checkcons_loop L C m' src' (put_orig i (the (ze_orig (cd_entry cd ! i))
      \<lparr>de_extra_fields := f, de_local_extra_fields_read := True\<rparr>) cd) is lo' hi' e' = (r, cd1, t)"
    show "cdir_opened cd1" by (rule Cons(1) [OF l p]) (use Cons(4) in simp)
  qed (use Cons(3) in simp)
qed simp

lemma zip_checkcons_opened: "zip_checkcons L C m src cd error = (r, cd1, t) \<Longrightarrow> cdir_opened cd \<Longrightarrow> cdir_opened cd1"
  by (auto simp: zip_checkcons_def Let_def split: option.splits prod.splits dest!: checkcons_loop_opened)

lemma choose_cdir_opened:
  assumes "choose_cdir L C m fl src best cdir new error = (best1, cdir1, t)" and "cdir_opened new"
    and "\<And>cd. cdir = Some cd \<Longrightarrow> cdir_opened cd" and "cdir1 = Some cd1"
  shows "cdir_opened cd1"
  using assms zip_checkcons_opened
  by (auto simp: choose_cdir_def split: option.splits if_splits prod.splits) blast+

lemma eocd_loop_opened:
  "eocd_loop L C m za b base best cdir error p = (best1, cdir1, t) \<Longrightarrow> reads_in_place C \<Longrightarrow> buf_inv b
     \<Longrightarrow> (\<And>cd. cdir = Some cd \<Longrightarrow> cdir_opened cd) \<Longrightarrow> cdir1 = Some cd1 \<Longrightarrow> cdir_opened cd1"
proof (induction L C m za b base best cdir error p rule: eocd_loop.induct)
  case (1 L C m za b base best cdir error p)
  note step = 1(2) [unfolded eocd_loop.simps [of L C m za b]]
  show ?case
  proof (cases "zip_memmem (buf_data b) p (unat (zip_buffer_left b - 18)) EOCD_MAGIC")
    case None
    then show ?thesis using step 1(5,6) by auto
  next
    case (Some q)
    obtain x b1 src1 e1 m1 where r: "zip_read_cdir L C m za (snd (zip_buffer_set_offset b (word_of_nat q))) base error = (x, b1, src1, e1, m1)"
      by (metis prod_cases5)
    note w = zip_read_cdir_opened [OF 1(3) buf_inv_set_offset [OF 1(4)] r]
    obtain best2 cdir2 src2 e2 m2 where c: "(case x of None \<Rightarrow> (best, cdir, src1, e1, m1)
                      | Some new \<Rightarrow> choose_cdir L C m1 (za_open_flags za) src1 best cdir new e1) = (best2, cdir2, src2, e2, m2)"
      by (metis prod_cases5)
    have o2: "cdir_opened cd" if "cdir2 = Some cd" for cd
    proof (cases x)
      case None
      then show ?thesis using c that 1(5) by simp
    next
      case (Some new)
      then have "choose_cdir L C m1 (za_open_flags za) src1 best cdir new e1 = (best2, cdir2, src2, e2, m2)" using c by simp
      from choose_cdir_opened [OF this w(2) [OF Some] 1(5) that] show ?thesis .
    qed
    have n: "eocd_loop L C m2 (za\<lparr>za_src := src2\<rparr>) (snd (zip_buffer_set_offset b1 (word_of_nat (q + 1)))) base best2 cdir2 e2 (q + 1)
        = (best1, cdir1, t)"
      using step Some r c by simp
    show ?thesis
      by (rule 1(1) [OF Some r [symmetric] refl refl refl c [symmetric] refl refl refl n 1(3) buf_inv_set_offset [OF w(1)] o2 1(6)])
  qed
qed

lemma zip_find_central_dir_opened:
  assumes C: "reads_in_place C" and r: "zip_find_central_dir L C m za len = (Some cd, za1, m1)"
  shows "cdir_opened cd"
proof -
  define buflen where "buflen = (if len < CDBUFSIZE then len else CDBUFSIZE)"
  note r2 = r [unfolded zip_find_central_dir_def, folded buflen_def, unfolded Let_def]
  obtain r1 src1 where s: "zip_source_seek C (za_src za) (- int (unat buflen)) SEEK_END = (r1, src1)" by fastforce
  obtain off src2 where t: "zip_source_tell C src1 = (off, src2)" by fastforce
  let ?za1 = "za\<lparr>za_src := src1\<rparr>"
  obtain x src3 e m2 where n: "zip_buffer_new_from_source C m src2 (unat buflen) None (Some (za_error ?za1)) = (x, src3, e, m2)"
    by (metis prod_cases4)
  obtain b where b: "x = Some b" using r2 s t n by (cases x) (auto split: if_splits)
  have i: "buf_inv b" by (rule buf_inv_from_source(1) [OF C n [unfolded b] unat_u64_less]) simp
  let ?b1 = "if buflen \<ge> CDBUFSIZE then snd (zip_buffer_set_offset b 20) else b"
  obtain p b2 where g: "zip_buffer_get ?b1 0 = (p, b2)" by fastforce
  have "buf_inv ?b1" using i buf_inv_set_offset [OF i] by simp
  then have i2: "buf_inv b2" using buf_inv_get [of ?b1 0] g by simp
  obtain best cdir za2 e2 m3 where l: "eocd_loop L C m2 (za_put e (?za1\<lparr>za_src := src3\<rparr>)) b2 (word_of_int off) (-1) None
      (zip_error_set (Some zip_error_init) ZIP_ER_NOZIP 0) (the p) = (best, cdir, za2, e2, m3)" by (metis prod_cases5)
  have "cdir = Some cd" using r2 [unfolded s prod.case t n b option.case g l] by (simp split: if_splits)
  show ?thesis by (rule eocd_loop_opened [OF l C i2 _ \<open>cdir = Some cd\<close>]) simp
qed

section \<open>The table of names\<close>

lemma zip_string_get_ok:
  assumes r: "zip_string_get m str 0 error = (Some (n, l), str1, e, m1)" and wf: "str_wf str"
  shows "cstr n = str_text str" and "same_text str str1"
proof -
  have "cstr n = str_text str \<and> same_text str str1"
  proof (cases str)
    case None
    then show ?thesis using r by (auto simp: zip_string_get_def)
  next
    case (Some s0)
    let ?bs = "take (zs_length s0) (zs_raw s0)"
    define s where "s = (if zs_encoding s0 = ZIP_ENCODING_UNKNOWN
      then s0\<lparr>zs_encoding := guess_loop ZIP_ENCODING_ASCII ?bs\<rparr> else s0)"
    have w: "string_wf s0" using wf Some by (simp add: str_wf_def)
    then have s: "string_wf s" "zs_raw s = zs_raw s0" "zs_length s = zs_length s0" "0 < zs_length s0" "zs_raw s0 = ?bs @ [0]"
      "zs_encoding s = ZIP_ENCODING_CP437 \<longleftrightarrow> guess_loop ZIP_ENCODING_ASCII ?bs = ZIP_ENCODING_CP437"
      by (auto simp: s_def string_wf_def)
    have e: "(if zs_encoding s0 = ZIP_ENCODING_UNKNOWN
        then the (snd (zip_guess_encoding (Some s0) ZIP_ENCODING_UNKNOWN)) else s0) = s"
      by (simp add: s_def zip_guess_encoding_def Let_def)
    have raw: "cstr (zs_raw s0) = cstr ?bs" by (subst s(5)) simp
    note r2 = r [unfolded Some zip_string_get_def option.case e Let_def, simplified]
    show ?thesis
    proof (cases "zs_encoding s = ZIP_ENCODING_CP437")
      case False
      then show ?thesis using r2 s w raw by (auto simp: Some str_text_def show_bytes_def same_text_def)
    next
      case cp437: True
      let ?u = "utf8_of_cp437 ?bs"
      have t: "str_text (Some s0) = cstr ?u" using s(6) cp437 by (simp add: str_text_def show_bytes_def)
      show ?thesis
      proof (cases "zs_converted s")
        case None
        obtain j m2 where mm: "malloc m = (j, m2)" by fastforce
        then obtain j1 where j: "j = Some j1" using r2 cp437 None s(3,4) by (cases j) (auto simp: cp437_to_utf8_def Let_def)
        from cp437_to_utf8_eq [of "zs_length s0" m j1 m2 "zs_raw s0" error] s(4) mm j
        have "cp437_to_utf8 m (zs_raw s0) (zs_length s0) error = (Some (Some (?u @ [0], length ?u)), error, m2)" by simp
        then show ?thesis using r2 cp437 None s w t by (auto simp: Some same_text_def string_wf_def)
      next
        case c: (Some c)
        then have "c = ?u @ [0]" using s(1-3) by (simp add: string_wf_def)
        then show ?thesis using r2 cp437 c s w t by (auto simp: Some same_text_def)
      qed
    qed
  qed
  then show "cstr n = str_text str" "same_text str str1" by simp_all
qed

text \<open>The names of the first \<open>i\<close> entries are in the table.\<close>

definition indexed_upto :: "nat \<Rightarrow> 'u zip_t \<Rightarrow> bool" where
  "indexed_upto i za \<longleftrightarrow> hash_inv (za_names za) \<and> list_all opened (za_entry za)
     \<and> indexes (cur_of (za_names za)) (\<lambda>k. if k < i then orig_directory za k else None)
     \<and> indexes (orig_of (za_names za)) (\<lambda>k. if k < i then orig_directory za k else None)"

lemma opened_directory: "list_all opened (za_entry za) \<Longrightarrow> directory za = orig_directory za"
  by (rule ext) (auto simp: names_by_def entry_name_def opened_def list_all_length)

lemma indexed_names_ok:
  assumes "indexed_upto (length (za_entry za)) za"
  shows "names_ok za \<and> directory za = orig_directory za"
proof -
  have n: "(\<lambda>k. if k < length (za_entry za) then orig_directory za k else None) = orig_directory za"
    by (auto simp: names_by_def)
  have o: "list_all opened (za_entry za)" using assms by (simp add: indexed_upto_def)
  then have "list_all entry_wf (za_entry za)"
    by (auto simp: list_all_length opened_def entry_wf_def dirent_wf_def)
  then show ?thesis using assms opened_directory [OF o] by (simp add: indexed_upto_def n names_ok_def)
qed

lemma add_indexes_upto:
  assumes ix: "indexes c (\<lambda>k. if k < i then names k else None)" and n: "names i = Some s" "cstr s = cstr n"
    and c: "\<And>k. c1 k = (if cstr k = cstr n then Some i else c k)" and free: "c n = None"
  shows "indexes c1 (\<lambda>k. if k < Suc i then names k else None)"
proof -
  have "cstr t \<noteq> cstr n" if "k < i" "names k = Some t" for k t
    using indexes_iff [OF ix, of n k] free that by auto
  then show ?thesis unfolding indexes_def c using indexes_iff [OF ix] n
    by (auto simp: less_Suc_eq split: if_splits)
qed

lemma add_names_indexed:
  assumes "add_names m za flags [i..<length (za_entry za)] error = (Some za1, e, m1)" and "flag_set flags ZIP_CHECKCONS"
    and "indexed_upto i za" and "i \<le> length (za_entry za)"
  shows "indexed_upto (length (za_entry za)) za1 \<and> length (za_entry za1) = length (za_entry za) \<and> orig_directory za1 = orig_directory za"
  using assms
proof (induction "length (za_entry za) - i" arbitrary: i m za error)
  case 0
  then show ?case by simp
next
  case (Suc d)
  let ?n = "length (za_entry za)"
  have i: "i < ?n" and u: "[i..<?n] = i # [Suc i..<?n]" using Suc(2) by (simp_all add: upt_conv_Cons)
  have op: "list_all opened (za_entry za)" using Suc(5) by (simp add: indexed_upto_def)
  then obtain de where de: "ze_orig (za_entry za ! i) = Some de" "str_wf (de_filename de)"
    using i by (auto simp: list_all_length opened_def)
  obtain r str e1 m2 where g: "zip_string_get m (de_filename de) 0 error = (r, str, e1, m2)" by (metis prod_cases4)
  obtain name l where r: "r = Some (name, l)" using Suc(3) u de g by (cases r) auto
  note t = zip_string_get_ok [OF g [unfolded r] de(2)]
  define za2 where "za2 = upd_entry i (\<lambda>en. en\<lparr>ze_orig := map_option (\<lambda>d. d\<lparr>de_filename := str\<rparr>) (ze_orig en)\<rparr>) za"
  obtain ok h ze m3 where a: "zip_hash_add m2 (za_names za2) (Some name) i ZIP_FL_UNCHANGED (Some (za_error za2)) = (ok, h, ze, m3)"
    by (metis prod_cases4)
  define za3 where "za3 = za_put ze (za2\<lparr>za_names := h\<rparr>)"
  have s: "(if \<not> ok \<and> (zip_err (za_error za3) \<noteq> ZIP_ER_EXISTS \<or> flag_set flags ZIP_CHECKCONS)
            then (None, zip_error_copy e1 (za_error za3), m3) else add_names m3 za3 flags [Suc i..<?n] e1) = (Some za1, e, m1)"
    using Suc(3) unfolding u add_names.simps de(1) option.sel g prod.case Let_def r option.case za2_def [symmetric] a za3_def [symmetric] .
  then have ok: "ok = True" using Suc(4) by (cases ok) (simp_all)
  have l: "length (za_entry za3) = ?n" by (simp add: za3_def za2_def upd_entry_def)
  have d: "orig_directory za3 = orig_directory za"
    using i de same_textD(1) [OF t(2)]
    by (intro ext) (auto simp: za3_def za2_def upd_entry_def names_by_def orig_name_def nth_list_update)
  have nz: "za_names za2 = za_names za" "za_names za3 = h" by (simp_all add: za2_def za3_def upd_entry_def)
  have inv: "hash_inv (za_names za)" using Suc(5) by (simp add: indexed_upto_def)
  note h = zip_hash_add_ok [OF inv a [unfolded ok nz]]
  have on: "orig_directory za i = Some (str_text (de_filename de))" "cstr (str_text (de_filename de)) = cstr name"
    using i de t(1) by (simp_all add: names_by_def orig_name_def)
  have "indexes (cur_of h) (\<lambda>k. if k < Suc i then orig_directory za k else None)"
    by (rule add_indexes_upto [where names = "orig_directory za" and c = "cur_of (za_names za)", OF _ on]) (use Suc(5) h(4,6) in \<open>simp_all add: indexed_upto_def\<close>)
  moreover have "indexes (orig_of h) (\<lambda>k. if k < Suc i then orig_directory za k else None)"
    by (rule add_indexes_upto [where names = "orig_directory za" and c = "orig_of (za_names za)", OF _ on]) (use Suc(5) h(5,7) in \<open>simp_all add: indexed_upto_def\<close>)
  moreover have "list_all opened (za_entry za3)"
    using op i de same_textD(2) [OF t(2)]
    by (auto simp: za3_def za2_def upd_entry_def list_all_length opened_def nth_list_update)
  ultimately have n: "indexed_upto (Suc i) za3" using h(1) unfolding indexed_upto_def d nz by simp
  have "add_names m3 za3 flags [Suc i..<length (za_entry za3)] e1 = (Some za1, e, m1)" using s ok by (simp add: l)
  from Suc(1) [OF _ this Suc(4) n] Suc(2) i show ?case by (simp add: l d)
qed

text \<open>An archive just opened: nothing changed, every name in the table.\<close>

definition fresh_archive :: "'u zip_t \<Rightarrow> bool" where
  "fresh_archive za \<longleftrightarrow> names_ok za \<and> directory za = orig_directory za \<and> list_all opened (za_entry za)
     \<and> length (za_entry za) \<le> ZIP_INT64_MAX"

lemma zip_allocate_new_empty:
  assumes "zip_allocate_new m src flags error = (Some za, e, m1)"
  shows "hash_inv (za_names za)" and "za_entry za = []" and "cur_of (za_names za) n = None" and "orig_of (za_names za) n = None"
  using assms by (auto simp: zip_allocate_new_def zip_new_def Let_def zip_hash_new_spec split: if_splits option.splits prod.splits)

lemma empty_archive:
  assumes "hash_inv (za_names za)" and "za_entry za = []" and "\<And>n. cur_of (za_names za) n = None" and "\<And>n. orig_of (za_names za) n = None"
  shows "fresh_archive za"
  using assms by (auto simp: fresh_archive_def names_ok_def indexes_def names_by_def)

lemma eocd_loop_frame:
  "eocd_loop L C m za b base best cdir error p = (best1, cdir1, za1, t) \<Longrightarrow> \<exists>s. za1 = za\<lparr>za_src := s\<rparr>"
proof (induction L C m za b base best cdir error p rule: eocd_loop.induct)
  case (1 L C m za b base best cdir error p)
  note step = 1(2) [unfolded eocd_loop.simps [of L C m za b]]
  show ?case
  proof (cases "zip_memmem (buf_data b) p (unat (zip_buffer_left b - 18)) EOCD_MAGIC")
    case None
    then show ?thesis using step by (auto intro!: exI [of _ "za_src za"])
  next
    case (Some q)
    obtain x b1 src1 e1 m1 where r: "zip_read_cdir L C m za (snd (zip_buffer_set_offset b (word_of_nat q))) base error = (x, b1, src1, e1, m1)"
      by (metis prod_cases5)
    obtain best2 cdir2 src2 e2 m2 where c: "(case x of None \<Rightarrow> (best, cdir, src1, e1, m1)
                      | Some new \<Rightarrow> choose_cdir L C m1 (za_open_flags za) src1 best cdir new e1) = (best2, cdir2, src2, e2, m2)"
      by (metis prod_cases5)
    have n: "eocd_loop L C m2 (za\<lparr>za_src := src2\<rparr>) (snd (zip_buffer_set_offset b1 (word_of_nat (q + 1)))) base best2 cdir2 e2 (q + 1)
        = (best1, cdir1, za1, t)"
      using step Some r c by simp
    from 1(1) [OF Some r [symmetric] refl refl refl c [symmetric] refl refl refl n] show ?thesis by auto
  qed
qed

lemma zip_find_central_dir_frame:
  assumes r: "zip_find_central_dir L C m za len = (Some cd, za1, m1)"
  shows "za_names za1 = za_names za" and "za_entry za1 = za_entry za" and "za_flags za1 = za_flags za"
    and "za_ch_flags za1 = za_ch_flags za" and "za_open_flags za1 = za_open_flags za"
proof -
  define buflen where "buflen = (if len < CDBUFSIZE then len else CDBUFSIZE)"
  note r2 = r [unfolded zip_find_central_dir_def, folded buflen_def, unfolded Let_def]
  obtain r1 src1 where s: "zip_source_seek C (za_src za) (- int (unat buflen)) SEEK_END = (r1, src1)" by fastforce
  obtain off src2 where t: "zip_source_tell C src1 = (off, src2)" by fastforce
  let ?za1 = "za\<lparr>za_src := src1\<rparr>"
  obtain x src3 e m2 where n: "zip_buffer_new_from_source C m src2 (unat buflen) None (Some (za_error ?za1)) = (x, src3, e, m2)"
    by (metis prod_cases4)
  obtain b where b: "x = Some b" using r2 s t n by (cases x) (auto split: if_splits)
  let ?b1 = "if buflen \<ge> CDBUFSIZE then snd (zip_buffer_set_offset b 20) else b"
  obtain p b2 where g: "zip_buffer_get ?b1 0 = (p, b2)" by fastforce
  obtain best cdir za2 e2 m3 where l: "eocd_loop L C m2 (za_put e (?za1\<lparr>za_src := src3\<rparr>)) b2 (word_of_int off) (-1) None
      (zip_error_set (Some zip_error_init) ZIP_ER_NOZIP 0) (the p) = (best, cdir, za2, e2, m3)" by (metis prod_cases5)
  have "za1 = za2" using r2 [unfolded s prod.case t n b option.case g l] by (simp split: if_splits)
  then obtain s where "za1 = (za_put e (?za1\<lparr>za_src := src3\<rparr>))\<lparr>za_src := s\<rparr>" using eocd_loop_frame [OF l] by blast
  then show "za_names za1 = za_names za" "za_entry za1 = za_entry za" "za_flags za1 = za_flags za"
    "za_ch_flags za1 = za_ch_flags za" "za_open_flags za1 = za_open_flags za" by (simp_all add: za_put_def split: option.splits)
qed

lemma open_directory_fresh:
  assumes r: "open_directory m za0 flags cd error = (Some za, e, m1)" and fl: "flag_set flags ZIP_CHECKCONS"
    and cd: "cdir_opened cd" and h: "hash_inv (za_names za0)" "\<And>n. cur_of (za_names za0) n = None" "\<And>n. orig_of (za_names za0) n = None"
  shows "fresh_archive za"
proof -
  define za1 where "za1 = za0\<lparr>za_entry := cd_entry cd, za_nentry_alloc := cd_nentry_alloc cd, za_comment_orig := cd_comment cd\<rparr>"
  obtain ok h1 e1 m2 where c: "zip_hash_reserve_capacity m (za_names za1) (length (za_entry za1)) (Some (za_error za1)) = (ok, h1, e1, m2)"
    by (metis prod_cases4)
  define za2 where "za2 = za_put e1 (za1\<lparr>za_names := h1\<rparr>)"
  have l: "za_entry za1 = cd_entry cd" "za_entry za2 = cd_entry cd" "za_names za2 = h1" "za_names za1 = za_names za0"
    by (simp_all add: za2_def za1_def)
  obtain x e2 m3 where a: "add_names m2 za2 flags [0..<length (za_entry za1)] error = (x, e2, m3)" by (metis prod_cases3)
  obtain za3 where x: "x = Some za3" and za: "za = za3\<lparr>za_ch_flags := za_flags za3\<rparr>"
    using r unfolding open_directory_def Let_def za1_def [symmetric] c prod.case za2_def [symmetric] a by (cases x) auto
  have hi: "hash_inv (za_names za1)" using h by (simp add: l)
  note sp = zip_hash_reserve_capacity_spec(1,2) [OF hi c]
  have "indexed_upto 0 za2"
    using sp h cd [unfolded cdir_opened_iff] l by (simp add: indexed_upto_def same_index_def indexes_def)
  moreover have "add_names m2 za2 flags [0..<length (za_entry za2)] error = (Some za3, e2, m3)" using a x by (simp add: l)
  ultimately have i: "indexed_upto (length (za_entry za3)) za3" "length (za_entry za3) = length (cd_entry cd)"
    using add_names_indexed [of m2 za2 flags 0] fl by (auto simp: l)
  have "names_ok za3 \<and> directory za3 = orig_directory za3" by (rule indexed_names_ok [OF i(1)])
  moreover have "list_all opened (za_entry za3)" using i(1) by (simp add: indexed_upto_def)
  moreover have "length (za_entry za3) \<le> ZIP_INT64_MAX" using i(2) cd [unfolded cdir_opened_iff] by simp
  moreover have n: "names_by f (za3\<lparr>za_ch_flags := za_flags za3\<rparr>) = names_by f za3" for f by (rule ext) (simp add: names_by_def)
  moreover have "names_ok (za3\<lparr>za_ch_flags := za_flags za3\<rparr>) = names_ok za3" unfolding names_ok_def n by simp
  ultimately show ?thesis unfolding za fresh_archive_def by simp
qed

lemma open_existing_fresh:
  assumes r: "open_existing L C m st src flags error = (Some za, src1, e, m1)" and C: "reads_in_place C" and fl: "flag_set flags ZIP_CHECKCONS"
  shows "fresh_archive za"
proof -
  obtain n st1 s1 where s: "zip_source_stat C src (Some (zip_stat_init st)) = (n, st1, s1)" by (metis prod_cases3)
  obtain x e1 m2 where a: "zip_allocate_new m s1 flags error = (x, e1, m2)" by (metis prod_cases3)
  note r2 = r [unfolded open_existing_def s prod.case a]
  have g: "\<not> n < 0" "flag_set (st_valid (the st1)) ZIP_STAT_SIZE" using r2 by (auto split: if_splits)
  obtain za0 where x: "x = Some za0" using r2 g by (cases x) auto
  note z = zip_allocate_new_empty [OF a [unfolded x]]
  obtain em s2 where em: "(if st_size (the st1) = 0 then zip_source_accept_empty C s1 else (False, s1)) = (em, s2)" by fastforce
  show ?thesis
  proof (cases em)
    case True
    then have "za = za0\<lparr>za_src := s2\<rparr>" using r2 g x em by auto
    then show ?thesis using z by (auto intro!: empty_archive)
  next
    case False
    obtain cd za1 m3 where f: "zip_find_central_dir L C m2 (za0\<lparr>za_src := s2\<rparr>) (st_size (the st1)) = (cd, za1, m3)" by (metis prod_cases3)
    obtain c where cd: "cd = Some c" using r2 g x em False f by (cases cd) auto
    note fr = zip_find_central_dir_frame [OF f [unfolded cd]]
    obtain y e2 m4 where o: "open_directory m3 za1 flags c e1 = (y, e2, m4)" by (metis prod_cases3)
    then have "y = Some za" using r2 g x em False f cd by simp
    from open_directory_fresh [OF o [unfolded this] fl zip_find_central_dir_opened [OF C f [unfolded cd]]] z fr show ?thesis by simp
  qed
qed

lemma zip_open_from_source_fresh:
  assumes r: "zip_open_from_source L C m st1 st2 src flags error = (Some za, src1, e, m1)" and C: "reads_in_place C"
    and fl: "flag_set (word_of_int flags :: u32) ZIP_CHECKCONS"
  shows "fresh_archive za"
proof -
  obtain s where s: "src = Some s" using r by (cases src) (simp_all add: zip_open_from_source_def)
  define fl1 where "fl1 = (if zip_source_supports s AND ZIP_SOURCE_SUPPORTS_WRITABLE \<noteq> ZIP_SOURCE_SUPPORTS_WRITABLE
                          then word_of_int flags OR ZIP_RDONLY else word_of_int flags :: u32)"
  have c: "flag_set fl1 ZIP_CHECKCONS" using fl by (auto simp: fl1_def flag_set_def bit_eq_iff bit_simps)
  have new: "fresh_archive za" if "zip_allocate_new m2 s2 fl1 e2 = (Some za, t)" for m2 s2 e2 t
    using that zip_allocate_new_empty [of m2 s2 fl1 e2 za] by (cases t) (auto intro!: empty_archive)
  have old: "fresh_archive za" if "open_existing L C m2 st2 s2 fl1 e2 = (Some za, t)" for m2 s2 e2 t
    using that open_existing_fresh [OF _ C c] by (metis prod_cases3)
  obtain x s1 e1 where f: "zip_file_exists C st1 s error = (x, s1, e1)" by (metis prod_cases3)
  note r2 = r [unfolded zip_open_from_source_def s option.case Let_def, folded fl1_def, unfolded f prod.case]
  obtain n s2 where o: "zip_source_open C s1 = (n, s2)" by fastforce
  show ?thesis
  proof (cases x)
    case EXISTS_ERROR
    then show ?thesis using r2 by (auto split: if_splits)
  next
    case EXISTS_NOT
    then show ?thesis using r2 by (auto split: if_splits prod.splits intro: new)
  next
    case EXISTS_OK
    then show ?thesis using r2 o by (auto split: if_splits prod.splits option.splits intro: new old)
  qed
qed

lemma fresh_archive_inv: "fresh_archive za \<Longrightarrow> (\<forall>i. directory za i \<noteq> Some []) \<Longrightarrow> archive_inv za"
  by (simp add: fresh_archive_def archive_inv_def named_def)


text \<open>The in-memory source reads in place.\<close>

lemma read_frags_length: "read_frags blks b len i fo n acc = Some (bs, j) \<Longrightarrow> n \<le> len \<Longrightarrow> length bs = length acc + (len - n)"
proof (induction blks b len i fo n acc rule: read_frags.induct)
  case (1 blks b len i fo n acc)
  show ?case
  proof (cases "n < len")
    case False
    then show ?thesis using 1(2) by (simp add: read_frags.simps)
  next
    case True
    let ?fr = "fb_fragments b ! i" and ?left = "min (len - n) (snd (fb_fragments b ! i) - fo)"
    have g: "i < length (fb_fragments b) \<and> fo \<le> snd ?fr" "block_access blks ?fr fo ?left"
      using 1(2) True by (subst (asm) (1) read_frags.simps, simp add: Let_def split: if_splits)+
    have r: "read_frags blks b len (if ?left = snd ?fr - fo then i + 1 else i) 0 (n + ?left)
        (acc @ take ?left (drop fo (blks ! fst ?fr))) = Some (bs, j)"
      using 1(2) True g by (subst (asm) (1) read_frags.simps) (simp add: Let_def)
    have "?left \<le> length (blks ! fst ?fr) - fo" using g(2) unfolding block_access_def by linarith
    then have "length (take ?left (drop fo (blks ! fst ?fr))) = ?left" unfolding length_take length_drop by (rule min_absorb2)
    moreover have "n + ?left \<le> len" using True by linarith
    ultimately show ?thesis using 1(1) [OF True g(1) refl refl g(2) r] by simp
  qed
qed

lemma buffer_read_length: "buffer_read blks b n = Some (r, bs, b1) \<Longrightarrow> length bs \<le> n"
  by (auto simp: buffer_read_def Let_def dest: read_frags_length split: if_splits option.splits)

lemma buffer_reads_in_place: "reads_in_place buffer_callbacks"
proof -
  have "length bs = length d" if "zip_source_call buffer_callbacks s (SD_Bytes d) n ZIP_SOURCE_READ = (r, SD_Bytes bs, s1)" "n \<le> length d" for s d n r bs s1
    using that
    by (cases s) (auto simp: zip_source_call_def source_dispatch_def buffer_callbacks_def read_data_def ctx_inval_def Let_def
        dest!: buffer_read_length split: if_splits prod.splits option.splits zip_source_data.splits)
  then show ?thesis unfolding reads_in_place_def by blast
qed

section \<open>The search for the end record\<close>

lemma find_filter:
  "filter P [p..<n] = (case find P [p..<n] of None \<Rightarrow> [] | Some q \<Rightarrow> q # filter P [Suc q..<n])"
proof (induction "n - p" arbitrary: p)
  case (Suc d)
  then have "[p..<n] = p # [Suc p..<n]" by (simp add: upt_conv_Cons)
  then show ?case using Suc.hyps(1) [of "Suc p"] Suc.hyps(2) by (simp split: option.split)
qed simp

text \<open>The magic number is at this position of the block.\<close>

definition magic_at :: "bytes \<Rightarrow> nat \<Rightarrow> bool" where
  "magic_at block q \<longleftrightarrow> take 4 (drop q block) = EOCD_MAGIC"

lemma memmem_magic:
  assumes "p + 18 \<le> length block"
  shows "zip_memmem block p (length block - p - 18) EOCD_MAGIC = find (magic_at block) [p..<length block - 21]"
proof (cases "length block - p - 18 < 4")
  case True
  then show ?thesis using assms by (auto simp: zip_memmem_def)
next
  case False
  have e: "p + (length block - p - 18 - 4) + 1 = length block - 21" using False by simp
  have m: "magic_at block i \<longleftrightarrow> block ! i = 80 \<and> take 3 (drop (Suc i) block) = [75, 5, 6]"
    if "i \<in> set [p..<length block - 21]" for i
  proof -
    have "i < length block" using that by auto
    then have "drop i block = block ! i # drop (Suc i) block" by (simp add: Cons_nth_drop_Suc)
    then show ?thesis by (simp add: magic_at_def)
  qed
  have "find (\<lambda>i. block ! i = 80 \<and> take 3 (drop (Suc i) block) = [75, 5, 6]) xs = find (magic_at block) xs"
    if "set xs \<subseteq> set [p..<length block - 21]" for xs
    using that by (induction xs) (use m in auto)
  from this [OF subset_refl] False e show ?thesis by (simp add: zip_memmem_def numeral_3_eq_3)
qed

text \<open>What is done at one match of the magic number: read the directory there, keep the better of two.\<close>

definition try_record ::
  "libs \<Rightarrow> 'u callbacks \<Rightarrow> zip_buffer \<Rightarrow> u64 \<Rightarrow> int \<times> 'u zip_cdir option \<times> 'u zip_t \<times> zip_error option \<times> mem \<Rightarrow> nat
     \<Rightarrow> int \<times> 'u zip_cdir option \<times> 'u zip_t \<times> zip_error option \<times> mem" where
  "try_record L C b base st q =
     (case st of (best, cdir, za, error, m) \<Rightarrow>
        (case zip_read_cdir L C m za (snd (zip_buffer_set_offset b (word_of_nat q))) base error of
           (None, _, src1, e1, m1) \<Rightarrow> (best, cdir, za\<lparr>za_src := src1\<rparr>, e1, m1)
         | (Some new, _, src1, e1, m1) \<Rightarrow>
             (case choose_cdir L C m1 (za_open_flags za) src1 best cdir new e1 of
                (best1, cdir1, src2, e2, m2) \<Rightarrow> (best1, cdir1, za\<lparr>za_src := src2\<rparr>, e2, m2))))"

lemma set_offset_block:
  assumes "buf_block b1 = buf_block b" and "x \<le> buf_size b"
  shows "snd (zip_buffer_set_offset b1 x) = b\<lparr>buf_ok := True, buf_offset := x\<rparr>"
  using assms by (cases b; cases b1) (simp add: zip_buffer_set_offset_def buf_block_def)

lemma eocd_loop_fold:
  "buf_inv b \<Longrightarrow> buf_ok b \<Longrightarrow> unat (buf_offset b) = p \<Longrightarrow> p + 18 \<le> length (buf_data b) \<Longrightarrow> buf_block b = buf_block b0
     \<Longrightarrow> eocd_loop L C m za b base best cdir error p
       = foldl (try_record L C b0 base) (best, cdir, za, error, m) (filter (magic_at (buf_data b)) [p..<length (buf_data b) - 21])"
proof (induction L C m za b base best cdir error p rule: eocd_loop.induct)
  case (1 L C m za b base best cdir error p)
  have len: "length (buf_data b) = unat (buf_size b)" using 1(2) by (simp add: buf_inv_def)
  have "18 \<le> zip_buffer_left b" and left: "unat (zip_buffer_left b) = length (buf_data b) - p"
    using 1(2-5) by (simp_all add: word_le_nat_alt zip_buffer_left_eq len)
  then have "unat (zip_buffer_left b - 18) = length (buf_data b) - p - 18" by (simp add: unat_sub)
  then have mm: "zip_memmem (buf_data b) p (unat (zip_buffer_left b - 18)) EOCD_MAGIC = find (magic_at (buf_data b)) [p..<length (buf_data b) - 21]"
    using memmem_magic [OF 1(5)] by simp
  note fl = find_filter [of "magic_at (buf_data b)" p "length (buf_data b) - 21"]
  show ?case
  proof (cases "zip_memmem (buf_data b) p (unat (zip_buffer_left b - 18)) EOCD_MAGIC")
    case None
    then show ?thesis using fl mm by (simp add: eocd_loop.simps [of L C m za b])
  next
    case (Some q)
    have fs: "find (magic_at (buf_data b)) [p..<length (buf_data b) - 21] = Some q" using mm Some by simp
    have q: "q < length (buf_data b) - 21" using find_SomeD [OF fs] by simp
    have off: "unat (word_of_nat k :: u64) = k" if "k \<le> unat (buf_size b)" for k
      using that unat_u64_less [of "buf_size b"] by (simp add: unsigned_of_nat take_bit_nat_eq_self)
    then have fit: "word_of_nat k \<le> buf_size b" if "k \<le> unat (buf_size b)" for k
      using that by (simp add: word_le_nat_alt)
    have "q \<le> unat (buf_size b)" "q + 1 \<le> unat (buf_size b)" using q len by simp_all
    note le = fit [OF this(1)] fit [OF this(2)] off [OF this(2)]
    obtain x b1 src1 e1 m1 where r: "zip_read_cdir L C m za (snd (zip_buffer_set_offset b (word_of_nat q))) base error = (x, b1, src1, e1, m1)"
      by (metis prod_cases5)
    obtain best2 cdir2 src2 e2 m2 where c: "(case x of None \<Rightarrow> (best, cdir, src1, e1, m1)
                      | Some new \<Rightarrow> choose_cdir L C m1 (za_open_flags za) src1 best cdir new e1) = (best2, cdir2, src2, e2, m2)"
      by (metis prod_cases5)
    let ?b2 = "snd (zip_buffer_set_offset b1 (word_of_nat (q + 1)))"
    have bb: "buf_block b1 = buf_block b" using zip_read_cdir_block [OF r] by simp
    have b2: "?b2 = b\<lparr>buf_ok := True, buf_offset := word_of_nat (q + 1)\<rparr>" by (rule set_offset_block [OF bb le(2)])
    have i2: "buf_inv ?b2" "buf_ok ?b2" "unat (buf_offset ?b2) = q + 1" "q + 1 + 18 \<le> length (buf_data ?b2)" "buf_block ?b2 = buf_block b0"
      using 1(2,6) le q unfolding b2 by (simp_all add: buf_inv_def buf_block_def)
    note ih = 1(1) [OF Some r [symmetric] refl refl refl c [symmetric] refl refl refl i2]
    have l0: "eocd_loop L C m za b base best cdir error p = eocd_loop L C m2 (za\<lparr>za_src := src2\<rparr>) ?b2 base best2 cdir2 e2 (q + 1)"
      unfolding eocd_loop.simps [of L C m za b] Some option.case r prod.case c ..
    have "snd (zip_buffer_set_offset b0 (word_of_nat q)) = snd (zip_buffer_set_offset b (word_of_nat q))"
      using set_offset_block [OF 1(6) [symmetric] le(1)] set_offset_block [OF refl le(1)] by simp
    then have st: "try_record L C b0 base (best, cdir, za, error, m) q = (best2, cdir2, za\<lparr>za_src := src2\<rparr>, e2, m2)"
      using c by (cases x) (simp_all add: try_record_def r)
    have dt: "buf_data ?b2 = buf_data b" unfolding b2 by simp
    have "filter (magic_at (buf_data b)) [p..<length (buf_data b) - 21] = q # filter (magic_at (buf_data b)) [q + 1..<length (buf_data b) - 21]"
      by (subst fl) (simp add: fs)
    then show ?thesis unfolding l0 ih dt by (simp add: st)
  qed
qed

section \<open>Properties\<close>

text \<open>
  C3. What opening with the consistency check establishes. An archive \<open>zip_open_from_source\<close> returns under
  \<open>ZIP_CHECKCONS\<close>, whatever the bytes of the file and whichever allocations fail on the way, is one in which
  the table of names is exactly the directory read and nothing is changed yet. If moreover no entry has an empty name,
  the invariant of the operations on names holds from the start, and every sequence of calls on the opened archive (under
  the conditions of \<open>calls_ok\<close>) has the answers and effects of the directory that was read.
\<close>

theorem open_checked_refines_directory:
  assumes "zip_open_from_source L C m st1 st2 src flags error = (Some za, src1, e, m1)" and "reads_in_place C"
    and "flag_set (word_of_int flags :: u32) ZIP_CHECKCONS"
  shows "names_ok za \<and> directory za = orig_directory za
    \<and> ((\<forall>i. directory za i \<noteq> Some []) \<longrightarrow> archive_inv za
        \<and> (\<forall>cs. calls_ok za cs \<longrightarrow> (\<exists>rs za1. run_calls za cs = Some (rs, za1) \<and> archive_inv za1
             \<and> dir_calls (directory za) (dir_of za) cs rs (dir_of za1))))"
proof -
  have f: "fresh_archive za" by (rule zip_open_from_source_fresh [OF assms])
  then have n: "names_ok za" and d: "directory za = orig_directory za" by (simp_all only: fresh_archive_def)
  have "\<exists>rs za1. run_calls za cs = Some (rs, za1) \<and> archive_inv za1 \<and> dir_calls (directory za) (dir_of za) cs rs (dir_of za1)"
    if "archive_inv za" "calls_ok za cs" for cs
    using calls_refine [OF that] unfolding d by blast
  then show ?thesis using n d fresh_archive_inv [OF f] by blast
qed

definition stat_junk :: zip_stat where
  "stat_junk = \<lparr>st_valid = 0, st_name = None, st_index = 0, st_size = 0, st_comp_size = 0, st_mtime = 0, st_crc = 0,
     st_comp_method = 0, st_encryption_method = 0, st_flags = 0\<rparr>"

definition empty_source :: "read_ctx zip_source" where
  "empty_source = the (fst (the (zip_source_buffer_create 0 [] (Some (EOCD_MAGIC @ replicate 18 0)) 22 False None)))"

text \<open>For evaluation: natural numbers are compared with and divided by large constants as integers.\<close>

lemma compare_numeral [code_unfold]:
  "nat_of_num k < n \<longleftrightarrow> numeral k < int n" "nat_of_num k \<le> n \<longleftrightarrow> numeral k \<le> int n" 
  "n < nat_of_num k \<longleftrightarrow> int n < numeral k" "n \<le> nat_of_num k \<longleftrightarrow> int n \<le> numeral k"
  by (simp_all add: nat_of_num_numeral)

lemma div_numeral_less [code_unfold]: "nat_of_num k div m < x \<longleftrightarrow> numeral k div int m < int x"
  by (simp add: nat_of_num_numeral) (metis of_nat_less_iff of_nat_numeral zdiv_int)

lemma mod_numeral_power [code_unfold]: "x mod (nat_of_num k ^ e) = nat (int x mod (numeral k ^ e))"
  by (simp add: nat_of_num_numeral nat_mod_distrib nat_power_eq)

lemma junk_bytes_code [code]: "junk_bytes n k = (if n = 0 then replicate k 0 else map (\<lambda>i. word_of_int (int n div 256 ^ i)) [0..<k])"
proof (cases "n = 0")
  case True
  then show ?thesis by (intro nth_equalityI) (simp_all add: junk_bytes_def)
next
  case False
  have "word_of_nat (n div 256 ^ i) = (word_of_int (int n div 256 ^ i) :: u8)" for i
    by (metis of_int_of_nat_eq of_nat_numeral of_nat_power zdiv_int)
  then show ?thesis using False by (simp add: junk_bytes_def)
qed

lemma empty_source_opens:
  "case zip_open_from_source sample_libs buffer_callbacks [] stat_junk stat_junk (Some empty_source) 4 None of
     (za, src1, e, m) \<Rightarrow> za \<noteq> None \<and> m = [] \<and> e = None"
  by code_simp

theorem open_checked_refines_directory_witness:
  "\<exists>za. fst (zip_open_from_source sample_libs buffer_callbacks [] stat_junk stat_junk (Some empty_source) 4 None) = Some za \<and> names_ok za"
proof -
  obtain x src1 e m1 where o: "zip_open_from_source sample_libs buffer_callbacks [] stat_junk stat_junk (Some empty_source) 4 None = (x, src1, e, m1)"
    by (metis prod_cases4)
  then obtain za where x: "x = Some za" using empty_source_opens o by (cases x) simp_all
  have "flag_set (word_of_int 4 :: u32) ZIP_CHECKCONS" by (simp add: flag_set_def)
  from open_checked_refines_directory [OF o [unfolded x] buffer_reads_in_place this] show ?thesis by (simp add: o x)
qed

text \<open>
  C20. The search for the end record tries every place of the block where the magic number stands with room for a
  whole record behind it, from the cursor on, in order, each once, and nothing else: the block itself stays as it
  is, the 64-bit subtraction of the 18 bytes never wraps around in any round, and no match is skipped. 18 bytes left at
  the start are enough for that; \<open>_zip_find_central_dir\<close> starts with at least 22.
\<close>

theorem eocd_loop_tries_every_match:
  assumes "buf_inv b" and "buf_ok b" and "18 \<le> zip_buffer_left b"
  shows "eocd_loop L C m za b base best cdir error (unat (buf_offset b))
    = foldl (try_record L C b base) (best, cdir, za, error, m)
        (filter (\<lambda>q. take 4 (drop q (buf_data b)) = EOCD_MAGIC) [unat (buf_offset b)..<unat (buf_size b) - 21])"
proof -
  have len: "length (buf_data b) = unat (buf_size b)" using assms(1) by (simp add: buf_inv_def)
  have "18 \<le> unat (buf_size b) - unat (buf_offset b)"
    using assms by (simp add: word_le_nat_alt zip_buffer_left_eq)
  then have "unat (buf_offset b) + 18 \<le> length (buf_data b)" using len by simp
  from eocd_loop_fold [OF assms(1,2) refl this refl] show ?thesis by (simp add: len magic_at_def [abs_def])
qed

definition sample_block :: "bytes \<Rightarrow> u64 \<Rightarrow> zip_buffer" where
  "sample_block junk p = \<lparr>buf_ok = True, buf_free_data = False, buf_data = junk @ EOCD_MAGIC @ replicate 18 0,
     buf_size = word_of_nat (length junk + 22), buf_offset = p\<rparr>"

theorem eocd_loop_tries_every_match_witness:
  "eocd_loop sample_libs buffer_callbacks [] sample_archive (sample_block [80] 0) 0 (-1) None None 0
   = try_record sample_libs buffer_callbacks (sample_block [80] 0) 0 (-1, None, sample_archive, None, []) 1"
proof -
  have f: "filter (\<lambda>q. take 4 (drop q (80 # EOCD_MAGIC @ replicate 18 0)) = EOCD_MAGIC) [0..<2] = [1]" by code_simp
  have b: "buf_inv (sample_block [80] 0)" "buf_ok (sample_block [80] 0)" "18 \<le> zip_buffer_left (sample_block [80] 0)"
    "buf_offset (sample_block [80] 0) = 0" "unat (buf_size (sample_block [80] 0)) - 21 = 2"
    "buf_data (sample_block [80] 0) = 80 # EOCD_MAGIC @ replicate 18 0"
    by (simp_all add: sample_block_def buf_inv_def zip_buffer_left_def)
  show ?thesis
    using eocd_loop_tries_every_match [OF b(1-3), of sample_libs buffer_callbacks "[]" sample_archive 0 "-1" None None]
    unfolding b(4,5,6) unsigned_0 f by simp
qed

text \<open>
  C37. The consistency checks on the end record are dead code. \<open>_zip_read_cdir\<close> hands the flags of the archive object,
  not those it was opened with, to \<open>_zip_read_eocd\<close> and \<open>_zip_read_eocd64\<close>; a new archive object has none but
  the read-only flag. So whatever the open flags say, an end record that passes without the checks is the one the
  directory is read from; under \<open>ZIP_CHECKCONS\<close> a directory is accepted that does not end where its end record starts.
\<close>

theorem end_record_checks_unreachable:
  assumes "zip_allocate_new m src flags error = (Some za, e, m1)" and "za_flags za1 = za_flags za"
    and "22 \<le> zip_buffer_left b" and "take 4 (drop (the (fst (zip_buffer_get b 4))) (buf_data b)) = EOCD_MAGIC"
  shows "zip_read_cdir L C m2 za1 b base error2
    = (case read_end_record C m2 0 (za_src za1) (snd (zip_buffer_get b 4)) base (buf_offset b) error2 of
         (None, b1, src1, e1, m3) \<Rightarrow> (None, b1, src1, e1, m3)
       | (Some cd, b1, src1, e1, m3) \<Rightarrow> read_directory L C m3 (za_open_flags za1) src1 b1 base (buf_offset b) cd e1)"
proof -
  have "za_flags za = 0 \<or> za_flags za = ZIP_AFL_RDONLY"
    using assms(1) by (auto simp: zip_allocate_new_def zip_new_def Let_def split: if_splits option.splits prod.splits)
  then have f: "flag_set (za_flags za1) ZIP_CHECKCONS = flag_set 0 ZIP_CHECKCONS" using assms(2) by (auto simp: flag_set_def)
  have "read_end_record C m2 (za_flags za1) src2 b2 base p error2 = read_end_record C m2 0 src2 b2 base p error2" for src2 b2 p
    by (simp only: read_end_record_def zip_read_eocd_def zip_read_eocd64_def eocd64_fields_def f)
  note r = this
  obtain p b0 where g: "zip_buffer_get b 4 = (p, b0)" by fastforce
  have "buf_data b0 = buf_data b" using g buffer_data_kept(1) [of b 4] by simp
  then have mg: "take 4 (drop (the p) (buf_data b0)) = EOCD_MAGIC" using assms(4) g by simp
  have lf: "(zip_buffer_left b < 22) = False" using assms(3) by (simp only: not_less eq_False)
  show ?thesis unfolding zip_read_cdir_def Let_def lf if_False g prod.case fst_conv snd_conv mg r by simp
qed

definition checked_archive :: "read_ctx zip_t" where
  "checked_archive = the (fst (zip_allocate_new [] sample_writer ZIP_CHECKCONS None))"

theorem end_record_checks_unreachable_witness:
  "fst (zip_read_eocd [] (sample_block [7, 7, 7] 3) 0 ZIP_CHECKCONS None :: read_ctx zip_cdir option \<times> zip_buffer \<times> zip_error option \<times> mem) = None
   \<and> fst (zip_read_cdir sample_libs buffer_callbacks [] checked_archive (sample_block [7, 7, 7] 3) 0 None) \<noteq> None
   \<and> za_open_flags checked_archive = ZIP_CHECKCONS"
proof -
  obtain x e1 m1 where a: "zip_allocate_new [] sample_writer ZIP_CHECKCONS None = (x, e1, m1)" by (metis prod_cases3)
  moreover have "fst (zip_allocate_new [] sample_writer ZIP_CHECKCONS None) \<noteq> None"
    by (simp add: zip_allocate_new_def zip_new_def zip_hash_new_def Let_def)
  ultimately have a: "zip_allocate_new [] sample_writer ZIP_CHECKCONS None = (Some checked_archive, e1, m1)"
    by (simp add: checked_archive_def)
  have m: "22 \<le> zip_buffer_left (sample_block [7, 7, 7] 3)"
    "take 4 (drop (the (fst (zip_buffer_get (sample_block [7, 7, 7] 3) 4))) (buf_data (sample_block [7, 7, 7] 3))) = EOCD_MAGIC"
    by code_simp+
  have "fst (case read_end_record buffer_callbacks [] 0 (za_src checked_archive) (snd (zip_buffer_get (sample_block [7, 7, 7] 3) 4)) 0
        (buf_offset (sample_block [7, 7, 7] 3)) None of
         (None, b1, src1, e1, m3) \<Rightarrow> (None, b1, src1, e1, m3)
       | (Some cd, b1, src1, e1, m3) \<Rightarrow>
           read_directory sample_libs buffer_callbacks m3 (za_open_flags checked_archive) src1 b1 0 (buf_offset (sample_block [7, 7, 7] 3)) cd e1) \<noteq> None"
    by code_simp
  then have "fst (zip_read_cdir sample_libs buffer_callbacks [] checked_archive (sample_block [7, 7, 7] 3) 0 None) \<noteq> None"
    unfolding end_record_checks_unreachable [OF a refl m, symmetric] .
  moreover have "fst (zip_read_eocd [] (sample_block [7, 7, 7] 3) 0 ZIP_CHECKCONS None :: read_ctx zip_cdir option \<times> zip_buffer \<times> zip_error option \<times> mem) = None"
    by code_simp
  moreover have "za_open_flags checked_archive = ZIP_CHECKCONS" by code_simp
  ultimately show ?thesis by blast
qed

end
