(* ===== verification/Ssh_Match.thy ===== *)
theory Ssh_Match
  imports Zip_Hash
begin

text \<open>
  Wildcard matching of host names (libssh, src/match.c). A C string is the list of its bytes before the final
  NUL, so the test for the end of the string is the test for the empty list and moving the pointer is the tail;
  no other byte is ever read. The recursion of \<open>match_pattern\<close> is on its \<open>limit\<close>, each loop on the string or
  the pattern. The specification is the set of strings a pattern stands for.
\<close>

section \<open>Model\<close>

abbreviation AST :: u8 where "AST \<equiv> 42"
abbreviation QM :: u8 where "QM \<equiv> 63"
abbreviation COMMA :: u8 where "COMMA \<equiv> 44"
abbreviation BANG :: u8 where "BANG \<equiv> 33"
abbreviation MAX_MATCH_RECURSION :: nat where "MAX_MATCH_RECURSION \<equiv> 32"

text \<open>The loop over the places where the byte after the asterisk occurs, with \<open>f\<close> for the recursive call.\<close>

fun scan_known :: "(bytes \<Rightarrow> bytes \<Rightarrow> bool) \<Rightarrow> bytes \<Rightarrow> u8 \<Rightarrow> bytes \<Rightarrow> bool" where
  "scan_known f [] c p = False"
| "scan_known f (x # s) c p = (if x = c \<and> f s p then True else scan_known f s c p)"

text \<open>The loop over all places but the end.\<close>

fun scan_any :: "(bytes \<Rightarrow> bytes \<Rightarrow> bool) \<Rightarrow> bytes \<Rightarrow> bytes \<Rightarrow> bool" where
  "scan_any f [] p = False"
| "scan_any f (x # s) p = (if f (x # s) p then True else scan_any f s p)"

text \<open>The loop along string and pattern; asterisks are skipped before the pattern is looked at.\<close>

fun match_walk :: "(bytes \<Rightarrow> bytes \<Rightarrow> bool) \<Rightarrow> bytes \<Rightarrow> bytes \<Rightarrow> bool" where
  "match_walk f s [] = (s = [])"
| "match_walk f s (c # p) =
     (if c = AST then
        (case dropWhile (\<lambda>x. x = AST) p of
           [] \<Rightarrow> True
         | d # q \<Rightarrow> if d \<noteq> QM then scan_known f s d q else scan_any f s (d # q))
      else (case s of
              [] \<Rightarrow> False
            | x # t \<Rightarrow> if c \<noteq> QM \<and> c \<noteq> x then False else match_walk f t p))"

fun match_limit :: "nat \<Rightarrow> bytes \<Rightarrow> bytes \<Rightarrow> bool" where
  "match_limit 0 s p = False"
| "match_limit (Suc k) s p = match_walk (match_limit k) s p"

definition match_pattern :: "bytes option \<Rightarrow> bytes option \<Rightarrow> nat \<Rightarrow> bool" where
  "match_pattern s p limit = (case (s, p) of (Some s, Some p) \<Rightarrow> match_limit limit s p | _ \<Rightarrow> False)"

definition lower :: "u8 \<Rightarrow> u8" where
  "lower c = (if 65 \<le> c \<and> c \<le> 90 then c + 32 else c)"

text \<open>The bytes up to a comma or the end, at most 1023 of them, and what is left.\<close>

fun take_sub :: "bool \<Rightarrow> nat \<Rightarrow> bytes \<Rightarrow> bytes \<times> bytes" where
  "take_sub dolower 0 p = ([], p)"
| "take_sub dolower (Suc room) [] = ([], [])"
| "take_sub dolower (Suc room) (c # p) =
     (if c = COMMA then ([], c # p)
      else (case take_sub dolower room p of (sub, rest) \<Rightarrow> ((if dolower then lower c else c) # sub, rest)))"

lemma take_sub_length: "take_sub dolower n p = (sub, rest) \<Longrightarrow> length sub + length rest = length p"
  by (induction dolower n p arbitrary: sub rest rule: take_sub.induct) (auto split: if_splits prod.splits)

lemma take_sub_comma: "take_sub dolower n p = (sub, rest) \<Longrightarrow> length sub < n \<Longrightarrow> rest = [] \<or> hd rest = COMMA"
  by (induction dolower n p arbitrary: sub rest rule: take_sub.induct) (auto split: if_splits prod.splits)

lemma list_loop_progress:
  assumes "(sub, rest) = take_sub dolower 1023 (if c = BANG then p1 else c # p1)" and "\<not> 1023 \<le> length sub"
  shows "length (case rest of [] \<Rightarrow> [] | d # r \<Rightarrow> if d = COMMA then r else rest) < Suc (length p1)"
proof (cases rest)
  case (Cons d r)
  have "d = COMMA" using take_sub_comma [OF assms(1) [symmetric]] assms(2) Cons by simp
  moreover have "length rest \<le> Suc (length p1)"
    using take_sub_length [OF assms(1) [symmetric]] by (cases "c = BANG") simp_all
  ultimately show ?thesis using Cons by simp
qed simp

text \<open>
  The loop over the subpatterns in the first \<open>len\<close> bytes of the pattern. A pattern that ends in the negation
  mark has an empty last subpattern: the mark is read within the length, the test for it is not repeated.
\<close>

function list_loop :: "bytes option \<Rightarrow> bytes \<Rightarrow> bool \<Rightarrow> bool \<Rightarrow> int" where
  "list_loop s p dolower got =
     (case p of
        [] \<Rightarrow> if got then 1 else 0
      | c # p1 \<Rightarrow>
          (let negated = (c = BANG);
               (sub, rest) = take_sub dolower 1023 (if negated then p1 else p)
           in if length sub \<ge> 1023 then 0
              else
                (let rest1 = (case rest of [] \<Rightarrow> [] | d # r \<Rightarrow> if d = COMMA then r else rest) in
                 if match_pattern s (Some (cstr sub)) MAX_MATCH_RECURSION
                 then (if negated then -1 else list_loop s rest1 dolower True)
                 else list_loop s rest1 dolower got)))"
  by pat_completeness auto

termination
  by (relation "measure (\<lambda>(s, p, dolower, got). length p)") (use list_loop_progress in \<open>fastforce split: if_splits\<close>)+

declare list_loop.simps [simp del]

definition match_pattern_list :: "bytes option \<Rightarrow> bytes \<Rightarrow> nat \<Rightarrow> bool \<Rightarrow> int" where
  "match_pattern_list string pattern len dolower = list_loop string (take len pattern) dolower False"

definition match_hostname :: "bytes option \<Rightarrow> bytes \<Rightarrow> nat \<Rightarrow> int" where
  "match_hostname host pattern len = match_pattern_list host pattern len True"

section \<open>What a pattern stands for\<close>

fun glob :: "bytes \<Rightarrow> bytes \<Rightarrow> bool" where
  "glob [] s = (s = [])"
| "glob (c # p) s =
     (if c = AST then \<exists>i\<le>length s. glob p (drop i s)
      else (case s of [] \<Rightarrow> False | x # t \<Rightarrow> (c = QM \<or> c = x) \<and> glob p t))"

text \<open>The runs of asterisks: each costs one level of the recursion.\<close>

fun runs :: "bytes \<Rightarrow> nat" where
  "runs [] = 0"
| "runs (c # p) = (if c = AST \<and> (p = [] \<or> hd p \<noteq> AST) then Suc (runs p) else runs p)"

lemma glob_stars: "glob (AST # AST # p) s \<longleftrightarrow> glob (AST # p) s"
proof
  assume "glob (AST # AST # p) s"
  then obtain i j where "i \<le> length s" "j \<le> length s - i" "glob p (drop (i + j) s)" by (auto simp: add.commute)
  then show "glob (AST # p) s" by (auto intro!: exI [of _ "i + j"])
next
  assume "glob (AST # p) s"
  then obtain i where "i \<le> length s" "glob p (drop i s)" by auto
  moreover from this have "glob (AST # p) (drop i s)" by (auto intro!: exI [of _ 0])
  ultimately show "glob (AST # AST # p) s" unfolding glob.simps(2) [of AST "AST # p"] by auto
qed

lemma glob_skip: "glob (AST # p) s \<longleftrightarrow> glob (AST # dropWhile (\<lambda>x. x = AST) p) s"
  by (induction p) (simp_all only: dropWhile.simps glob_stars, auto simp only: glob_stars split: if_splits)

lemma glob_star_end: "glob [AST] s"
  by (simp add: exI [of _ "length s"])

lemma runs_skip: "runs (AST # p) = Suc (runs (dropWhile (\<lambda>x. x = AST) p))"
  by (induction p) auto

lemma dropWhile_head: "dropWhile (\<lambda>x. x = AST) p = d # q \<Longrightarrow> d \<noteq> AST"
  using hd_dropWhile [of "\<lambda>x. x = AST" p] by (cases "dropWhile (\<lambda>x. x = AST) p") simp_all

lemma runs_plain: "d \<noteq> AST \<Longrightarrow> runs (d # q) = runs q"
  by simp

lemma scan_known_iff: "scan_known f s c p \<longleftrightarrow> (\<exists>i<length s. s ! i = c \<and> f (drop (Suc i) s) p)"
  by (induction s) (auto simp: less_Suc_eq_0_disj)

lemma scan_any_iff: "scan_any f s p \<longleftrightarrow> (\<exists>i<length s. f (drop i s) p)"
  by (induction s) (auto simp: less_Suc_eq_0_disj)

lemma glob_star_known:
  assumes "d \<noteq> AST" and "d \<noteq> QM"
  shows "glob (AST # d # q) s \<longleftrightarrow> (\<exists>i<length s. s ! i = d \<and> glob q (drop (Suc i) s))"
proof -
  have "glob (d # q) (drop i s) \<longleftrightarrow> i < length s \<and> s ! i = d \<and> glob q (drop (Suc i) s)" if "i \<le> length s" for i
    using assms that by (cases "i < length s") (auto simp: Cons_nth_drop_Suc [symmetric])
  then show ?thesis by (simp only: glob.simps if_True) (metis less_imp_le)
qed

lemma glob_star_any: "glob (AST # QM # q) s \<longleftrightarrow> (\<exists>i<length s. glob (QM # q) (drop i s))"
proof -
  have "glob (QM # q) (drop i s) \<Longrightarrow> i \<le> length s \<Longrightarrow> i < length s" for i
    by (cases "i < length s") auto
  then show ?thesis by (metis glob.simps(2) less_imp_le)
qed

text \<open>One level: correct if the recursive call is, for patterns with fewer runs.\<close>

lemma match_walk_sound:
  assumes "\<And>s p. f s p \<Longrightarrow> glob p s"
  shows "match_walk f s p \<Longrightarrow> glob p s"
proof (induction p arbitrary: s)
  case (Cons c p)
  show ?case
  proof (cases "c = AST")
    case True
    show ?thesis
    proof (cases "dropWhile (\<lambda>x. x = AST) p")
      case Nil
      then show ?thesis using glob_skip [of p s] glob_star_end [of s] True by (simp only: Nil)
    next
      case (Cons d q)
      have "glob (AST # d # q) s"
      proof (cases "d = QM")
        case True
        then obtain i where "i < length s" "f (drop i s) (QM # q)"
          using Cons.prems \<open>c = AST\<close> Cons by (auto simp: scan_any_iff)
        then show ?thesis using assms unfolding True glob_star_any by blast
      next
        case False
        then show ?thesis using Cons.prems \<open>c = AST\<close> Cons assms dropWhile_head [OF Cons]
          by (auto simp only: glob_star_known match_walk.simps scan_known_iff list.case if_True split: if_splits)
      qed
      then show ?thesis using glob_skip [of p s] Cons True by simp
    qed
  next
    case False
    then show ?thesis using Cons by (auto split: list.splits if_splits)
  qed
qed simp

lemma match_walk_complete:
  assumes "\<And>s p. runs p < k \<Longrightarrow> glob p s \<Longrightarrow> f s p"
  shows "glob p s \<Longrightarrow> runs p \<le> k \<Longrightarrow> match_walk f s p"
proof (induction p arbitrary: s)
  case (Cons c p)
  show ?case
  proof (cases "c = AST")
    case True
    show ?thesis
    proof (cases "dropWhile (\<lambda>x. x = AST) p")
      case Nil
      then show ?thesis using True by (simp only: match_walk.simps list.case if_True simp_thms)
    next
      case (Cons d q)
      have g: "glob (AST # d # q) s" using glob_skip [of p s] Cons Cons.prems(1) True by simp
      have r: "runs (d # q) < k" using runs_skip [of p] Cons Cons.prems(2) True by simp
      have rq: "runs q < k" using r dropWhile_head [OF Cons] by simp
      show ?thesis
      proof (cases "d = QM")
        case True
        then show ?thesis using g r assms \<open>c = AST\<close> Cons unfolding True glob_star_any by (auto simp: scan_any_iff)
      next
        case False
        then show ?thesis using g rq assms \<open>c = AST\<close> Cons glob_star_known [OF dropWhile_head [OF Cons] False]
          by (auto simp: scan_known_iff simp del: glob.simps)
      qed
    qed
  next
    case False
    then show ?thesis using Cons by (auto split: list.splits if_splits)
  qed
qed simp

lemma match_limit_sound: "match_limit k s p \<Longrightarrow> glob p s"
proof (induction k arbitrary: s p)
  case (Suc k)
  then show ?case using match_walk_sound [of "match_limit k" s p] by simp
qed simp

lemma match_limit_complete: "glob p s \<Longrightarrow> runs p < k \<Longrightarrow> match_limit k s p"
proof (induction k arbitrary: s p)
  case (Suc k)
  then show ?case using match_walk_complete [of k "match_limit k" p s] by simp
qed simp

section \<open>A list of patterns\<close>

lemma tl_dropWhile_less: "p \<noteq> [] \<Longrightarrow> length (tl (dropWhile P p)) < length p"
  using length_dropWhile_le [of P p] by (cases p) auto

text \<open>The parts between the commas, without the empty one after a last comma.\<close>

function parts :: "bytes \<Rightarrow> bytes list" where
  "parts p = (if p = [] then [] else takeWhile (\<lambda>c. c \<noteq> COMMA) p # parts (tl (dropWhile (\<lambda>c. c \<noteq> COMMA) p)))"
  by pat_completeness auto

termination
  by (relation "measure length") (simp_all only: wf_measure in_measure tl_dropWhile_less not_False_eq_True)

declare parts.simps [simp del]

definition negated :: "bytes \<Rightarrow> bool" where
  "negated q \<longleftrightarrow> q \<noteq> [] \<and> hd q = BANG"

definition body :: "bool \<Rightarrow> bytes \<Rightarrow> bytes" where
  "body dolower q = cstr (map (if dolower then lower else id) (if negated q then tl q else q))"

lemma take_sub_eq:
  "length (takeWhile (\<lambda>c. c \<noteq> COMMA) p) < n \<Longrightarrow>
     take_sub dolower n p = (map (if dolower then lower else id) (takeWhile (\<lambda>c. c \<noteq> COMMA) p), dropWhile (\<lambda>c. c \<noteq> COMMA) p)"
  by (induction dolower n p rule: take_sub.induct) auto

lemma list_loop_step:
  assumes p: "p \<noteq> []" and l: "length (takeWhile (\<lambda>c. c \<noteq> COMMA) p) < 1023"
  shows "list_loop s p dolower got =
    (let q = takeWhile (\<lambda>c. c \<noteq> COMMA) p; rest = tl (dropWhile (\<lambda>c. c \<noteq> COMMA) p)
     in if match_pattern s (Some (body dolower q)) MAX_MATCH_RECURSION
        then (if negated q then -1 else list_loop s rest dolower True) else list_loop s rest dolower got)"
proof -
  obtain c p1 where c: "p = c # p1" using p by (cases p) auto
  let ?p = "if c = BANG then p1 else p"
  let ?q = "takeWhile (\<lambda>c. c \<noteq> COMMA) p"
  have q: "takeWhile (\<lambda>c. c \<noteq> COMMA) ?p = (if negated ?q then tl ?q else ?q)"
    and d: "dropWhile (\<lambda>c. c \<noteq> COMMA) ?p = dropWhile (\<lambda>c. c \<noteq> COMMA) p" and n: "negated ?q = (c = BANG)"
    by (auto simp: c negated_def)
  have "length (takeWhile (\<lambda>c. c \<noteq> COMMA) ?p) < 1023" using l q by auto
  note t = take_sub_eq [OF this, of dolower, unfolded q d]
  let ?r = "dropWhile (\<lambda>c. c \<noteq> COMMA) p"
  have r: "(case ?r of [] \<Rightarrow> [] | x # r \<Rightarrow> if x = COMMA then r else ?r) = tl ?r"
  proof (cases ?r)
    case (Cons x r)
    then have "x = COMMA" using hd_dropWhile [of "\<lambda>c. c \<noteq> COMMA" p] by simp
    then show ?thesis unfolding Cons by simp
  next
    case Nil
    show ?thesis unfolding Nil by simp
  qed
  have "length (if negated ?q then tl ?q else ?q) < 1023" using l by auto
  then have l2: "\<not> 1023 \<le> length (map f (if negated ?q then tl ?q else ?q))" for f :: "u8 \<Rightarrow> u8" by simp
  have "list_loop s p dolower got = (case take_sub dolower 1023 ?p of (sub, rest) \<Rightarrow>
      if 1023 \<le> length sub then 0
      else (let rest1 = (case rest of [] \<Rightarrow> [] | d # r \<Rightarrow> if d = COMMA then r else rest)
            in if match_pattern s (Some (cstr sub)) MAX_MATCH_RECURSION
               then (if c = BANG then -1 else list_loop s rest1 dolower True) else list_loop s rest1 dolower got))"
    by (subst list_loop.simps) (simp add: c Let_def)
  then show ?thesis unfolding t prod.case if_not_P [OF l2] r Let_def body_def by (simp only: n)
qed

lemma list_loop_spec:
  "\<forall>q \<in> set (parts p). length q < 1023 \<Longrightarrow> list_loop s p dolower got =
     (if \<exists>q\<in>set (parts p). negated q \<and> match_pattern s (Some (body dolower q)) MAX_MATCH_RECURSION then -1
      else if got \<or> (\<exists>q\<in>set (parts p). match_pattern s (Some (body dolower q)) MAX_MATCH_RECURSION) then 1 else 0)"
proof (induction p arbitrary: got rule: parts.induct)
  case (1 p)
  show ?case
  proof (cases "p = []")
    case True
    then show ?thesis by (simp add: list_loop.simps parts.simps)
  next
    case False
    let ?q = "takeWhile (\<lambda>c. c \<noteq> COMMA) p" and ?r = "tl (dropWhile (\<lambda>c. c \<noteq> COMMA) p)"
    have s: "set (parts p) = insert ?q (set (parts ?r))" using False by (subst parts.simps) simp
    have l: "length ?q < 1023" and r: "\<forall>q\<in>set (parts ?r). length q < 1023" using 1(2) s by auto
    show ?thesis unfolding list_loop_step [OF False l] s Let_def using 1(1) [OF False r] by auto
  qed
qed

section \<open>Properties\<close>

text \<open>
  C38. \<open>match_pattern\<close> decides the wildcard language up to its recursion limit: it never accepts a string the
  pattern does not stand for, and it accepts every one if the pattern has fewer runs of asterisks than the limit,
  so in particular for every pattern with at most 31 of them as \<open>match_pattern_list\<close> calls it.
\<close>

theorem match_pattern_glob:
  "(match_pattern (Some s) (Some p) limit \<longrightarrow> glob p s)
    \<and> (runs p < limit \<longrightarrow> match_pattern (Some s) (Some p) limit = glob p s)"
  using match_limit_sound match_limit_complete by (auto simp: match_pattern_def)

theorem match_pattern_glob_witness:
  "match_pattern (Some [97, 98, 99, 46, 100]) (Some [97, 42, 46, 63]) 32 = True"
proof -
  have "runs [97, 42, 46, 63] < 32" "glob [97, 42, 46, 63] [97, 98, 99, 46, 100]" by code_simp+
  then show ?thesis using match_pattern_glob [of "[97, 98, 99, 46, 100]" "[97, 42, 46, 63]" 32] by blast
qed

text \<open>
  C39. \<open>match_pattern_list\<close> on a list whose parts fit its buffer: the answer is -1 exactly when a negated part matches,
  wherever it stands in the list, else 1 exactly when some part matches, else 0. The order of the parts does not matter.
\<close>

theorem match_pattern_list_spec:
  assumes "\<And>q. q \<in> set (parts (take len pattern)) \<Longrightarrow> length q < 1023"
  shows "match_pattern_list s pattern len dolower =
     (if \<exists>q\<in>set (parts (take len pattern)). negated q \<and> match_pattern s (Some (body dolower q)) MAX_MATCH_RECURSION then -1
      else if \<exists>q\<in>set (parts (take len pattern)). match_pattern s (Some (body dolower q)) MAX_MATCH_RECURSION then 1 else 0)"
  using list_loop_spec [of "take len pattern" s dolower False] assms by (simp add: match_pattern_list_def)

theorem match_pattern_list_spec_witness:
  "match_pattern_list (Some [97]) [42, 44, 33, 65] 4 True = -1"
proof -
  have p: "parts (take 4 [42, 44, 33, 65]) = [[42], [33, 65]]" by (simp add: parts.simps)
  have "negated [33, 65]" and "match_pattern (Some [97]) (Some (body True [33, 65])) 32" by code_simp+
  moreover have "length q < 1023" if "q \<in> set (parts (take 4 [42, 44, 33, 65]))" for q using that unfolding p by auto
  ultimately show ?thesis using match_pattern_list_spec [of 4 "[42, 44, 33, 65]" "Some [97]" True] unfolding p by auto
qed

end
