(* ===== verification/Ssh_Buffer.thy ===== *)
theory Ssh_Buffer
  imports Base "HOL-Library.Monad_Syntax"
begin

text \<open>
  The packet buffer and the strings of libssh (src/buffer.c without the variadic pack and unpack, and
  src/string.c). The block of a buffer is a list of bytes; a read or write outside of it makes the whole
  operation \<open>None\<close>, so that a theorem with \<open>Some\<close> shows it never happens. Sizes are \<open>nat\<close>s below \<open>2 ^ 64\<close> with
  every overflow of \<open>size_t\<close> written out. Handles are not NULL (\<open>ssh_buffer_new\<close> always makes a block) and two
  handles are two buffers. The clearing of memory that is then released is not observable and left out.
\<close>

section \<open>Strings\<close>

abbreviation STRING_SIZE_MAX :: nat where "STRING_SIZE_MAX \<equiv> 0x10000000"
abbreviation BUFFER_SIZE_MAX :: nat where "BUFFER_SIZE_MAX \<equiv> 0x10000000"
abbreviation SSH_OK :: int where "SSH_OK \<equiv> 0"
abbreviation SSH_ERROR :: int where "SSH_ERROR \<equiv> -1"

definition mread :: "bytes \<Rightarrow> nat \<Rightarrow> nat \<Rightarrow> bytes option" where
  "mread d i n = (if i + n \<le> length d then Some (take n (drop i d)) else None)"

definition mwrite :: "bytes \<Rightarrow> nat \<Rightarrow> bytes \<Rightarrow> bytes option" where
  "mwrite d i bs = (if i + length bs \<le> length d then Some (take i d @ bs @ drop (i + length bs) d) else None)"

definition htonl :: "nat \<Rightarrow> nat" where
  "htonl n = le_dec (rev (le_enc 4 n))"

abbreviation ntohl :: "nat \<Rightarrow> nat" where "ntohl \<equiv> htonl"

text \<open>The size field is kept as it is stored, in network order; the data has one byte more than the size.\<close>

record ssh_string_struct =
  str_size :: nat
  str_data :: bytes

definition ssh_string_new :: "mem \<Rightarrow> nat \<Rightarrow> ssh_string_struct option \<times> mem" where
  "ssh_string_new m sz =
     (if sz > STRING_SIZE_MAX then (None, m)
      else (case malloc m of
              (None, m1) \<Rightarrow> (None, m1)
            | (Some j, m1) \<Rightarrow> (Some \<lparr>str_size = htonl sz, str_data = (junk_bytes j (sz + 1))[0 := 0]\<rparr>, m1)))"

definition ssh_string_len :: "ssh_string_struct option \<Rightarrow> nat" where
  "ssh_string_len s =
     (case s of None \<Rightarrow> 0
      | Some s \<Rightarrow> (let sz = ntohl (str_size s) in if sz > 0 \<and> sz \<le> STRING_SIZE_MAX then sz else 0))"

definition ssh_string_fill :: "ssh_string_struct option \<Rightarrow> bytes option \<Rightarrow> (int \<times> ssh_string_struct option) option" where
  "ssh_string_fill s data =
     (case (s, data) of
        (Some t, Some d) \<Rightarrow>
          (if d = [] \<or> length d > ssh_string_len s then Some (-1, s)
           else do { d' \<leftarrow> mwrite (str_data t) 0 d; Some (0, Some (t\<lparr>str_data := d'\<rparr>)) })
      | _ \<Rightarrow> Some (-1, s))"

text \<open>\<open>what\<close> are the bytes before the final NUL.\<close>

definition ssh_string_from_char :: "mem \<Rightarrow> bytes option \<Rightarrow> (ssh_string_struct option \<times> mem) option" where
  "ssh_string_from_char m what =
     (case what of
        None \<Rightarrow> Some (None, m)
      | Some w \<Rightarrow>
          (case ssh_string_new m (length w) of
             (None, m1) \<Rightarrow> Some (None, m1)
           | (Some s, m1) \<Rightarrow> do { d \<leftarrow> mwrite (str_data s) 0 w; Some (Some (s\<lparr>str_data := d\<rparr>), m1) }))"

definition ssh_string_get_char :: "ssh_string_struct option \<Rightarrow> ssh_string_struct option option" where
  "ssh_string_get_char s =
     (case s of
        None \<Rightarrow> Some None
      | Some t \<Rightarrow> do { d \<leftarrow> mwrite (str_data t) (ssh_string_len s) [0]; Some (Some (t\<lparr>str_data := d\<rparr>)) })"

definition ssh_string_to_char :: "mem \<Rightarrow> ssh_string_struct option \<Rightarrow> (bytes option \<times> mem) option" where
  "ssh_string_to_char m s =
     (case s of
        None \<Rightarrow> Some (None, m)
      | Some t \<Rightarrow>
          (let len = ssh_string_len s in
           if (len + 1) mod 2 ^ 64 < len then Some (None, m)
           else (case malloc m of
                   (None, m1) \<Rightarrow> Some (None, m1)
                 | (Some j, m1) \<Rightarrow> do { d \<leftarrow> mread (str_data t) 0 len; Some (Some (d @ [0]), m1) })))"

definition ssh_string_copy :: "mem \<Rightarrow> ssh_string_struct option \<Rightarrow> (ssh_string_struct option \<times> mem) option" where
  "ssh_string_copy m s =
     (case s of
        None \<Rightarrow> Some (None, m)
      | Some t \<Rightarrow>
          (let len = ssh_string_len s in
           if len = 0 then Some (None, m)
           else (case ssh_string_new m len of
                   (None, m1) \<Rightarrow> Some (None, m1)
                 | (Some new, m1) \<Rightarrow> do { d \<leftarrow> mread (str_data t) 0 len; d' \<leftarrow> mwrite (str_data new) 0 d;
                                       Some (Some (new\<lparr>str_data := d'\<rparr>), m1) })))"

definition ssh_string_burn :: "ssh_string_struct option \<Rightarrow> ssh_string_struct option option" where
  "ssh_string_burn s =
     (case s of
        None \<Rightarrow> Some None
      | Some t \<Rightarrow> if str_size t = 0 then Some s
                 else do { d \<leftarrow> mwrite (str_data t) 0 (replicate (ssh_string_len s) 0); Some (Some (t\<lparr>str_data := d\<rparr>)) })"

section \<open>Buffers\<close>

record ssh_buffer =
  secure :: bool
  used :: nat
  allocated :: nat
  pos :: nat
  bdata :: bytes

lemma pow_wrap: "64 \<le> k \<Longrightarrow> 2 ^ k mod 2 ^ 64 = (0::nat)"
  using le_imp_power_dvd [of 64 k "2::nat"] by (simp add: mod_eq_0_iff_dvd)

text \<open>\<open>smallest\<close> is 1 shifted left \<open>k\<close> times, which is 0 from 64 on.\<close>

function grow_size :: "nat \<Rightarrow> nat \<Rightarrow> nat option" where
  "grow_size k needed =
     (if 2 ^ k mod 2 ^ 64 \<le> needed
      then (if 2 ^ k mod (2::nat) ^ 64 = 0 then None else grow_size (Suc k) needed)
      else Some (2 ^ k mod 2 ^ 64))"
  by pat_completeness auto

termination
proof (relation "measure (\<lambda>(k, needed). 64 - k)")
  fix k needed :: nat
  assume "2 ^ k mod (2::nat) ^ 64 \<noteq> 0"
  moreover have "2 ^ k mod (2::nat) ^ 64 = 0" if "\<not> k < 64" by (rule pow_wrap) (use that in simp)
  ultimately have "k < 64" by metis
  then show "((Suc k, needed), k, needed) \<in> measure (\<lambda>(k, needed). 64 - k)" by simp
qed simp

declare grow_size.simps [simp del]

definition realloc_buffer :: "mem \<Rightarrow> ssh_buffer \<Rightarrow> nat \<Rightarrow> (int \<times> ssh_buffer \<times> mem) option" where
  "realloc_buffer m b needed =
     (case grow_size 0 needed of
        None \<Rightarrow> Some (-1, b, m)
      | Some n \<Rightarrow>
          (if n > BUFFER_SIZE_MAX then Some (-1, b, m)
           else (case malloc m of
                   (None, m1) \<Rightarrow> Some (-1, b, m1)
                 | (Some j, m1) \<Rightarrow>
                     (if secure b
                      then do { old \<leftarrow> mread (bdata b) 0 (used b); d \<leftarrow> mwrite (junk_bytes j n) 0 old;
                                Some (0, b\<lparr>bdata := d, allocated := n\<rparr>, m1) }
                      else Some (0, b\<lparr>bdata := take n (bdata b) @ drop (length (bdata b)) (junk_bytes j n),
                                     allocated := n\<rparr>, m1)))))"

definition diff64 :: "nat \<Rightarrow> nat \<Rightarrow> nat" where
  "diff64 a c = nat ((int a - int c) mod 2 ^ 64)"

definition buffer_shift :: "ssh_buffer \<Rightarrow> ssh_buffer option" where
  "buffer_shift b =
     (if pos b = 0 then Some b
      else (let n = diff64 (used b) (pos b) in
            do { mid \<leftarrow> mread (bdata b) (pos b) n; d \<leftarrow> mwrite (bdata b) 0 mid;
                 if secure b then do { d' \<leftarrow> mwrite d n (replicate (pos b) 0); Some (b\<lparr>bdata := d', used := n, pos := 0\<rparr>) }
                 else Some (b\<lparr>bdata := d, used := n, pos := 0\<rparr>) }))"

definition ssh_buffer_set_secure :: "ssh_buffer \<Rightarrow> ssh_buffer" where
  "ssh_buffer_set_secure b = b\<lparr>secure := True\<rparr>"

definition ssh_buffer_allocate_size :: "mem \<Rightarrow> ssh_buffer \<Rightarrow> nat \<Rightarrow> (int \<times> ssh_buffer \<times> mem) option" where
  "ssh_buffer_allocate_size m b len =
     (if allocated b < len
      then do { b1 \<leftarrow> (if pos b > 0 then buffer_shift b else Some b); (rc, b2, m1) \<leftarrow> realloc_buffer m b1 len;
                Some (if rc < 0 then -1 else 0, b2, m1) }
      else Some (0, b, m))"

definition ssh_buffer_new :: "mem \<Rightarrow> (ssh_buffer option \<times> mem) option" where
  "ssh_buffer_new m =
     (case malloc m of
        (None, m1) \<Rightarrow> Some (None, m1)
      | (Some j, m1) \<Rightarrow>
          do { (rc, b, m2) \<leftarrow> ssh_buffer_allocate_size m1 \<lparr>secure = False, used = 0, allocated = 0, pos = 0, bdata = []\<rparr> (64 - 1);
               Some (if rc \<noteq> 0 then None else Some b, m2) })"

definition ssh_buffer_reinit :: "mem \<Rightarrow> ssh_buffer \<Rightarrow> (int \<times> ssh_buffer \<times> mem) option" where
  "ssh_buffer_reinit m b =
     do { d \<leftarrow> (if secure b \<and> allocated b > 0 then mwrite (bdata b) 0 (replicate (allocated b) 0) else Some (bdata b));
          let b1 = b\<lparr>bdata := d, used := 0, pos := 0\<rparr>;
          if allocated b1 > 65536
          then do { (rc, b2, m1) \<leftarrow> realloc_buffer m b1 (65536 - 1); Some (if rc \<noteq> 0 then -1 else 0, b2, m1) }
          else Some (0, b1, m) }"

text \<open>The steps \<open>ssh_buffer_add_data\<close> and \<open>ssh_buffer_allocate\<close> begin with.\<close>

definition make_room :: "mem \<Rightarrow> ssh_buffer \<Rightarrow> nat \<Rightarrow> (int \<times> ssh_buffer \<times> mem) option" where
  "make_room m b len =
     (if (used b + len) mod 2 ^ 64 < len then Some (-1, b, m)
      else if allocated b < (used b + len) mod 2 ^ 64
      then do { b1 \<leftarrow> (if pos b > 0 then buffer_shift b else Some b);
                realloc_buffer m b1 ((used b1 + len) mod 2 ^ 64) }
      else Some (0, b, m))"

definition ssh_buffer_add_data :: "mem \<Rightarrow> ssh_buffer \<Rightarrow> bytes option \<Rightarrow> (int \<times> ssh_buffer \<times> mem) option" where
  "ssh_buffer_add_data m b data =
     (case data of
        None \<Rightarrow> Some (-1, b, m)
      | Some bs \<Rightarrow>
          do { (rc, b1, m1) \<leftarrow> make_room m b (length bs);
               if rc < 0 then Some (-1, b1, m1)
               else do { d \<leftarrow> mwrite (bdata b1) (used b1) bs;
                         Some (0, b1\<lparr>bdata := d, used := used b1 + length bs\<rparr>, m1) } })"

text \<open>The address returned is its index in the block.\<close>

definition ssh_buffer_allocate :: "mem \<Rightarrow> ssh_buffer \<Rightarrow> nat \<Rightarrow> (nat option \<times> ssh_buffer \<times> mem) option" where
  "ssh_buffer_allocate m b len =
     do { (rc, b1, m1) \<leftarrow> make_room m b len;
          if rc < 0 then Some (None, b1, m1) else Some (Some (used b1), b1\<lparr>used := used b1 + len\<rparr>, m1) }"

definition ssh_buffer_add_ssh_string ::
  "mem \<Rightarrow> ssh_buffer \<Rightarrow> ssh_string_struct option \<Rightarrow> (int \<times> ssh_buffer \<times> mem) option" where
  "ssh_buffer_add_ssh_string m b string =
     (case string of
        None \<Rightarrow> Some (-1, b, m)
      | Some s \<Rightarrow>
          do { bs \<leftarrow> mread (le_enc 4 (str_size s) @ str_data s) 0 (ssh_string_len string + 4);
               (rc, b1, m1) \<leftarrow> ssh_buffer_add_data m b (Some bs);
               Some (if rc < 0 then -1 else 0, b1, m1) })"

definition ssh_buffer_add_u32 :: "mem \<Rightarrow> ssh_buffer \<Rightarrow> u32 \<Rightarrow> (int \<times> ssh_buffer \<times> mem) option" where
  "ssh_buffer_add_u32 m b data =
     do { (rc, b1, m1) \<leftarrow> ssh_buffer_add_data m b (Some (le_enc 4 (unat data))); Some (if rc < 0 then -1 else 0, b1, m1) }"

definition ssh_buffer_add_u16 :: "mem \<Rightarrow> ssh_buffer \<Rightarrow> u16 \<Rightarrow> (int \<times> ssh_buffer \<times> mem) option" where
  "ssh_buffer_add_u16 m b data =
     do { (rc, b1, m1) \<leftarrow> ssh_buffer_add_data m b (Some (le_enc 2 (unat data))); Some (if rc < 0 then -1 else 0, b1, m1) }"

definition ssh_buffer_add_u64 :: "mem \<Rightarrow> ssh_buffer \<Rightarrow> u64 \<Rightarrow> (int \<times> ssh_buffer \<times> mem) option" where
  "ssh_buffer_add_u64 m b data =
     do { (rc, b1, m1) \<leftarrow> ssh_buffer_add_data m b (Some (le_enc 8 (unat data))); Some (if rc < 0 then -1 else 0, b1, m1) }"

definition ssh_buffer_add_u8 :: "mem \<Rightarrow> ssh_buffer \<Rightarrow> u8 \<Rightarrow> (int \<times> ssh_buffer \<times> mem) option" where
  "ssh_buffer_add_u8 m b data =
     do { (rc, b1, m1) \<leftarrow> ssh_buffer_add_data m b (Some [data]); Some (if rc < 0 then -1 else 0, b1, m1) }"

definition ssh_buffer_prepend_data :: "mem \<Rightarrow> ssh_buffer \<Rightarrow> bytes \<Rightarrow> (int \<times> ssh_buffer \<times> mem) option" where
  "ssh_buffer_prepend_data m b data =
     (let len = length data; live = diff64 (used b) (pos b) in
      if len \<le> pos b
      then do { d \<leftarrow> mwrite (bdata b) (pos b - len) data; Some (0, b\<lparr>bdata := d, pos := pos b - len\<rparr>, m) }
      else if (live + len) mod 2 ^ 64 < len then Some (-1, b, m)
      else do { (rc, b1, m1) \<leftarrow> (if allocated b < (live + len) mod 2 ^ 64
                                 then realloc_buffer m b ((live + len) mod 2 ^ 64) else Some (0, b, m));
                if rc < 0 then Some (-1, b1, m1)
                else do { mid \<leftarrow> mread (bdata b1) (pos b1) live; d \<leftarrow> mwrite (bdata b1) len mid; d' \<leftarrow> mwrite d 0 data;
                          Some (0, b1\<lparr>bdata := d', used := (used b1 + (len - pos b1)) mod 2 ^ 64, pos := 0\<rparr>, m1) } })"

definition ssh_buffer_get_len :: "ssh_buffer \<Rightarrow> nat" where
  "ssh_buffer_get_len b = diff64 (used b) (pos b) mod 2 ^ 32"

definition ssh_buffer_add_buffer :: "mem \<Rightarrow> ssh_buffer \<Rightarrow> ssh_buffer \<Rightarrow> (int \<times> ssh_buffer \<times> mem) option" where
  "ssh_buffer_add_buffer m b source =
     do { bs \<leftarrow> mread (bdata source) (pos source) (ssh_buffer_get_len source);
          (rc, b1, m1) \<leftarrow> ssh_buffer_add_data m b (Some bs);
          Some (if rc < 0 then -1 else 0, b1, m1) }"

definition ssh_buffer_pass_bytes :: "ssh_buffer \<Rightarrow> nat \<Rightarrow> nat \<times> ssh_buffer" where
  "ssh_buffer_pass_bytes b len =
     (if (pos b + len) mod 2 ^ 64 < len \<or> used b < (pos b + len) mod 2 ^ 64 then (0, b)
      else (let b1 = b\<lparr>pos := pos b + len\<rparr> in
            (len, if pos b1 = used b1 then b1\<lparr>pos := 0, used := 0\<rparr> else b1)))"

definition ssh_buffer_pass_bytes_end :: "ssh_buffer \<Rightarrow> nat \<Rightarrow> nat \<times> ssh_buffer" where
  "ssh_buffer_pass_bytes_end b len = (if used b < len then (0, b) else (len, b\<lparr>used := used b - len\<rparr>))"

definition ssh_buffer_validate_length :: "ssh_buffer \<Rightarrow> nat \<Rightarrow> int" where
  "ssh_buffer_validate_length b len =
     (if (pos b + len) mod 2 ^ 64 < len \<or> (pos b + len) mod 2 ^ 64 > used b then SSH_ERROR else SSH_OK)"

text \<open>The bytes read, or none of them where the C leaves its caller's memory alone.\<close>

definition ssh_buffer_get_data :: "ssh_buffer \<Rightarrow> nat \<Rightarrow> (nat \<times> bytes \<times> ssh_buffer) option" where
  "ssh_buffer_get_data b len =
     (if ssh_buffer_validate_length b len \<noteq> SSH_OK then Some (0, [], b)
      else do { d \<leftarrow> mread (bdata b) (pos b) len; Some (len, d, b\<lparr>pos := pos b + len\<rparr>) })"

definition ssh_buffer_get_u8 :: "ssh_buffer \<Rightarrow> (nat \<times> bytes \<times> ssh_buffer) option" where
  "ssh_buffer_get_u8 b = ssh_buffer_get_data b 1"

definition ssh_buffer_get_u32 :: "ssh_buffer \<Rightarrow> (nat \<times> bytes \<times> ssh_buffer) option" where
  "ssh_buffer_get_u32 b = ssh_buffer_get_data b 4"

definition ssh_buffer_get_u64 :: "ssh_buffer \<Rightarrow> (nat \<times> bytes \<times> ssh_buffer) option" where
  "ssh_buffer_get_u64 b = ssh_buffer_get_data b 8"

definition ssh_buffer_get_ssh_string :: "mem \<Rightarrow> ssh_buffer \<Rightarrow> (ssh_string_struct option \<times> ssh_buffer \<times> mem) option" where
  "ssh_buffer_get_ssh_string m b =
     do { (rc, raw, b1) \<leftarrow> ssh_buffer_get_u32 b;
          if rc = 0 then Some (None, b1, m)
          else (let hostlen = ntohl (le_dec raw) in
                if ssh_buffer_validate_length b1 hostlen \<noteq> SSH_OK then Some (None, b1, m)
                else (case ssh_string_new m hostlen of
                        (None, m1) \<Rightarrow> Some (None, b1, m1)
                      | (Some str, m1) \<Rightarrow>
                          do { (stringlen, d, b2) \<leftarrow> ssh_buffer_get_data b1 hostlen;
                               d' \<leftarrow> mwrite (str_data str) 0 d;
                               Some (if stringlen \<noteq> hostlen then None else Some (str\<lparr>str_data := d'\<rparr>), b2, m1) })) }"

section \<open>Blocks and sizes\<close>

lemma mread_eq [simp]: "i + n \<le> length d \<Longrightarrow> mread d i n = Some (take n (drop i d))"
  by (simp add: mread_def)

lemma mwrite_eq [simp]: "i + length bs \<le> length d \<Longrightarrow> mwrite d i bs = Some (take i d @ bs @ drop (i + length bs) d)"
  by (simp add: mwrite_def)

lemma diff64_eq: "c \<le> a \<Longrightarrow> a < 2 ^ 64 \<Longrightarrow> diff64 a c = a - c"
  by (simp add: diff64_def of_nat_diff [symmetric] nat_mod_distrib flip: of_nat_diff)

lemma grow_size_gt: "grow_size k needed = Some n \<Longrightarrow> needed < n"
  by (induction k needed rule: grow_size.induct) (subst (asm) (2) grow_size.simps, auto split: if_splits)

definition ssh_buffer_inv :: "ssh_buffer \<Rightarrow> bool" where
  "ssh_buffer_inv b \<longleftrightarrow> pos b \<le> used b \<and> used b \<le> allocated b \<and> length (bdata b) = allocated b \<and> allocated b \<le> BUFFER_SIZE_MAX"

definition content :: "ssh_buffer \<Rightarrow> bytes" where
  "content b = drop (pos b) (take (used b) (bdata b))"

lemma ssh_buffer_invD:
  assumes "ssh_buffer_inv b"
  shows "pos b \<le> used b" "used b \<le> allocated b" "length (bdata b) = allocated b" "allocated b \<le> BUFFER_SIZE_MAX"
  using assms by (simp_all add: ssh_buffer_inv_def)

lemma length_content: "ssh_buffer_inv b \<Longrightarrow> length (content b) = used b - pos b"
  by (simp add: content_def ssh_buffer_inv_def)

text \<open>A block of \<open>needed\<close> bytes is refused only when it is too large or the allocation fails.\<close>

definition refused :: "mem \<Rightarrow> nat \<Rightarrow> bool" where
  "refused m needed \<longleftrightarrow> BUFFER_SIZE_MAX \<le> needed \<or> fst (malloc m) = None"

lemma grow_size_small:
  "k \<le> 28 \<Longrightarrow> needed < BUFFER_SIZE_MAX \<Longrightarrow> \<exists>n\<le>BUFFER_SIZE_MAX. grow_size k needed = Some n"
proof (induction k needed rule: grow_size.induct)
  case (1 k needed)
  have "(2::nat) ^ k \<le> 2 ^ 28" using 1(2) by (intro power_increasing) simp_all
  then have w: "2 ^ k mod (2::nat) ^ 64 = 2 ^ k" and l: "(2::nat) ^ k \<le> BUFFER_SIZE_MAX" by simp_all
  show ?case
  proof (cases "2 ^ k \<le> needed")
    case True
    then have "k \<noteq> 28" using 1(3) by auto
    then show ?thesis using 1(1,2,3) True w by (simp add: grow_size.simps [of k])
  next
    case False
    then show ?thesis using w l by (simp add: grow_size.simps [of k])
  qed
qed

lemma realloc_buffer_spec:
  assumes b: "ssh_buffer_inv b" and n: "used b \<le> needed"
  shows "\<exists>rc b1 m1. realloc_buffer m b needed = Some (rc, b1, m1) \<and> ssh_buffer_inv b1 \<and> used b1 = used b \<and> pos b1 = pos b
           \<and> content b1 = content b \<and> m1 \<in> {m, snd (malloc m)}
           \<and> (rc = 0 \<and> needed < allocated b1 \<or> rc = -1 \<and> b1 = b \<and> refused m needed)"
proof (cases "grow_size 0 needed")
  case (Some n)
  have l: "needed < n" by (rule grow_size_gt [OF Some])
  have "BUFFER_SIZE_MAX < n \<Longrightarrow> refused m needed" using grow_size_small [of 0 needed] Some by (fastforce simp: refused_def)
  then show ?thesis
    using ssh_buffer_invD [OF b] assms l
    by (auto simp: realloc_buffer_def Some ssh_buffer_inv_def content_def min_def refused_def split: option.splits prod.splits)
next
  case None
  then have "refused m needed" using grow_size_small [of 0 needed] by (fastforce simp: refused_def)
  then show ?thesis using b by (simp add: realloc_buffer_def None)
qed

lemma buffer_shift_spec:
  assumes b: "ssh_buffer_inv b"
  shows "\<exists>b1. buffer_shift b = Some b1 \<and> ssh_buffer_inv b1 \<and> used b1 = used b - pos b \<and> pos b1 = 0 \<and> content b1 = content b"
proof -
  have d: "diff64 (used b) (pos b) = used b - pos b" using ssh_buffer_invD [OF b] by (simp add: diff64_eq)
  have m: "length (take (used b - pos b) (drop (pos b) (bdata b))) = used b - pos b"
    using ssh_buffer_invD [OF b] by simp
  note i = ssh_buffer_invD [OF b]
  have "used b - pos b \<le> allocated b" using i by simp
  then show ?thesis
    using i m by (simp add: buffer_shift_def d Let_def ssh_buffer_inv_def content_def drop_take mwrite_def)
qed

lemma make_room_spec:
  assumes b: "ssh_buffer_inv b" and n: "len < 2 ^ 32"
  shows "\<exists>rc b1 m1. make_room m b len = Some (rc, b1, m1) \<and> ssh_buffer_inv b1 \<and> content b1 = content b
           \<and> m1 \<in> {m, snd (malloc m)}
           \<and> (rc = 0 \<and> used b1 + len \<le> allocated b1 \<or> rc = -1 \<and> refused m (length (content b) + len))"
proof -
  note i = ssh_buffer_invD [OF b]
  have w: "(used c + len) mod 2 ^ 64 = used c + len" if "ssh_buffer_inv c" for c
    using ssh_buffer_invD [OF that] n by simp
  have ok: "\<not> (used b + len) mod 2 ^ 64 < len" unfolding w [OF b] by simp
  obtain b0 where s: "(if pos b > 0 then buffer_shift b else Some b) = Some b0" and v: "ssh_buffer_inv b0"
    and c: "content b0 = content b" and u: "used b0 = length (content b)"
    using buffer_shift_spec [OF b] b length_content [OF b] by (cases "pos b > 0") auto
  show ?thesis
    using realloc_buffer_spec [OF v, of "used b0 + len" m] b i c u
    unfolding make_room_def if_not_P [OF ok] w [OF b] s w [OF v] bind.bind_lunit by auto
qed

lemma ssh_buffer_add_data_spec:
  assumes b: "ssh_buffer_inv b" and n: "length bs < 2 ^ 32"
  shows "\<exists>rc b1 m1. ssh_buffer_add_data m b (Some bs) = Some (rc, b1, m1) \<and> ssh_buffer_inv b1 \<and> m1 \<in> {m, snd (malloc m)}
           \<and> (rc = 0 \<and> content b1 = content b @ bs
              \<or> rc = -1 \<and> content b1 = content b \<and> refused m (length (content b) + length bs))"
proof -
  obtain rc b1 m1 where r: "make_room m b (length bs) = Some (rc, b1, m1)" and v: "ssh_buffer_inv b1"
    and c: "content b1 = content b" and m1: "m1 \<in> {m, snd (malloc m)}"
    and k: "rc = 0 \<and> used b1 + length bs \<le> allocated b1 \<or> rc = -1 \<and> refused m (length (content b) + length bs)"
    using make_room_spec [OF b n] by blast
  note i = ssh_buffer_invD [OF v]
  show ?thesis
  proof (cases "rc = 0")
    case True
    then have l: "used b1 + length bs \<le> length (bdata b1)" using k i by simp
    show ?thesis
      using i l c m1 by (simp add: ssh_buffer_add_data_def r True ssh_buffer_inv_def) (simp add: content_def)
  qed (use k v c m1 in \<open>simp add: ssh_buffer_add_data_def r\<close>)
qed

lemma ssh_buffer_validate_length_spec:
  assumes b: "ssh_buffer_inv b" and n: "len < 2 ^ 32"
  shows "ssh_buffer_validate_length b len = (if len \<le> length (content b) then SSH_OK else SSH_ERROR)"
proof -
  note i = ssh_buffer_invD [OF b]
  have w: "(pos b + len) mod 2 ^ 64 = pos b + len" using i n by simp
  show ?thesis
    unfolding ssh_buffer_validate_length_def w length_content [OF b] using i by auto
qed

lemma ssh_buffer_get_data_spec:
  assumes b: "ssh_buffer_inv b" and n: "len < 2 ^ 32"
  shows "\<exists>rc d b1. ssh_buffer_get_data b len = Some (rc, d, b1) \<and> ssh_buffer_inv b1
           \<and> (if len \<le> length (content b) then rc = len \<and> d = take len (content b) \<and> content b1 = drop len (content b)
              else rc = 0 \<and> d = [] \<and> b1 = b)"
proof (cases "len \<le> length (content b)")
  case True
  note i = ssh_buffer_invD [OF b]
  have "pos b + len \<le> length (bdata b)" and "pos b + len \<le> used b"
    using True i length_content [OF b] by simp_all
  then show ?thesis
    using True i ssh_buffer_validate_length_spec [OF b n]
    by (simp add: ssh_buffer_get_data_def ssh_buffer_inv_def) (simp add: content_def drop_take min_def add.commute)
qed (use b ssh_buffer_validate_length_spec [OF b n] in \<open>simp add: ssh_buffer_get_data_def\<close>)

lemma word_eqI_low: "word_of_nat (unat (b::u8) + 256 * x) = b"
proof -
  have "(256::u8) = 0" by simp
  then have "word_of_nat (256 * x) = (0::u8)" by (simp only: of_nat_mult of_nat_numeral mult_zero_left)
  then show ?thesis by (simp only: of_nat_add) simp
qed

lemma le_enc_dec: "le_enc (length bs) (le_dec bs) = bs"
proof (induction bs)
  case (Cons b bs)
  have "(unat b + 256 * le_dec bs) div 256 = le_dec bs" using unat_u8_lt [of b] by simp
  moreover have "word_of_nat (unat b + 256 * le_dec bs) = b" by (rule word_eqI_low)
  ultimately show ?case using Cons.IH by (simp only: list.size add_0_right add_Suc_right le_enc_Suc le_dec.simps)
qed simp

lemma ntohl_htonl: "n < 2 ^ 32 \<Longrightarrow> ntohl (htonl n) = n"
  using le_enc_dec [of "rev (le_enc 4 n)"] by (simp add: htonl_def le_dec_enc)

lemma htonl_bytes: "le_enc 4 (htonl n) = rev (le_enc 4 n)"
  using le_enc_dec [of "rev (le_enc 4 n)"] by (simp add: htonl_def)

text \<open>A string as the code makes them, its bytes, and what it looks like in a packet.\<close>

definition str_ok :: "ssh_string_struct \<Rightarrow> bool" where
  "str_ok s \<longleftrightarrow> (\<exists>n\<le>STRING_SIZE_MAX. str_size s = htonl n \<and> length (str_data s) = n + 1)"

definition text_of :: "ssh_string_struct \<Rightarrow> bytes" where
  "text_of s = take (ssh_string_len (Some s)) (str_data s)"

definition wire :: "bytes \<Rightarrow> bytes" where
  "wire d = rev (le_enc 4 (length d)) @ d"

lemma ssh_string_len_ok: "str_ok s \<Longrightarrow> str_size s = htonl (ssh_string_len (Some s))
    \<and> length (str_data s) = ssh_string_len (Some s) + 1 \<and> ssh_string_len (Some s) \<le> STRING_SIZE_MAX"
  by (auto simp: str_ok_def ssh_string_len_def Let_def ntohl_htonl)

lemma string_bytes:
  assumes s: "str_ok s"
  shows "mread (le_enc 4 (str_size s) @ str_data s) 0 (ssh_string_len (Some s) + 4) = Some (wire (text_of s))"
proof -
  have l: "length (text_of s) = ssh_string_len (Some s)" using ssh_string_len_ok [OF s] by (simp add: text_of_def)
  show ?thesis
    using ssh_string_len_ok [OF s] by (simp add: wire_def l htonl_bytes) (simp add: text_of_def)
qed

lemma length_wire [simp]: "length (wire d) = length d + 4"
  by (simp add: wire_def)

lemma ssh_buffer_add_ssh_string_spec:
  assumes b: "ssh_buffer_inv b" and s: "str_ok s"
  shows "\<exists>rc b1 m1. ssh_buffer_add_ssh_string m b (Some s) = Some (rc, b1, m1) \<and> ssh_buffer_inv b1
           \<and> (rc = 0 \<and> content b1 = content b @ wire (text_of s) \<or> rc = -1 \<and> content b1 = content b)"
proof -
  have "length (wire (text_of s)) < 2 ^ 32" using ssh_string_len_ok [OF s] by (simp add: text_of_def)
  then show ?thesis
    using ssh_buffer_add_data_spec [OF b, of "wire (text_of s)" m] string_bytes [OF s]
    by (auto simp: ssh_buffer_add_ssh_string_def)
qed

lemma ssh_string_new_spec:
  assumes "n \<le> STRING_SIZE_MAX" and "malloc m = (Some j, m1)"
  shows "\<exists>t. ssh_string_new m n = (Some t, m1) \<and> str_size t = htonl n \<and> length (str_data t) = n + 1"
  using assms by (simp add: ssh_string_new_def)

lemma ssh_buffer_get_ssh_string_spec:
  assumes b: "ssh_buffer_inv b" and c: "content b = wire d @ rest" and n: "length d \<le> STRING_SIZE_MAX"
    and m: "malloc m = (Some j, m1)"
  shows "\<exists>t b1. ssh_buffer_get_ssh_string m b = Some (Some t, b1, m1) \<and> ssh_buffer_inv b1 \<and> str_ok t \<and> text_of t = d
           \<and> content b1 = rest"
proof -
  obtain b1 where g: "ssh_buffer_get_data b 4 = Some (4, rev (le_enc 4 (length d)), b1)" and b1: "ssh_buffer_inv b1"
    and c1: "content b1 = d @ rest"
    using ssh_buffer_get_data_spec [OF b, of 4] c by (auto simp: wire_def)
  obtain b2 where g2: "ssh_buffer_get_data b1 (length d) = Some (length d, d, b2)" and b2: "ssh_buffer_inv b2"
    and c2: "content b2 = rest"
    using ssh_buffer_get_data_spec [OF b1, of "length d"] c1 n by auto
  have h: "ntohl (le_dec (rev (le_enc 4 (length d)))) = length d"
    using ntohl_htonl [of "length d"] n by (simp add: htonl_def)
  have v: "ssh_buffer_validate_length b1 (length d) = SSH_OK"
    using ssh_buffer_validate_length_spec [OF b1, of "length d"] c1 n by simp
  obtain t where t: "ssh_string_new m (length d) = (Some t, m1)" and ts: "str_size t = htonl (length d)"
    and tl: "length (str_data t) = length d + 1"
    using ssh_string_new_spec [OF n m] by blast
  let ?t = "t\<lparr>str_data := d @ drop (length d) (str_data t)\<rparr>"
  have k: "str_ok ?t" using ts tl n by (auto simp: str_ok_def)
  have "ssh_string_len (Some ?t) = length d" using ts n by (auto simp: ssh_string_len_def Let_def ntohl_htonl)
  then have "text_of ?t = d" by (simp add: text_of_def)
  moreover have "ssh_buffer_get_ssh_string m b = Some (Some ?t, b2, m1)"
    using tl by (simp add: ssh_buffer_get_ssh_string_def ssh_buffer_get_u32_def g h v t g2)
  ultimately show ?thesis using b2 k c2 by blast
qed

lemma ssh_buffer_prepend_data_spec:
  assumes b: "ssh_buffer_inv b" and n: "length bs < 2 ^ 32"
  shows "\<exists>rc b1 m1. ssh_buffer_prepend_data m b bs = Some (rc, b1, m1) \<and> ssh_buffer_inv b1 \<and> m1 \<in> {m, snd (malloc m)}
           \<and> (rc = 0 \<and> content b1 = bs @ content b
              \<or> rc = -1 \<and> content b1 = content b \<and> refused m (length (content b) + length bs))"
proof (cases "length bs \<le> pos b")
  case True
  note i = ssh_buffer_invD [OF b]
  have "take (used b) (take (pos b - length bs) (bdata b) @ bs @ drop (pos b) (bdata b))
      = take (pos b - length bs) (bdata b) @ bs @ take (used b - pos b) (drop (pos b) (bdata b))"
  proof -
    have "take (used b) (take (pos b - length bs) (bdata b)) = take (pos b - length bs) (bdata b)"
      using i by (simp add: min.absorb2)
    moreover have "length (take (pos b - length bs) (bdata b)) = pos b - length bs" using i by simp
    moreover have "take (used b - (pos b - length bs)) bs = bs" using True i by simp
    moreover have "used b - (pos b - length bs) - length bs = used b - pos b" using True by simp
    ultimately show ?thesis by (simp only: take_append)
  qed
  note e = this
  let ?b = "b\<lparr>bdata := take (pos b - length bs) (bdata b) @ bs @ drop (pos b) (bdata b), pos := pos b - length bs\<rparr>"
  have "content ?b = drop (pos b - length bs) (take (pos b - length bs) (bdata b) @ bs @ take (used b - pos b) (drop (pos b) (bdata b)))"
  proof -
    have f: "pos ?b = pos b - length bs" "used ?b = used b"
      "bdata ?b = take (pos b - length bs) (bdata b) @ bs @ drop (pos b) (bdata b)" by simp_all
    show ?thesis by (simp only: content_def f e)
  qed
  also have "\<dots> = bs @ content b" using i by (simp add: content_def drop_take)
  finally have "content ?b = bs @ content b" .
  moreover have "ssh_buffer_inv ?b" using i True by (auto simp: ssh_buffer_inv_def min_def)
  moreover have "ssh_buffer_prepend_data m b bs = Some (0, ?b, m)"
    using True i by (simp add: ssh_buffer_prepend_data_def Let_def)
  ultimately show ?thesis by blast
next
  case False
  note i = ssh_buffer_invD [OF b]
  have d: "diff64 (used b) (pos b) = used b - pos b" using i by (simp add: diff64_eq)
  let ?n = "used b - pos b + length bs"
  have w: "?n mod 2 ^ 64 = ?n" using i n by simp
  obtain rc b1 m1 where
    r: "(if allocated b < ?n then realloc_buffer m b ?n else Some (0, b, m)) = Some (rc, b1, m1)"
    and v: "ssh_buffer_inv b1" and u: "used b1 = used b" "pos b1 = pos b" and c: "content b1 = content b"
    and m1: "m1 \<in> {m, snd (malloc m)}" and k: "rc = 0 \<and> ?n \<le> allocated b1 \<or> rc = -1 \<and> refused m ?n"
  proof (cases "allocated b < ?n")
    case True
    then show thesis using realloc_buffer_spec [OF b, of ?n m] i that by auto
  qed (use b that in auto)
  have p: "ssh_buffer_prepend_data m b bs =
      (if rc < 0 then Some (-1, b1, m1)
       else do { mid \<leftarrow> mread (bdata b1) (pos b1) (used b - pos b); d \<leftarrow> mwrite (bdata b1) (length bs) mid; d' \<leftarrow> mwrite d 0 bs;
                 Some (0, b1\<lparr>bdata := d', used := (used b1 + (length bs - pos b1)) mod 2 ^ 64, pos := 0\<rparr>, m1) })"
    using False r by (simp only: ssh_buffer_prepend_data_def Let_def d w if_False bind.bind_lunit prod.case) simp
  show ?thesis
  proof (cases "rc = 0")
    case True
    note j = ssh_buffer_invD [OF v]
    have e: "(used b1 + (length bs - pos b1)) mod 2 ^ 64 = ?n" using j u n False by simp
    have c1: "take (used b - pos b) (drop (pos b) (bdata b1)) = content b" using c u by (simp add: content_def drop_take)
    have l: "length (content b) = used b - pos b" by (rule length_content [OF b])
    have a: "?n \<le> allocated b1" using k True by simp
    show ?thesis
      unfolding p e using j True a u l m1
      by (simp add: c1 ssh_buffer_inv_def add.commute mwrite_def) (simp add: content_def)
  qed (use k p v c m1 length_content [OF b] in auto)
qed

lemma ssh_buffer_pass_bytes_spec:
  assumes b: "ssh_buffer_inv b" and n: "len < 2 ^ 32"
  shows "\<exists>rc b1. ssh_buffer_pass_bytes b len = (rc, b1) \<and> ssh_buffer_inv b1
           \<and> (if len \<le> length (content b) then rc = len \<and> content b1 = drop len (content b) else rc = 0 \<and> b1 = b)"
proof -
  note i = ssh_buffer_invD [OF b]
  have w: "(pos b + len) mod 2 ^ 64 = pos b + len" using i n by simp
  show ?thesis
    unfolding ssh_buffer_pass_bytes_def w Let_def length_content [OF b] using i b
    by (auto simp: ssh_buffer_inv_def content_def drop_take add.commute)
qed

lemma ssh_buffer_pass_bytes_end_spec:
  assumes b: "ssh_buffer_inv b" and n: "pos b + len \<le> used b"
  shows "ssh_buffer_pass_bytes_end b len = (len, b\<lparr>used := used b - len\<rparr>) \<and> ssh_buffer_inv (b\<lparr>used := used b - len\<rparr>)
    \<and> content (b\<lparr>used := used b - len\<rparr>) = take (length (content b) - len) (content b)"
proof -
  note i = ssh_buffer_invD [OF b]
  have "take (used b - len) (bdata b) = take (used b - len) (take (used b) (bdata b))" by (simp add: min_def)
  then show ?thesis
    using i n length_content [OF b]
    by (auto simp: ssh_buffer_pass_bytes_end_def ssh_buffer_inv_def content_def drop_take min_def add.commute)
qed

lemma ssh_buffer_allocate_size_spec:
  assumes b: "ssh_buffer_inv b"
  shows "\<exists>rc b1 m1. ssh_buffer_allocate_size m b len = Some (rc, b1, m1) \<and> ssh_buffer_inv b1 \<and> content b1 = content b
           \<and> m1 \<in> {m, snd (malloc m)} \<and> (rc = 0 \<and> len \<le> allocated b1 \<or> rc = -1 \<and> refused m len)"
proof (cases "allocated b < len")
  case True
  obtain b0 where s: "(if pos b > 0 then buffer_shift b else Some b) = Some b0" and v: "ssh_buffer_inv b0"
    and c: "content b0 = content b" and u: "used b0 \<le> used b" using buffer_shift_spec [OF b] b by (cases "pos b > 0") auto
  have "used b0 \<le> len" using u True ssh_buffer_invD [OF b] by simp
  then show ?thesis
    using realloc_buffer_spec [OF v, of len m] True c unfolding ssh_buffer_allocate_size_def s by auto
qed (use b in \<open>simp add: ssh_buffer_allocate_size_def\<close>)

lemma ssh_buffer_reinit_spec:
  assumes b: "ssh_buffer_inv b"
  shows "\<exists>rc b1 m1. ssh_buffer_reinit m b = Some (rc, b1, m1) \<and> ssh_buffer_inv b1 \<and> content b1 = []
           \<and> m1 \<in> {m, snd (malloc m)} \<and> (rc = 0 \<or> rc = -1 \<and> fst (malloc m) = None)"
proof -
  note i = ssh_buffer_invD [OF b]
  obtain d where d: "(if secure b \<and> allocated b > 0 then mwrite (bdata b) 0 (replicate (allocated b) 0) else Some (bdata b)) = Some d"
    and l: "length d = allocated b" using i by (cases "secure b \<and> allocated b > 0") auto
  let ?b = "b\<lparr>bdata := d, used := 0, pos := 0\<rparr>"
  have v: "ssh_buffer_inv ?b" using i l by (simp add: ssh_buffer_inv_def)
  show ?thesis
    using realloc_buffer_spec [OF v, of "65536 - 1" m] v
    unfolding ssh_buffer_reinit_def d by (auto simp: content_def Let_def refused_def)
qed

lemma ssh_buffer_new_spec:
  "\<exists>r m1. ssh_buffer_new m = Some (r, m1) \<and> (\<forall>b. r = Some b \<longrightarrow> ssh_buffer_inv b \<and> content b = [])"
proof -
  have v: "ssh_buffer_inv \<lparr>secure = False, used = 0, allocated = 0, pos = 0, bdata = []\<rparr>" by (simp add: ssh_buffer_inv_def)
  show ?thesis
    using ssh_buffer_allocate_size_spec [OF v, of "snd (malloc m)" "64 - 1"]
    by (auto simp: ssh_buffer_new_def content_def split: prod.splits option.splits)
qed

section \<open>A queue of bytes\<close>

text \<open>
  The calls of a buffer, each with its return value and the bytes it gave out, and what they do to a queue of
  bytes. Cutting the end does not respect the position (see below), so a cut may only take unread bytes.
\<close>

datatype buf_op = Op_add bytes | Op_prepend bytes | Op_get nat | Op_pass nat | Op_cut nat | Op_room nat | Op_reinit | Op_secure

fun buf_run :: "mem \<Rightarrow> ssh_buffer \<Rightarrow> buf_op \<Rightarrow> ((int \<times> bytes) \<times> ssh_buffer \<times> mem) option" where
  "buf_run m b (Op_add bs) = do { (rc, b1, m1) \<leftarrow> ssh_buffer_add_data m b (Some bs); Some ((rc, []), b1, m1) }"
| "buf_run m b (Op_prepend bs) = do { (rc, b1, m1) \<leftarrow> ssh_buffer_prepend_data m b bs; Some ((rc, []), b1, m1) }"
| "buf_run m b (Op_get n) = do { (rc, d, b1) \<leftarrow> ssh_buffer_get_data b n; Some ((int rc, d), b1, m) }"
| "buf_run m b (Op_pass n) = (case ssh_buffer_pass_bytes b n of (rc, b1) \<Rightarrow> Some ((int rc, []), b1, m))"
| "buf_run m b (Op_cut n) = (case ssh_buffer_pass_bytes_end b n of (rc, b1) \<Rightarrow> Some ((int rc, []), b1, m))"
| "buf_run m b (Op_room n) = do { (rc, b1, m1) \<leftarrow> ssh_buffer_allocate_size m b n; Some ((rc, []), b1, m1) }"
| "buf_run m b Op_reinit = do { (rc, b1, m1) \<leftarrow> ssh_buffer_reinit m b; Some ((rc, []), b1, m1) }"
| "buf_run m b Op_secure = Some ((0, []), ssh_buffer_set_secure b, m)"

fun buf_runs :: "mem \<Rightarrow> ssh_buffer \<Rightarrow> buf_op list \<Rightarrow> ((int \<times> bytes) list \<times> ssh_buffer \<times> mem) option" where
  "buf_runs m b [] = Some ([], b, m)"
| "buf_runs m b (x # xs) =
     do { (r, b1, m1) \<leftarrow> buf_run m b x; (rs, b2, m2) \<leftarrow> buf_runs m1 b1 xs; Some (r # rs, b2, m2) }"

text \<open>Lengths are \<open>uint32_t\<close>.\<close>

fun op_ok :: "ssh_buffer \<Rightarrow> buf_op \<Rightarrow> bool" where
  "op_ok b (Op_add bs) = (length bs < 2 ^ 32)"
| "op_ok b (Op_prepend bs) = (length bs < 2 ^ 32)"
| "op_ok b (Op_get n) = (n < 2 ^ 32)"
| "op_ok b (Op_pass n) = (n < 2 ^ 32)"
| "op_ok b (Op_cut n) = (pos b + n \<le> used b)"
| "op_ok b (Op_room n) = (n < 2 ^ 32)"
| "op_ok b _ = True"

fun ops_ok :: "mem \<Rightarrow> ssh_buffer \<Rightarrow> buf_op list \<Rightarrow> bool" where
  "ops_ok m b [] = True"
| "ops_ok m b (x # xs) = (op_ok b x \<and> (case buf_run m b x of None \<Rightarrow> True | Some (r, b1, m1) \<Rightarrow> ops_ok m1 b1 xs))"

text \<open>
  What a queue answers, and the memory it leaves: a call allocates at most once. Adding, making room and
  starting anew are refused (-1) only when the queue would get too long or the allocation fails, and then
  no byte is lost or added.
\<close>

fun queue_step :: "mem \<Rightarrow> bytes \<Rightarrow> buf_op \<Rightarrow> int \<times> bytes \<Rightarrow> bytes \<Rightarrow> bool" where
  "queue_step m q (Op_add bs) r q1 \<longleftrightarrow>
     r = (0, []) \<and> q1 = q @ bs \<or> r = (-1, []) \<and> q1 = q \<and> refused m (length q + length bs)"
| "queue_step m q (Op_prepend bs) r q1 \<longleftrightarrow>
     r = (0, []) \<and> q1 = bs @ q \<or> r = (-1, []) \<and> q1 = q \<and> refused m (length q + length bs)"
| "queue_step m q (Op_get n) r q1 \<longleftrightarrow>
     (if n \<le> length q then r = (int n, take n q) \<and> q1 = drop n q else r = (0, []) \<and> q1 = q)"
| "queue_step m q (Op_pass n) r q1 \<longleftrightarrow>
     (if n \<le> length q then r = (int n, []) \<and> q1 = drop n q else r = (0, []) \<and> q1 = q)"
| "queue_step m q (Op_cut n) r q1 \<longleftrightarrow> n \<le> length q \<and> r = (int n, []) \<and> q1 = take (length q - n) q"
| "queue_step m q (Op_room n) r q1 \<longleftrightarrow> (r = (0, []) \<or> r = (-1, []) \<and> refused m n) \<and> q1 = q"
| "queue_step m q Op_reinit r q1 \<longleftrightarrow> (r = (0, []) \<or> r = (-1, []) \<and> fst (malloc m) = None) \<and> q1 = []"
| "queue_step m q Op_secure r q1 \<longleftrightarrow> r = (0, []) \<and> q1 = q"

fun queue_steps :: "mem \<Rightarrow> bytes \<Rightarrow> buf_op list \<Rightarrow> (int \<times> bytes) list \<Rightarrow> bytes \<Rightarrow> bool" where
  "queue_steps m q [] rs q1 \<longleftrightarrow> rs = [] \<and> q1 = q"
| "queue_steps m q (x # xs) [] q1 \<longleftrightarrow> False"
| "queue_steps m q (x # xs) (r # rs) q1 \<longleftrightarrow>
     (\<exists>q0. \<exists>m0\<in>{m, snd (malloc m)}. queue_step m q x r q0 \<and> queue_steps m0 q0 xs rs q1)"

lemma ssh_buffer_set_secure_spec:
  "ssh_buffer_inv b \<Longrightarrow> ssh_buffer_inv (ssh_buffer_set_secure b) \<and> content (ssh_buffer_set_secure b) = content b"
  by (simp add: ssh_buffer_set_secure_def ssh_buffer_inv_def content_def)

lemma buf_run_queue:
  assumes b: "ssh_buffer_inv b" and x: "op_ok b x"
  shows "\<exists>r b1 m1. buf_run m b x = Some (r, b1, m1) \<and> ssh_buffer_inv b1 \<and> m1 \<in> {m, snd (malloc m)}
           \<and> queue_step m (content b) x r (content b1)"
proof (cases x)
  case (Op_add bs)
  then show ?thesis using ssh_buffer_add_data_spec [OF b, of bs m] x by auto
next
  case (Op_prepend bs)
  then show ?thesis using ssh_buffer_prepend_data_spec [OF b, of bs m] x by auto
next
  case (Op_get n)
  then show ?thesis using ssh_buffer_get_data_spec [OF b, of n] x by (auto split: if_splits)
next
  case (Op_pass n)
  then show ?thesis using ssh_buffer_pass_bytes_spec [OF b, of n] x by (auto split: if_splits)
next
  case (Op_cut n)
  then show ?thesis using ssh_buffer_pass_bytes_end_spec [OF b, of n] length_content [OF b] x by auto
next
  case (Op_room n)
  then show ?thesis using ssh_buffer_allocate_size_spec [OF b, of m n] by auto
next
  case Op_reinit
  then show ?thesis using ssh_buffer_reinit_spec [OF b, of m] by auto
qed (use ssh_buffer_set_secure_spec [OF b] in simp)

lemma buf_runs_queue:
  "ssh_buffer_inv b \<Longrightarrow> ops_ok m b xs \<Longrightarrow>
     \<exists>rs b1 m1. buf_runs m b xs = Some (rs, b1, m1) \<and> ssh_buffer_inv b1 \<and> queue_steps m (content b) xs rs (content b1)"
proof (induction xs arbitrary: m b)
  case (Cons x xs)
  obtain r b0 m0 where r: "buf_run m b x = Some (r, b0, m0)" and v: "ssh_buffer_inv b0" and m0: "m0 \<in> {m, snd (malloc m)}"
    and q: "queue_step m (content b) x r (content b0)"
    using buf_run_queue [OF Cons.prems(1), of x m] Cons.prems(2) by auto
  have "ops_ok m0 b0 xs" using Cons.prems(2) r by simp
  from Cons.IH [OF v this] obtain rs b1 m1 where
    i: "buf_runs m0 b0 xs = Some (rs, b1, m1)" "ssh_buffer_inv b1" "queue_steps m0 (content b0) xs rs (content b1)" by blast
  have "queue_steps m (content b) (x # xs) (r # rs) (content b1)" using q i(3) m0 by auto
  then show ?case using r i(1,2) by auto
qed simp

text \<open>
  C10. A packet buffer is a queue of bytes: whatever calls are made on it, in whatever order and with whatever
  allocations failing, as long as a cut at the end takes unread bytes only, none reads or writes outside the
  buffer's block, each returns, and the answers are those of a queue that data is appended to, prepended to and
  taken from at both ends. A call is refused only when its allocation fails or the queue would reach 256 MiB. The
  initial buffer is an empty queue.
\<close>

theorem ssh_buffer_refines_queue:
  assumes "ssh_buffer_new m = Some (Some b, m1)" and "ops_ok m1 b xs"
  shows "\<exists>rs b1 m2. buf_runs m1 b xs = Some (rs, b1, m2) \<and> ssh_buffer_inv b1 \<and> queue_steps m1 [] xs rs (content b1)"
proof -
  have "ssh_buffer_inv b" and "content b = []" using ssh_buffer_new_spec [of m] assms(1) by auto
  then show ?thesis using buf_runs_queue [OF _ assms(2)] by simp
qed

theorem ssh_buffer_refines_queue_witness:
  "\<exists>b. ssh_buffer_new [] = Some (Some b, []) \<and>
     (\<exists>rs b1 m2. buf_runs [] b [Op_add [1, 2, 3], Op_cut 1, Op_prepend [7]] = Some (rs, b1, m2)
        \<and> rs = [(0, []), (1, []), (0, [])] \<and> content b1 = [7, 1, 2])"
proof -
  let ?xs = "[Op_add [1, 2, 3], Op_cut 1, Op_prepend [7]]"
  have "grow_size 0 63 = Some 64" by (simp add: grow_size.simps)
  then have "\<exists>b. ssh_buffer_new [] = Some (Some b, [])"
    by (simp add: ssh_buffer_new_def ssh_buffer_allocate_size_def realloc_buffer_def)
  then obtain b where b: "ssh_buffer_new [] = Some (Some b, [])" by blast
  have i: "ssh_buffer_inv b" "content b = []" using ssh_buffer_new_spec [of "[]"] b by auto
  obtain rc b1 m1 where a: "ssh_buffer_add_data [] b (Some [1, 2, 3]) = Some (rc, b1, m1)" "ssh_buffer_inv b1" "content b1 = [1, 2, 3]"
    using ssh_buffer_add_data_spec [OF i(1), of "[1, 2, 3]" "[]"] i(2) by (auto simp: refused_def)
  have "pos b1 + 1 \<le> used b1" using length_content [OF a(2)] a(3) by simp
  then have "ops_ok [] b ?xs" by (simp add: a(1) split: option.split prod.split)
  from ssh_buffer_refines_queue [OF b this] obtain rs b2 m2 where
    r: "buf_runs [] b ?xs = Some (rs, b2, m2)" and q: "queue_steps [] [] ?xs rs (content b2)" by blast
  have "rs = [(0, []), (1, []), (0, [])] \<and> content b2 = [7, 1, 2]"
    using q by (cases rs; cases "tl rs"; cases "tl (tl rs)") (auto simp: refused_def)
  then show ?thesis using b r by blast
qed

section \<open>Strings sent through a buffer\<close>

fun get_strings :: "nat \<Rightarrow> mem \<Rightarrow> ssh_buffer \<Rightarrow> (ssh_string_struct option list \<times> ssh_buffer \<times> mem) option" where
  "get_strings 0 m b = Some ([], b, m)"
| "get_strings (Suc n) m b =
     do { (s, b1, m1) \<leftarrow> ssh_buffer_get_ssh_string m b; (ss, b2, m2) \<leftarrow> get_strings n m1 b1; Some (s # ss, b2, m2) }"

fun add_strings :: "mem \<Rightarrow> ssh_buffer \<Rightarrow> ssh_string_struct list \<Rightarrow> (int list \<times> ssh_buffer \<times> mem) option" where
  "add_strings m b [] = Some ([], b, m)"
| "add_strings m b (s # ss) =
     do { (rc, b1, m1) \<leftarrow> ssh_buffer_add_ssh_string m b (Some s); (rcs, b2, m2) \<leftarrow> add_strings m1 b1 ss; Some (rc # rcs, b2, m2) }"

lemma add_strings_content:
  "ssh_buffer_inv b \<Longrightarrow> list_all str_ok ss \<Longrightarrow>
     \<exists>rcs b1 m1. add_strings m b ss = Some (rcs, b1, m1) \<and> ssh_buffer_inv b1 \<and>
       (list_all (\<lambda>rc. rc = 0) rcs \<longrightarrow> content b1 = content b @ concat (map (wire \<circ> text_of) ss))"
proof (induction ss arbitrary: m b)
  case (Cons s ss)
  obtain rc b0 m0 where r: "ssh_buffer_add_ssh_string m b (Some s) = Some (rc, b0, m0)" and v: "ssh_buffer_inv b0"
    and c: "rc = 0 \<and> content b0 = content b @ wire (text_of s) \<or> rc = -1 \<and> content b0 = content b"
    using ssh_buffer_add_ssh_string_spec [OF Cons.prems(1), of s m] Cons.prems(2) by auto
  then show ?case using Cons.IH [OF v, of m0] Cons.prems(2) by auto
qed simp

lemma get_strings_content:
  "ssh_buffer_inv b \<Longrightarrow> content b = concat (map wire ds) @ rest \<Longrightarrow> list_all (\<lambda>d. length d \<le> STRING_SIZE_MAX) ds \<Longrightarrow>
     list_all (\<lambda>a. a \<noteq> None) m \<Longrightarrow>
     \<exists>ts b1 m1. get_strings (length ds) m b = Some (map Some ts, b1, m1) \<and> list_all str_ok ts \<and> map text_of ts = ds
       \<and> content b1 = rest"
proof (induction ds arbitrary: m b)
  case (Cons d ds)
  obtain j m0 where m: "malloc m = (Some j, m0)" and l: "list_all (\<lambda>a. a \<noteq> None) m0"
    using Cons.prems(4) by (cases m) auto
  obtain t b0 where g: "ssh_buffer_get_ssh_string m b = Some (Some t, b0, m0)" and v: "ssh_buffer_inv b0"
    and t: "str_ok t" "text_of t = d" and c: "content b0 = concat (map wire ds) @ rest"
    using ssh_buffer_get_ssh_string_spec [OF Cons.prems(1) _ _ m, of d "concat (map wire ds) @ rest"] Cons.prems by auto
  obtain ts b1 m1 where r: "get_strings (length ds) m0 b0 = Some (map Some ts, b1, m1)" and k: "list_all str_ok ts"
    "map text_of ts = ds" "content b1 = rest"
    using Cons.IH [OF v c _ l] Cons.prems(3) by auto
  show ?case by (rule exI [of _ "t # ts"]) (use g r t k in simp)
qed simp

text \<open>
  C13. Strings put into an empty buffer come out in the same order with the same bytes, empty ones included, and
  the buffer is empty again.
\<close>

theorem ssh_strings_in_order:
  assumes "ssh_buffer_inv b" and "content b = []" and ss: "list_all str_ok ss"
    and add: "add_strings m b ss = Some (rcs, b1, m1)" and "list_all (\<lambda>rc. rc = 0) rcs" and "list_all (\<lambda>a. a \<noteq> None) m1"
  shows "\<exists>ts b2 m2. get_strings (length ss) m1 b1 = Some (map Some ts, b2, m2) \<and> map text_of ts = map text_of ss
           \<and> content b2 = []"
proof -
  have "content b1 = concat (map wire (map text_of ss)) @ []" and v: "ssh_buffer_inv b1"
    using add_strings_content [OF assms(1) ss, of m] assms by auto
  moreover have "list_all (\<lambda>d. length d \<le> STRING_SIZE_MAX) (map text_of ss)"
    using ss ssh_string_len_ok by (auto simp: list_all_iff text_of_def)
  ultimately show ?thesis using get_strings_content [OF v, of "map text_of ss" "[]" m1] assms(6) by auto
qed

theorem ssh_strings_in_order_witness:
  "\<exists>ts b1 b2 m1 m2. add_strings [] \<lparr>secure = False, used = 0, allocated = 64, pos = 0, bdata = replicate 64 0\<rparr>
       [\<lparr>str_size = htonl 2, str_data = [104, 105, 0]\<rparr>, \<lparr>str_size = htonl 0, str_data = [0]\<rparr>] = Some ([0, 0], b1, m1) \<and>
     get_strings 2 m1 b1 = Some (map Some ts, b2, m2) \<and> map text_of ts = [[104, 105], []] \<and> content b2 = []"
proof -
  let ?b = "\<lparr>secure = False, used = 0, allocated = 64, pos = 0, bdata = replicate 64 0\<rparr>"
  let ?ss = "[\<lparr>str_size = htonl 2, str_data = [104, 105, 0]\<rparr>, \<lparr>str_size = htonl 0, str_data = [0]\<rparr>]"
  have b: "ssh_buffer_inv ?b" "content ?b = []" by (simp_all add: ssh_buffer_inv_def content_def)
  have "str_ok \<lparr>str_size = htonl 2, str_data = [104, 105, 0]\<rparr>" unfolding str_ok_def by (rule exI [of _ 2]) simp
  moreover have "str_ok \<lparr>str_size = htonl 0, str_data = [0]\<rparr>" unfolding str_ok_def by (rule exI [of _ 0]) simp
  ultimately have s: "list_all str_ok ?ss" by simp
  have t: "map text_of ?ss = [[104, 105], []]" by (simp add: text_of_def ssh_string_len_def Let_def ntohl_htonl)
  obtain b1 where a: "add_strings [] ?b ?ss = Some ([0, 0], b1, [])"
    by (simp add: ssh_buffer_add_ssh_string_def ssh_string_len_def Let_def ntohl_htonl ssh_buffer_add_data_def make_room_def)
  have z: "list_all (\<lambda>rc. rc = 0) [0, 0 :: int]" "list_all (\<lambda>a. a \<noteq> None) ([] :: mem)" and n: "length ?ss = 2" by simp_all
  obtain ts b2 m2 where g: "get_strings 2 [] b1 = Some (map Some ts, b2, m2)" "map text_of ts = [[104, 105], []]" "content b2 = []"
    using ssh_strings_in_order [OF b s a z] unfolding t n by (elim exE conjE) (rule that)
  show ?thesis by (intro exI conjI) (rule a g)+
qed

section \<open>Cutting the end\<close>

text \<open>
  C40. \<open>ssh_buffer_pass_bytes_end\<close> compares the length with \<open>used\<close> alone: asked to cut more than is left unread, it
  reports success and leaves the end before the position. The length of the buffer then wraps to almost \<open>2 ^ 32\<close>,
  and the next call that moves or copies the data leaves the block.
\<close>

theorem ssh_buffer_pass_bytes_end_wraps:
  assumes b: "ssh_buffer_inv b" and l: "length (content b) < len" "len \<le> used b"
  shows "\<exists>b1. ssh_buffer_pass_bytes_end b len = (len, b1) \<and> ssh_buffer_get_len b1 = 2 ^ 32 - (len - length (content b))
           \<and> ssh_buffer_add_buffer m c b1 = None \<and> buffer_shift b1 = None"
proof -
  note i = ssh_buffer_invD [OF b]
  let ?b = "b\<lparr>used := used b - len\<rparr>" and ?k = "len - length (content b)"
  have c: "length (content b) = used b - pos b" by (rule length_content [OF b])
  have k: "0 < ?k" "?k \<le> BUFFER_SIZE_MAX" using l i by simp_all
  have "int (used b - len) - int (pos b) = - int ?k" using l i c by (simp add: of_nat_diff)
  moreover have "(- int ?k) mod 2 ^ 64 = 2 ^ 64 - int ?k"
  proof -
    have "(2 ^ 64 - int ?k) mod 2 ^ 64 = 2 ^ 64 - int ?k" by (rule mod_pos_pos_trivial) (use k in simp_all)
    then show ?thesis by (simp only: minus_mod_self1)
  qed
  ultimately have d: "diff64 (used b - len) (pos b) = 2 ^ 64 - ?k" using k by (simp add: diff64_def nat_diff_distrib)
  have "2 ^ 64 - ?k = (2 ^ 32 - ?k) + (2 ^ 32 - 1) * 2 ^ 32" using k by simp
  then have "(2 ^ 64 - ?k) mod 2 ^ 32 = (2 ^ 32 - ?k) mod 2 ^ 32" by (simp only: mod_mult_self1)
  also have "\<dots> = 2 ^ 32 - ?k" by (rule mod_less) (use k in simp)
  finally have w: "(2 ^ 64 - ?k) mod 2 ^ 32 = 2 ^ 32 - ?k" .
  have f: "used ?b = used b - len" "pos ?b = pos b" by simp_all
  have g: "ssh_buffer_get_len ?b = 2 ^ 32 - ?k" by (simp only: ssh_buffer_get_len_def f d w)
  have "pos b \<noteq> 0" using l c by auto
  then show ?thesis
    using l i k by (auto simp: ssh_buffer_pass_bytes_end_def g ssh_buffer_add_buffer_def buffer_shift_def d mread_def Let_def)
qed

theorem ssh_buffer_pass_bytes_end_wraps_witness:
  "\<exists>b1. ssh_buffer_pass_bytes_end \<lparr>secure = False, used = 4, allocated = 4, pos = 3, bdata = [1, 2, 3, 4]\<rparr> 2 = (2, b1)
     \<and> ssh_buffer_get_len b1 = 2 ^ 32 - 1"
  using ssh_buffer_pass_bytes_end_wraps
    [of "\<lparr>secure = False, used = 4, allocated = 4, pos = 3, bdata = [1, 2, 3, 4]\<rparr>" 2 "[]" undefined]
  by (auto simp: ssh_buffer_inv_def content_def)

end
